(* ===== verification/Prelude.thy ===== *)
theory Prelude
  imports Main "HOL-Library.Word" "HOL-Library.AList"
begin

text \<open>
  Shared vocabulary of the development: machine integers, the outcome type of fallible
  code, byte buffers, and the integer-keyed map.

  Integers. \<open>u8\<close>, \<open>u32\<close> and \<open>u64\<close> are words: arithmetic wraps around, as it does in a
  release build of the crate (\<^verbatim>\<open>Cargo.toml\<close> overrides no profile). \<open>usize\<close> values
  (lengths and indices of vectors and slices) are \<open>nat\<close>.

  Outcomes. A Rust \<open>Result\<close> is \<open>Ok\<close> or \<open>Err\<close>; the third outcome, \<open>Panic\<close>, is where
  the code calls \<open>panic!\<close>, \<open>unwrap\<close> or \<open>expect\<close> on a missing value, or indexes a slice
  out of bounds.  A loop whose end depends on values outside the model runs on fuel; the
  fourth outcome, \<open>Diverge\<close>, is that the fuel did not suffice.  \<open>bindR\<close> is the \<open>?\<close> operator.

  Maps. \<open>intmap::IntMap\<close> is an association list whose keys are distinct; the order of the
  list is the (unspecified) iteration order of the hash map, and no theorem depends on it.
\<close>

unbundle bit_operations_syntax

section \<open>Theorem collections\<close>

named_theorems res_simps \<open>evaluation of outcomes\<close>
named_theorems buf_simps \<open>buffers: slices, writes and their lengths\<close>
named_theorems word_nat \<open>reading machine words as natural numbers\<close>

section \<open>Machine integers\<close>

type_synonym u8 = "8 word"
type_synonym u32 = "32 word"
type_synonym u64 = "64 word"
type_synonym bytes = "u8 list"

lemma unat_add_small [word_nat]:
  fixes a b :: "'a::len word"
  assumes "unat a + unat b < 2 ^ LENGTH('a)"
  shows "unat (a + b) = unat a + unat b"
  using assms by (simp add: unat_word_ariths)

lemma unat_mult_small [word_nat]:
  fixes a b :: "'a::len word"
  assumes "unat a * unat b < 2 ^ LENGTH('a)"
  shows "unat (a * b) = unat a * unat b"
  using assms by (simp add: unat_word_ariths)

lemma unat_sub_small [word_nat]:
  fixes a b :: "'a::len word"
  assumes "unat b \<le> unat a"
  shows "unat (a - b) = unat a - unat b"
  using assms by (simp add: unat_sub word_le_nat_alt)

lemma unat_of_nat_small [word_nat]:
  assumes "n < 2 ^ LENGTH('a)"
  shows "unat (of_nat n :: 'a::len word) = n"
  using assms by (simp add: unat_of_nat take_bit_nat_eq_self)

lemma unat_and_mask [word_nat]:
  fixes w :: "'a::len word"
  assumes "n < LENGTH('a)"
  shows "unat (w AND (2 ^ n - 1)) = unat w mod 2 ^ n"
proof -
  have "w AND (2 ^ n - 1) = take_bit n w"
    by (simp add: take_bit_eq_mask mask_eq_exp_minus_1)
  moreover have "unat (take_bit n w) = take_bit n (unat w)"
    by (rule unsigned_take_bit_eq)
  ultimately show ?thesis
    by (simp only: take_bit_eq_mod)
qed

lemma word_eq_iff_unat: "(a :: 'a::len word) = b \<longleftrightarrow> unat a = unat b"
  by (simp add: word_unat_eq_iff)

lemma uint_as_int: "uint (a :: 'a::len word) = int (unat a)"
  by simp

lemma u64_bound: "unat (a :: u64) < 18446744073709551616"
proof -
  have "unat a < 2 ^ LENGTH(64)" by (rule unsigned_less)
  then show ?thesis by simp
qed

text \<open>The development reads words as natural numbers throughout.\<close>

declare of_nat_unat [simp del]

lemma of_nat_unat_same [simp]: "of_nat (unat (w :: 'a::len word)) = w"
  by (simp add: of_nat_unat)

section \<open>Errors\<close>

text \<open>\<^verbatim>\<open>src/src/common/store.rs\<close> and \<^verbatim>\<open>src/src/common/error.rs\<close>. The human-readable
  \<open>context\<close> strings of the errors are left out.\<close>

datatype store = Tree | Data | Bitfield | Oplog

datatype hypercore_error =
    BadArgument
  | NotWritable
  | InvalidSignature
  | InvalidChecksum
  | EmptyStorage store
  | CorruptStorage store
  | InvalidOperation
  | IO

section \<open>Outcomes\<close>

datatype ('a, 'e) result = Ok 'a | Err 'e | Panic | Diverge

type_synonym 'a hres = "('a, hypercore_error) result"

fun bindR :: "('a, 'e) result \<Rightarrow> ('a \<Rightarrow> ('b, 'e) result) \<Rightarrow> ('b, 'e) result" where
  "bindR (Ok x) f = f x"
| "bindR (Err e) f = Err e"
| "bindR Panic f = Panic"
| "bindR Diverge f = Diverge"

fun map_err :: "('e \<Rightarrow> 'f) \<Rightarrow> ('a, 'e) result \<Rightarrow> ('a, 'f) result" where
  "map_err g (Ok x) = Ok x"
| "map_err g (Err e) = Err (g e)"
| "map_err g Panic = Panic"
| "map_err g Diverge = Diverge"

text \<open>\<open>Option::expect\<close> and \<open>Option::unwrap\<close>.\<close>

fun expect :: "'a option \<Rightarrow> ('a, 'e) result" where
  "expect (Some x) = Ok x"
| "expect None = Panic"

text \<open>Slice indexing \<open>xs[i]\<close> and indexed assignment \<open>xs[i] = v\<close>.\<close>

definition index_at :: "'a list \<Rightarrow> nat \<Rightarrow> ('a, 'e) result" where
  "index_at xs i = (if i < length xs then Ok (xs ! i) else Panic)"

definition assign_at :: "'a list \<Rightarrow> nat \<Rightarrow> 'a \<Rightarrow> ('a list, 'e) result" where
  "assign_at xs i v = (if i < length xs then Ok (xs[i := v]) else Panic)"

lemma bindR_assoc: "bindR (bindR m f) g = bindR m (\<lambda>x. bindR (f x) g)"
  by (cases m) auto

lemma bindR_eq_Ok: "bindR m f = Ok y \<longleftrightarrow> (\<exists>x. m = Ok x \<and> f x = Ok y)"
  by (cases m) auto

lemma bindR_Ok_right [simp]: "bindR m Ok = m"
  by (cases m) auto

lemma bindR_cong [fundef_cong]:
  "m = m' \<Longrightarrow> (\<And>x. m' = Ok x \<Longrightarrow> f x = g x) \<Longrightarrow> bindR m f = bindR m' g"
  by (cases m') auto

lemma map_err_eq_Ok: "map_err g m = Ok y \<longleftrightarrow> m = Ok y"
  by (cases m) auto

lemma index_at_ok [res_simps]: "i < length xs \<Longrightarrow> index_at xs i = Ok (xs ! i)"
  by (simp add: index_at_def)

lemma index_at_panic [res_simps]: "length xs \<le> i \<Longrightarrow> index_at xs i = Panic"
  by (simp add: index_at_def)

lemma assign_at_ok [res_simps]: "i < length xs \<Longrightarrow> assign_at xs i v = Ok (xs[i := v])"
  by (simp add: assign_at_def)

text \<open>\<open>Iterator::find\<close> over a predicate that may panic.\<close>

fun find_first :: "('a \<Rightarrow> (bool, 'e) result) \<Rightarrow> 'a list \<Rightarrow> ('a option, 'e) result" where
  "find_first p [] = Ok None"
| "find_first p (x # xs) = bindR (p x) (\<lambda>b. if b then Ok (Some x) else find_first p xs)"

lemma find_first_pure:
  assumes "\<And>x. x \<in> set xs \<Longrightarrow> p x = Ok (q x)"
  shows "find_first p xs = Ok (List.find q xs)"
  using assms by (induction xs) auto

lemma find_upt_Some:
  "List.find q [a..<b] = Some k \<longleftrightarrow> a \<le> k \<and> k < b \<and> q k \<and> (\<forall>j. a \<le> j \<and> j < k \<longrightarrow> \<not> q j)"
proof
  assume "List.find q [a..<b] = Some k"
  then obtain i where "i < b - a" "q (a + i)" "k = a + i" "\<forall>j<i. \<not> q (a + j)"
    by (auto simp: find_Some_iff)
  moreover have "\<not> q j" if "a \<le> j" "j < k" for j
    using calculation that by (metis add_less_cancel_left le_Suc_ex)
  ultimately show "a \<le> k \<and> k < b \<and> q k \<and> (\<forall>j. a \<le> j \<and> j < k \<longrightarrow> \<not> q j)"
    by auto
next
  assume "a \<le> k \<and> k < b \<and> q k \<and> (\<forall>j. a \<le> j \<and> j < k \<longrightarrow> \<not> q j)"
  then show "List.find q [a..<b] = Some k"
    unfolding find_Some_iff by (intro exI [of _ "k - a"]) auto
qed

lemma find_rev_upt_Some:
  "List.find q (rev [0..<n]) = Some k \<longleftrightarrow> k < n \<and> q k \<and> (\<forall>j. k < j \<and> j < n \<longrightarrow> \<not> q j)"
proof (induction n)
  case 0
  then show ?case by simp
next
  case (Suc n)
  then show ?case
    by (cases "q n") (auto simp: less_Suc_eq)
qed

lemma find_map_eq: "List.find q (map f xs) = map_option f (List.find (\<lambda>x. q (f x)) xs)"
  by (induction xs) auto

lemma find_cong': "(\<And>x. x \<in> set xs \<Longrightarrow> p x = q x) \<Longrightarrow> List.find p xs = List.find q xs"
  by (induction xs) auto

section \<open>Byte buffers\<close>

text \<open>\<open>slice buf p n\<close> are the \<open>n\<close> bytes from position \<open>p\<close>; \<open>put buf p xs\<close> overwrites
  the bytes from \<open>p\<close> on with \<open>xs\<close>; \<open>holds_at buf p xs\<close> says that \<open>xs\<close> is found there.\<close>

definition slice :: "'a list \<Rightarrow> nat \<Rightarrow> nat \<Rightarrow> 'a list" where
  "slice buf p n = take n (drop p buf)"

definition put :: "'a list \<Rightarrow> nat \<Rightarrow> 'a list \<Rightarrow> 'a list" where
  "put buf p xs = take p buf @ xs @ drop (p + length xs) buf"

definition holds_at :: "'a list \<Rightarrow> nat \<Rightarrow> 'a list \<Rightarrow> bool" where
  "holds_at buf p xs \<longleftrightarrow> p + length xs \<le> length buf \<and> slice buf p (length xs) = xs"

lemma length_put [buf_simps]:
  "p + length xs \<le> length buf \<Longrightarrow> length (put buf p xs) = length buf"
  by (simp add: put_def)

lemma length_slice [buf_simps]: "p + n \<le> length buf \<Longrightarrow> length (slice buf p n) = n"
  by (simp add: slice_def)

lemma put_Nil [buf_simps]: "put buf p [] = buf"
  by (simp add: put_def)

lemma put_append [buf_simps]:
  assumes "p + length xs + length ys \<le> length buf"
  shows "put (put buf p xs) (p + length xs) ys = put buf p (xs @ ys)"
  using assms by (simp add: put_def ac_simps)

lemma put_chain:
  assumes "q = p + length xs" "p + length xs + length ys \<le> length buf"
  shows "put (put buf p xs) q ys = put buf p (xs @ ys)"
  using assms put_append [of p xs ys buf] by simp

lemma update_before_put:
  assumes "p + Suc (length xs) \<le> length buf"
  shows "(put buf (Suc p) xs)[p := x] = put buf p (x # xs)"
  using assms by (simp add: put_def list_update_append take_Suc_conv_app_nth)

lemma update_as_put: "p < length buf \<Longrightarrow> buf[p := x] = put buf p [x]"
  using update_before_put [of p "[]" buf x] by (simp add: put_Nil)

lemma holds_at_Nil [buf_simps]: "holds_at buf p [] \<longleftrightarrow> p \<le> length buf"
  by (simp add: holds_at_def slice_def)

lemma holds_at_append [buf_simps]:
  "holds_at buf p (xs @ ys) \<longleftrightarrow> holds_at buf p xs \<and> holds_at buf (p + length xs) ys"
proof -
  have "take (length xs + length ys) (drop p buf) =
      take (length xs) (drop p buf) @ take (length ys) (drop (p + length xs) buf)"
    by (simp add: take_add add.commute)
  then show ?thesis
    by (auto simp: holds_at_def slice_def append_eq_append_conv)
qed

lemma holds_at_Cons:
  "holds_at buf p (x # xs) \<longleftrightarrow> p < length buf \<and> buf ! p = x \<and> holds_at buf (Suc p) xs"
  by (cases "p < length buf") (auto simp: holds_at_def slice_def Cons_nth_drop_Suc [symmetric])

lemma holds_at_put:
  "p + length xs \<le> length buf \<Longrightarrow> holds_at (put buf p xs) p xs"
  by (simp add: holds_at_def put_def slice_def)

lemma holds_at_whole: "holds_at xs 0 xs"
  by (simp add: holds_at_def slice_def)

lemma holds_at_mid: "holds_at (xs @ ys @ zs) (length xs) ys"
  by (simp add: holds_at_def slice_def)

lemma slice_put_before [buf_simps]:
  assumes "q + n \<le> p" "p + length xs \<le> length buf"
  shows "slice (put buf p xs) q n = slice buf q n"
  using assms by (simp add: slice_def put_def drop_take)

lemma put_zeros_whole: "put (replicate (length xs) z) 0 xs = xs"
  by (simp add: put_def)

section \<open>Integer-keyed maps\<close>

type_synonym 'v intmap = "(u64 \<times> 'v) list"

definition im_get :: "'v intmap \<Rightarrow> u64 \<Rightarrow> 'v option" where
  "im_get m k = map_of m k"

definition im_insert :: "u64 \<Rightarrow> 'v \<Rightarrow> 'v intmap \<Rightarrow> 'v intmap" where
  "im_insert k v m = AList.update k v m"

definition im_remove :: "u64 \<Rightarrow> 'v intmap \<Rightarrow> 'v intmap" where
  "im_remove k m = AList.delete k m"

definition im_keys :: "'v intmap \<Rightarrow> u64 list" where
  "im_keys m = map fst m"

definition im_wf :: "'v intmap \<Rightarrow> bool" where
  "im_wf m \<longleftrightarrow> distinct (map fst m)"

lemma im_get_empty [simp]: "im_get [] k = None"
  by (simp add: im_get_def)

lemma im_get_insert [simp]: "im_get (im_insert k v m) = (im_get m)(k := Some v)"
  by (simp add: im_get_def im_insert_def update_conv fun_eq_iff)

lemma im_get_remove [simp]: "im_get (im_remove k m) = (im_get m)(k := None)"
  by (simp add: im_get_def im_remove_def delete_conv fun_eq_iff)

lemma im_wf_empty [simp]: "im_wf []"
  by (simp add: im_wf_def)

lemma im_wf_insert [simp]: "im_wf m \<Longrightarrow> im_wf (im_insert k v m)"
  by (simp add: im_wf_def im_insert_def distinct_update)

lemma im_wf_remove [simp]: "im_wf m \<Longrightarrow> im_wf (im_remove k m)"
  by (simp add: im_wf_def im_remove_def distinct_delete)

lemma set_im_keys: "set (im_keys m) = dom (im_get m)"
  by (induction m) (auto simp: im_keys_def im_get_def)

end
