(* ===== verification/Flat_Tree.thy ===== *)
theory Flat_Tree
  imports Prelude
begin

text \<open>
  The interface to the \<^verbatim>\<open>flat-tree\<close> crate, which numbers the nodes of a binary tree: block
  \<open>b\<close> is leaf \<open>2 * b\<close>, and the node of depth \<open>d\<close> and offset \<open>o\<close> has index
  \<open>o * 2 ^ (d + 1) + 2 ^ d - 1\<close>.  The crate is not part of the repository: its iterator and
  its functions are a parameter of every definition that uses them (the record
  \<open>flat_tree\<close>), and the locale \<open>flat_tree_laws\<close> states the numbering its documentation
  promises, for the positions that fit 64 bits.

  The second half is the theory of the roots of a log of \<open>n\<close> blocks, on natural numbers: the
  maximal complete subtrees that cover the first \<open>n\<close> leaves.
\<close>

section \<open>Positions\<close>

definition tree_index :: "nat \<Rightarrow> nat \<Rightarrow> nat" where
  "tree_index d off = off * 2 ^ Suc d + 2 ^ d - 1"

text \<open>Positions whose leaves all lie among the first \<open>2 ^ 63\<close> blocks.\<close>

definition pos_ok :: "nat \<Rightarrow> nat \<Rightarrow> bool" where
  "pos_ok d off \<longleftrightarrow> d \<le> 62 \<and> (off + 1) * 2 ^ d \<le> 2 ^ 63"

definition sibling_offset :: "nat \<Rightarrow> nat" where
  "sibling_offset off = (if even off then off + 1 else off - 1)"

function tree_depth :: "nat \<Rightarrow> nat" where
  "tree_depth n = (if even n then 0 else Suc (tree_depth (n div 2)))"
  by pat_completeness auto
termination
  by (relation "measure id") (auto simp: odd_pos)

function tree_offset :: "nat \<Rightarrow> nat" where
  "tree_offset n = (if even n then n div 2 else tree_offset (n div 2))"
  by pat_completeness auto
termination
  by (relation "measure id") (auto simp: odd_pos)

declare tree_depth.simps [simp del] tree_offset.simps [simp del]

lemma pow2_Suc: "\<exists>p. (2 :: nat) ^ d = Suc p"
  by (metis gr0_conv_Suc zero_less_numeral zero_less_power)

lemma tree_index_0 [simp]: "tree_index 0 off = 2 * off"
  by (simp add: tree_index_def)

lemma tree_index_Suc: "tree_index (Suc d) off = 2 * tree_index d off + 1"
  using pow2_Suc [of d] by (auto simp: tree_index_def algebra_simps)

lemma tree_depth_index [simp]: "tree_depth (tree_index d off) = d"
  by (induction d) (simp_all add: tree_depth.simps tree_index_Suc)

lemma tree_offset_index [simp]: "tree_offset (tree_index d off) = off"
  by (induction d) (simp_all add: tree_offset.simps tree_index_Suc)

lemma tree_index_inj: "tree_index d a = tree_index e b \<longleftrightarrow> d = e \<and> a = b"
  by (metis tree_depth_index tree_offset_index)

lemma tree_index_bound: "tree_index d off < 2 * ((off + 1) * 2 ^ d)"
  using pow2_Suc [of d] by (auto simp: tree_index_def algebra_simps)

lemma tree_index_ge: "2 * (off * 2 ^ d) \<le> tree_index d off"
  using pow2_Suc [of d] by (auto simp: tree_index_def algebra_simps)

lemma pos_ok_index: "pos_ok d off \<Longrightarrow> tree_index d off < 2 ^ 64"
  using tree_index_bound [of d off] by (simp add: pos_ok_def)

lemma pos_ok_mono: "pos_ok d off \<Longrightarrow> off' \<le> off \<Longrightarrow> pos_ok d off'"
  unfolding pos_ok_def by (meson Suc_le_mono add_le_mono1 le_trans mult_le_mono1)

section \<open>The interface\<close>

record 'it flat_tree =
  ft_new :: "u64 \<Rightarrow> 'it"
  ft_index :: "'it \<Rightarrow> u64"
  ft_offset :: "'it \<Rightarrow> u64"
  ft_factor :: "'it \<Rightarrow> u64"
  ft_is_right :: "'it \<Rightarrow> bool"
  ft_contains :: "'it \<Rightarrow> u64 \<Rightarrow> bool"
  ft_seek :: "u64 \<Rightarrow> 'it \<Rightarrow> 'it"
  ft_parent :: "'it \<Rightarrow> 'it"
  ft_sibling :: "'it \<Rightarrow> 'it"
  ft_left_child :: "'it \<Rightarrow> 'it"
  ft_next_tree :: "'it \<Rightarrow> 'it"
  ft_full_root :: "u64 \<Rightarrow> 'it \<Rightarrow> bool \<times> 'it"
  ft_full_roots :: "u64 \<Rightarrow> u64 list"
  ft_left_span :: "u64 \<Rightarrow> u64"
  ft_right_span :: "u64 \<Rightarrow> u64"
  ft_parent_index :: "u64 \<Rightarrow> u64"

definition ft_at :: "'it flat_tree \<Rightarrow> 'it \<Rightarrow> nat \<Rightarrow> nat \<Rightarrow> bool" where
  "ft_at ft it d off \<longleftrightarrow> unat (ft_index ft it) = tree_index d off \<and>
     unat (ft_offset ft it) = off \<and> unat (ft_factor ft it) = 2 ^ Suc d"

section \<open>The roots of a log\<close>

text \<open>\<open>rchain n ps\<close>: the positions \<open>ps\<close>, last first, are adjacent subtrees that cover exactly
  the first \<open>n\<close> leaves, none of which could be joined with the one before it.\<close>

fun rchain :: "nat \<Rightarrow> (nat \<times> nat) list \<Rightarrow> bool" where
  "rchain n [] \<longleftrightarrow> n = 0"
| "rchain n ((d, off) # ps) \<longleftrightarrow> n = (off + 1) * 2 ^ d \<and> even off \<and> rchain (off * 2 ^ d) ps"

fun trailing_zeros :: "nat \<Rightarrow> nat" where
  "trailing_zeros n = (if n = 0 \<or> odd n then 0 else Suc (trailing_zeros (n div 2)))"

declare trailing_zeros.simps [simp del]

lemma trailing_zeros_double: "0 < n \<Longrightarrow> trailing_zeros (2 * n) = Suc (trailing_zeros n)"
  by (simp add: trailing_zeros.simps [of "2 * n"])

lemma trailing_zeros_odd: "odd m \<Longrightarrow> trailing_zeros (m * 2 ^ d) = d"
proof (induction d)
  case 0
  then show ?case by (simp add: trailing_zeros.simps)
next
  case (Suc d)
  have "0 < m * 2 ^ d" using Suc.prems by (simp add: odd_pos)
  with Suc trailing_zeros_double [of "m * 2 ^ d"] show ?case by (simp add: ac_simps)
qed

lemma odd_part: "0 < n \<Longrightarrow> \<exists>m. odd m \<and> n = m * 2 ^ trailing_zeros n"
proof (induction n rule: trailing_zeros.induct)
  case (1 n)
  show ?case
  proof (cases "odd n")
    case True
    then show ?thesis by (simp add: trailing_zeros.simps)
  next
    case False
    with 1 have "\<exists>m. odd m \<and> n div 2 = m * 2 ^ trailing_zeros (n div 2)" by auto
    then obtain m where "odd m" "n div 2 = m * 2 ^ trailing_zeros (n div 2)" by blast
    with False "1.prems" have "odd m \<and> n = m * 2 ^ trailing_zeros n"
      by (auto simp: trailing_zeros.simps [of n] elim!: evenE)
    then show ?thesis by blast
  qed
qed

function root_positions :: "nat \<Rightarrow> (nat \<times> nat) list" where
  "root_positions n =
     (if n = 0 then []
      else let d = trailing_zeros n in root_positions (n - 2 ^ d) @ [(d, n div 2 ^ d - 1)])"
  by pat_completeness auto
termination
  by (relation "measure id") auto

declare root_positions.simps [simp del]

lemma root_positions_0 [simp]: "root_positions 0 = []"
  by (simp add: root_positions.simps)

lemma root_positions_snoc:
  assumes "even off"
  shows "root_positions ((off + 1) * 2 ^ d) = root_positions (off * 2 ^ d) @ [(d, off)]"
proof -
  define n where "n = (off + 1) * 2 ^ d"
  have "trailing_zeros n = d"
    unfolding n_def using assms by (intro trailing_zeros_odd) simp
  moreover have "n \<noteq> 0" "n - 2 ^ d = off * 2 ^ d" "n div 2 ^ d = off + 1"
    unfolding n_def by simp_all
  ultimately show ?thesis
    unfolding n_def [symmetric] by (simp add: root_positions.simps [of n] Let_def)
qed

lemma rchain_unique: "rchain n ps \<Longrightarrow> root_positions n = rev ps"
proof (induction n ps rule: rchain.induct)
  case (2 n d off ps)
  then show ?case using root_positions_snoc [of off d] by simp
qed simp

lemma rchain_root_positions: "rchain n (rev (root_positions n))"
proof (induction n rule: less_induct)
  case (less n)
  show ?case
  proof (cases "n = 0")
    case True
    then show ?thesis by simp
  next
    case False
    then obtain m where m: "odd m" "n = m * 2 ^ trailing_zeros n"
      using odd_part by blast
    then obtain off where off: "m = off + 1" "even off"
      by (metis Suc_eq_plus1 even_Suc oddE)
    let ?d = "trailing_zeros n"
    have "n = off * 2 ^ ?d + 2 ^ ?d" using m off by (simp add: algebra_simps)
    then have "off * 2 ^ ?d < n" using pow2_Suc [of ?d] by linarith
    then have "rchain (off * 2 ^ ?d) (rev (root_positions (off * 2 ^ ?d)))" by (rule less)
    moreover have "root_positions n = root_positions (off * 2 ^ ?d) @ [(?d, off)]"
      using root_positions_snoc [OF off(2), of ?d] m off by simp
    ultimately show ?thesis using m off by simp
  qed
qed

text \<open>An odd offset has its left sibling as the last root.\<close>

lemma rchain_odd:
  assumes "rchain (off * 2 ^ d) ps" and "odd off"
  shows "\<exists>qs. ps = (d, off - 1) # qs \<and> rchain ((off - 1) * 2 ^ d) qs"
proof -
  have "rchain (off * 2 ^ d) ((d, off - 1) # rev (root_positions ((off - 1) * 2 ^ d)))"
    using assms(2) rchain_root_positions by (simp add: odd_pos)
  with assms(1) have "rev ps = rev ((d, off - 1) # rev (root_positions ((off - 1) * 2 ^ d)))"
    using rchain_unique by metis
  then have "ps = (d, off - 1) # rev (root_positions ((off - 1) * 2 ^ d))"
    by (simp only: rev_is_rev_conv)
  then show ?thesis
    using rchain_root_positions by blast
qed

lemma rchain_positions:
  assumes "rchain n ps" and "(d, off) \<in> set ps"
  shows "(off + 1) * 2 ^ d \<le> n"
  using assms by (induction n ps rule: rchain.induct) auto

section \<open>The laws of the interface\<close>

locale flat_tree_laws =
  fixes ft :: "'it flat_tree"
  assumes new: "unat i = tree_index d off \<Longrightarrow> pos_ok d off \<Longrightarrow> ft_at ft (ft_new ft i) d off"
    and seek: "unat i = tree_index d off \<Longrightarrow> pos_ok d off \<Longrightarrow> ft_at ft (ft_seek ft i it) d off"
    and parent: "ft_at ft it d off \<Longrightarrow> pos_ok (Suc d) (off div 2) \<Longrightarrow>
      ft_at ft (ft_parent ft it) (Suc d) (off div 2)"
    and sibling: "ft_at ft it d off \<Longrightarrow> pos_ok d off \<Longrightarrow> pos_ok d (sibling_offset off) \<Longrightarrow>
      ft_at ft (ft_sibling ft it) d (sibling_offset off)"
    and left_child: "ft_at ft it (Suc d) off \<Longrightarrow> pos_ok (Suc d) off \<Longrightarrow>
      ft_at ft (ft_left_child ft it) d (2 * off)"
    and is_right: "ft_at ft it d off \<Longrightarrow> pos_ok d off \<Longrightarrow> ft_is_right ft it = odd off"
    and contains: "ft_at ft it d off \<Longrightarrow> pos_ok d off \<Longrightarrow>
      ft_contains ft it i \<longleftrightarrow> 2 * (off * 2 ^ d) \<le> unat i \<and> unat i + 2 \<le> 2 * ((off + 1) * 2 ^ d)"
    and next_tree: "ft_at ft it d off \<Longrightarrow> pos_ok d off \<Longrightarrow> pos_ok 0 ((off + 1) * 2 ^ d) \<Longrightarrow>
      ft_at ft (ft_next_tree ft it) 0 ((off + 1) * 2 ^ d)"
    and full_root_none: "ft_at ft it 0 b \<Longrightarrow> pos_ok 0 b \<Longrightarrow> unat h \<le> 2 * b \<Longrightarrow>
      \<not> fst (ft_full_root ft h it)"
    and full_root: "ft_at ft it 0 (off * 2 ^ k) \<Longrightarrow> pos_ok k off \<Longrightarrow> unat h = 2 * n \<Longrightarrow>
      (off + 1) * 2 ^ k \<le> n \<Longrightarrow> n < (off + 2) * 2 ^ k \<Longrightarrow>
      fst (ft_full_root ft h it) \<and> ft_at ft (snd (ft_full_root ft h it)) k off"
    and full_roots: "unat h = 2 * n \<Longrightarrow> n \<le> 2 ^ 62 \<Longrightarrow>
      map unat (ft_full_roots ft h) = map (\<lambda>(d, off). tree_index d off) (root_positions n)"
    and left_span: "unat i = tree_index d off \<Longrightarrow> pos_ok d off \<Longrightarrow>
      unat (ft_left_span ft i) = 2 * (off * 2 ^ d)"
    and right_span: "unat i = tree_index d off \<Longrightarrow> pos_ok d off \<Longrightarrow>
      unat (ft_right_span ft i) + 2 = 2 * ((off + 1) * 2 ^ d)"
    and parent_index: "unat i = tree_index d off \<Longrightarrow> pos_ok (Suc d) (off div 2) \<Longrightarrow>
      unat (ft_parent_index ft i) = tree_index (Suc d) (off div 2)"

section \<open>A reference instance\<close>

text \<open>An iterator that keeps depth and offset.  It meets the laws, so they are consistent, and
  it is what the concrete runs of the development use.\<close>

definition ref_index :: "nat \<times> u64 \<Rightarrow> u64" where
  "ref_index p = of_nat (tree_index (fst p) (unat (snd p)))"

definition ref_pos :: "u64 \<Rightarrow> nat \<times> u64" where
  "ref_pos i = (tree_depth (unat i), of_nat (tree_offset (unat i)))"

text \<open>The deepest complete subtree that starts at block \<open>b\<close> and ends within \<open>n\<close> blocks.\<close>

function ref_climb :: "nat \<Rightarrow> nat \<Rightarrow> nat \<Rightarrow> nat" where
  "ref_climb n b d = (if b + 2 ^ Suc d \<le> n then ref_climb n b (Suc d) else d)"
  by pat_completeness auto
termination
proof (relation "measure (\<lambda>(n, b, d). n - 2 ^ d)", goal_cases)
  case (2 n b d)
  then show ?case using pow2_Suc [of d] by auto
qed simp

declare ref_climb.simps [simp del]

definition ref_flat_tree :: "(nat \<times> u64) flat_tree" where
  "ref_flat_tree = \<lparr>
     ft_new = ref_pos,
     ft_index = ref_index,
     ft_offset = snd,
     ft_factor = (\<lambda>(d, w). of_nat (2 ^ Suc d)),
     ft_is_right = (\<lambda>(d, w). odd (unat w)),
     ft_contains = (\<lambda>(d, w) i. 2 * (unat w * 2 ^ d) \<le> unat i \<and>
       unat i + 2 \<le> 2 * ((unat w + 1) * 2 ^ d)),
     ft_seek = (\<lambda>i it. ref_pos i),
     ft_parent = (\<lambda>(d, w). (Suc d, of_nat (unat w div 2))),
     ft_sibling = (\<lambda>(d, w). (d, of_nat (sibling_offset (unat w)))),
     ft_left_child = (\<lambda>(d, w). if d = 0 then (d, w) else (d - 1, of_nat (2 * unat w))),
     ft_next_tree = (\<lambda>(d, w). (0, of_nat ((unat w + 1) * 2 ^ d))),
     ft_full_root = (\<lambda>h (d, w).
       if d \<noteq> 0 \<or> unat h \<le> 2 * unat w then (False, (d, w))
       else let k = ref_climb (unat h div 2) (unat w) 0 in (True, (k, of_nat (unat w div 2 ^ k)))),
     ft_full_roots = (\<lambda>h. map (\<lambda>(d, off). of_nat (tree_index d off)) (root_positions (unat h div 2))),
     ft_left_span = (\<lambda>i. of_nat (2 * (tree_offset (unat i) * 2 ^ tree_depth (unat i)))),
     ft_right_span = (\<lambda>i. of_nat (2 * ((tree_offset (unat i) + 1) * 2 ^ tree_depth (unat i)) - 2)),
     ft_parent_index = (\<lambda>i. of_nat (tree_index (Suc (tree_depth (unat i))) (tree_offset (unat i) div 2)))\<rparr>"

lemma ref_sel [simp]:
  "ft_new ref_flat_tree = ref_pos"
  "ft_index ref_flat_tree = ref_index"
  "ft_offset ref_flat_tree = snd"
  "ft_factor ref_flat_tree = (\<lambda>(d, w). of_nat (2 ^ Suc d))"
  "ft_is_right ref_flat_tree = (\<lambda>(d, w). odd (unat w))"
  "ft_contains ref_flat_tree = (\<lambda>(d, w) i. 2 * (unat w * 2 ^ d) \<le> unat i \<and> unat i + 2 \<le> 2 * ((unat w + 1) * 2 ^ d))"
  "ft_seek ref_flat_tree = (\<lambda>i it. ref_pos i)"
  "ft_parent ref_flat_tree = (\<lambda>(d, w). (Suc d, of_nat (unat w div 2)))"
  "ft_sibling ref_flat_tree = (\<lambda>(d, w). (d, of_nat (sibling_offset (unat w))))"
  "ft_left_child ref_flat_tree = (\<lambda>(d, w). if d = 0 then (d, w) else (d - 1, of_nat (2 * unat w)))"
  "ft_next_tree ref_flat_tree = (\<lambda>(d, w). (0, of_nat ((unat w + 1) * 2 ^ d)))"
  "ft_full_root ref_flat_tree = (\<lambda>h (d, w). if d \<noteq> 0 \<or> unat h \<le> 2 * unat w then (False, (d, w)) else let k = ref_climb (unat h div 2) (unat w) 0 in (True, (k, of_nat (unat w div 2 ^ k))))"
  "ft_full_roots ref_flat_tree = (\<lambda>h. map (\<lambda>(d, off). of_nat (tree_index d off)) (root_positions (unat h div 2)))"
  "ft_left_span ref_flat_tree = (\<lambda>i. of_nat (2 * (tree_offset (unat i) * 2 ^ tree_depth (unat i))))"
  "ft_right_span ref_flat_tree = (\<lambda>i. of_nat (2 * ((tree_offset (unat i) + 1) * 2 ^ tree_depth (unat i)) - 2))"
  "ft_parent_index ref_flat_tree = (\<lambda>i. of_nat (tree_index (Suc (tree_depth (unat i))) (tree_offset (unat i) div 2)))"
  by (simp_all add: ref_flat_tree_def fun_eq_iff)

lemma unat_of_nat64: "n < 18446744073709551616 \<Longrightarrow> unat (of_nat n :: u64) = n"
  by (rule unat_of_nat_small) simp

lemma pos_ok_bounds:
  assumes "pos_ok d off"
  shows "d \<le> 62" "off < 2 ^ 63" "(off + 1) * 2 ^ d \<le> 2 ^ 63" "tree_index d off < 2 ^ 64"
    "2 ^ Suc d < (2 ^ 64 :: nat)"
proof -
  show d: "d \<le> 62" and b: "(off + 1) * 2 ^ d \<le> 2 ^ 63" using assms by (simp_all add: pos_ok_def)
  have "(off + 1) * 1 \<le> (off + 1) * 2 ^ d" by (intro mult_le_mono) auto
  from order_trans [OF this b] show "off < 2 ^ 63" by simp
  show "tree_index d off < 2 ^ 64" using assms by (rule pos_ok_index)
  show "2 ^ Suc d < (2 ^ 64 :: nat)" using d by (intro power_strict_increasing) auto
qed

lemma ref_atI: "pos_ok d off \<Longrightarrow> ft_at ref_flat_tree (d, of_nat off) d off"
  using pos_ok_bounds [of d off]
  by (simp add: ft_at_def ref_index_def unat_of_nat64 del: of_nat_add of_nat_mult)

lemma ref_atE:
  assumes "ft_at ref_flat_tree it d off"
  shows "it = (d, of_nat off) \<and> unat (snd it) = off"
proof -
  obtain e w where it: "it = (e, w)" by (cases it)
  have "unat (of_nat (2 ^ Suc e) :: u64) = 2 ^ Suc d"
    using assms unfolding it by (simp add: ft_at_def ref_flat_tree_def)
  moreover have "unat (of_nat (2 ^ Suc e) :: u64) = 2 ^ Suc e mod 2 ^ 64"
    by (simp add: unat_of_nat take_bit_eq_mod del: power_Suc of_nat_power)
  moreover have "(2 :: nat) ^ Suc e mod 2 ^ 64 = (if Suc e < 64 then 2 ^ Suc e else 0)"
  proof (cases "Suc e < 64")
    case False
    then have "(2 :: nat) ^ 64 dvd 2 ^ Suc e" by (intro le_imp_power_dvd) simp
    with False show ?thesis by simp
  next
    case True
    then have "(2 :: nat) ^ Suc e < 2 ^ 64" by (intro power_strict_increasing) auto
    with True show ?thesis by simp
  qed
  ultimately have "e = d" by (auto split: if_splits)
  moreover have "unat w = off"
    using assms unfolding it by (simp add: ft_at_def ref_flat_tree_def)
  ultimately show ?thesis using it by auto
qed

lemma ref_climb_eq:
  assumes "b + 2 ^ d \<le> n" "d \<le> k" "b + 2 ^ k \<le> n" "n < b + 2 ^ Suc k"
  shows "ref_climb n b d = k"
  using assms
proof (induction n b d rule: ref_climb.induct)
  case (1 n b d)
  show ?case
  proof (cases "d = k")
    case True
    with "1.prems" show ?thesis by (simp add: ref_climb.simps)
  next
    case False
    with "1.prems" have "Suc d \<le> k" by simp
    then have "(2 :: nat) ^ Suc d \<le> 2 ^ k" by (intro power_increasing) auto
    with "1.prems" have le: "b + 2 ^ Suc d \<le> n" by linarith
    with "1.IH" \<open>Suc d \<le> k\<close> "1.prems" show ?thesis by (simp add: ref_climb.simps [of n b d])
  qed
qed

lemma ref_pos_at: "unat i = tree_index d off \<Longrightarrow> pos_ok d off \<Longrightarrow> ft_at ref_flat_tree (ref_pos i) d off"
  using ref_atI [of d off] by (simp add: ref_pos_def)

lemma ref_full_root:
  assumes "ft_at ref_flat_tree it 0 (off * 2 ^ k)" "pos_ok k off" "unat h = 2 * n"
    "(off + 1) * 2 ^ k \<le> n" "n < (off + 2) * 2 ^ k"
  shows "fst (ft_full_root ref_flat_tree h it) \<and>
    ft_at ref_flat_tree (snd (ft_full_root ref_flat_tree h it)) k off"
proof -
  have it: "it = (0, of_nat (off * 2 ^ k))" "unat (of_nat (off * 2 ^ k) :: u64) = off * 2 ^ k"
    using ref_atE [OF assms(1)] by auto
  have "off * 2 ^ k + 2 ^ k \<le> n" "n < off * 2 ^ k + 2 ^ Suc k"
    using assms(4,5) by (simp_all add: algebra_simps)
  moreover from this have "off * 2 ^ k + 2 ^ 0 \<le> n" using pow2_Suc [of k] by auto
  ultimately have "ref_climb n (off * 2 ^ k) 0 = k" by (intro ref_climb_eq) auto
  moreover have "off * 2 ^ k < n" using assms(4) pow2_Suc [of k] by auto
  ultimately show ?thesis
    using it assms(3) ref_atI [OF assms(2)]
    by (simp add: Let_def del: of_nat_mult)
qed

lemma ref_full_roots:
  assumes "unat (h :: u64) = 2 * n" "n \<le> 2 ^ 62"
  shows "map unat (ft_full_roots ref_flat_tree h) = map (\<lambda>(d, off). tree_index d off) (root_positions n)"
proof -
  have "unat (of_nat (tree_index d off) :: u64) = tree_index d off"
    if "(d, off) \<in> set (root_positions n)" for d off
  proof -
    have "(off + 1) * 2 ^ d \<le> n"
      using rchain_positions [OF rchain_root_positions] that by simp
    with assms(2) tree_index_bound [of d off] have "tree_index d off < 2 ^ 64" by simp
    then show ?thesis by (simp add: unat_of_nat64)
  qed
  then show ?thesis using assms(1) by auto
qed

interpretation rft: flat_tree_laws ref_flat_tree
proof (unfold_locales, goal_cases)
  case (1 i d off)
  then show ?case using ref_pos_at by simp
next
  case (2 i d off it)
  then show ?case using ref_pos_at by simp
next
  case (3 it d off)
  then show ?case using ref_atE [OF 3(1)] ref_atI [OF 3(2)] by auto
next
  case (4 it d off)
  then show ?case using ref_atE [OF 4(1)] ref_atI [OF 4(3)] by auto
next
  case (5 it d off)
  then have "pos_ok d (2 * off)" by (auto simp: pos_ok_def algebra_simps)
  then show ?case using ref_atE [OF 5(1)] ref_atI [of d "2 * off"] by auto
next
  case (6 it d off)
  then show ?case by (auto dest!: ref_atE)
next
  case (7 it d off i)
  then show ?case by (auto dest!: ref_atE)
next
  case (8 it d off)
  then show ?case using ref_atE [OF 8(1)] ref_atI [OF 8(3)] by (auto simp del: of_nat_mult)
next
  case (9 it b h)
  then show ?case by (auto dest!: ref_atE)
next
  case (10 it off k h n)
  then show ?case by (rule ref_full_root)
next
  case (11 h n)
  then show ?case by (rule ref_full_roots)
next
  case (12 i d off)
  then have "2 * (off * 2 ^ d) < 2 ^ 64" using tree_index_ge [of off d] pos_ok_index [of d off] by linarith
  with 12 show ?case by (simp add: unat_of_nat64 del: of_nat_mult)
next
  case (13 i d off)
  then have "2 * ((off + 1) * 2 ^ d) - 2 < 2 ^ 64" "2 \<le> 2 * ((off + 1) * 2 ^ d)"
    using pos_ok_bounds(3) [of d off] pow2_Suc [of d] by auto
  with 13 show ?case by (simp add: unat_of_nat64 del: of_nat_mult of_nat_diff)
next
  case (14 i d off)
  then show ?case using pos_ok_index [of "Suc d" "off div 2"]
    by (simp add: unat_of_nat64)
qed

end
