(* ===== verification/Common.thy ===== *)
theory Common
  imports Flat_Tree
begin

text \<open>
  \<^verbatim>\<open>src/src/common/\<close>: the data that the components exchange.  Tree nodes
  (\<^verbatim>\<open>node.rs\<close>), the pieces of information read from and written to the stores, with their
  constructors (\<^verbatim>\<open>store.rs\<close>), and the requests and proofs of replication (\<^verbatim>\<open>peer.rs\<close>).
  \<open>Either::Left\<close> and \<open>Either::Right\<close> are \<open>Inl\<close> and \<open>Inr\<close>.
\<close>

section \<open>Nodes\<close>

record node_byte_range =
  nbr_index :: u64
  nbr_length :: u64

record node =
  n_index :: u64
  n_hash :: bytes
  n_length :: u64
  n_parent :: u64
  n_data :: "bytes option"
  n_blank :: bool

definition node_new :: "'it flat_tree \<Rightarrow> u64 \<Rightarrow> bytes \<Rightarrow> u64 \<Rightarrow> node" where
  "node_new ft index hash len =
     \<lparr>n_index = index, n_hash = hash, n_length = len, n_parent = ft_parent_index ft index,
      n_data = Some [], n_blank = list_all (\<lambda>b. b = 0) hash\<rparr>"

definition node_new_blank :: "u64 \<Rightarrow> node" where
  "node_new_blank index =
     \<lparr>n_index = index, n_hash = [0, 32], n_length = 0, n_parent = 0, n_data = None,
      n_blank = True\<rparr>"

text \<open>\<open>PartialOrd\<close> and \<open>Ord\<close> compare nodes by index.\<close>

definition node_cmp_le :: "node \<Rightarrow> node \<Rightarrow> bool" where
  "node_cmp_le a b \<longleftrightarrow> n_index a \<le> n_index b"

text \<open>\<open>NodeTrait\<close> hands out the fields; \<open>is_empty\<close> looks at the length.\<close>

definition node_is_empty :: "node \<Rightarrow> bool" where
  "node_is_empty n \<longleftrightarrow> n_length n = 0"

text \<open>A node of the crate \<open>merkle-tree-stream\<close>, by what its accessors give, and \<open>From<NodeParts<Hash>>\<close>.\<close>

datatype node_kind = NodeLeaf bytes | NodeParent

record node_parts =
  np_index :: u64
  np_parent :: u64
  np_len :: u64
  np_data :: node_kind
  np_hash :: bytes

definition node_from_parts :: "node_parts \<Rightarrow> node" where
  "node_from_parts parts =
     \<lparr>n_index = np_index parts, n_hash = np_hash parts, n_length = np_len parts, n_parent = np_parent parts,
      n_data = (case np_data parts of NodeLeaf data \<Rightarrow> Some data | NodeParent \<Rightarrow> None),
      n_blank = list_all (\<lambda>b. b = 0) (np_hash parts)\<rparr>"

lemma node_order_is_not_equality:
  "\<exists>a b. node_cmp_le a b \<and> node_cmp_le b a \<and> a \<noteq> b"
proof -
  let ?a = "node_new_blank 0"
  have "node_cmp_le ?a (?a\<lparr>n_length := 1\<rparr>)" "node_cmp_le (?a\<lparr>n_length := 1\<rparr>) ?a" "?a \<noteq> ?a\<lparr>n_length := 1\<rparr>"
    by (simp_all add: node_cmp_le_def node_new_blank_def)
  then show ?thesis by blast
qed

section \<open>Store information\<close>

datatype store_info_type = Content | Size

record store_info =
  si_store :: store
  si_info_type :: store_info_type
  si_index :: u64
  si_length :: "u64 option"
  si_data :: "bytes option"
  si_miss :: bool

definition si_new_content :: "store \<Rightarrow> u64 \<Rightarrow> bytes \<Rightarrow> store_info" where
  "si_new_content st index data =
     \<lparr>si_store = st, si_info_type = Content, si_index = index,
      si_length = Some (of_nat (length data)), si_data = Some data, si_miss = False\<rparr>"

definition si_new_content_miss :: "store \<Rightarrow> u64 \<Rightarrow> store_info" where
  "si_new_content_miss st index =
     \<lparr>si_store = st, si_info_type = Content, si_index = index, si_length = None,
      si_data = None, si_miss = True\<rparr>"

definition si_new_delete :: "store \<Rightarrow> u64 \<Rightarrow> u64 \<Rightarrow> store_info" where
  "si_new_delete st index len =
     \<lparr>si_store = st, si_info_type = Content, si_index = index, si_length = Some len,
      si_data = None, si_miss = True\<rparr>"

definition si_new_truncate :: "store \<Rightarrow> u64 \<Rightarrow> store_info" where
  "si_new_truncate st index =
     \<lparr>si_store = st, si_info_type = Size, si_index = index, si_length = None,
      si_data = None, si_miss = True\<rparr>"

definition si_new_size :: "store \<Rightarrow> u64 \<Rightarrow> u64 \<Rightarrow> store_info" where
  "si_new_size st index len =
     \<lparr>si_store = st, si_info_type = Size, si_index = index, si_length = Some len,
      si_data = None, si_miss = False\<rparr>"

record store_info_instruction =
  sii_store :: store
  sii_info_type :: store_info_type
  sii_index :: u64
  sii_length :: "u64 option"
  sii_allow_miss :: bool

definition sii_new_content :: "store \<Rightarrow> u64 \<Rightarrow> u64 \<Rightarrow> store_info_instruction" where
  "sii_new_content st index len =
     \<lparr>sii_store = st, sii_info_type = Content, sii_index = index, sii_length = Some len,
      sii_allow_miss = False\<rparr>"

definition sii_new_content_allow_miss :: "store \<Rightarrow> u64 \<Rightarrow> u64 \<Rightarrow> store_info_instruction" where
  "sii_new_content_allow_miss st index len =
     \<lparr>sii_store = st, sii_info_type = Content, sii_index = index, sii_length = Some len,
      sii_allow_miss = True\<rparr>"

definition sii_new_all_content :: "store \<Rightarrow> store_info_instruction" where
  "sii_new_all_content st =
     \<lparr>sii_store = st, sii_info_type = Content, sii_index = 0, sii_length = None,
      sii_allow_miss = False\<rparr>"

definition sii_new_size :: "store \<Rightarrow> u64 \<Rightarrow> store_info_instruction" where
  "sii_new_size st index =
     \<lparr>sii_store = st, sii_info_type = Size, sii_index = index, sii_length = None,
      sii_allow_miss = False\<rparr>"

lemmas info_defs = si_new_content_def si_new_content_miss_def si_new_delete_def
  si_new_truncate_def si_new_size_def sii_new_content_def sii_new_content_allow_miss_def
  sii_new_all_content_def sii_new_size_def

section \<open>Bitfield updates\<close>

record bitfield_update =
  bu_drop :: bool
  bu_start :: u64
  bu_length :: u64

section \<open>Requests and proofs\<close>

record request_block =
  rb_index :: u64
  rb_nodes :: u64

record request_seek =
  rs_bytes :: u64

record request_upgrade =
  ru_start :: u64
  ru_length :: u64

record data_block =
  dblk_index :: u64
  dblk_value :: bytes
  dblk_nodes :: "node list"

record data_hash =
  dh_index :: u64
  dh_nodes :: "node list"

record data_seek =
  ds_bytes :: u64
  ds_nodes :: "node list"

record data_upgrade =
  du_start :: u64
  du_length :: u64
  du_nodes :: "node list"
  du_additional_nodes :: "node list"
  du_signature :: bytes

record proof_msg =
  pf_fork :: u64
  pf_block :: "data_block option"
  pf_hash :: "data_hash option"
  pf_seek :: "data_seek option"
  pf_upgrade :: "data_upgrade option"

record valueless_proof =
  vp_fork :: u64
  vp_block :: "data_hash option"
  vp_hash :: "data_hash option"
  vp_seek :: "data_seek option"
  vp_upgrade :: "data_upgrade option"

definition into_proof :: "valueless_proof \<Rightarrow> bytes option \<Rightarrow> proof_msg hres" where
  "into_proof vp block_value =
     bindR (case vp_block vp of
              None \<Rightarrow> Ok None
            | Some b \<Rightarrow> bindR (expect block_value) (\<lambda>v.
                Ok (Some \<lparr>dblk_index = dh_index b, dblk_value = v, dblk_nodes = dh_nodes b\<rparr>)))
       (\<lambda>block. Ok \<lparr>pf_fork = vp_fork vp, pf_block = block, pf_hash = vp_hash vp,
          pf_seek = vp_seek vp, pf_upgrade = vp_upgrade vp\<rparr>)"

end
