(* ===== verification/Compact_Encoding.thy ===== *)
theory Compact_Encoding
  imports Prelude
begin

text \<open>
  The interface of the \<^verbatim>\<open>compact-encoding\<close> crate, as \<^verbatim>\<open>src/src/encoding.rs\<close>,
  \<^verbatim>\<open>src/src/oplog/\<close>, \<^verbatim>\<open>src/src/crypto/hash.rs\<close> and \<^verbatim>\<open>src/src/tree/merkle_tree.rs\<close> use it.
  The crate itself is not part of the repository: its functions are the fields of the
  parameter \<open>'compact\<close>, and what the code relies on is the locale \<open>compact_laws\<close>.  A
  \<open>State\<close> is its two cursors, as the crate documents it.

  A value has a wire form, the bytes that \<open>encode\<close> writes at the start cursor and \<open>decode\<close>
  reads there; \<open>preencode\<close> moves the end cursor by its length (locale \<open>codec\<close>).  The last
  section interprets the laws on an implementation of the documented format (variable-length
  integers of 1, 3, 5 or 9 bytes, little endian).
\<close>

section \<open>The parameter\<close>

record cstate =
  cs_start :: nat
  cs_end :: nat

datatype encoding_error = OutOfBounds | Overflow | InvalidData

type_synonym 'a eres = "('a, encoding_error) result"

text \<open>\<open>From<EncodingError> for HypercoreError\<close> (\<^verbatim>\<open>src/src/common/error.rs\<close>).\<close>

definition enc_err :: "'a eres \<Rightarrow> 'a hres" where
  "enc_err r = map_err (\<lambda>_. InvalidOperation) r"

lemma enc_err_simps [simp]:
  "enc_err (Ok x) = Ok x" "enc_err (Err e) = Err InvalidOperation" "enc_err Panic = Panic"
  "enc_err Diverge = Diverge"
  by (simp_all add: enc_err_def)

type_synonym 'v preencoder = "'v \<Rightarrow> cstate \<Rightarrow> cstate eres"
type_synonym 'v encoder = "'v \<Rightarrow> cstate \<Rightarrow> bytes \<Rightarrow> (cstate \<times> bytes) eres"
type_synonym 'v decoder = "bytes \<Rightarrow> cstate \<Rightarrow> ('v \<times> cstate) eres"

record compact =
  ce_pre_uint :: "u64 preencoder"
  ce_enc_uint :: "u64 encoder"
  ce_dec_uint :: "u64 decoder"
  ce_pre_usize :: "nat preencoder"
  ce_enc_usize :: "nat encoder"
  ce_dec_usize :: "nat decoder"
  ce_pre_bytes :: "bytes preencoder"
  ce_enc_bytes :: "bytes encoder"
  ce_dec_bytes :: "bytes decoder"
  ce_pre_strings :: "string list preencoder"
  ce_enc_strings :: "string list encoder"
  ce_dec_strings :: "string list decoder"
  ce_pre_fixed_32 :: "cstate \<Rightarrow> cstate eres"
  ce_enc_fixed_32 :: "bytes encoder"
  ce_dec_fixed_32 :: "bytes decoder"
  ce_enc_u32 :: "u32 encoder"
  ce_dec_u32 :: "u32 decoder"
  ce_enc_u64 :: "u64 encoder"
  ce_dec_u64 :: "u64 decoder"
  ce_set_byte :: "u8 encoder"
  ce_dec_u8 :: "u8 decoder"
  ce_add_start :: "nat \<Rightarrow> cstate \<Rightarrow> cstate eres"
  ce_add_end :: "nat \<Rightarrow> cstate \<Rightarrow> cstate eres"
  ce_set_start :: "nat \<Rightarrow> cstate \<Rightarrow> cstate eres"
  ce_create_buffer :: "cstate \<Rightarrow> bytes"
  ce_new_with_size :: "nat \<Rightarrow> cstate \<times> bytes"
  ce_from_buffer :: "bytes \<Rightarrow> cstate"

text \<open>The wire forms that the laws speak about.\<close>

record wire_format =
  w_uint :: "u64 \<Rightarrow> bytes"
  w_usize :: "nat \<Rightarrow> bytes"
  w_bytes :: "bytes \<Rightarrow> bytes"
  w_strings :: "string list \<Rightarrow> bytes"
  w_u32 :: "u32 \<Rightarrow> bytes"
  w_u64 :: "u64 \<Rightarrow> bytes"

abbreviation MAX_USIZE :: nat where
  "MAX_USIZE \<equiv> 2 ^ 64"

section \<open>Interfaces\<close>

definition room :: "cstate \<Rightarrow> nat \<Rightarrow> bytes \<Rightarrow> bool" where
  "room st n buf \<longleftrightarrow> cs_start st + n \<le> cs_end st \<and> cs_end st \<le> length buf"

definition advance :: "nat \<Rightarrow> cstate \<Rightarrow> cstate" where
  "advance n st = st\<lparr>cs_start := cs_start st + n\<rparr>"

definition extend_end :: "nat \<Rightarrow> cstate \<Rightarrow> cstate" where
  "extend_end n st = st\<lparr>cs_end := cs_end st + n\<rparr>"

lemma advance_simps [simp]:
  "cs_start (advance n st) = cs_start st + n" "cs_end (advance n st) = cs_end st"
  "advance m (advance n st) = advance (n + m) st" "advance 0 st = st"
  by (simp_all add: advance_def)

lemma extend_end_simps [simp]:
  "cs_start (extend_end n st) = cs_start st" "cs_end (extend_end n st) = cs_end st + n"
  "extend_end m (extend_end n st) = extend_end (n + m) st" "extend_end 0 st = st"
  by (simp_all add: extend_end_def)

lemma room_advance [simp]: "room (advance m st) n buf \<longleftrightarrow> room st (m + n) buf"
  by (simp add: room_def add.assoc)

lemma room_put [simp]:
  assumes "room st (length xs) buf"
  shows "room st' n (put buf (cs_start st) xs) \<longleftrightarrow> room st' n buf"
  using assms by (simp add: room_def length_put)

lemma room_less: "room st n buf \<Longrightarrow> m \<le> n \<Longrightarrow> room st m buf"
  by (simp add: room_def)

lemma put_put [buf_simps]:
  assumes "room st (length xs + length ys) buf"
  shows "put (put buf (cs_start st) xs) (cs_start st + length xs) ys = put buf (cs_start st) (xs @ ys)"
  using assms by (simp add: room_def put_append)

text \<open>Encoding and decoding of a fixed-size value, and with \<open>preencode\<close> of any value.\<close>

locale wire_codec =
  fixes enc :: "'v encoder" and dec :: "'v decoder"
    and wire :: "'v \<Rightarrow> bytes" and ok :: "'v \<Rightarrow> bool"
  assumes enc_law: "ok v \<Longrightarrow> room st (length (wire v)) buf \<Longrightarrow>
      enc v st buf = Ok (advance (length (wire v)) st, put buf (cs_start st) (wire v))"
    and dec_law: "holds_at buf (cs_start st) (wire v) \<Longrightarrow> ok v \<Longrightarrow> room st (length (wire v)) buf \<Longrightarrow>
      dec buf st = Ok (v, advance (length (wire v)) st)"
begin

text \<open>What was encoded is decoded again, wherever in the buffer it stands.\<close>

lemma decode_encoded:
  assumes "ok v" "room st (length (wire v)) buf" "enc v st buf = Ok (st', buf')"
  shows "dec buf' st = Ok (v, st')"
proof -
  have st: "st' = advance (length (wire v)) st" "buf' = put buf (cs_start st) (wire v)"
    using assms enc_law by auto
  moreover have "holds_at buf' (cs_start st) (wire v)"
    unfolding st using assms(2) by (intro holds_at_put) (simp add: room_def)
  ultimately show ?thesis
    using dec_law [of buf' st v] assms(1,2) by simp
qed

lemma wire_inject:
  assumes "ok v" "ok v'" "wire v = wire v'"
  shows "v = v'"
proof -
  let ?st = "\<lparr>cs_start = 0, cs_end = length (wire v)\<rparr>"
  have "room ?st (length (wire v)) (wire v)" by (simp add: room_def)
  then have "dec (wire v) ?st = Ok (v, advance (length (wire v)) ?st)"
    "dec (wire v) ?st = Ok (v', advance (length (wire v)) ?st)"
    using assms dec_law [of "wire v" ?st v] dec_law [of "wire v" ?st v']
    by (simp_all add: holds_at_whole)
  then show ?thesis by simp
qed

end

locale codec = wire_codec enc dec wire ok
  for pre :: "'v preencoder" and enc dec wire ok +
  assumes pre_law: "ok v \<Longrightarrow> cs_end st + length (wire v) < MAX_USIZE \<Longrightarrow>
      pre v st = Ok (extend_end (length (wire v)) st)"
begin

text \<open>The way every message is written: measure, make a buffer of that size, encode.\<close>

lemma pre_makes_room:
  assumes "ok v" "cs_start st \<le> cs_end st" "cs_end st + length (wire v) < MAX_USIZE"
    and "length buf = cs_end st + length (wire v)"
  shows "\<exists>st1 st2 buf'. pre v st = Ok st1 \<and> cs_end st1 = length buf \<and>
    enc v st1 buf = Ok (st2, buf') \<and> dec buf' st1 = Ok (v, st2)"
proof -
  let ?st = "extend_end (length (wire v)) st"
  have room: "room ?st (length (wire v)) buf" using assms(2,4) by (simp add: room_def)
  show ?thesis
    using pre_law [OF assms(1,3)] enc_law [OF assms(1) room] decode_encoded [OF assms(1) room] assms(4)
    by (intro exI [of _ ?st] exI [of _ "advance (length (wire v)) ?st"]) auto
qed

end

text \<open>What the code relies on of the crate.\<close>

locale compact_laws =
  uintc: codec "ce_pre_uint ce" "ce_enc_uint ce" "ce_dec_uint ce" "w_uint w" "\<lambda>_. True" +
  usizec: codec "ce_pre_usize ce" "ce_enc_usize ce" "ce_dec_usize ce" "w_usize w" "\<lambda>n. n < MAX_USIZE" +
  bytesc: codec "ce_pre_bytes ce" "ce_enc_bytes ce" "ce_dec_bytes ce" "w_bytes w" "\<lambda>b. length b < MAX_USIZE" +
  stringsc: codec "ce_pre_strings ce" "ce_enc_strings ce" "ce_dec_strings ce" "w_strings w"
    "\<lambda>ss. length ss < MAX_USIZE \<and> list_all (\<lambda>s. length s < MAX_USIZE) ss" +
  fixed32c: codec "\<lambda>_. ce_pre_fixed_32 ce" "ce_enc_fixed_32 ce" "ce_dec_fixed_32 ce" "\<lambda>b. b" "\<lambda>b. length b = 32" +
  u32c: wire_codec "ce_enc_u32 ce" "ce_dec_u32 ce" "w_u32 w" "\<lambda>_. True" +
  u64c: wire_codec "ce_enc_u64 ce" "ce_dec_u64 ce" "w_u64 w" "\<lambda>_. True" +
  u8c: wire_codec "ce_set_byte ce" "ce_dec_u8 ce" "\<lambda>b. [b]" "\<lambda>_. True"
  for ce :: compact and w :: wire_format +
  assumes length_w_u32: "length (w_u32 w x) = 4"
    and length_w_u64: "length (w_u64 w y) = 8"
    and w_u32_zero: "w_u32 w 0 = replicate 4 0"
    and w_u64_zero: "w_u64 w 0 = replicate 8 0"
    and length_w_uint: "length (w_uint w y) \<le> 9"
    and length_w_usize: "length (w_usize w n) \<le> 9"
    and length_w_bytes: "length b < 253 \<Longrightarrow> length (w_bytes w b) = 1 + length b"
    and w_bytes_Nil: "w_bytes w [] = [0]"
    and w_strings_Nil: "w_strings w [] = [0]"
    and add_start: "cs_start st + n \<le> cs_end st \<Longrightarrow> ce_add_start ce n st = Ok (advance n st)"
    and add_end: "cs_end st + n < MAX_USIZE \<Longrightarrow> ce_add_end ce n st = Ok (extend_end n st)"
    and set_start: "n \<le> cs_end st \<Longrightarrow> ce_set_start ce n st = Ok (st\<lparr>cs_start := n\<rparr>)"
    and create_buffer: "ce_create_buffer ce st = replicate (cs_end st) 0"
    and new_with_size: "ce_new_with_size ce n = (\<lparr>cs_start = 0, cs_end = n\<rparr>, replicate n 0)"
    and from_buffer: "ce_from_buffer ce buf = \<lparr>cs_start = 0, cs_end = length buf\<rparr>"

section \<open>An implementation of the documented format\<close>

fun le_bytes :: "nat \<Rightarrow> nat \<Rightarrow> bytes" where
  "le_bytes 0 n = []"
| "le_bytes (Suc k) n = of_nat (n mod 256) # le_bytes k (n div 256)"

fun le_value :: "bytes \<Rightarrow> nat" where
  "le_value [] = 0"
| "le_value (b # bs) = unat b + 256 * le_value bs"

lemma length_le_bytes [simp]: "length (le_bytes k n) = k"
  by (induction k arbitrary: n) auto

lemma le_value_bytes: "n < 256 ^ k \<Longrightarrow> le_value (le_bytes k n) = n"
proof (induction k arbitrary: n)
  case (Suc k)
  have "n div 256 < 256 ^ k" using Suc.prems by (simp add: less_mult_imp_div_less mult.commute)
  moreover have "unat (of_nat (n mod 256) :: u8) = n mod 256" by (simp add: unat_of_nat_small)
  ultimately show ?case using Suc.IH [of "n div 256"] by simp
qed simp

definition ref_varint :: "nat \<Rightarrow> bytes" where
  "ref_varint n =
     (if n < 253 then [of_nat n]
      else if n < 65536 then 253 # le_bytes 2 n
      else if n < 4294967296 then 254 # le_bytes 4 n
      else 255 # le_bytes 8 n)"

definition ref_write :: "bytes \<Rightarrow> cstate \<Rightarrow> bytes \<Rightarrow> (cstate \<times> bytes) eres" where
  "ref_write xs st buf =
     (if cs_start st + length xs \<le> cs_end st \<and> cs_end st \<le> length buf
      then Ok (advance (length xs) st, put buf (cs_start st) xs) else Err OutOfBounds)"

definition ref_read :: "nat \<Rightarrow> bytes decoder" where
  "ref_read n buf st =
     (if cs_start st + n \<le> cs_end st \<and> cs_end st \<le> length buf
      then Ok (slice buf (cs_start st) n, advance n st) else Err OutOfBounds)"

definition ref_grow :: "nat \<Rightarrow> cstate \<Rightarrow> cstate eres" where
  "ref_grow n st = (if cs_end st + n < MAX_USIZE then Ok (extend_end n st) else Err Overflow)"

definition ref_read_varint :: "nat decoder" where
  "ref_read_varint buf st =
     bindR (ref_read 1 buf st) (\<lambda>(bs, st1).
     let b = bs ! 0
     in if unat b < 253 then Ok (unat b, st1)
        else bindR (ref_read (if b = 253 then 2 else if b = 254 then 4 else 8) buf st1) (\<lambda>(bs, st2).
             Ok (le_value bs, st2)))"

definition ref_read_bytes :: "bytes decoder" where
  "ref_read_bytes buf st = bindR (ref_read_varint buf st) (\<lambda>(n, st1). ref_read n buf st1)"

definition string_bytes :: "string \<Rightarrow> bytes" where
  "string_bytes s = map (\<lambda>c. of_nat (of_char c)) s"

definition bytes_string :: "bytes \<Rightarrow> string" where
  "bytes_string bs = map (\<lambda>b. char_of (unat b)) bs"

fun ref_read_strings :: "nat \<Rightarrow> string list decoder" where
  "ref_read_strings 0 buf st = Ok ([], st)"
| "ref_read_strings (Suc n) buf st =
     bindR (ref_read_bytes buf st) (\<lambda>(b, st1).
     bindR (ref_read_strings n buf st1) (\<lambda>(ss, st2). Ok (bytes_string b # ss, st2)))"

definition ref_wire_bytes :: "bytes \<Rightarrow> bytes" where
  "ref_wire_bytes b = ref_varint (length b) @ b"

definition ref_wire_strings :: "string list \<Rightarrow> bytes" where
  "ref_wire_strings ss =
     ref_varint (length ss) @ concat (map (\<lambda>s. ref_wire_bytes (string_bytes s)) ss)"

definition ref_wire :: wire_format where
  "ref_wire =
     \<lparr>w_uint = (\<lambda>n. ref_varint (unat n)), w_usize = ref_varint, w_bytes = ref_wire_bytes,
      w_strings = ref_wire_strings, w_u32 = (\<lambda>n. le_bytes 4 (unat n)),
      w_u64 = (\<lambda>n. le_bytes 8 (unat n))\<rparr>"

definition ref_compact :: compact where
  "ref_compact =
     \<lparr>ce_pre_uint = (\<lambda>n. ref_grow (length (ref_varint (unat n)))),
      ce_enc_uint = (\<lambda>n. ref_write (ref_varint (unat n))),
      ce_dec_uint = (\<lambda>buf st. bindR (ref_read_varint buf st) (\<lambda>(n, st1). Ok (of_nat n, st1))),
      ce_pre_usize = (\<lambda>n. ref_grow (length (ref_varint n))),
      ce_enc_usize = (\<lambda>n. ref_write (ref_varint n)),
      ce_dec_usize = ref_read_varint,
      ce_pre_bytes = (\<lambda>b. ref_grow (length (ref_wire_bytes b))),
      ce_enc_bytes = (\<lambda>b. ref_write (ref_wire_bytes b)),
      ce_dec_bytes = ref_read_bytes,
      ce_pre_strings = (\<lambda>ss. ref_grow (length (ref_wire_strings ss))),
      ce_enc_strings = (\<lambda>ss. ref_write (ref_wire_strings ss)),
      ce_dec_strings = (\<lambda>buf st. bindR (ref_read_varint buf st) (\<lambda>(n, st1). ref_read_strings n buf st1)),
      ce_pre_fixed_32 = ref_grow 32,
      ce_enc_fixed_32 = (\<lambda>b. if length b = 32 then ref_write b else (\<lambda>_ _. Err OutOfBounds)),
      ce_dec_fixed_32 = ref_read 32,
      ce_enc_u32 = (\<lambda>n. ref_write (le_bytes 4 (unat n))),
      ce_dec_u32 = (\<lambda>buf st. bindR (ref_read 4 buf st) (\<lambda>(bs, st1). Ok (of_nat (le_value bs), st1))),
      ce_enc_u64 = (\<lambda>n. ref_write (le_bytes 8 (unat n))),
      ce_dec_u64 = (\<lambda>buf st. bindR (ref_read 8 buf st) (\<lambda>(bs, st1). Ok (of_nat (le_value bs), st1))),
      ce_set_byte = (\<lambda>b. ref_write [b]),
      ce_dec_u8 = (\<lambda>buf st. bindR (ref_read 1 buf st) (\<lambda>(bs, st1). Ok (bs ! 0, st1))),
      ce_add_start = (\<lambda>n st. if cs_start st + n \<le> cs_end st then Ok (advance n st) else Err OutOfBounds),
      ce_add_end = ref_grow,
      ce_set_start = (\<lambda>n st. if n \<le> cs_end st then Ok (st\<lparr>cs_start := n\<rparr>) else Err OutOfBounds),
      ce_create_buffer = (\<lambda>st. replicate (cs_end st) 0),
      ce_new_with_size = (\<lambda>n. (\<lparr>cs_start = 0, cs_end = n\<rparr>, replicate n 0)),
      ce_from_buffer = (\<lambda>buf. \<lparr>cs_start = 0, cs_end = length buf\<rparr>)\<rparr>"

lemma ref_write_ok: "room st (length xs) buf \<Longrightarrow>
    ref_write xs st buf = Ok (advance (length xs) st, put buf (cs_start st) xs)"
  by (simp add: ref_write_def room_def)

lemma ref_read_ok: "room st (length xs) buf \<Longrightarrow> holds_at buf (cs_start st) xs \<Longrightarrow>
    ref_read (length xs) buf st = Ok (xs, advance (length xs) st)"
  by (simp add: ref_read_def room_def holds_at_def)

lemma ref_grow_ok: "cs_end st + n < MAX_USIZE \<Longrightarrow> ref_grow n st = Ok (extend_end n st)"
  by (simp add: ref_grow_def)

lemma ref_read_varint_ok:
  assumes n: "n < MAX_USIZE" and room: "room st (length (ref_varint n)) buf"
    and at: "holds_at buf (cs_start st) (ref_varint n)"
  shows "ref_read_varint buf st = Ok (n, advance (length (ref_varint n)) st)"
proof -
  have long: "ref_read_varint buf st = Ok (n, advance (Suc k) st)"
    if t: "ref_varint n = t # le_bytes k n" "\<not> unat t < 253"
      "k = (if t = 253 then 2 else if t = 254 then 4 else 8)" "n < 256 ^ k" for t k
  proof -
    have at': "holds_at buf (cs_start st) [t]" "holds_at buf (cs_start (advance 1 st)) (le_bytes k n)"
      using at holds_at_append [of buf "cs_start st" "[t]" "le_bytes k n"] unfolding t(1) by simp_all
    have r: "room st 1 buf" "room (advance 1 st) k buf"
      using room unfolding t(1) by (auto simp: room_def)
    have "ref_read 1 buf st = Ok ([t], advance 1 st)"
      using ref_read_ok [of st "[t]" buf] at'(1) r(1) by simp
    moreover have "ref_read k buf (advance 1 st) = Ok (le_bytes k n, advance (1 + k) st)"
      using ref_read_ok [of "advance 1 st" "le_bytes k n" buf] at'(2) r(2) by simp
    ultimately show ?thesis
      using t(2,3) le_value_bytes [OF t(4)] by (auto simp: ref_read_varint_def)
  qed
  show ?thesis
  proof (cases "n < 253")
    case True
    then show ?thesis
      using ref_read_ok [of st "[of_nat n]" buf] room at
      by (simp add: ref_read_varint_def ref_varint_def unat_of_nat_small)
  next
    case False
    then consider "n < 65536" | "\<not> n < 65536" "n < 4294967296" | "\<not> n < 4294967296" by linarith
    then show ?thesis
      using False n long [of 253 2] long [of 254 4] long [of 255 8]
      by cases (simp_all add: ref_varint_def)
  qed
qed

lemma ref_read_bytes_ok:
  assumes n: "length b < MAX_USIZE" and room: "room st (length (ref_wire_bytes b)) buf"
    and at: "holds_at buf (cs_start st) (ref_wire_bytes b)"
  shows "ref_read_bytes buf st = Ok (b, advance (length (ref_wire_bytes b)) st)"
proof -
  let ?v = "ref_varint (length b)"
  have at': "holds_at buf (cs_start st) ?v" "holds_at buf (cs_start (advance (length ?v) st)) b"
    using at unfolding ref_wire_bytes_def holds_at_append by simp_all
  have r: "room st (length ?v) buf" "room (advance (length ?v) st) (length b) buf"
    using room by (auto simp: ref_wire_bytes_def intro: room_less)
  show ?thesis
    using ref_read_varint_ok [OF n r(1) at'(1)] ref_read_ok [OF r(2) at'(2)]
    by (simp add: ref_read_bytes_def ref_wire_bytes_def)
qed

lemma bytes_string_inverse [simp]: "bytes_string (string_bytes s) = s"
proof -
  have "char_of (unat (of_nat (of_char c) :: u8)) = c" for c
    by (simp add: unat_of_nat_small)
  then show ?thesis by (simp add: bytes_string_def string_bytes_def o_def)
qed

lemma ref_read_strings_ok:
  assumes "list_all (\<lambda>s. length s < MAX_USIZE) ss"
    and "room st (length (concat (map (\<lambda>s. ref_wire_bytes (string_bytes s)) ss))) buf"
    and "holds_at buf (cs_start st) (concat (map (\<lambda>s. ref_wire_bytes (string_bytes s)) ss))"
  shows "ref_read_strings (length ss) buf st =
    Ok (ss, advance (length (concat (map (\<lambda>s. ref_wire_bytes (string_bytes s)) ss))) st)"
  using assms
proof (induction ss arbitrary: st)
  case (Cons s ss)
  let ?b = "ref_wire_bytes (string_bytes s)"
  have "ref_read_bytes buf st = Ok (string_bytes s, advance (length ?b) st)"
    using Cons.prems by (intro ref_read_bytes_ok)
      (auto simp: string_bytes_def holds_at_append intro: room_less)
  then show ?case
    using Cons.IH [of "advance (length ?b) st"] Cons.prems by (simp add: holds_at_append)
qed simp

lemma ref_varint_length: "length (ref_varint n) \<le> 9"
  by (simp add: ref_varint_def)

lemma ref_read_one: "room st (Suc 0) buf \<Longrightarrow> holds_at buf (cs_start st) [b] \<Longrightarrow>
    ref_read (Suc 0) buf st = Ok ([b], advance (Suc 0) st)"
  using ref_read_ok [of st "[b]" buf] by simp

lemma ref_read_fixed: "room st n buf \<Longrightarrow> holds_at buf (cs_start st) b \<Longrightarrow> length b = n \<Longrightarrow>
    ref_read n buf st = Ok (b, advance n st)"
  using ref_read_ok [of st b buf] by simp

lemma ref_read_uint:
  assumes "room st (length (ref_varint (unat (v :: u64)))) buf" "holds_at buf (cs_start st) (ref_varint (unat v))"
  shows "ref_read_varint buf st = Ok (unat v, advance (length (ref_varint (unat v))) st)"
  using ref_read_varint_ok [OF _ assms] u64_bound [of v] by simp

lemma ref_wire_bytes_short:
  "length b < 253 \<Longrightarrow> length (ref_wire_bytes b) = Suc (length b)" "ref_wire_bytes [] = [0]"
  "ref_wire_strings [] = [0]"
  by (simp_all add: ref_wire_bytes_def ref_wire_strings_def ref_varint_def)

lemma ref_read_le: "room st (length (le_bytes k n)) buf \<Longrightarrow> holds_at buf (cs_start st) (le_bytes k n) \<Longrightarrow>
    ref_read k buf st = Ok (le_bytes k n, advance k st)"
  using ref_read_ok [of st "le_bytes k n" buf] by simp

lemma u32_le: "of_nat (le_value (le_bytes 4 (unat (x :: u32)))) = x"
proof -
  have "unat x < 2 ^ LENGTH(32)" by (rule unsigned_less)
  then show ?thesis using le_value_bytes [of "unat x" 4] by simp
qed

lemma u64_le: "of_nat (le_value (le_bytes 8 (unat (x :: u64)))) = x"
  using le_value_bytes [of "unat x" 8] u64_bound [of x] by simp

lemma ref_read_wire_strings:
  assumes "length ss < MAX_USIZE \<and> list_all (\<lambda>s. length s < MAX_USIZE) ss"
    and "room st (length (ref_wire_strings ss)) buf" "holds_at buf (cs_start st) (ref_wire_strings ss)"
  shows "bindR (ref_read_varint buf st) (\<lambda>(n, st1). ref_read_strings n buf st1) =
    Ok (ss, advance (length (ref_wire_strings ss)) st)"
proof -
  let ?v = "ref_varint (length ss)" and ?r = "concat (map (\<lambda>s. ref_wire_bytes (string_bytes s)) ss)"
  have w: "ref_wire_strings ss = ?v @ ?r" by (simp add: ref_wire_strings_def)
  have r: "room st (length ?v) buf" "room (advance (length ?v) st) (length ?r) buf"
    using assms(2) room_less unfolding w by fastforce+
  have at': "holds_at buf (cs_start st) ?v" "holds_at buf (cs_start (advance (length ?v) st)) ?r"
    using assms(3) unfolding w holds_at_append by simp_all
  show ?thesis
    using assms(1) ref_read_varint_ok [OF _ r(1) at'(1)] ref_read_strings_ok [OF _ r(2) at'(2)]
    unfolding w by simp
qed

lemma le_bytes_zero: "le_bytes k 0 = replicate k 0"
  by (induction k) auto

lemmas ref_laws = le_bytes_zero ref_write_ok ref_grow_ok ref_read_ok ref_read_varint_ok ref_read_bytes_ok
  ref_read_wire_strings ref_varint_length ref_read_one ref_read_fixed ref_read_uint
  ref_wire_bytes_short ref_read_le u32_le u64_le

interpretation rce: compact_laws ref_compact ref_wire
  by (unfold_locales; simp add: ref_compact_def ref_wire_def ref_laws)

end
