(* ===== verification/Crypto.thy ===== *)
theory Crypto
  imports Common Compact_Encoding
begin

text \<open>
  \<^verbatim>\<open>src/src/crypto/\<close>: the hashes of leaves, parents and roots and the signable buffer
  (\<^verbatim>\<open>hash.rs\<close>), signing and verifying (\<^verbatim>\<open>key_pair.rs\<close>), the manifest (\<^verbatim>\<open>manifest.rs\<close>).

  BLAKE2b, Ed25519 and CRC-32 come from other crates: they are the fields of the parameter
  \<open>crypto\<close>, and the locale \<open>crypto_laws\<close> states what the code relies on.  The parameters of
  the three outside interfaces travel together as a record \<open>libs\<close>, with the fuel of the
  loops that walk the tree (more than 64 steps, the height of a tree over 64-bit indices).  Keys and signatures are
  their bytes.  The theorems on hashes are reductions: two inputs with the same hash give a
  collision of the hash function.
\<close>

section \<open>Parameters\<close>

record crypto =
  cr_blake2b :: "bytes \<Rightarrow> bytes"
  cr_blake2b_mac :: "bytes \<Rightarrow> bytes \<Rightarrow> bytes"
  cr_sign :: "bytes \<Rightarrow> bytes \<Rightarrow> bytes"
  cr_verify :: "bytes \<Rightarrow> bytes \<Rightarrow> bytes \<Rightarrow> bool"
  cr_verifying_key :: "bytes \<Rightarrow> bytes"
  cr_is_verifying_key :: "bytes \<Rightarrow> bool"
  cr_crc32 :: "bytes \<Rightarrow> u32"

record 'it libs =
  lib_ft :: "'it flat_tree"
  lib_ce :: compact
  lib_cr :: crypto
  lib_fuel :: nat

locale crypto_laws =
  fixes cr :: crypto
  assumes verify_sign: "cr_verify cr (cr_verifying_key cr s) m (cr_sign cr s m)"
    and length_sign: "length (cr_sign cr s m) = 64"
    and length_verifying_key: "length (cr_verifying_key cr s) = 32"
    and is_verifying_key: "cr_is_verifying_key cr (cr_verifying_key cr s)"
    and length_blake2b: "length (cr_blake2b cr m) = 32"

locale libs_laws =
  flat: flat_tree_laws "lib_ft L" +
  cenc: compact_laws "lib_ce L" w +
  crypt: crypto_laws "lib_cr L"
  for L :: "'it libs" and w :: wire_format +
  assumes enough_fuel: "64 < lib_fuel L"

text \<open>\<open>Result::expect\<close> and \<open>Result::unwrap\<close>.\<close>

fun unwrap_res :: "('a, 'e) result \<Rightarrow> ('a, 'f) result" where
  "unwrap_res (Ok x) = Ok x"
| "unwrap_res (Err e) = Panic"
| "unwrap_res Panic = Panic"
| "unwrap_res Diverge = Diverge"

section \<open>Hashes\<close>

definition LEAF_TYPE :: bytes where "LEAF_TYPE = [0]"
definition PARENT_TYPE :: bytes where "PARENT_TYPE = [1]"
definition ROOT_TYPE :: bytes where "ROOT_TYPE = [2]"

definition HYPERCORE :: bytes where
  "HYPERCORE = [0x68, 0x79, 0x70, 0x65, 0x72, 0x63, 0x6F, 0x72, 0x65]"

definition TREE :: bytes where
  "TREE = [
    0x9F, 0xAC, 0x70, 0xB5, 0xC, 0xA1, 0x4E, 0xFC, 0x4E, 0x91, 0xC8, 0x33, 0xB2, 0x4, 0xE7, 0x5B,
    0x8B, 0x5A, 0xAD, 0x8B, 0x58, 0x81, 0xBF, 0xC0, 0xAD, 0xB5, 0xEF, 0x38, 0xA3, 0x27, 0x5B, 0x9C]"

definition u64_as_be :: "u64 \<Rightarrow> bytes" where
  "u64_as_be n = map (\<lambda>i. ucast (drop_bit (8 * i) n)) (rev [0 ..< 8])"

definition hash_from_leaf :: "'it libs \<Rightarrow> bytes \<Rightarrow> bytes" where
  "hash_from_leaf L data =
     cr_blake2b (lib_cr L) (LEAF_TYPE @ u64_as_be (of_nat (length data)) @ data)"

definition hash_from_hashes :: "'it libs \<Rightarrow> node \<Rightarrow> node \<Rightarrow> bytes" where
  "hash_from_hashes L left right =
     (let (node1, node2) = (if n_index left \<le> n_index right then (left, right) else (right, left))
      in cr_blake2b (lib_cr L)
           (PARENT_TYPE @ u64_as_be (n_length node1 + n_length node2) @ n_hash node1 @ n_hash node2))"

definition hash_for_discovery_key :: "'it libs \<Rightarrow> bytes \<Rightarrow> bytes" where
  "hash_for_discovery_key L public_key = cr_blake2b_mac (lib_cr L) public_key HYPERCORE"

definition hash_from_roots :: "'it libs \<Rightarrow> node list \<Rightarrow> bytes" where
  "hash_from_roots L roots =
     cr_blake2b (lib_cr L) (ROOT_TYPE @
       concat (map (\<lambda>n. n_hash n @ u64_as_be (n_index n) @ u64_as_be (n_length n)) roots))"

definition hash_data :: "'it libs \<Rightarrow> bytes \<Rightarrow> bytes hres" where
  "hash_data L data =
     (let (st, size) = ce_new_with_size (lib_ce L) 8
      in bindR (unwrap_res (ce_enc_u64 (lib_ce L) (of_nat (length data)) st size)) (\<lambda>(st, size).
         Ok (cr_blake2b (lib_cr L) (LEAF_TYPE @ size @ data))))"

definition hash_parent :: "'it libs \<Rightarrow> node \<Rightarrow> node \<Rightarrow> bytes hres" where
  "hash_parent L left right =
     (let (node1, node2) = (if n_index left \<le> n_index right then (left, right) else (right, left));
          (st, size) = ce_new_with_size (lib_ce L) 8
      in bindR (unwrap_res (ce_enc_u64 (lib_ce L) (n_length node1 + n_length node2) st size)) (\<lambda>(st, size).
         Ok (cr_blake2b (lib_cr L) (PARENT_TYPE @ size @ n_hash node1 @ n_hash node2))))"

fun hash_tree_loop :: "'it libs \<Rightarrow> node list \<Rightarrow> bytes \<Rightarrow> bytes hres" where
  "hash_tree_loop L [] acc = Ok acc"
| "hash_tree_loop L (n # roots) acc =
     (let (st, buffer) = ce_new_with_size (lib_ce L) 16
      in bindR (unwrap_res (ce_enc_u64 (lib_ce L) (n_index n) st buffer)) (\<lambda>(st, buffer).
         bindR (unwrap_res (ce_enc_u64 (lib_ce L) (n_length n) st buffer)) (\<lambda>(st, buffer).
         hash_tree_loop L roots (acc @ n_hash n @ take 8 buffer @ drop 8 buffer))))"

definition hash_tree :: "'it libs \<Rightarrow> node list \<Rightarrow> bytes hres" where
  "hash_tree L roots =
     bindR (hash_tree_loop L roots ROOT_TYPE) (\<lambda>acc. Ok (cr_blake2b (lib_cr L) acc))"

definition signable_tree :: "'it libs \<Rightarrow> bytes \<Rightarrow> u64 \<Rightarrow> u64 \<Rightarrow> bytes hres" where
  "signable_tree L hash len fork =
     (let (st, buffer) = ce_new_with_size (lib_ce L) 80
      in bindR (unwrap_res (ce_enc_fixed_32 (lib_ce L) TREE st buffer)) (\<lambda>(st, buffer).
         bindR (unwrap_res (ce_enc_fixed_32 (lib_ce L) hash st buffer)) (\<lambda>(st, buffer).
         bindR (unwrap_res (ce_enc_u64 (lib_ce L) len st buffer)) (\<lambda>(st, buffer).
         bindR (unwrap_res (ce_enc_u64 (lib_ce L) fork st buffer)) (\<lambda>(st, buffer).
         Ok buffer)))))"

section \<open>Keys\<close>

record partial_keypair =
  kp_public :: bytes
  kp_secret :: "bytes option"

definition sign :: "'it libs \<Rightarrow> bytes \<Rightarrow> bytes \<Rightarrow> bytes" where
  "sign L signing_key msg = cr_sign (lib_cr L) signing_key msg"

definition verify :: "'it libs \<Rightarrow> bytes \<Rightarrow> bytes \<Rightarrow> bytes option \<Rightarrow> unit hres" where
  "verify L public msg sig =
     (case sig of
        None \<Rightarrow> Err InvalidSignature
      | Some sig \<Rightarrow> if cr_verify (lib_cr L) public msg sig then Ok () else Err InvalidSignature)"

section \<open>The manifest\<close>

record manifest_signer =
  ms_signature :: string
  ms_namespace :: bytes
  ms_public_key :: bytes

record manifest =
  mf_hash :: string
  mf_signer :: manifest_signer

definition DEFAULT_NAMESPACE :: bytes where
  "DEFAULT_NAMESPACE = [
    0x41, 0x44, 0xEE, 0xA5, 0x31, 0xE4, 0x83, 0xD5, 0x4E, 0x0C, 0x14, 0xF4, 0xCA, 0x68, 0xE0, 0x64,
    0x4F, 0x35, 0x53, 0x43, 0xFF, 0x6F, 0xCB, 0x0F, 0x00, 0x52, 0x00, 0xE1, 0x2C, 0xD7, 0x47, 0xCB]"

definition default_signer_manifest :: "bytes \<Rightarrow> manifest" where
  "default_signer_manifest public_key =
     \<lparr>mf_hash = ''blake2b'',
      mf_signer = \<lparr>ms_signature = ''ed25519'', ms_namespace = DEFAULT_NAMESPACE,
        ms_public_key = public_key\<rparr>\<rparr>"

section \<open>The hashed bytes\<close>

text \<open>What each hash is of, in terms of the wire form of integers.\<close>

definition leaf_input :: "wire_format \<Rightarrow> bytes \<Rightarrow> bytes" where
  "leaf_input w data = 0 # w_u64 w (of_nat (length data)) @ data"

definition parent_input :: "wire_format \<Rightarrow> u64 \<Rightarrow> bytes \<Rightarrow> bytes \<Rightarrow> bytes" where
  "parent_input w len h1 h2 = 1 # w_u64 w len @ h1 @ h2"

definition root_input :: "wire_format \<Rightarrow> node list \<Rightarrow> bytes" where
  "root_input w roots =
     2 # concat (map (\<lambda>n. n_hash n @ w_u64 w (n_index n) @ w_u64 w (n_length n)) roots)"

definition collision :: "crypto \<Rightarrow> bytes \<Rightarrow> bytes \<Rightarrow> bool" where
  "collision cr a b \<longleftrightarrow> a \<noteq> b \<and> cr_blake2b cr a = cr_blake2b cr b"

context libs_laws
begin

lemma fresh_buffer: "length xs = n \<Longrightarrow> put (replicate n 0) 0 xs = xs"
  by (auto simp: put_def)

lemma room_fresh: "m \<le> n \<Longrightarrow> room \<lparr>cs_start = 0, cs_end = n\<rparr> m (replicate n z)"
  by (simp add: room_def)

lemma hash_data_eq: "hash_data L data = Ok (cr_blake2b (lib_cr L) (leaf_input w data))"
  unfolding hash_data_def
  by (simp add: cenc.new_with_size cenc.u64c.enc_law room_fresh cenc.length_w_u64 fresh_buffer
      LEAF_TYPE_def leaf_input_def)

lemma hash_parent_eq:
  "hash_parent L a b = Ok (cr_blake2b (lib_cr L)
     (if n_index a \<le> n_index b then parent_input w (n_length a + n_length b) (n_hash a) (n_hash b)
      else parent_input w (n_length b + n_length a) (n_hash b) (n_hash a)))"
  unfolding hash_parent_def
  by (simp add: cenc.new_with_size cenc.u64c.enc_law room_fresh cenc.length_w_u64 fresh_buffer
      PARENT_TYPE_def parent_input_def)

lemma hash_tree_loop_eq:
  "hash_tree_loop L roots acc =
    Ok (acc @ concat (map (\<lambda>n. n_hash n @ w_u64 w (n_index n) @ w_u64 w (n_length n)) roots))"
proof (induction roots arbitrary: acc)
  case (Cons n roots)
  let ?st = "\<lparr>cs_start = 0, cs_end = 16\<rparr> :: cstate"
  let ?b = "put (replicate 16 0) 0 (w_u64 w (n_index n)) :: bytes"
  have "length ?b = 16" by (simp add: length_put cenc.length_w_u64)
  moreover have "put ?b 8 (w_u64 w (n_length n)) = w_u64 w (n_index n) @ w_u64 w (n_length n)"
    using cenc.length_w_u64 put_append [of 0 "w_u64 w (n_index n)" "w_u64 w (n_length n)" "replicate 16 0"]
    by (simp add: fresh_buffer)
  ultimately show ?case
    using Cons.IH
    by (simp add: cenc.new_with_size cenc.u64c.enc_law room_def cenc.length_w_u64 Let_def)
qed simp

lemma hash_tree_eq: "hash_tree L roots = Ok (cr_blake2b (lib_cr L) (root_input w roots))"
  by (simp add: hash_tree_def hash_tree_loop_eq ROOT_TYPE_def root_input_def)

lemma length_TREE: "length TREE = 32"
  by (simp add: TREE_def)

lemma signable_tree_eq:
  assumes "length hash = 32"
  shows "signable_tree L hash len fork = Ok (TREE @ hash @ w_u64 w len @ w_u64 w fork)"
  using assms length_TREE cenc.length_w_u64
  by (simp add: signable_tree_def cenc.new_with_size cenc.fixed32c.enc_law cenc.u64c.enc_law room_def
      length_put put_chain fresh_buffer Let_def)

lemma same_u64: "w_u64 w a @ xs = w_u64 w b @ ys \<longleftrightarrow> a = b \<and> xs = ys"
  using cenc.u64c.wire_inject [of a b] cenc.length_w_u64 by (auto simp: append_eq_append_conv)

text \<open>Equal parent hashes bind the sizes and the child hashes, unless the hash function collides.\<close>

lemma parent_input_inject:
  assumes "parent_input w len h1 h2 = parent_input w len' h1' h2'" "length h1 = length h1'"
  shows "len = len' \<and> h1 = h1' \<and> h2 = h2'"
  using assms by (auto simp: parent_input_def same_u64)

lemma leaf_input_inject: "leaf_input w d = leaf_input w d' \<Longrightarrow> d = d'"
  by (auto simp: leaf_input_def same_u64)

lemma root_input_inject:
  assumes "root_input w rs = root_input w rs'"
    and "list_all (\<lambda>n. length (n_hash n) = 32) rs" "list_all (\<lambda>n. length (n_hash n) = 32) rs'"
  shows "map (\<lambda>n. (n_hash n, n_index n, n_length n)) rs = map (\<lambda>n. (n_hash n, n_index n, n_length n)) rs'"
proof -
  let ?e = "\<lambda>n. n_hash n @ w_u64 w (n_index n) @ w_u64 w (n_length n)"
  have "concat (map ?e rs) = concat (map ?e rs')" using assms(1) by (simp add: root_input_def)
  then show ?thesis using assms(2,3)
  proof (induction rs arbitrary: rs')
    case Nil
    then show ?case by (cases rs') auto
  next
    case (Cons n rs)
    then obtain n' rs2 where rs': "rs' = n' # rs2" by (cases rs') auto
    have "n_hash n = n_hash n'" "n_index n = n_index n'" "n_length n = n_length n'"
      "concat (map ?e rs) = concat (map ?e rs2)"
      using Cons.prems unfolding rs' by (auto simp: append_eq_append_conv same_u64)
    then show ?case using Cons.IH [of rs2] Cons.prems unfolding rs' by simp
  qed
qed

lemma domains_differ:
  "leaf_input w d \<noteq> parent_input w len h1 h2" "leaf_input w d \<noteq> root_input w rs"
  "parent_input w len h1 h2 \<noteq> root_input w rs"
  by (simp_all add: leaf_input_def parent_input_def root_input_def)

lemma signable_tree_inject:
  assumes "length h = 32" "length h' = 32" "signable_tree L h n f = signable_tree L h' n' f'"
  shows "h = h' \<and> n = n' \<and> f = f'"
proof -
  have "h @ w_u64 w n @ w_u64 w f = h' @ w_u64 w n' @ w_u64 w f'"
    using assms by (simp add: signable_tree_eq)
  then have "h = h'" "w_u64 w n @ w_u64 w f @ [] = w_u64 w n' @ w_u64 w f' @ []"
    using assms(1,2) by simp_all
  then show ?thesis unfolding same_u64 by blast
qed

lemma verify_signed: "verify L (cr_verifying_key (lib_cr L) s) m (Some (sign L s m)) = Ok ()"
  by (simp add: verify_def sign_def crypt.verify_sign)

end

section \<open>An instance of the parameters\<close>

text \<open>Not cryptography: a checksum and a keyed tag with the right lengths, to evaluate the
  model on concrete inputs.\<close>

definition ref_digest :: "bytes \<Rightarrow> bytes" where
  "ref_digest m = 1 # le_bytes 31 (fold (\<lambda>b acc. (acc * 257 + unat b + 1) mod 256 ^ 31) m 0)"

definition ref_key :: "bytes \<Rightarrow> bytes" where
  "ref_key s = take 32 (s @ replicate 32 0)"

definition ref_crypto :: crypto where
  "ref_crypto =
     \<lparr>cr_blake2b = ref_digest,
      cr_blake2b_mac = (\<lambda>k m. ref_digest (k @ m)),
      cr_sign = (\<lambda>s m. ref_key s @ ref_digest m),
      cr_verify = (\<lambda>p m sig. sig = p @ ref_digest m),
      cr_verifying_key = ref_key,
      cr_is_verifying_key = (\<lambda>p. length p = 32),
      cr_crc32 = (\<lambda>m. fold (\<lambda>b acc. acc * 257 + ucast b + 1) m 0)\<rparr>"

interpretation rcr: crypto_laws ref_crypto
  by unfold_locales (simp_all add: ref_crypto_def ref_digest_def ref_key_def)

definition ref_libs :: "(nat \<times> u64) libs" where
  "ref_libs = \<lparr>lib_ft = ref_flat_tree, lib_ce = ref_compact, lib_cr = ref_crypto,
     lib_fuel = 65\<rparr>"

lemma ref_libs_simps [simp]:
  "lib_ft ref_libs = ref_flat_tree" "lib_ce ref_libs = ref_compact" "lib_cr ref_libs = ref_crypto"
  "lib_fuel ref_libs = 65"
  by (simp_all add: ref_libs_def)

interpretation rl: libs_laws ref_libs ref_wire
  by (intro libs_laws.intro libs_laws_axioms.intro; simp add: rft.flat_tree_laws_axioms rce.compact_laws_axioms rcr.crypto_laws_axioms)

end
