(* ===== verification/Changeset.thy ===== *)
theory Changeset
  imports Crypto
begin

text \<open>
  \<^verbatim>\<open>src/src/tree/merkle_tree_changeset.rs\<close>: a set of changes to the Merkle tree, prepared
  before it is committed.  The reference is \<open>merkle_roots\<close>, the roots of a list of blocks
  computed by recursion over complete subtrees; appending blocks one by one keeps the roots
  of the changeset equal to it.
\<close>

section \<open>State and operations\<close>

record changeset =
  cg_length :: u64
  cg_ancestors :: u64
  cg_byte_length :: u64
  cg_batch_length :: u64
  cg_fork :: u64
  cg_roots :: "node list"
  cg_nodes :: "node list"
  cg_hash :: "bytes option"
  cg_signature :: "bytes option"
  cg_upgraded :: bool
  cg_original_tree_length :: u64
  cg_original_tree_fork :: u64

definition changeset_new :: "u64 \<Rightarrow> u64 \<Rightarrow> u64 \<Rightarrow> node list \<Rightarrow> changeset" where
  "changeset_new len byte_length fork roots =
     \<lparr>cg_length = len, cg_ancestors = len, cg_byte_length = byte_length, cg_batch_length = 0,
      cg_fork = fork, cg_roots = roots, cg_nodes = [], cg_hash = None, cg_signature = None,
      cg_upgraded = False, cg_original_tree_length = len, cg_original_tree_fork = fork\<rparr>"

text \<open>The loop of \<open>append_root\<close> on the roots, the collected nodes and the iterator.\<close>

function append_root_loop ::
  "'it libs \<Rightarrow> node list \<Rightarrow> node list \<Rightarrow> 'it \<Rightarrow> (node list \<times> node list \<times> 'it) hres" where
  "append_root_loop L roots nodes it =
     (if length roots > 1 then
        let a = roots ! (length roots - 1);
            b = roots ! (length roots - 2);
            it1 = ft_sibling (lib_ft L) it
        in if ft_index (lib_ft L) it1 \<noteq> n_index b then Ok (roots, nodes, ft_sibling (lib_ft L) it1)
           else let it2 = ft_parent (lib_ft L) it1
                in bindR (hash_parent L a b) (\<lambda>hash.
                   let n = node_new (lib_ft L) (ft_index (lib_ft L) it2) hash (n_length a + n_length b)
                   in append_root_loop L (butlast (butlast roots) @ [n]) (nodes @ [n]) it2)
      else Ok (roots, nodes, it))"
  by pat_completeness auto
termination
  by (relation "measure (\<lambda>(L, roots, nodes, it). length roots)") auto

declare append_root_loop.simps [simp del]

definition append_root :: "'it libs \<Rightarrow> changeset \<Rightarrow> node \<Rightarrow> 'it \<Rightarrow> (changeset \<times> 'it) hres" where
  "append_root L cg n it =
     bindR (append_root_loop L (cg_roots cg @ [n]) (cg_nodes cg @ [n]) it) (\<lambda>(roots, nodes, it').
     Ok (cg\<lparr>cg_upgraded := True,
            cg_length := cg_length cg + ft_factor (lib_ft L) it div 2,
            cg_byte_length := cg_byte_length cg + n_length n,
            cg_roots := roots, cg_nodes := nodes\<rparr>, it'))"

definition changeset_append :: "'it libs \<Rightarrow> changeset \<Rightarrow> bytes \<Rightarrow> (changeset \<times> nat) hres" where
  "changeset_append L cg data =
     (let len = length data; head = cg_length cg * 2; it = ft_new (lib_ft L) head
      in bindR (hash_data L data) (\<lambda>hash.
         bindR (append_root L cg (node_new (lib_ft L) head hash (of_nat len)) it) (\<lambda>(cg, it).
         Ok (cg\<lparr>cg_batch_length := cg_batch_length cg + 1\<rparr>, len))))"

text \<open>Method \<open>hash\<close>, and \<open>signable\<close>.\<close>

definition changeset_hash :: "'it libs \<Rightarrow> changeset \<Rightarrow> bytes hres" where
  "changeset_hash L cg = hash_tree L (cg_roots cg)"

definition changeset_signable :: "'it libs \<Rightarrow> changeset \<Rightarrow> bytes \<Rightarrow> bytes hres" where
  "changeset_signable L cg hash = signable_tree L hash (cg_length cg) (cg_fork cg)"

definition hash_and_sign :: "'it libs \<Rightarrow> changeset \<Rightarrow> bytes \<Rightarrow> changeset hres" where
  "hash_and_sign L cg signing_key =
     bindR (changeset_hash L cg) (\<lambda>hash.
     bindR (changeset_signable L cg hash) (\<lambda>signable.
     Ok (cg\<lparr>cg_hash := Some hash, cg_signature := Some (sign L signing_key signable)\<rparr>)))"

definition SIGNATURE_LENGTH :: nat where "SIGNATURE_LENGTH = 64"

text \<open>\<open>Signature::try_from\<close> takes exactly 64 bytes.\<close>

definition signature_try_from :: "bytes \<Rightarrow> bytes option" where
  "signature_try_from b = (if length b = SIGNATURE_LENGTH then Some b else None)"

definition verify_and_set_signature :: "'it libs \<Rightarrow> changeset \<Rightarrow> bytes \<Rightarrow> bytes \<Rightarrow> changeset hres" where
  "verify_and_set_signature L cg signature public_key =
     (case signature_try_from signature of
        None \<Rightarrow> Err InvalidSignature
      | Some signature \<Rightarrow>
          bindR (changeset_hash L cg) (\<lambda>hash.
          bindR (changeset_signable L cg hash) (\<lambda>signable.
          bindR (verify L public_key signable (Some signature)) (\<lambda>_.
          Ok (cg\<lparr>cg_hash := Some hash, cg_signature := Some signature\<rparr>)))))"

section \<open>The reference: Merkle trees of a list of blocks\<close>

definition subtree_size :: "bytes list \<Rightarrow> nat \<Rightarrow> nat \<Rightarrow> nat" where
  "subtree_size bs d off = sum_list (map length (slice bs (off * 2 ^ d) (2 ^ d)))"

fun merkle_hash :: "crypto \<Rightarrow> wire_format \<Rightarrow> bytes list \<Rightarrow> nat \<Rightarrow> nat \<Rightarrow> bytes" where
  "merkle_hash cr w bs 0 off = cr_blake2b cr (leaf_input w (bs ! off))"
| "merkle_hash cr w bs (Suc d) off =
     cr_blake2b cr (parent_input w (of_nat (subtree_size bs (Suc d) off))
       (merkle_hash cr w bs d (2 * off)) (merkle_hash cr w bs d (2 * off + 1)))"

definition merkle_node :: "'it libs \<Rightarrow> wire_format \<Rightarrow> bytes list \<Rightarrow> nat \<times> nat \<Rightarrow> node" where
  "merkle_node L w bs p =
     (case p of (d, off) \<Rightarrow>
        node_new (lib_ft L) (of_nat (tree_index d off)) (merkle_hash (lib_cr L) w bs d off)
          (of_nat (subtree_size bs d off)))"

definition merkle_roots :: "'it libs \<Rightarrow> wire_format \<Rightarrow> bytes list \<Rightarrow> node list" where
  "merkle_roots L w bs = map (merkle_node L w bs) (root_positions (length bs))"

text \<open>The subtrees that end exactly at block \<open>n\<close>, from the leaf up.\<close>

definition completed_at :: "nat \<Rightarrow> (nat \<times> nat) list" where
  "completed_at n = map (\<lambda>d. (d, n div 2 ^ d - 1)) [0 ..< Suc (trailing_zeros n)]"

definition byte_size :: "bytes list \<Rightarrow> nat" where
  "byte_size bs = sum_list (map length bs)"

lemma subtree_size_Suc:
  "subtree_size bs (Suc d) off = subtree_size bs d (2 * off) + subtree_size bs d (2 * off + 1)"
proof -
  have "slice bs (off * 2 ^ Suc d) (2 ^ Suc d) =
    slice bs (2 * off * 2 ^ d) (2 ^ d) @ slice bs ((2 * off + 1) * 2 ^ d) (2 ^ d)"
    by (simp add: slice_def mult_2 take_add algebra_simps)
  then show ?thesis by (simp add: subtree_size_def)
qed

lemma subtree_size_prefix:
  "(off + 1) * 2 ^ d \<le> length bs \<Longrightarrow> subtree_size (bs @ cs) d off = subtree_size bs d off"
  by (simp add: subtree_size_def slice_def algebra_simps)

lemma merkle_hash_prefix:
  "(off + 1) * 2 ^ d \<le> length bs \<Longrightarrow> merkle_hash cr w (bs @ cs) d off = merkle_hash cr w bs d off"
proof (induction d arbitrary: off)
  case 0
  then show ?case by (simp add: nth_append)
next
  case (Suc d)
  have "(2 * off + 1) * 2 ^ d \<le> length bs" "(2 * off + 1 + 1) * 2 ^ d \<le> length bs"
    using Suc.prems by (simp_all add: algebra_simps)
  then show ?case
    using Suc.IH [of "2 * off"] Suc.IH [of "2 * off + 1"] subtree_size_prefix [OF Suc.prems] by simp
qed

lemma merkle_node_prefix:
  "(off + 1) * 2 ^ d \<le> length bs \<Longrightarrow> merkle_node L w (bs @ cs) (d, off) = merkle_node L w bs (d, off)"
  by (simp add: merkle_node_def merkle_hash_prefix subtree_size_prefix)

lemma merkle_roots_prefix:
  "map (merkle_node L w (bs @ cs)) (root_positions (length bs)) = merkle_roots L w bs"
  using rchain_positions [OF rchain_root_positions, of _ _ "length bs"] merkle_node_prefix
  by (fastforce simp: merkle_roots_def)

lemma merkle_node_sel [simp]:
  "n_index (merkle_node L w bs (d, off)) = of_nat (tree_index d off)"
  "n_hash (merkle_node L w bs (d, off)) = merkle_hash (lib_cr L) w bs d off"
  "n_length (merkle_node L w bs (d, off)) = of_nat (subtree_size bs d off)"
  by (simp_all add: merkle_node_def node_new_def)

lemma completed_at_step:
  assumes "n = (off + 1) * 2 ^ d"
  shows "map (\<lambda>d. (d, n div 2 ^ d - 1)) [d ..< Suc (trailing_zeros n)] =
    (d, off) # (if odd off then map (\<lambda>d. (d, n div 2 ^ d - 1)) [Suc d ..< Suc (trailing_zeros n)] else [])"
proof (cases "odd off")
  case True
  then obtain k where k: "off + 1 = 2 * k" "0 < k" by (metis evenE odd_even_add odd_one add_gr_0 less_one nat_0_less_mult_iff)
  have "Suc d \<le> trailing_zeros n"
  proof -
    obtain m where m: "odd m" "n = m * 2 ^ trailing_zeros n" using odd_part [of n] assms k by auto
    show ?thesis
    proof (rule ccontr)
      assume "\<not> Suc d \<le> trailing_zeros n"
      then have "2 ^ Suc (trailing_zeros n) dvd (2 :: nat) ^ Suc d" by (intro le_imp_power_dvd) simp
      moreover have "2 ^ Suc d dvd n" unfolding assms k(1) by simp
      ultimately have "2 ^ Suc (trailing_zeros n) dvd m * 2 ^ trailing_zeros n"
        using m(2) by (metis dvd_trans)
      with m(1) show False by simp
    qed
  qed
  with True assms show ?thesis by (simp add: upt_conv_Cons)
next
  case False
  then have "trailing_zeros n = d" unfolding assms by (intro trailing_zeros_odd) simp
  with False assms show ?thesis by simp
qed

context libs_laws
begin

lemma pos_okI:
  assumes "(off + 1) * 2 ^ d \<le> n" "n \<le> 2 ^ 62"
  shows "pos_ok d off" "pos_ok d (off + 1)"
proof -
  have "1 * 2 ^ d \<le> (off + 1) * 2 ^ d" by (intro mult_le_mono1) simp
  with assms have p: "2 ^ d \<le> (2 :: nat) ^ 62" by linarith
  then have d: "d \<le> 62" using power_le_imp_le_exp [of "2 :: nat" d 62] by simp
  show "pos_ok d off" using assms d by (simp add: pos_ok_def)
  have "(off + 1 + 1) * 2 ^ d = (off + 1) * 2 ^ d + 2 ^ d" by simp
  with assms p d show "pos_ok d (off + 1)" by (simp add: pos_ok_def del: mult_Suc)
qed

lemma index_eq: "pos_ok d off \<Longrightarrow> unat (of_nat (tree_index d off) :: u64) = tree_index d off"
  using pos_ok_index [of d off] by (simp add: unat_of_nat64)

text \<open>Joining two sibling nodes of the reference tree gives their parent.\<close>

lemma merkle_parent:
  assumes odd: "odd off" and ok: "pos_ok d off" "pos_ok (Suc d) (off div 2)" and it: "ft_at (lib_ft L) it (Suc d) (off div 2)"
  shows "\<exists>h. hash_parent L (merkle_node L w bs (d, off)) (merkle_node L w bs (d, off - 1)) = Ok h \<and>
    node_new (lib_ft L) (ft_index (lib_ft L) it) h
      (n_length (merkle_node L w bs (d, off)) + n_length (merkle_node L w bs (d, off - 1))) =
    merkle_node L w bs (Suc d, off div 2)"
proof -
  have off: "off = 2 * (off div 2) + 1" "off - 1 = 2 * (off div 2)" using odd by presburger+
  have pos: "pos_ok d (off - 1)" using ok(1) by (rule pos_ok_mono) simp
  have "tree_index d (off - 1) < tree_index d off"
    using off(1) tree_index_bound [of d "off - 1"] tree_index_ge [of off d] odd_pos [OF odd] by simp
  then have "\<not> (of_nat (tree_index d off) :: u64) \<le> of_nat (tree_index d (off - 1))"
    using index_eq [OF ok(1)] index_eq [OF pos] by (simp add: word_le_nat_alt)
  moreover have "ft_index (lib_ft L) it = of_nat (tree_index (Suc d) (off div 2))"
    using it unfolding ft_at_def by (metis of_nat_unat_same)
  moreover have size: "subtree_size bs (Suc d) (off div 2) = subtree_size bs d (off - 1) + subtree_size bs d off"
    using subtree_size_Suc [of bs d "off div 2"] off by metis
  moreover have "merkle_hash (lib_cr L) w bs (Suc d) (off div 2) = cr_blake2b (lib_cr L)
      (parent_input w (of_nat (subtree_size bs (Suc d) (off div 2)))
        (merkle_hash (lib_cr L) w bs d (off - 1)) (merkle_hash (lib_cr L) w bs d off))"
    using merkle_hash.simps(2) [of "lib_cr L" w bs d "off div 2"] off by metis
  ultimately show ?thesis
    by (simp add: hash_parent_eq merkle_node_def [of L w bs "(Suc d, off div 2)"] add.commute
        del: merkle_hash.simps)
qed

lemma append_root_loop_step:
  fixes bs :: "bytes list"
  defines "N \<equiv> merkle_node L w bs"
  shows "append_root_loop L (map N (rev (p # qs) @ [(d, off)])) nodes it =
    (if ft_index (lib_ft L) (ft_sibling (lib_ft L) it) \<noteq> n_index (N p)
     then Ok (map N (rev (p # qs) @ [(d, off)]), nodes, ft_sibling (lib_ft L) (ft_sibling (lib_ft L) it))
     else let it2 = ft_parent (lib_ft L) (ft_sibling (lib_ft L) it)
          in bindR (hash_parent L (N (d, off)) (N p)) (\<lambda>hash.
             let n = node_new (lib_ft L) (ft_index (lib_ft L) it2) hash (n_length (N (d, off)) + n_length (N p))
             in append_root_loop L (map N (rev qs) @ [n]) (nodes @ [n]) it2))"
proof -
  have roots: "map N (rev (p # qs) @ [(d, off)]) = map N (rev qs) @ [N p, N (d, off)]" by simp
  show ?thesis unfolding roots by (subst append_root_loop.simps) (simp add: nth_append butlast_append Let_def)
qed

text \<open>A root behind its left sibling is merged with it.\<close>

lemma append_root_merge:
  assumes len: "length bs = (off + 1) * 2 ^ d" "length bs \<le> 2 ^ 62" and it: "ft_at (lib_ft L) it d off" and odd: "odd off"
  defines "it2 \<equiv> ft_parent (lib_ft L) (ft_sibling (lib_ft L) it)" and "N \<equiv> merkle_node L w bs"
  shows "append_root_loop L (map N (rev ((d, off - 1) # qs) @ [(d, off)])) nodes it =
      append_root_loop L (map N (rev qs @ [(Suc d, off div 2)])) (nodes @ [N (Suc d, off div 2)]) it2"
    "ft_at (lib_ft L) it2 (Suc d) (off div 2)" "length bs = (off div 2 + 1) * 2 ^ Suc d" "(off - 1) * 2 ^ d = off div 2 * 2 ^ Suc d"
proof -
  let ?it1 = "ft_sibling (lib_ft L) it"
  have ok: "pos_ok d off" using pos_okI [of off d "length bs"] len by simp
  show up: "length bs = (off div 2 + 1) * 2 ^ Suc d" "(off - 1) * 2 ^ d = off div 2 * 2 ^ Suc d"
    using len(1) odd by (auto elim!: oddE)
  have okp: "pos_ok (Suc d) (off div 2)" using pos_okI(1) [of "off div 2" "Suc d" "length bs"] up(1) len(2) by simp
  have oks: "pos_ok d (sibling_offset off)" "sibling_offset off = off - 1"
    using pos_ok_mono [OF ok, of "off - 1"] odd by (simp_all add: sibling_offset_def)
  have it1: "ft_at (lib_ft L) ?it1 d (off - 1)" using flat.sibling [OF it ok oks(1)] oks(2) by simp
  then have idx: "ft_index (lib_ft L) ?it1 = n_index (N (d, off - 1))"
    unfolding ft_at_def N_def merkle_node_sel by (metis of_nat_unat_same)
  have "(off - 1) div 2 = off div 2" using odd by presburger
  then show it2: "ft_at (lib_ft L) it2 (Suc d) (off div 2)" unfolding it2_def using flat.parent [OF it1] okp by simp
  obtain h where "hash_parent L (N (d, off)) (N (d, off - 1)) = Ok h"
    "node_new (lib_ft L) (ft_index (lib_ft L) it2) h (n_length (N (d, off)) + n_length (N (d, off - 1))) = N (Suc d, off div 2)"
    using merkle_parent [OF odd ok okp it2, of bs] unfolding N_def by blast
  then show "append_root_loop L (map N (rev ((d, off - 1) # qs) @ [(d, off)])) nodes it =
      append_root_loop L (map N (rev qs @ [(Suc d, off div 2)])) (nodes @ [N (Suc d, off div 2)]) it2"
    unfolding append_root_loop_step [of bs, folded N_def] it2_def [symmetric] using idx by (simp add: Let_def)
qed

text \<open>An even root stays, and the iterator returns to it.\<close>

lemma append_root_stop:
  assumes len: "length bs = (off + 1) * 2 ^ d" "length bs \<le> 2 ^ 62" and chain: "rchain (off * 2 ^ d) (p # qs)"
    and it: "ft_at (lib_ft L) it d off" and even: "even off"
  shows "\<exists>it'. append_root_loop L (map (merkle_node L w bs) (rev (p # qs) @ [(d, off)])) nodes it = Ok (merkle_roots L w bs, nodes, it') \<and>
    ft_at (lib_ft L) it' d off"
proof -
  let ?it1 = "ft_sibling (lib_ft L) it"
  obtain e q where p: "p = (e, q)" by (cases p)
  have ok: "pos_ok d off" "pos_ok d (off + 1)" using pos_okI [of off d "length bs"] len by simp_all
  have "rchain (length bs) ((d, off) # p # qs)" using even len(1) chain by simp
  then have pos: "root_positions (length bs) = rev (p # qs) @ [(d, off)]" using rchain_unique by fastforce
  have le: "(q + 1) * 2 ^ e \<le> off * 2 ^ d" using chain by (simp add: p)
  have it1: "ft_at (lib_ft L) ?it1 d (off + 1)" using flat.sibling [OF it ok(1)] ok(2) even by (simp add: sibling_offset_def)
  have it2: "ft_at (lib_ft L) (ft_sibling (lib_ft L) ?it1) d off"
    using flat.sibling [OF it1 ok(2)] ok(1) even by (simp add: sibling_offset_def)
  have "off * 2 ^ d \<le> length bs" unfolding len(1) by simp
  then have "pos_ok e q" using le pos_okI(1) [of q e "length bs"] len(2) by linarith
  moreover have "tree_index e q < tree_index d (off + 1)"
    using tree_index_bound [of e q] tree_index_ge [of "off + 1" d] le by (simp add: algebra_simps)
  ultimately have "ft_index (lib_ft L) ?it1 \<noteq> n_index (merkle_node L w bs p)"
    using it1 index_eq [of e q] unfolding ft_at_def p merkle_node_sel by (metis less_irrefl_nat)
  then show ?thesis unfolding append_root_loop_step using it2 pos by (auto simp: merkle_roots_def)
qed

lemma append_root_loop_merkle:
  assumes "length bs = (off + 1) * 2 ^ d" "length bs \<le> 2 ^ 62" "rchain (off * 2 ^ d) ps"
    and "ft_at (lib_ft L) it d off"
  shows "\<exists>it'. append_root_loop L (map (merkle_node L w bs) (rev ps @ [(d, off)])) nodes it =
    Ok (merkle_roots L w bs, nodes @ map (merkle_node L w bs)
      (tl (map (\<lambda>d. (d, length bs div 2 ^ d - 1)) [d ..< Suc (trailing_zeros (length bs))])), it') \<and>
    (\<exists>d' off'. ft_at (lib_ft L) it' d' off' \<and> even off' \<and> (off' + 1) * 2 ^ d' = length bs)"
  using assms
proof (induction ps arbitrary: d off nodes it)
  case Nil
  then have "off = 0" by simp
  then have here: "\<exists>d' off'. ft_at (lib_ft L) it d' off' \<and> even off' \<and> (off' + 1) * 2 ^ d' = length bs"
    using Nil.prems(1,4) by (intro exI [of _ d] exI [of _ off]) simp
  from \<open>off = 0\<close> have "root_positions (length bs) = [(d, off)]"
    using Nil.prems(1) root_positions_snoc [of 0 d] by simp
  then show ?case
    using here completed_at_step [OF Nil.prems(1)] \<open>off = 0\<close>
    by (auto simp: append_root_loop.simps merkle_roots_def)
next
  case (Cons p qs)
  let ?N = "merkle_node L w bs"
  show ?case
  proof (cases "odd off")
    case True
    obtain qs' where qs: "p # qs = (d, off - 1) # qs'" "rchain ((off - 1) * 2 ^ d) qs'"
      using rchain_odd [OF Cons.prems(3) True] by blast
    then have p: "p = (d, off - 1)" by simp
    note merge = append_root_merge [OF Cons.prems(1,2,4) True, folded p]
    have "rchain (off div 2 * 2 ^ Suc d) qs" using qs merge(4) by (metis list.inject)
    note Cons.IH [OF merge(3) Cons.prems(2) this merge(2), of "nodes @ [?N (Suc d, off div 2)]"]
    moreover have "tl (map (\<lambda>d. (d, length bs div 2 ^ d - 1)) [d ..< Suc (trailing_zeros (length bs))]) =
        (Suc d, off div 2) # tl (map (\<lambda>d. (d, length bs div 2 ^ d - 1)) [Suc d ..< Suc (trailing_zeros (length bs))])"
      unfolding completed_at_step [OF Cons.prems(1)] using completed_at_step [OF merge(3)] True by simp
    ultimately show ?thesis unfolding merge(1) by (simp del: upt_Suc)
  next
    case False
    then show ?thesis
      using append_root_stop [OF Cons.prems(1-4), of nodes] completed_at_step [OF Cons.prems(1)] Cons.prems(1) by fastforce
  qed
qed

lemma append_node:
  assumes "length bs < 2 ^ 62"
  shows "node_new (lib_ft L) (of_nat (length bs) * 2)
      (cr_blake2b (lib_cr L) (leaf_input w data)) (of_nat (length data)) =
    merkle_node L w (bs @ [data]) (0, length bs)"
  by (simp add: merkle_node_def subtree_size_def slice_def nth_append mult.commute)

text \<open>Appending a block keeps the roots of the reference tree, collects the nodes of the subtrees
  that the block completes, and counts blocks and bytes.\<close>

lemma append_merkle:
  assumes "cg_roots cg = merkle_roots L w bs" "cg_length cg = of_nat (length bs)"
    and "length bs < 2 ^ 62"
  shows "changeset_append L cg data = Ok (cg\<lparr>
    cg_upgraded := True,
    cg_length := of_nat (length (bs @ [data])),
    cg_byte_length := cg_byte_length cg + of_nat (length data),
    cg_roots := merkle_roots L w (bs @ [data]),
    cg_nodes := cg_nodes cg @ map (merkle_node L w (bs @ [data])) (completed_at (length (bs @ [data]))),
    cg_batch_length := cg_batch_length cg + 1\<rparr>, length data)"
proof -
  let ?bs = "bs @ [data]" and ?it = "ft_new (lib_ft L) (cg_length cg * 2)"
  let ?n = "merkle_node L w ?bs (0, length bs)"
  have head: "unat (cg_length cg * 2) = tree_index 0 (length bs)"
    using assms(2,3) by (simp add: unat_mult_small unat_of_nat64)
  have it: "ft_at (lib_ft L) ?it 0 (length bs)"
    using flat.new [OF head] assms(3) by (simp add: pos_ok_def)
  then have factor: "ft_factor (lib_ft L) ?it div 2 = 1"
    by (simp add: ft_at_def word_eq_iff_unat unat_div)
  have node: "node_new (lib_ft L) (cg_length cg * 2) (cr_blake2b (lib_cr L) (leaf_input w data))
      (of_nat (length data)) = ?n"
    using append_node [OF assms(3), of data] assms(2) by simp
  have roots: "cg_roots cg @ [?n] =
      map (merkle_node L w ?bs) (rev (rev (root_positions (length bs))) @ [(0, length bs)])"
    using merkle_roots_prefix [of L w bs "[data]"] assms(1) by simp
  have "length ?bs = (length bs + 1) * 2 ^ 0" "length ?bs \<le> 2 ^ 62"
    "rchain (length bs * 2 ^ 0) (rev (root_positions (length bs)))"
    using rchain_root_positions assms(3) by simp_all
  note append_root_loop_merkle [OF this it, of "cg_nodes cg @ [?n]"]
  then obtain it' where "append_root_loop L (cg_roots cg @ [?n]) (cg_nodes cg @ [?n]) ?it =
      Ok (merkle_roots L w ?bs, (cg_nodes cg @ [?n]) @ map (merkle_node L w ?bs)
        (tl (map (\<lambda>d. (d, length ?bs div 2 ^ d - 1)) [0 ..< Suc (trailing_zeros (length ?bs))])), it')"
    unfolding roots by blast
  moreover have "?n # map (merkle_node L w ?bs)
        (tl (map (\<lambda>d. (d, length ?bs div 2 ^ d - 1)) [0 ..< Suc (trailing_zeros (length ?bs))])) =
      map (merkle_node L w ?bs) (completed_at (length ?bs))"
    using completed_at_step [of "length ?bs" "length bs" 0] by (simp add: completed_at_def)
  moreover have "n_length ?n = of_nat (length data)" unfolding node [symmetric] node_new_def by simp
  ultimately show ?thesis
    unfolding changeset_append_def append_root_def Let_def hash_data_eq bindR.simps node factor
    using assms(2) by (simp add: add.commute)
qed

text \<open>What \<open>hash_and_sign\<close> makes is what \<open>verify_and_set_signature\<close> accepts.\<close>

lemma sign_then_verify:
  assumes "hash_and_sign L cg s = Ok cg'"
  shows "\<exists>sig. cg_signature cg' = Some sig \<and>
    verify_and_set_signature L cg sig (cr_verifying_key (lib_cr L) s) = Ok cg'"
  using assms crypt.length_blake2b crypt.length_sign
  by (auto simp: hash_and_sign_def verify_and_set_signature_def changeset_hash_def hash_tree_eq
      changeset_signable_def signable_tree_eq verify_signed signature_try_from_def SIGNATURE_LENGTH_def sign_def
      verify_def crypt.verify_sign)

text \<open>A signature accepted for other roots, another length or another fork is a signature of
  another message, unless the hash function collides.\<close>

lemma verified_message:
  assumes "verify_and_set_signature L cg sig pk = Ok cg'"
  shows "cg_hash cg' = Some (cr_blake2b (lib_cr L) (root_input w (cg_roots cg)))"
    "cg_signature cg' = Some sig" "length sig = 64"
    "cr_verify (lib_cr L) pk (TREE @ cr_blake2b (lib_cr L) (root_input w (cg_roots cg)) @
      w_u64 w (cg_length cg) @ w_u64 w (cg_fork cg)) sig"
    "cg' = cg\<lparr>cg_hash := cg_hash cg', cg_signature := Some sig\<rparr>"
  using assms crypt.length_blake2b
  by (auto simp: verify_and_set_signature_def changeset_hash_def hash_tree_eq changeset_signable_def
      signable_tree_eq verify_def signature_try_from_def SIGNATURE_LENGTH_def split: if_splits)

end

end
