(* ===== verification/Encoding.thy ===== *)
theory Encoding
  imports Crypto
begin

text \<open>
  \<^verbatim>\<open>src/src/encoding.rs\<close>: the encodings of nodes, of the requests and the data that peers
  exchange, and of the manifest.  \<open>HypercoreState\<close> wraps the crate's \<open>State\<close> and passes
  through, so both are a \<open>cstate\<close>.  Every type gets its three functions as in the code, its
  wire form, and a \<open>sublocale\<close> that proves the laws of a codec: measuring, encoding and
  decoding agree, at any place of any buffer.  Allocation failure (\<open>Vec::with_capacity\<close>) is
  not modelled.
\<close>

section \<open>Nodes\<close>

definition pre_node :: "'it libs \<Rightarrow> node preencoder" where
  "pre_node L v st =
     bindR (ce_pre_uint (lib_ce L) (n_index v) st) (\<lambda>st.
     bindR (ce_pre_uint (lib_ce L) (n_length v) st) (\<lambda>st.
     ce_pre_fixed_32 (lib_ce L) st))"

definition enc_node :: "'it libs \<Rightarrow> node encoder" where
  "enc_node L v st buf =
     bindR (ce_enc_uint (lib_ce L) (n_index v) st buf) (\<lambda>(st, buf).
     bindR (ce_enc_uint (lib_ce L) (n_length v) st buf) (\<lambda>(st, buf).
     ce_enc_fixed_32 (lib_ce L) (n_hash v) st buf))"

definition dec_node :: "'it libs \<Rightarrow> node decoder" where
  "dec_node L buf st =
     bindR (ce_dec_uint (lib_ce L) buf st) (\<lambda>(index, st).
     bindR (ce_dec_uint (lib_ce L) buf st) (\<lambda>(len, st).
     bindR (ce_dec_fixed_32 (lib_ce L) buf st) (\<lambda>(hash, st).
     Ok (node_new (lib_ft L) index hash len, st))))"

fun pre_nodes_loop :: "'it libs \<Rightarrow> node list preencoder" where
  "pre_nodes_loop L [] st = Ok st"
| "pre_nodes_loop L (v # vs) st = bindR (pre_node L v st) (\<lambda>st. pre_nodes_loop L vs st)"

definition pre_nodes :: "'it libs \<Rightarrow> node list preencoder" where
  "pre_nodes L vs st =
     bindR (ce_pre_usize (lib_ce L) (length vs) st) (\<lambda>st. pre_nodes_loop L vs st)"

fun enc_nodes_loop :: "'it libs \<Rightarrow> node list encoder" where
  "enc_nodes_loop L [] st buf = Ok (st, buf)"
| "enc_nodes_loop L (v # vs) st buf =
     bindR (enc_node L v st buf) (\<lambda>(st, buf). enc_nodes_loop L vs st buf)"

definition enc_nodes :: "'it libs \<Rightarrow> node list encoder" where
  "enc_nodes L vs st buf =
     bindR (ce_enc_usize (lib_ce L) (length vs) st buf) (\<lambda>(st, buf). enc_nodes_loop L vs st buf)"

fun dec_nodes_loop :: "'it libs \<Rightarrow> nat \<Rightarrow> node list decoder" where
  "dec_nodes_loop L 0 buf st = Ok ([], st)"
| "dec_nodes_loop L (Suc n) buf st =
     bindR (dec_node L buf st) (\<lambda>(v, st).
     bindR (dec_nodes_loop L n buf st) (\<lambda>(vs, st). Ok (v # vs, st)))"

definition dec_nodes :: "'it libs \<Rightarrow> node list decoder" where
  "dec_nodes L buf st =
     bindR (ce_dec_usize (lib_ce L) buf st) (\<lambda>(len, st). dec_nodes_loop L len buf st)"

section \<open>Requests\<close>

definition pre_request_block :: "'it libs \<Rightarrow> request_block preencoder" where
  "pre_request_block L v st =
     bindR (ce_pre_uint (lib_ce L) (rb_index v) st) (\<lambda>st. ce_pre_uint (lib_ce L) (rb_nodes v) st)"

definition enc_request_block :: "'it libs \<Rightarrow> request_block encoder" where
  "enc_request_block L v st buf =
     bindR (ce_enc_uint (lib_ce L) (rb_index v) st buf) (\<lambda>(st, buf).
     ce_enc_uint (lib_ce L) (rb_nodes v) st buf)"

definition dec_request_block :: "'it libs \<Rightarrow> request_block decoder" where
  "dec_request_block L buf st =
     bindR (ce_dec_uint (lib_ce L) buf st) (\<lambda>(index, st).
     bindR (ce_dec_uint (lib_ce L) buf st) (\<lambda>(nodes, st).
     Ok (\<lparr>rb_index = index, rb_nodes = nodes\<rparr>, st)))"

definition pre_request_seek :: "'it libs \<Rightarrow> request_seek preencoder" where
  "pre_request_seek L v st = ce_pre_uint (lib_ce L) (rs_bytes v) st"

definition enc_request_seek :: "'it libs \<Rightarrow> request_seek encoder" where
  "enc_request_seek L v st buf = ce_enc_uint (lib_ce L) (rs_bytes v) st buf"

definition dec_request_seek :: "'it libs \<Rightarrow> request_seek decoder" where
  "dec_request_seek L buf st =
     bindR (ce_dec_uint (lib_ce L) buf st) (\<lambda>(bytes, st). Ok (\<lparr>rs_bytes = bytes\<rparr>, st))"

definition pre_request_upgrade :: "'it libs \<Rightarrow> request_upgrade preencoder" where
  "pre_request_upgrade L v st =
     bindR (ce_pre_uint (lib_ce L) (ru_start v) st) (\<lambda>st. ce_pre_uint (lib_ce L) (ru_length v) st)"

definition enc_request_upgrade :: "'it libs \<Rightarrow> request_upgrade encoder" where
  "enc_request_upgrade L v st buf =
     bindR (ce_enc_uint (lib_ce L) (ru_start v) st buf) (\<lambda>(st, buf).
     ce_enc_uint (lib_ce L) (ru_length v) st buf)"

definition dec_request_upgrade :: "'it libs \<Rightarrow> request_upgrade decoder" where
  "dec_request_upgrade L buf st =
     bindR (ce_dec_uint (lib_ce L) buf st) (\<lambda>(start, st).
     bindR (ce_dec_uint (lib_ce L) buf st) (\<lambda>(len, st).
     Ok (\<lparr>ru_start = start, ru_length = len\<rparr>, st)))"

section \<open>Data\<close>

definition pre_data_block :: "'it libs \<Rightarrow> data_block preencoder" where
  "pre_data_block L v st =
     bindR (ce_pre_uint (lib_ce L) (dblk_index v) st) (\<lambda>st.
     bindR (ce_pre_bytes (lib_ce L) (dblk_value v) st) (\<lambda>st.
     pre_nodes L (dblk_nodes v) st))"

definition enc_data_block :: "'it libs \<Rightarrow> data_block encoder" where
  "enc_data_block L v st buf =
     bindR (ce_enc_uint (lib_ce L) (dblk_index v) st buf) (\<lambda>(st, buf).
     bindR (ce_enc_bytes (lib_ce L) (dblk_value v) st buf) (\<lambda>(st, buf).
     enc_nodes L (dblk_nodes v) st buf))"

definition dec_data_block :: "'it libs \<Rightarrow> data_block decoder" where
  "dec_data_block L buf st =
     bindR (ce_dec_uint (lib_ce L) buf st) (\<lambda>(index, st).
     bindR (ce_dec_bytes (lib_ce L) buf st) (\<lambda>(val, st).
     bindR (dec_nodes L buf st) (\<lambda>(nodes, st).
     Ok (\<lparr>dblk_index = index, dblk_value = val, dblk_nodes = nodes\<rparr>, st))))"

definition pre_data_hash :: "'it libs \<Rightarrow> data_hash preencoder" where
  "pre_data_hash L v st =
     bindR (ce_pre_uint (lib_ce L) (dh_index v) st) (\<lambda>st. pre_nodes L (dh_nodes v) st)"

definition enc_data_hash :: "'it libs \<Rightarrow> data_hash encoder" where
  "enc_data_hash L v st buf =
     bindR (ce_enc_uint (lib_ce L) (dh_index v) st buf) (\<lambda>(st, buf). enc_nodes L (dh_nodes v) st buf)"

definition dec_data_hash :: "'it libs \<Rightarrow> data_hash decoder" where
  "dec_data_hash L buf st =
     bindR (ce_dec_uint (lib_ce L) buf st) (\<lambda>(index, st).
     bindR (dec_nodes L buf st) (\<lambda>(nodes, st).
     Ok (\<lparr>dh_index = index, dh_nodes = nodes\<rparr>, st)))"

definition pre_data_seek :: "'it libs \<Rightarrow> data_seek preencoder" where
  "pre_data_seek L v st =
     bindR (ce_pre_uint (lib_ce L) (ds_bytes v) st) (\<lambda>st. pre_nodes L (ds_nodes v) st)"

definition enc_data_seek :: "'it libs \<Rightarrow> data_seek encoder" where
  "enc_data_seek L v st buf =
     bindR (ce_enc_uint (lib_ce L) (ds_bytes v) st buf) (\<lambda>(st, buf). enc_nodes L (ds_nodes v) st buf)"

definition dec_data_seek :: "'it libs \<Rightarrow> data_seek decoder" where
  "dec_data_seek L buf st =
     bindR (ce_dec_uint (lib_ce L) buf st) (\<lambda>(bytes, st).
     bindR (dec_nodes L buf st) (\<lambda>(nodes, st).
     Ok (\<lparr>ds_bytes = bytes, ds_nodes = nodes\<rparr>, st)))"

definition pre_data_upgrade :: "'it libs \<Rightarrow> data_upgrade preencoder" where
  "pre_data_upgrade L v st =
     bindR (ce_pre_uint (lib_ce L) (du_start v) st) (\<lambda>st.
     bindR (ce_pre_uint (lib_ce L) (du_length v) st) (\<lambda>st.
     bindR (pre_nodes L (du_nodes v) st) (\<lambda>st.
     bindR (pre_nodes L (du_additional_nodes v) st) (\<lambda>st.
     ce_pre_bytes (lib_ce L) (du_signature v) st))))"

definition enc_data_upgrade :: "'it libs \<Rightarrow> data_upgrade encoder" where
  "enc_data_upgrade L v st buf =
     bindR (ce_enc_uint (lib_ce L) (du_start v) st buf) (\<lambda>(st, buf).
     bindR (ce_enc_uint (lib_ce L) (du_length v) st buf) (\<lambda>(st, buf).
     bindR (enc_nodes L (du_nodes v) st buf) (\<lambda>(st, buf).
     bindR (enc_nodes L (du_additional_nodes v) st buf) (\<lambda>(st, buf).
     ce_enc_bytes (lib_ce L) (du_signature v) st buf))))"

definition dec_data_upgrade :: "'it libs \<Rightarrow> data_upgrade decoder" where
  "dec_data_upgrade L buf st =
     bindR (ce_dec_uint (lib_ce L) buf st) (\<lambda>(start, st).
     bindR (ce_dec_uint (lib_ce L) buf st) (\<lambda>(len, st).
     bindR (dec_nodes L buf st) (\<lambda>(nodes, st).
     bindR (dec_nodes L buf st) (\<lambda>(additional_nodes, st).
     bindR (ce_dec_bytes (lib_ce L) buf st) (\<lambda>(signature, st).
     Ok (\<lparr>du_start = start, du_length = len, du_nodes = nodes,
          du_additional_nodes = additional_nodes, du_signature = signature\<rparr>, st))))))"

section \<open>The manifest\<close>

definition pre_manifest_signer :: "'it libs \<Rightarrow> manifest_signer preencoder" where
  "pre_manifest_signer L v st =
     bindR (ce_add_end (lib_ce L) 1 st) (\<lambda>st.
     bindR (ce_pre_fixed_32 (lib_ce L) st) (\<lambda>st.
     ce_pre_fixed_32 (lib_ce L) st))"

definition enc_manifest_signer :: "'it libs \<Rightarrow> manifest_signer encoder" where
  "enc_manifest_signer L v st buf =
     (if ms_signature v = ''ed25519'' then
        bindR (ce_set_byte (lib_ce L) 0 st buf) (\<lambda>(st, buf).
        bindR (ce_enc_fixed_32 (lib_ce L) (ms_namespace v) st buf) (\<lambda>(st, buf).
        ce_enc_fixed_32 (lib_ce L) (ms_public_key v) st buf))
      else Err InvalidData)"

definition dec_manifest_signer :: "'it libs \<Rightarrow> manifest_signer decoder" where
  "dec_manifest_signer L buf st =
     bindR (ce_dec_u8 (lib_ce L) buf st) (\<lambda>(signature_id, st).
     if signature_id \<noteq> 0 then Err InvalidData
     else
       bindR (ce_dec_fixed_32 (lib_ce L) buf st) (\<lambda>(namespace, st).
       if length namespace \<noteq> 32 then Err InvalidData
       else
         bindR (ce_dec_fixed_32 (lib_ce L) buf st) (\<lambda>(public_key, st).
         if length public_key \<noteq> 32 then Err InvalidData
         else Ok (\<lparr>ms_signature = ''ed25519'', ms_namespace = namespace,
                   ms_public_key = public_key\<rparr>, st))))"

definition pre_manifest :: "'it libs \<Rightarrow> manifest preencoder" where
  "pre_manifest L v st =
     bindR (ce_add_end (lib_ce L) 1 st) (\<lambda>st.
     bindR (ce_add_end (lib_ce L) 1 st) (\<lambda>st.
     bindR (ce_add_end (lib_ce L) 1 st) (\<lambda>st.
     pre_manifest_signer L (mf_signer v) st)))"

definition enc_manifest :: "'it libs \<Rightarrow> manifest encoder" where
  "enc_manifest L v st buf =
     bindR (ce_set_byte (lib_ce L) 0 st buf) (\<lambda>(st, buf).
     if mf_hash v = ''blake2b'' then
       bindR (ce_set_byte (lib_ce L) 0 st buf) (\<lambda>(st, buf).
       bindR (ce_set_byte (lib_ce L) 1 st buf) (\<lambda>(st, buf).
       enc_manifest_signer L (mf_signer v) st buf))
     else Err InvalidData)"

definition dec_manifest :: "'it libs \<Rightarrow> manifest decoder" where
  "dec_manifest L buf st =
     bindR (ce_dec_u8 (lib_ce L) buf st) (\<lambda>(version, st).
     if version \<noteq> 0 then Panic
     else
       bindR (ce_dec_u8 (lib_ce L) buf st) (\<lambda>(hash_id, st).
       if hash_id \<noteq> 0 then Err InvalidData
       else
         bindR (ce_dec_u8 (lib_ce L) buf st) (\<lambda>(manifest_type, st).
         if manifest_type \<noteq> 1 then Err InvalidData
         else
           bindR (dec_manifest_signer L buf st) (\<lambda>(signer, st).
           Ok (\<lparr>mf_hash = ''blake2b'', mf_signer = signer\<rparr>, st)))))"

section \<open>Wire forms\<close>

definition node_ok :: "'it libs \<Rightarrow> node \<Rightarrow> bool" where
  "node_ok L v \<longleftrightarrow> length (n_hash v) = 32 \<and> node_new (lib_ft L) (n_index v) (n_hash v) (n_length v) = v"

definition nodes_ok :: "'it libs \<Rightarrow> node list \<Rightarrow> bool" where
  "nodes_ok L vs \<longleftrightarrow> length vs < MAX_USIZE \<and> list_all (node_ok L) vs"

definition wire_node :: "wire_format \<Rightarrow> node \<Rightarrow> bytes" where
  "wire_node w v = w_uint w (n_index v) @ w_uint w (n_length v) @ n_hash v"

definition wire_nodes :: "wire_format \<Rightarrow> node list \<Rightarrow> bytes" where
  "wire_nodes w vs = w_usize w (length vs) @ concat (map (wire_node w) vs)"

definition wire_manifest_signer :: "manifest_signer \<Rightarrow> bytes" where
  "wire_manifest_signer v = 0 # ms_namespace v @ ms_public_key v"

definition manifest_signer_ok :: "manifest_signer \<Rightarrow> bool" where
  "manifest_signer_ok v \<longleftrightarrow> ms_signature v = ''ed25519'' \<and> length (ms_namespace v) = 32 \<and>
     length (ms_public_key v) = 32"

definition wire_manifest :: "manifest \<Rightarrow> bytes" where
  "wire_manifest v = [0] @ [0] @ [1] @ wire_manifest_signer (mf_signer v)"

definition manifest_ok :: "manifest \<Rightarrow> bool" where
  "manifest_ok v \<longleftrightarrow> mf_hash v = ''blake2b'' \<and> manifest_signer_ok (mf_signer v)"

named_theorems codec_simps \<open>chaining the laws of codecs\<close>

lemmas [codec_simps] = room_def length_put put_chain holds_at_append holds_at_Cons add.assoc

context libs_laws
begin

lemmas crate_enc = cenc.uintc.enc_law cenc.usizec.enc_law cenc.bytesc.enc_law cenc.stringsc.enc_law
  cenc.fixed32c.enc_law cenc.u8c.enc_law
lemmas crate_dec = cenc.uintc.dec_law cenc.usizec.dec_law cenc.bytesc.dec_law cenc.stringsc.dec_law
  cenc.fixed32c.dec_law
lemmas crate_pre = cenc.uintc.pre_law cenc.usizec.pre_law cenc.bytesc.pre_law cenc.stringsc.pre_law
  cenc.add_end
lemmas crate_laws = crate_enc crate_dec crate_pre

lemma dec_byte:
  assumes "cs_start st < cs_end st" "cs_end st \<le> length buf"
  shows "ce_dec_u8 (lib_ce L) buf st = Ok (buf ! cs_start st, advance 1 st)"
proof -
  have "holds_at buf (cs_start st) [buf ! cs_start st]"
    using assms by (auto simp: holds_at_Cons holds_at_Nil)
  then show ?thesis
    using cenc.u8c.dec_law [of buf st "buf ! cs_start st"] assms by (simp add: room_def)
qed

lemma pre_fixed_32: "cs_end st + 32 < MAX_USIZE \<Longrightarrow> ce_pre_fixed_32 (lib_ce L) st = Ok (extend_end 32 st)"
  using cenc.fixed32c.pre_law [of "replicate 32 0" st] by simp

end

sublocale libs_laws < nodec: codec "pre_node L" "enc_node L" "dec_node L" "wire_node w" "node_ok L"
  by unfold_locales (auto simp: pre_node_def enc_node_def dec_node_def wire_node_def node_ok_def
      crate_laws pre_fixed_32 codec_simps)

context libs_laws
begin

lemma pre_nodes_loop_eq:
  assumes "list_all (node_ok L) vs" "cs_end st + length (concat (map (wire_node w) vs)) < MAX_USIZE"
  shows "pre_nodes_loop L vs st = Ok (extend_end (length (concat (map (wire_node w) vs))) st)"
  using assms by (induction vs arbitrary: st) (auto simp: nodec.pre_law)

lemma enc_nodes_loop_eq:
  assumes "list_all (node_ok L) vs" "room st (length (concat (map (wire_node w) vs))) buf"
  shows "enc_nodes_loop L vs st buf = Ok (advance (length (concat (map (wire_node w) vs))) st,
    put buf (cs_start st) (concat (map (wire_node w) vs)))"
  using assms
  by (induction vs arbitrary: st buf) (auto simp: nodec.enc_law codec_simps put_Nil)

lemma dec_nodes_loop_eq:
  assumes "list_all (node_ok L) vs" "room st (length (concat (map (wire_node w) vs))) buf"
    and "holds_at buf (cs_start st) (concat (map (wire_node w) vs))"
  shows "dec_nodes_loop L (length vs) buf st = Ok (vs, advance (length (concat (map (wire_node w) vs))) st)"
  using assms
proof (induction vs arbitrary: st)
  case (Cons v vs)
  have "dec_node L buf st = Ok (v, advance (length (wire_node w v)) st)"
    using Cons.prems by (intro nodec.dec_law) (auto simp: codec_simps)
  then show ?case
    using Cons.IH [of "advance (length (wire_node w v)) st"] Cons.prems by (simp add: holds_at_append)
qed simp

end

sublocale libs_laws < nodesc: codec "pre_nodes L" "enc_nodes L" "dec_nodes L" "wire_nodes w" "nodes_ok L"
proof (unfold_locales, goal_cases)
  case (1 vs st buf)
  then show ?case
    by (simp add: enc_nodes_def wire_nodes_def nodes_ok_def crate_enc enc_nodes_loop_eq codec_simps)
next
  case (2 buf st vs)
  then have "ce_dec_usize (lib_ce L) buf st = Ok (length vs, advance (length (w_usize w (length vs))) st)"
    by (intro crate_dec) (auto simp: wire_nodes_def nodes_ok_def codec_simps)
  with 2 show ?case
    by (simp add: dec_nodes_def wire_nodes_def nodes_ok_def dec_nodes_loop_eq codec_simps)
next
  case (3 vs st)
  then show ?case
    by (simp add: pre_nodes_def wire_nodes_def nodes_ok_def crate_pre pre_nodes_loop_eq)
qed

sublocale libs_laws < request_blockc: codec "pre_request_block L" "enc_request_block L"
    "dec_request_block L" "\<lambda>v. w_uint w (rb_index v) @ w_uint w (rb_nodes v)" "\<lambda>_. True"
  by unfold_locales (auto simp: pre_request_block_def enc_request_block_def dec_request_block_def
      crate_laws codec_simps)

sublocale libs_laws < request_seekc: codec "pre_request_seek L" "enc_request_seek L"
    "dec_request_seek L" "\<lambda>v. w_uint w (rs_bytes v)" "\<lambda>_. True"
  by unfold_locales (auto simp: pre_request_seek_def enc_request_seek_def dec_request_seek_def
      crate_laws codec_simps)

sublocale libs_laws < request_upgradec: codec "pre_request_upgrade L" "enc_request_upgrade L"
    "dec_request_upgrade L" "\<lambda>v. w_uint w (ru_start v) @ w_uint w (ru_length v)" "\<lambda>_. True"
  by unfold_locales (auto simp: pre_request_upgrade_def enc_request_upgrade_def
      dec_request_upgrade_def crate_laws codec_simps)

sublocale libs_laws < data_blockc: codec "pre_data_block L" "enc_data_block L" "dec_data_block L"
    "\<lambda>v. w_uint w (dblk_index v) @ w_bytes w (dblk_value v) @ wire_nodes w (dblk_nodes v)"
    "\<lambda>v. length (dblk_value v) < MAX_USIZE \<and> nodes_ok L (dblk_nodes v)"
  by unfold_locales (auto simp: pre_data_block_def enc_data_block_def dec_data_block_def
      crate_laws nodesc.pre_law nodesc.enc_law nodesc.dec_law codec_simps)

sublocale libs_laws < data_hashc: codec "pre_data_hash L" "enc_data_hash L" "dec_data_hash L"
    "\<lambda>v. w_uint w (dh_index v) @ wire_nodes w (dh_nodes v)" "\<lambda>v. nodes_ok L (dh_nodes v)"
  by unfold_locales (auto simp: pre_data_hash_def enc_data_hash_def dec_data_hash_def
      crate_laws nodesc.pre_law nodesc.enc_law nodesc.dec_law codec_simps)

sublocale libs_laws < data_seekc: codec "pre_data_seek L" "enc_data_seek L" "dec_data_seek L"
    "\<lambda>v. w_uint w (ds_bytes v) @ wire_nodes w (ds_nodes v)" "\<lambda>v. nodes_ok L (ds_nodes v)"
  by unfold_locales (auto simp: pre_data_seek_def enc_data_seek_def dec_data_seek_def
      crate_laws nodesc.pre_law nodesc.enc_law nodesc.dec_law codec_simps)

sublocale libs_laws < data_upgradec: codec "pre_data_upgrade L" "enc_data_upgrade L" "dec_data_upgrade L"
    "\<lambda>v. w_uint w (du_start v) @ w_uint w (du_length v) @ wire_nodes w (du_nodes v) @
      wire_nodes w (du_additional_nodes v) @ w_bytes w (du_signature v)"
    "\<lambda>v. nodes_ok L (du_nodes v) \<and> nodes_ok L (du_additional_nodes v) \<and>
      length (du_signature v) < MAX_USIZE"
  by unfold_locales (auto simp: pre_data_upgrade_def enc_data_upgrade_def dec_data_upgrade_def
      crate_laws nodesc.pre_law nodesc.enc_law nodesc.dec_law codec_simps)

sublocale libs_laws < manifest_signerc: codec "pre_manifest_signer L" "enc_manifest_signer L"
    "dec_manifest_signer L" wire_manifest_signer manifest_signer_ok
proof (unfold_locales, goal_cases)
  case (1 v st buf)
  then show ?case
    by (simp add: enc_manifest_signer_def wire_manifest_signer_def manifest_signer_ok_def crate_enc codec_simps)
next
  case (2 buf st v)
  then have "ce_dec_fixed_32 (lib_ce L) buf (advance 1 st) = Ok (ms_namespace v, advance 33 st)"
      "ce_dec_fixed_32 (lib_ce L) buf (advance 33 st) = Ok (ms_public_key v, advance 65 st)"
    using cenc.fixed32c.dec_law [of buf "advance 1 st" "ms_namespace v"]
      cenc.fixed32c.dec_law [of buf "advance 33 st" "ms_public_key v"]
    by (auto simp: wire_manifest_signer_def manifest_signer_ok_def codec_simps add.commute [of 33])
  with 2 show ?case
    by (auto simp: dec_manifest_signer_def wire_manifest_signer_def manifest_signer_ok_def dec_byte codec_simps)
next
  case (3 v st)
  then show ?case
    by (simp add: pre_manifest_signer_def wire_manifest_signer_def manifest_signer_ok_def crate_pre pre_fixed_32)
qed

sublocale libs_laws < manifestc: codec "pre_manifest L" "enc_manifest L" "dec_manifest L" wire_manifest manifest_ok
  by unfold_locales (auto simp: pre_manifest_def enc_manifest_def dec_manifest_def wire_manifest_def
      manifest_ok_def crate_laws dec_byte manifest_signerc.pre_law manifest_signerc.enc_law manifest_signerc.dec_law codec_simps)

end
