(* ===== verification/Oplog_Header.thy ===== *)
theory Oplog_Header
  imports Encoding
begin

text \<open>
  \<^verbatim>\<open>src/src/oplog/header.rs\<close>: the header of the operation log and its encoding.
\<close>

section \<open>The header\<close>

record header_tree =
  ht_fork :: u64
  ht_length :: u64
  ht_root_hash :: bytes
  ht_signature :: bytes

definition header_tree_new :: header_tree where
  "header_tree_new = \<lparr>ht_fork = 0, ht_length = 0, ht_root_hash = [], ht_signature = []\<rparr>"

record header_hints =
  hh_reorgs :: "string list"
  hh_contiguous_length :: u64

record header =
  h_key :: bytes
  h_manifest :: manifest
  h_key_pair :: partial_keypair
  h_user_data :: "string list"
  h_tree :: header_tree
  h_hints :: header_hints

definition header_new :: "partial_keypair \<Rightarrow> header" where
  "header_new key_pair =
     (let key = kp_public key_pair; manifest = default_signer_manifest key
      in \<lparr>h_key = key, h_manifest = manifest, h_key_pair = key_pair, h_user_data = [],
          h_tree = header_tree_new, h_hints = \<lparr>hh_reorgs = [], hh_contiguous_length = 0\<rparr>\<rparr>)"

section \<open>Encoding\<close>

definition pre_header_tree :: "'it libs \<Rightarrow> header_tree preencoder" where
  "pre_header_tree L v st =
     bindR (ce_pre_uint (lib_ce L) (ht_fork v) st) (\<lambda>st.
     bindR (ce_pre_uint (lib_ce L) (ht_length v) st) (\<lambda>st.
     bindR (ce_pre_bytes (lib_ce L) (ht_root_hash v) st) (\<lambda>st.
     ce_pre_bytes (lib_ce L) (ht_signature v) st)))"

definition enc_header_tree :: "'it libs \<Rightarrow> header_tree encoder" where
  "enc_header_tree L v st buf =
     bindR (ce_enc_uint (lib_ce L) (ht_fork v) st buf) (\<lambda>(st, buf).
     bindR (ce_enc_uint (lib_ce L) (ht_length v) st buf) (\<lambda>(st, buf).
     bindR (ce_enc_bytes (lib_ce L) (ht_root_hash v) st buf) (\<lambda>(st, buf).
     ce_enc_bytes (lib_ce L) (ht_signature v) st buf)))"

definition dec_header_tree :: "'it libs \<Rightarrow> header_tree decoder" where
  "dec_header_tree L buf st =
     bindR (ce_dec_uint (lib_ce L) buf st) (\<lambda>(fork, st).
     bindR (ce_dec_uint (lib_ce L) buf st) (\<lambda>(len, st).
     bindR (ce_dec_bytes (lib_ce L) buf st) (\<lambda>(root_hash, st).
     bindR (ce_dec_bytes (lib_ce L) buf st) (\<lambda>(signature, st).
     Ok (\<lparr>ht_fork = fork, ht_length = len, ht_root_hash = root_hash,
          ht_signature = signature\<rparr>, st)))))"

definition PUBLIC_KEY_LENGTH :: nat where "PUBLIC_KEY_LENGTH = 32"
definition SECRET_KEY_LENGTH :: nat where "SECRET_KEY_LENGTH = 32"

definition pre_key_pair :: "'it libs \<Rightarrow> partial_keypair preencoder" where
  "pre_key_pair L v st =
     bindR (ce_add_end (lib_ce L) (1 + PUBLIC_KEY_LENGTH) st) (\<lambda>st.
     case kp_secret v of
       Some _ \<Rightarrow> ce_add_end (lib_ce L) (1 + SECRET_KEY_LENGTH + PUBLIC_KEY_LENGTH) st
     | None \<Rightarrow> ce_add_end (lib_ce L) 1 st)"

definition enc_key_pair :: "'it libs \<Rightarrow> partial_keypair encoder" where
  "enc_key_pair L v st buf =
     bindR (ce_enc_bytes (lib_ce L) (kp_public v) st buf) (\<lambda>(st, buf).
     case kp_secret v of
       Some secret_key \<Rightarrow> ce_enc_bytes (lib_ce L) (secret_key @ kp_public v) st buf
     | None \<Rightarrow> ce_set_byte (lib_ce L) 0 st buf)"

text \<open>The first \<open>n\<close> bytes of a slice, a panic when there are fewer.\<close>

definition prefix_array :: "nat \<Rightarrow> bytes \<Rightarrow> bytes eres" where
  "prefix_array n bs = (if n \<le> length bs then Ok (take n bs) else Panic)"

definition dec_key_pair :: "'it libs \<Rightarrow> partial_keypair decoder" where
  "dec_key_pair L buf st =
     bindR (ce_dec_bytes (lib_ce L) buf st) (\<lambda>(public_key_bytes, st).
     bindR (prefix_array PUBLIC_KEY_LENGTH public_key_bytes) (\<lambda>public_key_bytes.
     bindR (ce_dec_bytes (lib_ce L) buf st) (\<lambda>(secret_key_bytes, st).
     bindR (if secret_key_bytes = [] then Ok None
            else bindR (prefix_array SECRET_KEY_LENGTH secret_key_bytes) (\<lambda>b. Ok (Some b))) (\<lambda>secret.
     if cr_is_verifying_key (lib_cr L) public_key_bytes
     then Ok (\<lparr>kp_public = public_key_bytes, kp_secret = secret\<rparr>, st)
     else Panic))))"

definition pre_header_hints :: "'it libs \<Rightarrow> header_hints preencoder" where
  "pre_header_hints L v st =
     bindR (ce_pre_strings (lib_ce L) (hh_reorgs v) st) (\<lambda>st.
     ce_pre_uint (lib_ce L) (hh_contiguous_length v) st)"

definition enc_header_hints :: "'it libs \<Rightarrow> header_hints encoder" where
  "enc_header_hints L v st buf =
     bindR (ce_enc_strings (lib_ce L) (hh_reorgs v) st buf) (\<lambda>(st, buf).
     ce_enc_uint (lib_ce L) (hh_contiguous_length v) st buf)"

definition dec_header_hints :: "'it libs \<Rightarrow> header_hints decoder" where
  "dec_header_hints L buf st =
     bindR (ce_dec_strings (lib_ce L) buf st) (\<lambda>(reorgs, st).
     bindR (ce_dec_uint (lib_ce L) buf st) (\<lambda>(contiguous_length, st).
     Ok (\<lparr>hh_reorgs = reorgs, hh_contiguous_length = contiguous_length\<rparr>, st)))"

definition pre_header :: "'it libs \<Rightarrow> header preencoder" where
  "pre_header L v st =
     bindR (ce_add_end (lib_ce L) 1 st) (\<lambda>st.
     bindR (ce_add_end (lib_ce L) 1 st) (\<lambda>st.
     bindR (ce_pre_fixed_32 (lib_ce L) st) (\<lambda>st.
     bindR (pre_manifest L (h_manifest v) st) (\<lambda>st.
     bindR (pre_key_pair L (h_key_pair v) st) (\<lambda>st.
     bindR (ce_pre_strings (lib_ce L) (h_user_data v) st) (\<lambda>st.
     bindR (pre_header_tree L (h_tree v) st) (\<lambda>st.
     pre_header_hints L (h_hints v) st)))))))"

definition enc_header :: "'it libs \<Rightarrow> header encoder" where
  "enc_header L v st buf =
     bindR (ce_set_byte (lib_ce L) 1 st buf) (\<lambda>(st, buf).
     bindR (ce_set_byte (lib_ce L) (2 OR 4) st buf) (\<lambda>(st, buf).
     bindR (ce_enc_fixed_32 (lib_ce L) (h_key v) st buf) (\<lambda>(st, buf).
     bindR (enc_manifest L (h_manifest v) st buf) (\<lambda>(st, buf).
     bindR (enc_key_pair L (h_key_pair v) st buf) (\<lambda>(st, buf).
     bindR (ce_enc_strings (lib_ce L) (h_user_data v) st buf) (\<lambda>(st, buf).
     bindR (enc_header_tree L (h_tree v) st buf) (\<lambda>(st, buf).
     enc_header_hints L (h_hints v) st buf)))))))"

definition dec_header :: "'it libs \<Rightarrow> header decoder" where
  "dec_header L buf st =
     bindR (ce_dec_u8 (lib_ce L) buf st) (\<lambda>(version, st).
     if version \<noteq> 1 then Panic
     else
       bindR (ce_dec_u8 (lib_ce L) buf st) (\<lambda>(_, st).
       bindR (ce_dec_fixed_32 (lib_ce L) buf st) (\<lambda>(key, st).
       if length key \<noteq> 32 then Err InvalidData
       else
         bindR (dec_manifest L buf st) (\<lambda>(manifest, st).
         bindR (dec_key_pair L buf st) (\<lambda>(key_pair, st).
         bindR (ce_dec_strings (lib_ce L) buf st) (\<lambda>(user_data, st).
         bindR (dec_header_tree L buf st) (\<lambda>(tree, st).
         bindR (dec_header_hints L buf st) (\<lambda>(hints, st).
         Ok (\<lparr>h_key = key, h_manifest = manifest, h_key_pair = key_pair, h_user_data = user_data,
              h_tree = tree, h_hints = hints\<rparr>, st)))))))))"

section \<open>Wire forms\<close>

definition strings_ok :: "string list \<Rightarrow> bool" where
  "strings_ok ss \<longleftrightarrow> length ss < MAX_USIZE \<and> list_all (\<lambda>s. length s < MAX_USIZE) ss"

definition wire_header_tree :: "wire_format \<Rightarrow> header_tree \<Rightarrow> bytes" where
  "wire_header_tree w v =
     w_uint w (ht_fork v) @ w_uint w (ht_length v) @ w_bytes w (ht_root_hash v) @
     w_bytes w (ht_signature v)"

definition header_tree_ok :: "header_tree \<Rightarrow> bool" where
  "header_tree_ok v \<longleftrightarrow> length (ht_root_hash v) < MAX_USIZE \<and> length (ht_signature v) < MAX_USIZE"

definition wire_key_pair :: "wire_format \<Rightarrow> partial_keypair \<Rightarrow> bytes" where
  "wire_key_pair w v = w_bytes w (kp_public v) @
     w_bytes w (case kp_secret v of None \<Rightarrow> [] | Some s \<Rightarrow> s @ kp_public v)"

definition key_pair_ok :: "'it libs \<Rightarrow> partial_keypair \<Rightarrow> bool" where
  "key_pair_ok L v \<longleftrightarrow> length (kp_public v) = 32 \<and> cr_is_verifying_key (lib_cr L) (kp_public v) \<and>
     (case kp_secret v of None \<Rightarrow> True | Some s \<Rightarrow> length s = 32)"

definition wire_header_hints :: "wire_format \<Rightarrow> header_hints \<Rightarrow> bytes" where
  "wire_header_hints w v = w_strings w (hh_reorgs v) @ w_uint w (hh_contiguous_length v)"

definition wire_header :: "wire_format \<Rightarrow> header \<Rightarrow> bytes" where
  "wire_header w v = [1] @ [6] @ h_key v @ wire_manifest (h_manifest v) @
     wire_key_pair w (h_key_pair v) @ w_strings w (h_user_data v) @ wire_header_tree w (h_tree v) @
     wire_header_hints w (h_hints v)"

definition header_ok :: "'it libs \<Rightarrow> header \<Rightarrow> bool" where
  "header_ok L v \<longleftrightarrow> length (h_key v) = 32 \<and> manifest_ok (h_manifest v) \<and>
     key_pair_ok L (h_key_pair v) \<and> strings_ok (h_user_data v) \<and> header_tree_ok (h_tree v) \<and>
     strings_ok (hh_reorgs (h_hints v))"

sublocale libs_laws < header_treec: codec "pre_header_tree L" "enc_header_tree L"
    "dec_header_tree L" "wire_header_tree w" header_tree_ok
  by unfold_locales (auto simp: pre_header_tree_def enc_header_tree_def dec_header_tree_def
      wire_header_tree_def header_tree_ok_def crate_laws codec_simps)

sublocale libs_laws < header_hintsc: codec "pre_header_hints L" "enc_header_hints L"
    "dec_header_hints L" "wire_header_hints w" "\<lambda>v. strings_ok (hh_reorgs v)"
  by unfold_locales (auto simp: pre_header_hints_def enc_header_hints_def dec_header_hints_def
      wire_header_hints_def strings_ok_def crate_laws codec_simps)

context libs_laws
begin

lemma key_pair_lengths:
  assumes "key_pair_ok L v"
  shows "length (w_bytes w (kp_public v)) = 33"
    "kp_secret v = Some s \<Longrightarrow> length (w_bytes w (s @ kp_public v)) = 65"
  using assms cenc.length_w_bytes [of "kp_public v"] cenc.length_w_bytes [of "s @ kp_public v"]
  by (simp_all add: key_pair_ok_def)

end

sublocale libs_laws < key_pairc: codec "pre_key_pair L" "enc_key_pair L" "dec_key_pair L"
    "wire_key_pair w" "key_pair_ok L"
proof (unfold_locales, goal_cases)
  case (1 v st buf)
  then show ?case
    by (auto simp: enc_key_pair_def wire_key_pair_def key_pair_ok_def crate_laws codec_simps
        cenc.w_bytes_Nil split: option.splits)
next
  case (2 buf st v)
  let ?s = "case kp_secret v of None \<Rightarrow> [] | Some s \<Rightarrow> s @ kp_public v"
  let ?st = "advance (length (w_bytes w (kp_public v))) st"
  have "length (kp_public v) < MAX_USIZE" "length ?s < MAX_USIZE"
    using 2(2) by (auto simp: key_pair_ok_def split: option.splits)
  then have "ce_dec_bytes (lib_ce L) buf st = Ok (kp_public v, ?st)"
    "ce_dec_bytes (lib_ce L) buf ?st = Ok (?s, advance (length (wire_key_pair w v)) st)"
    using 2 cenc.bytesc.dec_law [of buf st "kp_public v"] cenc.bytesc.dec_law [of buf ?st ?s]
    by (auto simp: wire_key_pair_def codec_simps)
  with 2 show ?case
    by (auto simp: dec_key_pair_def key_pair_ok_def prefix_array_def PUBLIC_KEY_LENGTH_def
        SECRET_KEY_LENGTH_def split: option.splits)
next
  case (3 v st)
  then show ?case
    using key_pair_lengths [OF 3(1)]
    by (auto simp: pre_key_pair_def wire_key_pair_def crate_pre cenc.w_bytes_Nil
        PUBLIC_KEY_LENGTH_def SECRET_KEY_LENGTH_def split: option.splits)
qed

context libs_laws
begin

lemmas header_part_laws = crate_laws dec_byte pre_fixed_32 manifestc.pre_law manifestc.enc_law
  manifestc.dec_law key_pairc.pre_law key_pairc.enc_law key_pairc.dec_law header_treec.pre_law
  header_treec.enc_law header_treec.dec_law header_hintsc.pre_law header_hintsc.enc_law
  header_hintsc.dec_law

end

sublocale libs_laws < headerc: codec "pre_header L" "enc_header L" "dec_header L" "wire_header w"
    "header_ok L"
proof (unfold_locales, goal_cases)
  case (1 v st buf)
  then show ?case
    by (simp add: enc_header_def wire_header_def header_ok_def strings_ok_def header_part_laws codec_simps)
next
  case (2 buf st v)
  then show ?case
    by (auto simp: dec_header_def wire_header_def header_ok_def strings_ok_def header_part_laws codec_simps
        add.commute [of 34])
next
  case (3 v st)
  then show ?case
    by (simp add: pre_header_def wire_header_def header_ok_def strings_ok_def header_part_laws)
qed

lemma header_new_ok: "key_pair_ok L kp \<Longrightarrow> header_ok L (header_new kp)"
  by (simp add: header_ok_def header_new_def key_pair_ok_def manifest_ok_def manifest_signer_ok_def
      default_signer_manifest_def DEFAULT_NAMESPACE_def strings_ok_def header_tree_ok_def
      header_tree_new_def Let_def)

end
