(* ===== verification/Merkle_Tree.thy ===== *)
theory Merkle_Tree
  imports Changeset Oplog_Header
begin

text \<open>
  \<^verbatim>\<open>src/src/tree/merkle_tree.rs\<close>, the state of the tree and everything but proofs: opening
  from stored roots, changesets and their commit, truncation, flushing, reading nodes, byte
  ranges and offsets, missing nodes.  The feature \<open>cache\<close> is off, as it is by default.

  An operation that needs stored nodes returns either the reads it needs (\<open>Inl\<close>) or its
  result (\<open>Inr\<close>); the caller reads and calls again.
\<close>

section \<open>State\<close>

record merkle_tree =
  mt_roots :: "node list"
  mt_length :: u64
  mt_byte_length :: u64
  mt_fork :: u64
  mt_signature :: "bytes option"
  mt_unflushed :: "node intmap"
  mt_truncated :: bool
  mt_truncate_to :: u64

type_synonym instructions = "store_info_instruction list"
type_synonym node_infos = "node option intmap"

definition NODE_SIZE :: u64 where "NODE_SIZE = 40"

section \<open>Stored nodes\<close>

definition get_root_indices :: "'it libs \<Rightarrow> u64 \<Rightarrow> u64 list" where
  "get_root_indices L header_tree_length = ft_full_roots (lib_ft L) (header_tree_length * 2)"

definition index_from_info :: "store_info \<Rightarrow> u64" where
  "index_from_info info = si_index info div NODE_SIZE"

definition node_from_bytes :: "'it libs \<Rightarrow> u64 \<Rightarrow> bytes \<Rightarrow> node hres" where
  "node_from_bytes L index data =
     (if length data < 8 then Panic
      else let len_buf = take 8 data; hash = drop 8 data
           in bindR (enc_err (ce_dec_u64 (lib_ce L) len_buf (ce_from_buffer (lib_ce L) len_buf))) (\<lambda>(len, st).
              Ok (node_new (lib_ft L) index hash len)))"

fun infos_to_nodes_loop :: "'it libs \<Rightarrow> store_info list \<Rightarrow> node_infos \<Rightarrow> node_infos hres" where
  "infos_to_nodes_loop L [] nodes = Ok nodes"
| "infos_to_nodes_loop L (info # infos) nodes =
     (let index = index_from_info info
      in if \<not> si_miss info then
           bindR (expect (si_data info)) (\<lambda>data.
           bindR (node_from_bytes L index data) (\<lambda>n.
           infos_to_nodes_loop L infos (im_insert index (Some n) nodes)))
         else infos_to_nodes_loop L infos (im_insert index None nodes))"

definition infos_to_nodes :: "'it libs \<Rightarrow> store_info list option \<Rightarrow> node_infos hres" where
  "infos_to_nodes L infos =
     (case infos of Some infos \<Rightarrow> infos_to_nodes_loop L infos [] | None \<Rightarrow> Ok [])"

section \<open>Opening\<close>

text \<open>The loop over the root indices, with their position \<open>i\<close> in the infos.\<close>

fun mt_open_loop ::
  "'it libs \<Rightarrow> store_info list \<Rightarrow> u64 list \<Rightarrow> nat \<Rightarrow> node list \<times> u64 \<times> u64 \<Rightarrow>
    (node list \<times> u64 \<times> u64) hres" where
  "mt_open_loop L infos [] i acc = Ok acc"
| "mt_open_loop L infos (index # indices) i (roots, byte_length, len) =
     bindR (index_at infos i) (\<lambda>info.
     if index \<noteq> index_from_info info then Err (CorruptStorage Tree)
     else
       bindR (expect (si_data info)) (\<lambda>data.
       bindR (node_from_bytes L index data) (\<lambda>n.
       mt_open_loop L infos indices (Suc i)
         (roots @ [n], byte_length + n_length n, len + 2 * ((n_index n - len) + 1)))))"

definition mt_open ::
  "'it libs \<Rightarrow> header_tree \<Rightarrow> store_info list option \<Rightarrow> (instructions + merkle_tree) hres" where
  "mt_open L ht infos =
     (case infos of
        None \<Rightarrow>
          Ok (Inl (map (\<lambda>index. sii_new_content Tree (NODE_SIZE * index) NODE_SIZE)
            (get_root_indices L (ht_length ht))))
      | Some infos \<Rightarrow>
          bindR (mt_open_loop L infos (get_root_indices L (ht_length ht)) 0 ([], 0, 0))
            (\<lambda>(roots, byte_length, len).
          let len = (if len > 0 then len div 2 else len)
          in bindR (if length (ht_signature ht) > 0 then
                      (case signature_try_from (ht_signature ht) of
                         None \<Rightarrow> Err InvalidSignature
                       | Some sig \<Rightarrow> Ok (Some sig))
                    else Ok None) (\<lambda>signature.
             Ok (Inr \<lparr>mt_roots = roots, mt_length = len, mt_byte_length = byte_length,
               mt_fork = ht_fork ht, mt_signature = signature, mt_unflushed = [],
               mt_truncated = False, mt_truncate_to = 0\<rparr>))))"

section \<open>Changesets\<close>

definition mt_changeset :: "merkle_tree \<Rightarrow> changeset" where
  "mt_changeset t = changeset_new (mt_length t) (mt_byte_length t) (mt_fork t) (mt_roots t)"

definition commitable :: "merkle_tree \<Rightarrow> changeset \<Rightarrow> bool" where
  "commitable t cg =
     (let correct_length =
        (if cg_upgraded cg then cg_original_tree_length cg = mt_length t
         else cg_original_tree_length cg \<le> mt_length t)
      in cg_original_tree_fork cg = mt_fork t \<and> correct_length)"

fun blank_loop :: "'it libs \<Rightarrow> nat \<Rightarrow> u64 \<Rightarrow> 'it \<Rightarrow> node intmap \<Rightarrow> node intmap hres" where
  "blank_loop L 0 head it unflushed = Diverge"
| "blank_loop L (Suc fuel) head it unflushed =
     (let index = ft_index (lib_ft L) it;
          unflushed' = (if ft_contains (lib_ft L) it head \<and> index < head
                        then im_insert index (node_new_blank index) unflushed else unflushed)
      in if ft_offset (lib_ft L) it = 0 then Ok unflushed'
         else blank_loop L fuel head (ft_parent (lib_ft L) it) unflushed')"

definition commit_truncation :: "'it libs \<Rightarrow> merkle_tree \<Rightarrow> changeset \<Rightarrow> merkle_tree hres" where
  "commit_truncation L t cg =
     (if cg_ancestors cg < cg_original_tree_length cg then
        bindR (if cg_ancestors cg > 0 then
                 let head = 2 * cg_ancestors cg
                 in blank_loop L (lib_fuel L) head (ft_new (lib_ft L) (head - 2)) (mt_unflushed t)
               else Ok (mt_unflushed t)) (\<lambda>unflushed.
        let truncate_to = (if mt_truncated t then min (mt_truncate_to t) (cg_ancestors cg)
                           else cg_ancestors cg);
            indices_to_delete = filter (\<lambda>i. i \<ge> 2 * cg_ancestors cg) (im_keys unflushed)
        in Ok (t\<lparr>mt_truncate_to := truncate_to, mt_truncated := True,
                 mt_unflushed := fold im_remove indices_to_delete unflushed\<rparr>))
      else Ok t)"

definition mt_commit :: "'it libs \<Rightarrow> merkle_tree \<Rightarrow> changeset \<Rightarrow> merkle_tree hres" where
  "mt_commit L t cg =
     (if \<not> commitable t cg then Err InvalidOperation
      else
        bindR (if cg_upgraded cg then
                 bindR (commit_truncation L t cg) (\<lambda>t.
                 Ok (t\<lparr>mt_roots := cg_roots cg, mt_length := cg_length cg,
                       mt_byte_length := cg_byte_length cg, mt_fork := cg_fork cg,
                       mt_signature := cg_signature cg\<rparr>))
               else Ok t) (\<lambda>t.
        Ok (t\<lparr>mt_unflushed :=
          fold (\<lambda>n m. im_insert (n_index n) n m) (cg_nodes cg) (mt_unflushed t)\<rparr>)))"

definition add_node :: "merkle_tree \<Rightarrow> node \<Rightarrow> merkle_tree" where
  "add_node t n = t\<lparr>mt_unflushed := im_insert (n_index n) n (mt_unflushed t)\<rparr>"

section \<open>Flushing\<close>

definition flush_truncation :: "merkle_tree \<Rightarrow> merkle_tree \<times> store_info list" where
  "flush_truncation t =
     (let offset = (if mt_truncate_to t = 0 then 0 else (mt_truncate_to t - 1) * 80 + 40)
      in (t\<lparr>mt_truncate_to := 0, mt_truncated := False\<rparr>, [si_new_truncate Tree offset]))"

definition flush_node :: "'it libs \<Rightarrow> node \<Rightarrow> store_info hres" where
  "flush_node L n =
     (let (st, buffer) = ce_new_with_size (lib_ce L) 40
      in bindR (unwrap_res (ce_enc_u64 (lib_ce L) (n_length n) st buffer)) (\<lambda>(st, buffer).
         bindR (unwrap_res (ce_enc_fixed_32 (lib_ce L) (n_hash n) st buffer)) (\<lambda>(st, buffer).
         Ok (si_new_content Tree (n_index n * 40) buffer))))"

fun flush_nodes_loop :: "'it libs \<Rightarrow> (u64 \<times> node) list \<Rightarrow> store_info list hres" where
  "flush_nodes_loop L [] = Ok []"
| "flush_nodes_loop L ((i, n) # ns) =
     bindR (flush_node L n) (\<lambda>info. bindR (flush_nodes_loop L ns) (\<lambda>infos. Ok (info # infos)))"

definition flush_nodes :: "'it libs \<Rightarrow> merkle_tree \<Rightarrow> (merkle_tree \<times> store_info list) hres" where
  "flush_nodes L t =
     bindR (flush_nodes_loop L (mt_unflushed t)) (\<lambda>infos. Ok (t\<lparr>mt_unflushed := []\<rparr>, infos))"

definition mt_flush :: "'it libs \<Rightarrow> merkle_tree \<Rightarrow> (merkle_tree \<times> store_info list) hres" where
  "mt_flush L t =
     (let (t, infos) = (if mt_truncated t then flush_truncation t else (t, []))
      in bindR (flush_nodes L t) (\<lambda>(t, node_infos). Ok (t, infos @ node_infos)))"

section \<open>Reading nodes\<close>

definition mt_node ::
  "merkle_tree \<Rightarrow> u64 \<Rightarrow> node_infos \<Rightarrow> bool \<Rightarrow> (store_info_instruction + node option) hres" where
  "mt_node t index nodes allow_miss =
     (let miss = (if allow_miss then Ok (Inr None) else Err InvalidOperation)
      in case im_get (mt_unflushed t) index of
           Some n \<Rightarrow>
             if n_blank n \<or> (mt_truncated t \<and> n_index n \<ge> 2 * mt_truncate_to t) then miss
             else Ok (Inr (Some n))
         | None \<Rightarrow>
             (case im_get nodes index of
                Some (Some n) \<Rightarrow> if n_blank n then miss else Ok (Inr (Some n))
              | Some None \<Rightarrow> miss
              | None \<Rightarrow>
                  Ok (Inl (if allow_miss then sii_new_content_allow_miss Tree (40 * index) 40
                           else sii_new_content Tree (40 * index) 40))))"

definition required_node ::
  "merkle_tree \<Rightarrow> u64 \<Rightarrow> node_infos \<Rightarrow> (store_info_instruction + node) hres" where
  "required_node t index nodes =
     bindR (mt_node t index nodes False) (\<lambda>r.
     case r of
       Inl i \<Rightarrow> Ok (Inl i)
     | Inr (Some n) \<Rightarrow> Ok (Inr n)
     | Inr None \<Rightarrow> Err InvalidOperation)"

definition optional_node ::
  "merkle_tree \<Rightarrow> u64 \<Rightarrow> node_infos \<Rightarrow> (store_info_instruction + node option) hres" where
  "optional_node t index nodes = mt_node t index nodes True"

section \<open>Byte offsets\<close>

definition hypercore_index_into_merkle_tree_index :: "u64 \<Rightarrow> u64" where
  "hypercore_index_into_merkle_tree_index hypercore_index = 2 * hypercore_index"

definition validate_hypercore_index :: "'it libs \<Rightarrow> merkle_tree \<Rightarrow> u64 \<Rightarrow> u64 hres" where
  "validate_hypercore_index L t hypercore_index =
     (let index = hypercore_index_into_merkle_tree_index hypercore_index;
          head = 2 * mt_length t;
          compare_index = (if index AND 1 = 0 then index else ft_right_span (lib_ft L) index)
      in if compare_index \<ge> head then Err BadArgument else Ok index)"

text \<open>The walk from a root down to the index, adding up what lies to the left.\<close>

fun offset_walk ::
  "'it libs \<Rightarrow> nat \<Rightarrow> merkle_tree \<Rightarrow> node_infos \<Rightarrow> u64 \<Rightarrow> 'it \<Rightarrow> instructions \<Rightarrow> u64 \<Rightarrow>
    (instructions \<times> u64) hres" where
  "offset_walk L 0 t nodes index it instrs offset = Diverge"
| "offset_walk L (Suc fuel) t nodes index it instrs offset =
     (if ft_index (lib_ft L) it \<noteq> index then
        let left_child = ft_left_child (lib_ft L) it
        in if index < ft_index (lib_ft L) it then
             offset_walk L fuel t nodes index left_child instrs offset
           else
             bindR (required_node t (ft_index (lib_ft L) left_child) nodes) (\<lambda>r.
             case r of
               Inl i \<Rightarrow> offset_walk L fuel t nodes index (ft_sibling (lib_ft L) left_child)
                 (instrs @ [i]) offset
             | Inr n \<Rightarrow> offset_walk L fuel t nodes index (ft_sibling (lib_ft L) left_child)
                 instrs (offset + n_length n))
      else Ok (instrs, offset))"

fun offset_roots_loop ::
  "'it libs \<Rightarrow> merkle_tree \<Rightarrow> node_infos \<Rightarrow> u64 \<Rightarrow> node list \<Rightarrow> u64 \<Rightarrow> u64 \<Rightarrow> (instructions + u64) hres" where
  "offset_roots_loop L t nodes index [] head offset = Err BadArgument"
| "offset_roots_loop L t nodes index (root_node # roots) head offset =
     (let head = head + 2 * ((n_index root_node - head) + 1)
      in if index \<ge> head then
           offset_roots_loop L t nodes index roots head (offset + n_length root_node)
         else
           bindR (offset_walk L (lib_fuel L) t nodes index (ft_new (lib_ft L) (n_index root_node)) [] offset)
             (\<lambda>(instrs, offset). Ok (if instrs = [] then Inr offset else Inl instrs)))"

definition byte_offset_from_nodes ::
  "'it libs \<Rightarrow> merkle_tree \<Rightarrow> u64 \<Rightarrow> node_infos \<Rightarrow> (instructions + u64) hres" where
  "byte_offset_from_nodes L t index nodes =
     (let index = (if index AND 1 = 1 then ft_left_span (lib_ft L) index else index)
      in offset_roots_loop L t nodes index (mt_roots t) 0 0)"

definition byte_offset_from_index ::
  "'it libs \<Rightarrow> merkle_tree \<Rightarrow> u64 \<Rightarrow> store_info list option \<Rightarrow> (instructions + u64) hres" where
  "byte_offset_from_index L t index infos =
     bindR (infos_to_nodes L infos) (\<lambda>nodes. byte_offset_from_nodes L t index nodes)"

definition byte_range ::
  "'it libs \<Rightarrow> merkle_tree \<Rightarrow> u64 \<Rightarrow> store_info list option \<Rightarrow> (instructions + node_byte_range) hres" where
  "byte_range L t hypercore_index infos =
     bindR (validate_hypercore_index L t hypercore_index) (\<lambda>index.
     bindR (infos_to_nodes L infos) (\<lambda>nodes.
     bindR (required_node t index nodes) (\<lambda>length_result.
     bindR (byte_offset_from_nodes L t index nodes) (\<lambda>offset_result.
     let (instrs, len) = (case length_result of Inl i \<Rightarrow> ([i], 0) | Inr n \<Rightarrow> ([], n_length n));
         (instrs', index) = (case offset_result of Inl is \<Rightarrow> (instrs @ is, 0) | Inr off \<Rightarrow> (instrs, off))
     in Ok (if instrs' = [] then Inr \<lparr>nbr_index = index, nbr_length = len\<rparr> else Inl instrs')))))"

definition byte_offset ::
  "'it libs \<Rightarrow> merkle_tree \<Rightarrow> u64 \<Rightarrow> store_info list option \<Rightarrow> (instructions + u64) hres" where
  "byte_offset L t hypercore_index infos =
     bindR (validate_hypercore_index L t hypercore_index) (\<lambda>index.
     byte_offset_from_index L t index infos)"

text \<open>The loop over the nodes of a changeset: the iterator climbs along them.\<close>

fun changeset_offset_loop ::
  "'it libs \<Rightarrow> node list \<Rightarrow> 'it \<Rightarrow> u64 \<Rightarrow> bool \<Rightarrow> node option \<Rightarrow> u64 \<times> node option" where
  "changeset_offset_loop L [] it toff is_right par = (toff, par)"
| "changeset_offset_loop L (n # ns) it toff is_right par =
     (if n_index n = ft_index (lib_ft L) it then
        let toff = (case par of
              Some p \<Rightarrow> if is_right then toff + (n_length n - n_length p) else toff
            | None \<Rightarrow> toff)
        in changeset_offset_loop L ns (ft_parent (lib_ft L) it) toff
             (ft_is_right (lib_ft L) it) (Some n)
      else changeset_offset_loop L ns it toff is_right par)"

fun sum_root_lengths :: "node list \<Rightarrow> nat \<Rightarrow> nat \<Rightarrow> u64 \<Rightarrow> u64 hres" where
  "sum_root_lengths roots i 0 acc = Ok acc"
| "sum_root_lengths roots i (Suc n) acc =
     bindR (index_at roots i) (\<lambda>r. sum_root_lengths roots (Suc i) n (acc + n_length r))"

fun position :: "('a \<Rightarrow> bool) \<Rightarrow> 'a list \<Rightarrow> nat option" where
  "position p [] = None"
| "position p (x # xs) = (if p x then Some 0 else map_option Suc (position p xs))"

definition byte_offset_in_changeset ::
  "'it libs \<Rightarrow> merkle_tree \<Rightarrow> u64 \<Rightarrow> changeset \<Rightarrow> store_info list option \<Rightarrow> (instructions + u64) hres" where
  "byte_offset_in_changeset L t hypercore_index cg infos =
     (if mt_length t = hypercore_index then Ok (Inr (mt_byte_length t))
      else
        let index = hypercore_index_into_merkle_tree_index hypercore_index;
            (toff, par) = changeset_offset_loop L (cg_nodes cg) (ft_new (lib_ft L) index) 0 False None;
            finish = (\<lambda>search_index.
              bindR (byte_offset_from_index L t search_index infos) (\<lambda>r.
              case r of
                Inl instrs \<Rightarrow> Ok (Inl instrs)
              | Inr offset \<Rightarrow> Ok (Inr (offset + toff))))
        in case par of
             Some p \<Rightarrow>
               (case position (\<lambda>r. n_index r = n_index p) (cg_roots cg) of
                  Some r \<Rightarrow> bindR (sum_root_lengths (mt_roots t) 0 r toff) (\<lambda>o'. Ok (Inr o'))
                | None \<Rightarrow> finish (n_index p))
           | None \<Rightarrow> finish index)"

section \<open>Truncation and missing nodes\<close>

fun truncate_loop ::
  "merkle_tree \<Rightarrow> node_infos \<Rightarrow> u64 list \<Rightarrow> nat \<Rightarrow> node list \<Rightarrow> instructions \<Rightarrow> (node list \<times> instructions) hres" where
  "truncate_loop t nodes [] i roots instrs = Ok (roots, instrs)"
| "truncate_loop t nodes (root # full_roots) i roots instrs =
     (if i < length roots \<and> n_index (roots ! i) = root
      then truncate_loop t nodes full_roots (Suc i) roots instrs
      else
        bindR (required_node t root nodes) (\<lambda>r.
        case r of
          Inl instr \<Rightarrow> truncate_loop t nodes full_roots (Suc i) (take i roots) (instrs @ [instr])
        | Inr n \<Rightarrow> truncate_loop t nodes full_roots (Suc i) (take i roots @ [n]) instrs))"

definition mt_truncate ::
  "'it libs \<Rightarrow> merkle_tree \<Rightarrow> u64 \<Rightarrow> u64 \<Rightarrow> store_info list option \<Rightarrow> (instructions + changeset) hres" where
  "mt_truncate L t len fork infos =
     (let head = len * 2; full_roots = ft_full_roots (lib_ft L) head
      in bindR (infos_to_nodes L infos) (\<lambda>nodes.
         let cg = mt_changeset t
         in bindR (truncate_loop t nodes full_roots 0 (cg_roots cg) []) (\<lambda>(roots, instrs).
            if instrs = [] then
              let roots = take (length full_roots) roots
              in Ok (Inr (cg\<lparr>cg_roots := roots, cg_fork := fork, cg_length := len,
                   cg_ancestors := len, cg_byte_length := fold (\<lambda>n acc. acc + n_length n) roots 0,
                   cg_upgraded := True\<rparr>))
            else Ok (Inl instrs))))"

fun missing_loop ::
  "'it libs \<Rightarrow> nat \<Rightarrow> merkle_tree \<Rightarrow> node_infos \<Rightarrow> u64 \<Rightarrow> 'it \<Rightarrow> u64 \<Rightarrow> (instructions + u64) hres" where
  "missing_loop L 0 t nodes head it count = Diverge"
| "missing_loop L (Suc fuel) t nodes head it count =
     (if \<not> ft_contains (lib_ft L) it head then
        bindR (optional_node t (ft_index (lib_ft L) it) nodes) (\<lambda>r.
        case r of
          Inl instr \<Rightarrow> Ok (Inl [instr])
        | Inr None \<Rightarrow> missing_loop L fuel t nodes head (ft_parent (lib_ft L) it) (count + 1)
        | Inr (Some n) \<Rightarrow> Ok (Inr count))
      else Ok (Inr count))"

definition missing_nodes ::
  "'it libs \<Rightarrow> merkle_tree \<Rightarrow> u64 \<Rightarrow> store_info list option \<Rightarrow> (instructions + u64) hres" where
  "missing_nodes L t index infos =
     (let head = 2 * mt_length t;
          it = ft_new (lib_ft L) index;
          iter_right_span = ft_index (lib_ft L) it + ft_factor (lib_ft L) it div 2 - 1
      in if iter_right_span \<ge> head then Ok (Inr 0)
         else bindR (infos_to_nodes L infos) (\<lambda>nodes.
              missing_loop L (lib_fuel L) t nodes head it 0))"

end
