(* ===== verification/Merkle_Proof.thy ===== *)
theory Merkle_Proof
  imports Merkle_Tree
begin

text \<open>
  The second half of \<^verbatim>\<open>src/src/tree/merkle_tree.rs\<close>: creating proofs for a peer's requests
  and verifying proofs received from a peer.
\<close>

section \<open>Requests and data, normalised\<close>

record normalized_indexed =
  ni_value :: bool
  ni_index :: u64
  ni_nodes :: u64
  ni_last_index :: u64

definition normalize_indexed ::
  "'it libs \<Rightarrow> request_block option \<Rightarrow> request_block option \<Rightarrow> normalized_indexed option" where
  "normalize_indexed L block hash =
     (case block of
        Some block \<Rightarrow> Some \<lparr>ni_value = True, ni_index = rb_index block * 2, ni_nodes = rb_nodes block,
          ni_last_index = rb_index block\<rparr>
      | None \<Rightarrow>
          map_option (\<lambda>hash. \<lparr>ni_value = False, ni_index = rb_index hash, ni_nodes = rb_nodes hash,
            ni_last_index = ft_right_span (lib_ft L) (rb_index hash) div 2\<rparr>) hash)"

record normalized_data =
  nd_value :: "bytes option"
  nd_index :: u64
  nd_nodes :: "node list"

definition normalize_data :: "data_block option \<Rightarrow> data_hash option \<Rightarrow> normalized_data option" where
  "normalize_data block hash =
     (case block of
        Some block \<Rightarrow> Some \<lparr>nd_value = Some (dblk_value block), nd_index = dblk_index block * 2,
          nd_nodes = dblk_nodes block\<rparr>
      | None \<Rightarrow>
          map_option (\<lambda>hash. \<lparr>nd_value = None, nd_index = dh_index hash, nd_nodes = dh_nodes hash\<rparr>) hash)"

record local_proof =
  lp_seek :: "node list option"
  lp_nodes :: "node list option"
  lp_upgrade :: "node list option"
  lp_additional_upgrade :: "node list option"

fun nodes_to_root_loop :: "'it libs \<Rightarrow> nat \<Rightarrow> u64 \<Rightarrow> 'it \<Rightarrow> 'it hres" where
  "nodes_to_root_loop L 0 head it = Ok it"
| "nodes_to_root_loop L (Suc n) head it =
     (let it = ft_parent (lib_ft L) it
      in if ft_contains (lib_ft L) it head then Err InvalidOperation
         else nodes_to_root_loop L n head it)"

definition nodes_to_root :: "'it libs \<Rightarrow> u64 \<Rightarrow> u64 \<Rightarrow> u64 \<Rightarrow> u64 hres" where
  "nodes_to_root L index nodes head =
     bindR (nodes_to_root_loop L (unat nodes) head (ft_new (lib_ft L) index)) (\<lambda>it.
     Ok (ft_index (lib_ft L) it))"

definition parent_node :: "'it libs \<Rightarrow> u64 \<Rightarrow> node \<Rightarrow> node \<Rightarrow> node hres" where
  "parent_node L index left right =
     bindR (hash_parent L left right) (\<lambda>hash.
     Ok (node_new (lib_ft L) index hash (n_length left + n_length right)))"

definition block_node :: "'it libs \<Rightarrow> u64 \<Rightarrow> bytes \<Rightarrow> node hres" where
  "block_node L index val =
     bindR (hash_data L val) (\<lambda>hash. Ok (node_new (lib_ft L) index hash (of_nat (length val))))"

section \<open>The queue of received nodes\<close>

record node_queue =
  nq_i :: nat
  nq_nodes :: "node list"
  nq_extra :: "node option"
  nq_length :: nat

definition node_queue_new :: "node list \<Rightarrow> node option \<Rightarrow> node_queue" where
  "node_queue_new nodes extra =
     \<lparr>nq_i = 0, nq_nodes = nodes, nq_extra = extra,
      nq_length = length nodes + (if extra \<noteq> None then 1 else 0)\<rparr>"

definition shift :: "node_queue \<Rightarrow> u64 \<Rightarrow> (node \<times> node_queue) hres" where
  "shift q index =
     (let rest =
        (if nq_i q \<ge> length (nq_nodes q) then Err InvalidOperation
         else let n = nq_nodes q ! nq_i q; q = q\<lparr>nq_i := nq_i q + 1\<rparr>
              in if n_index n \<noteq> index then Err InvalidOperation
                 else Ok (n, q\<lparr>nq_length := nq_length q - 1\<rparr>))
      in case nq_extra q of
           Some extra \<Rightarrow>
             if n_index extra = index
             then Ok (extra, q\<lparr>nq_extra := None, nq_length := nq_length q - 1\<rparr>)
             else rest
         | None \<Rightarrow> rest)"

lemma shift_length: "shift q index = Ok (n, q') \<Longrightarrow> nq_length q' = nq_length q - 1"
  by (auto simp: shift_def Let_def split: option.splits if_splits)

section \<open>Verifying\<close>

text \<open>The loop of \<open>verify_tree\<close>: consume siblings from the queue up to the root they lead to.\<close>

function climb_queue ::
  "'it libs \<Rightarrow> node_queue \<Rightarrow> 'it \<Rightarrow> node \<Rightarrow> node list \<Rightarrow> (node \<times> node list) hres" where
  "climb_queue L q it current_root nodes =
     (if nq_length q > 0 then
        let it1 = ft_sibling (lib_ft L) it
        in bindR (shift q (ft_index (lib_ft L) it1)) (\<lambda>(n, q).
           let it2 = ft_parent (lib_ft L) it1
           in bindR (parent_node L (ft_index (lib_ft L) it2) current_root n) (\<lambda>p.
              climb_queue L q it2 p (nodes @ [n, p])))
      else Ok (current_root, nodes))"
  by pat_completeness auto
termination
  by (relation "measure (\<lambda>(L, q, it, r, nodes). nq_length q)") (auto dest!: shift_length)

declare climb_queue.simps [simp del]

definition verify_tree ::
  "'it libs \<Rightarrow> data_block option \<Rightarrow> data_hash option \<Rightarrow> data_seek option \<Rightarrow> changeset \<Rightarrow>
    (node option \<times> changeset) hres" where
  "verify_tree L block hash seek cg =
     (let untrusted_node = normalize_data block hash;
          no_seek = (case seek of Some seek \<Rightarrow> ds_nodes seek = [] | None \<Rightarrow> True)
      in if untrusted_node = None \<and> no_seek then Ok (None, cg)
         else
           bindR
             (case seek of
                Some seek \<Rightarrow>
                  if ds_nodes seek \<noteq> [] then
                    let it = ft_new (lib_ft L) (n_index (ds_nodes seek ! 0));
                        q = node_queue_new (ds_nodes seek) None
                    in bindR (shift q (ft_index (lib_ft L) it)) (\<lambda>(n, q).
                       bindR (climb_queue L q it n (cg_nodes cg @ [n])) (\<lambda>(root, nodes).
                       Ok (Some root, cg\<lparr>cg_nodes := nodes\<rparr>)))
                  else Ok (None, cg)
              | None \<Rightarrow> Ok (None, cg)) (\<lambda>(root, cg).
           case untrusted_node of
             Some untrusted_node \<Rightarrow>
               let it = ft_new (lib_ft L) (nd_index untrusted_node);
                   q = node_queue_new (nd_nodes untrusted_node) root
               in bindR (case nd_value untrusted_node of
                           Some val \<Rightarrow>
                             bindR (block_node L (ft_index (lib_ft L) it) val) (\<lambda>n. Ok (n, q))
                         | None \<Rightarrow> shift q (ft_index (lib_ft L) it)) (\<lambda>(n, q).
                  bindR (climb_queue L q it n (cg_nodes cg @ [n])) (\<lambda>(root, nodes).
                  Ok (Some root, cg\<lparr>cg_nodes := nodes\<rparr>)))
           | None \<Rightarrow> Ok (root, cg)))"

text \<open>The inner loop of \<open>verify_upgrade\<close> that grows an existing root.\<close>

fun grow_loop ::
  "'it libs \<Rightarrow> nat \<Rightarrow> u64 \<Rightarrow> node_queue \<Rightarrow> changeset \<Rightarrow> 'it \<Rightarrow> (node_queue \<times> changeset \<times> 'it) hres" where
  "grow_loop L 0 root_index q cg it = Diverge"
| "grow_loop L (Suc fuel) root_index q cg it =
     (if ft_index (lib_ft L) it \<noteq> root_index then
        let it = ft_sibling (lib_ft L) it
        in bindR (shift q (ft_index (lib_ft L) it)) (\<lambda>(n, q).
           bindR (append_root L cg n it) (\<lambda>(cg, it).
           grow_loop L fuel root_index q cg it))
      else Ok (q, cg, it))"

fun upgrade_roots_loop ::
  "'it libs \<Rightarrow> nat \<Rightarrow> u64 \<Rightarrow> node_queue \<Rightarrow> changeset \<Rightarrow> bool \<Rightarrow> nat \<Rightarrow> 'it \<Rightarrow>
    (node_queue \<times> changeset \<times> 'it) hres" where
  "upgrade_roots_loop L 0 to q cg grow i it = Diverge"
| "upgrade_roots_loop L (Suc fuel) to q cg grow i it =
     (let (full, it) = ft_full_root (lib_ft L) to it
      in if \<not> full then Ok (q, cg, it)
         else if i < length (cg_roots cg) \<and> n_index (cg_roots cg ! i) = ft_index (lib_ft L) it then
           upgrade_roots_loop L fuel to q cg grow (i + 1) (ft_next_tree (lib_ft L) it)
         else if grow \<and> i < length (cg_roots cg) then
           let root_index = ft_index (lib_ft L) it;
               it = ft_seek (lib_ft L) (n_index (last (cg_roots cg))) it
           in bindR (grow_loop L (lib_fuel L) root_index q cg it) (\<lambda>(q, cg, it).
              upgrade_roots_loop L fuel to q cg False i (ft_next_tree (lib_ft L) it))
         else
           bindR (shift q (ft_index (lib_ft L) it)) (\<lambda>(n, q).
           bindR (append_root L cg n it) (\<lambda>(cg, it).
           upgrade_roots_loop L fuel to q cg False i (ft_next_tree (lib_ft L) it))))"

text \<open>The two loops over the additional nodes.  The condition of the first moves the iterator.\<close>

fun extra_siblings :: "'it libs \<Rightarrow> node list \<Rightarrow> changeset \<Rightarrow> 'it \<Rightarrow> (node list \<times> changeset \<times> 'it) hres" where
  "extra_siblings L [] cg it = Ok ([], cg, it)"
| "extra_siblings L (n # extra) cg it =
     (let it = ft_sibling (lib_ft L) it
      in if n_index n = ft_index (lib_ft L) it then
           bindR (append_root L cg n it) (\<lambda>(cg, it). extra_siblings L extra cg it)
         else Ok (n # extra, cg, it))"

fun descend_to :: "'it libs \<Rightarrow> nat \<Rightarrow> u64 \<Rightarrow> 'it \<Rightarrow> 'it hres" where
  "descend_to L 0 index it = Diverge"
| "descend_to L (Suc fuel) index it =
     (if index \<noteq> ft_index (lib_ft L) it then
        if ft_factor (lib_ft L) it = 2 then Err InvalidOperation
        else descend_to L fuel index (ft_left_child (lib_ft L) it)
      else Ok it)"

fun extra_roots :: "'it libs \<Rightarrow> node list \<Rightarrow> changeset \<Rightarrow> 'it \<Rightarrow> changeset hres" where
  "extra_roots L [] cg it = Ok cg"
| "extra_roots L (n # extra) cg it =
     bindR (descend_to L (lib_fuel L) (n_index n) it) (\<lambda>it.
     bindR (append_root L cg n it) (\<lambda>(cg, it).
     extra_roots L extra cg (ft_sibling (lib_ft L) it)))"

definition verify_upgrade ::
  "'it libs \<Rightarrow> u64 \<Rightarrow> data_upgrade \<Rightarrow> node option \<Rightarrow> bytes \<Rightarrow> changeset \<Rightarrow> (bool \<times> changeset) hres" where
  "verify_upgrade L fork upgrade block_root public_key cg =
     (let q = node_queue_new (du_nodes upgrade) block_root;
          grow = (cg_roots cg \<noteq> []);
          to = 2 * (du_start upgrade + du_length upgrade)
      in bindR (upgrade_roots_loop L (lib_fuel L) to q cg grow 0 (ft_new (lib_ft L) 0)) (\<lambda>(q, cg, it).
         if cg_roots cg = [] then Panic
         else
           let it = ft_seek (lib_ft L) (n_index (last (cg_roots cg))) it
           in bindR (extra_siblings L (du_additional_nodes upgrade) cg it) (\<lambda>(extra, cg, it).
              bindR (extra_roots L extra cg it) (\<lambda>cg.
              bindR (verify_and_set_signature L (cg\<lparr>cg_fork := fork\<rparr>) (du_signature upgrade) public_key) (\<lambda>cg.
              Ok (nq_extra q = None, cg))))))"

definition verify_proof ::
  "'it libs \<Rightarrow> merkle_tree \<Rightarrow> proof_msg \<Rightarrow> bytes \<Rightarrow> store_info list option \<Rightarrow> (instructions + changeset) hres" where
  "verify_proof L t pf public_key infos =
     bindR (infos_to_nodes L infos) (\<lambda>nodes.
     bindR (verify_tree L (pf_block pf) (pf_hash pf) (pf_seek pf) (mt_changeset t)) (\<lambda>(unverified, cg).
     bindR (case pf_upgrade pf of
              Some upgrade \<Rightarrow>
                bindR (verify_upgrade L (pf_fork pf) upgrade unverified public_key cg) (\<lambda>(consumed, cg).
                Ok (if consumed then None else unverified, cg))
            | None \<Rightarrow> Ok (unverified, cg)) (\<lambda>(unverified, cg).
     case unverified of
       Some unverified \<Rightarrow>
         bindR (required_node t (n_index unverified) nodes) (\<lambda>r.
         case r of
           Inl instr \<Rightarrow> Ok (Inl [instr])
         | Inr verified \<Rightarrow>
             if n_hash verified \<noteq> n_hash unverified then Err InvalidChecksum else Ok (Inr cg))
     | None \<Rightarrow> Ok (Inr cg))))"

section \<open>Seeking\<close>

fun seek_trusted_loop ::
  "'it libs \<Rightarrow> nat \<Rightarrow> merkle_tree \<Rightarrow> node_infos \<Rightarrow> 'it \<Rightarrow> u64 \<Rightarrow> (instructions + u64) hres" where
  "seek_trusted_loop L 0 t nodes it bytes = Diverge"
| "seek_trusted_loop L (Suc fuel) t nodes it bytes =
     (if ft_index (lib_ft L) it AND 1 \<noteq> 0 then
        let it = ft_left_child (lib_ft L) it
        in bindR (optional_node t (ft_index (lib_ft L) it) nodes) (\<lambda>r.
           case r of
             Inl instr \<Rightarrow> Ok (Inl [instr])
           | Inr (Some n) \<Rightarrow>
               if n_length n = bytes then Ok (Inr (ft_index (lib_ft L) it))
               else if n_length n > bytes then seek_trusted_loop L fuel t nodes it bytes
               else seek_trusted_loop L fuel t nodes (ft_sibling (lib_ft L) it) (bytes - n_length n)
           | Inr None \<Rightarrow> Ok (Inr (ft_index (lib_ft L) (ft_parent (lib_ft L) it))))
      else Ok (Inr (ft_index (lib_ft L) it)))"

definition seek_trusted_tree ::
  "'it libs \<Rightarrow> merkle_tree \<Rightarrow> u64 \<Rightarrow> u64 \<Rightarrow> node_infos \<Rightarrow> (instructions + u64) hres" where
  "seek_trusted_tree L t root bytes nodes =
     (if bytes = 0 then Ok (Inr root)
      else seek_trusted_loop L (lib_fuel L) t nodes (ft_new (lib_ft L) root) bytes)"

fun seek_roots_loop ::
  "'it libs \<Rightarrow> merkle_tree \<Rightarrow> node_infos \<Rightarrow> u64 \<Rightarrow> u64 list \<Rightarrow> u64 \<Rightarrow> instructions \<Rightarrow> (instructions + u64) hres" where
  "seek_roots_loop L t nodes head [] bytes instrs = Ok (if instrs = [] then Inr head else Inl instrs)"
| "seek_roots_loop L t nodes head (root # roots) bytes instrs =
     bindR (required_node t root nodes) (\<lambda>r.
     case r of
       Inl instr \<Rightarrow> seek_roots_loop L t nodes head roots bytes (instrs @ [instr])
     | Inr n \<Rightarrow>
         if bytes = n_length n then Ok (Inr root)
         else if bytes > n_length n then seek_roots_loop L t nodes head roots (bytes - n_length n) instrs
         else bindR (seek_trusted_tree L t root bytes nodes) (\<lambda>r.
              case r of Inl new \<Rightarrow> Ok (Inl (instrs @ new)) | Inr index \<Rightarrow> Ok (Inr index)))"

definition seek_from_head ::
  "'it libs \<Rightarrow> merkle_tree \<Rightarrow> u64 \<Rightarrow> u64 \<Rightarrow> node_infos \<Rightarrow> (instructions + u64) hres" where
  "seek_from_head L t head bytes nodes =
     seek_roots_loop L t nodes head (ft_full_roots (lib_ft L) head) bytes []"

definition seek_untrusted_tree ::
  "'it libs \<Rightarrow> merkle_tree \<Rightarrow> u64 \<Rightarrow> u64 \<Rightarrow> node_infos \<Rightarrow> (instructions + u64) hres" where
  "seek_untrusted_tree L t root bytes nodes =
     (let finish = (\<lambda>bytes instrs.
        bindR (seek_trusted_tree L t root bytes nodes) (\<lambda>r.
        case r of Inl new \<Rightarrow> Ok (Inl (instrs @ new)) | Inr index \<Rightarrow> Ok (Inr index)))
      in bindR (byte_offset_from_nodes L t root nodes) (\<lambda>r.
         case r of
           Inl new \<Rightarrow> finish bytes new
         | Inr offset \<Rightarrow>
             if offset > bytes then Err InvalidOperation
             else if offset = bytes then Ok (Inr root)
             else
               let bytes = bytes - offset
               in bindR (required_node t root nodes) (\<lambda>r.
                  case r of
                    Inl instr \<Rightarrow> finish bytes [instr]
                  | Inr n \<Rightarrow> if n_length n \<le> bytes then Err InvalidOperation else finish bytes [])))"

section \<open>Creating\<close>

text \<open>Read a node into a list of nodes, or note the read it needs.\<close>

definition collect ::
  "merkle_tree \<Rightarrow> node_infos \<Rightarrow> u64 \<Rightarrow> node list \<times> instructions \<Rightarrow> (node list \<times> instructions) hres" where
  "collect t nodes index acc =
     bindR (required_node t index nodes) (\<lambda>r.
     case r of
       Inl instr \<Rightarrow> Ok (fst acc, snd acc @ [instr])
     | Inr n \<Rightarrow> Ok (fst acc @ [n], snd acc))"

fun seek_proof_loop ::
  "'it libs \<Rightarrow> nat \<Rightarrow> merkle_tree \<Rightarrow> node_infos \<Rightarrow> u64 \<Rightarrow> 'it \<Rightarrow> node list \<times> instructions \<Rightarrow>
    (node list \<times> instructions) hres" where
  "seek_proof_loop L 0 t nodes root it acc = Diverge"
| "seek_proof_loop L (Suc fuel) t nodes root it acc =
     (if ft_index (lib_ft L) it \<noteq> root then
        let it = ft_sibling (lib_ft L) it
        in bindR (collect t nodes (ft_index (lib_ft L) it) acc) (\<lambda>acc.
           seek_proof_loop L fuel t nodes root (ft_parent (lib_ft L) it) acc)
      else Ok acc)"

definition seek_proof ::
  "'it libs \<Rightarrow> merkle_tree \<Rightarrow> u64 \<Rightarrow> u64 \<Rightarrow> local_proof \<Rightarrow> node_infos \<Rightarrow> (local_proof \<times> instructions) hres" where
  "seek_proof L t seek_root root p nodes =
     (let it = ft_new (lib_ft L) seek_root
      in bindR (collect t nodes (ft_index (lib_ft L) it) ([], [])) (\<lambda>acc.
         bindR (seek_proof_loop L (lib_fuel L) t nodes root it acc) (\<lambda>(seek_nodes, instrs).
         Ok (p\<lparr>lp_seek := Some seek_nodes\<rparr>, instrs))))"

fun block_proof_loop ::
  "'it libs \<Rightarrow> nat \<Rightarrow> merkle_tree \<Rightarrow> node_infos \<Rightarrow> bool \<Rightarrow> u64 \<Rightarrow> u64 \<Rightarrow> 'it \<Rightarrow> local_proof \<Rightarrow>
    node list \<times> instructions \<Rightarrow> (local_proof \<times> node list \<times> instructions) hres" where
  "block_proof_loop L 0 t nodes is_seek seek_root root it p acc = Diverge"
| "block_proof_loop L (Suc fuel) t nodes is_seek seek_root root it p acc =
     (if ft_index (lib_ft L) it \<noteq> root then
        let it = ft_sibling (lib_ft L) it
        in if is_seek \<and> ft_contains (lib_ft L) it seek_root \<and> ft_index (lib_ft L) it \<noteq> seek_root then
             bindR (seek_proof L t seek_root (ft_index (lib_ft L) it) p nodes) (\<lambda>(p, new).
             block_proof_loop L fuel t nodes is_seek seek_root root (ft_parent (lib_ft L) it) p
               (fst acc, snd acc @ new))
           else
             bindR (collect t nodes (ft_index (lib_ft L) it) acc) (\<lambda>acc.
             block_proof_loop L fuel t nodes is_seek seek_root root (ft_parent (lib_ft L) it) p acc)
      else Ok (p, acc))"

definition block_and_seek_proof ::
  "'it libs \<Rightarrow> merkle_tree \<Rightarrow> normalized_indexed option \<Rightarrow> bool \<Rightarrow> u64 \<Rightarrow> u64 \<Rightarrow> local_proof \<Rightarrow> node_infos \<Rightarrow>
    (local_proof \<times> instructions) hres" where
  "block_and_seek_proof L t indexed is_seek seek_root root p nodes =
     (case indexed of
        Some indexed \<Rightarrow>
          let it = ft_new (lib_ft L) (ni_index indexed)
          in bindR (if \<not> ni_value indexed then collect t nodes (ft_index (lib_ft L) it) ([], [])
                    else Ok ([], [])) (\<lambda>acc.
             bindR (block_proof_loop L (lib_fuel L) t nodes is_seek seek_root root it p acc) (\<lambda>(p, p_nodes, instrs).
             Ok (p\<lparr>lp_nodes := Some p_nodes\<rparr>, instrs)))
      | None \<Rightarrow> seek_proof L t seek_root root p nodes)"

text \<open>The parameters of the upgrade loops that do not change.\<close>

record upgrade_request =
  ur_indexed :: "normalized_indexed option"
  ur_is_seek :: bool
  ur_sub_tree :: u64

text \<open>The inner loop that connects the existing tree.  Without a request it is the one of
  \<open>additional_upgrade_proof\<close>, which only collects nodes.\<close>

definition upgrade_take ::
  "'it libs \<Rightarrow> merkle_tree \<Rightarrow> node_infos \<Rightarrow> upgrade_request option \<Rightarrow> 'it \<Rightarrow> local_proof \<Rightarrow>
    node list \<times> instructions \<Rightarrow> (local_proof \<times> node list \<times> instructions) hres" where
  "upgrade_take L t nodes req it p acc =
     (case req of
        Some req \<Rightarrow>
          if lp_nodes p = None \<and> lp_seek p = None \<and> ft_contains (lib_ft L) it (ur_sub_tree req) then
            bindR (block_and_seek_proof L t (ur_indexed req) (ur_is_seek req) (ur_sub_tree req)
              (ft_index (lib_ft L) it) p nodes) (\<lambda>(p, new). Ok (p, fst acc, snd acc @ new))
          else bindR (collect t nodes (ft_index (lib_ft L) it) acc) (\<lambda>acc. Ok (p, acc))
      | None \<Rightarrow> bindR (collect t nodes (ft_index (lib_ft L) it) acc) (\<lambda>acc. Ok (p, acc)))"

fun connect_loop ::
  "'it libs \<Rightarrow> nat \<Rightarrow> merkle_tree \<Rightarrow> node_infos \<Rightarrow> upgrade_request option \<Rightarrow> u64 \<Rightarrow> u64 \<Rightarrow> 'it \<Rightarrow> local_proof \<Rightarrow>
    node list \<times> instructions \<Rightarrow> ('it \<times> local_proof \<times> node list \<times> instructions) hres" where
  "connect_loop L 0 t nodes req root target it p acc = Diverge"
| "connect_loop L (Suc fuel) t nodes req root target it p acc =
     (if ft_index (lib_ft L) it \<noteq> root then
        let it = ft_sibling (lib_ft L) it
        in bindR (if ft_index (lib_ft L) it > target then upgrade_take L t nodes req it p acc
                  else Ok (p, acc)) (\<lambda>(p, acc).
           connect_loop L fuel t nodes req root target (ft_parent (lib_ft L) it) p acc)
      else Ok (it, p, acc))"

fun upgrade_loop ::
  "'it libs \<Rightarrow> nat \<Rightarrow> merkle_tree \<Rightarrow> node_infos \<Rightarrow> upgrade_request option \<Rightarrow> u64 \<Rightarrow> u64 \<Rightarrow> bool \<Rightarrow> 'it \<Rightarrow> local_proof \<Rightarrow>
    node list \<times> instructions \<Rightarrow> (bool \<times> local_proof \<times> node list \<times> instructions) hres" where
  "upgrade_loop L 0 t nodes req from to has_upgrade it p acc = Diverge"
| "upgrade_loop L (Suc fuel) t nodes req from to has_upgrade it p acc =
     (let (full, it) = ft_full_root (lib_ft L) to it
      in if \<not> full then Ok (has_upgrade, p, acc)
         else if ft_index (lib_ft L) it + ft_factor (lib_ft L) it div 2 < from then
           upgrade_loop L fuel t nodes req from to has_upgrade (ft_next_tree (lib_ft L) it) p acc
         else if \<not> has_upgrade \<and> ft_contains (lib_ft L) it (from - 2) then
           let root = ft_index (lib_ft L) it; target = from - 2;
               it = ft_seek (lib_ft L) target it
           in bindR (connect_loop L (lib_fuel L) t nodes req root target it p acc) (\<lambda>(it, p, acc).
              upgrade_loop L fuel t nodes req from to True (ft_next_tree (lib_ft L) it) p acc)
         else
           bindR (upgrade_take L t nodes req it p acc) (\<lambda>(p, acc).
           upgrade_loop L fuel t nodes req from to True (ft_next_tree (lib_ft L) it) p acc))"

definition upgrade_proof ::
  "'it libs \<Rightarrow> merkle_tree \<Rightarrow> normalized_indexed option \<Rightarrow> bool \<Rightarrow> u64 \<Rightarrow> u64 \<Rightarrow> u64 \<Rightarrow> local_proof \<Rightarrow> node_infos \<Rightarrow>
    (local_proof \<times> instructions) hres" where
  "upgrade_proof L t indexed is_seek from to sub_tree p nodes =
     bindR (upgrade_loop L (lib_fuel L) t nodes
       (Some \<lparr>ur_indexed = indexed, ur_is_seek = is_seek, ur_sub_tree = sub_tree\<rparr>)
       from to (from = 0) (ft_new (lib_ft L) 0) p ([], [])) (\<lambda>(has_upgrade, p, upgrade, instrs).
     Ok (if has_upgrade then p\<lparr>lp_upgrade := Some upgrade\<rparr> else p, instrs))"

definition additional_upgrade_proof ::
  "'it libs \<Rightarrow> merkle_tree \<Rightarrow> u64 \<Rightarrow> u64 \<Rightarrow> local_proof \<Rightarrow> node_infos \<Rightarrow> (local_proof \<times> instructions) hres" where
  "additional_upgrade_proof L t from to p nodes =
     bindR (upgrade_loop L (lib_fuel L) t nodes None from to (from = 0) (ft_new (lib_ft L) 0) p ([], []))
       (\<lambda>(has_upgrade, p, upgrade, instrs).
     Ok (if has_upgrade then p\<lparr>lp_additional_upgrade := Some upgrade\<rparr> else p, instrs))"

text \<open>The block and seek part of \<open>create_valueless_proof\<close> (lines 363 to 418): the subtree, whether
  it is untrusted, the local proof and the reads, or an early return of reads.\<close>

definition proof_sub_tree ::
  "'it libs \<Rightarrow> merkle_tree \<Rightarrow> node_infos \<Rightarrow> normalized_indexed option \<Rightarrow> request_seek option \<Rightarrow>
    request_upgrade option \<Rightarrow> u64 \<Rightarrow> u64 \<Rightarrow> (instructions + u64 \<times> local_proof \<times> instructions) hres" where
  "proof_sub_tree L t nodes indexed seek upgrade from to =
     (let head = 2 * mt_length t;
          p0 = \<lparr>lp_seek = None, lp_nodes = None, lp_upgrade = None, lp_additional_upgrade = None\<rparr>;
          trusted = (\<lambda>sub_tree p instrs.
            case seek of
              Some seek \<Rightarrow>
                bindR (seek_from_head L t to (rs_bytes seek) nodes) (\<lambda>r.
                case r of
                  Inl new \<Rightarrow> Ok (Inl (instrs @ new))
                | Inr index \<Rightarrow> Ok (Inr (index, p, instrs)))
            | None \<Rightarrow> Ok (Inr (sub_tree, p, instrs)))
      in case indexed of
           None \<Rightarrow> trusted head p0 []
         | Some ix \<Rightarrow>
             if seek \<noteq> None \<and> upgrade \<noteq> None \<and> ni_index ix \<ge> from then Err InvalidOperation
             else
               let untrusted_sub_tree = (case upgrade of
                     Some upgrade \<Rightarrow> ni_last_index ix < ru_start upgrade
                   | None \<Rightarrow> True)
               in if untrusted_sub_tree then
                    bindR (nodes_to_root L (ni_index ix) (ni_nodes ix) to) (\<lambda>sub_tree.
                    bindR (case seek of
                             Some seek \<Rightarrow> seek_untrusted_tree L t sub_tree (rs_bytes seek) nodes
                           | None \<Rightarrow> Ok (Inr head)) (\<lambda>r.
                    case r of
                      Inl new \<Rightarrow> Ok (Inl new)
                    | Inr seek_root \<Rightarrow>
                        bindR (block_and_seek_proof L t (Some ix) (seek \<noteq> None) seek_root sub_tree p0 nodes)
                          (\<lambda>(p, new). Ok (Inr (sub_tree, p, new)))))
                  else trusted (if upgrade \<noteq> None then ni_index ix else head) p0 [])"

definition create_valueless_proof ::
  "'it libs \<Rightarrow> merkle_tree \<Rightarrow> request_block option \<Rightarrow> request_block option \<Rightarrow> request_seek option \<Rightarrow>
    request_upgrade option \<Rightarrow> store_info list option \<Rightarrow> (instructions + valueless_proof) hres" where
  "create_valueless_proof L t block hash seek upgrade infos =
     bindR (infos_to_nodes L infos) (\<lambda>nodes.
     let head = 2 * mt_length t;
         (from, to) = (case upgrade of
            Some upgrade \<Rightarrow> (ru_start upgrade * 2, ru_start upgrade * 2 + ru_length upgrade * 2)
          | None \<Rightarrow> (0, head));
         indexed = normalize_indexed L block hash
     in if from \<ge> to \<or> to > head then Err InvalidOperation
        else
          bindR (proof_sub_tree L t nodes indexed seek upgrade from to) (\<lambda>r.
          case r of
            Inl instrs \<Rightarrow> Ok (Inl instrs)
          | Inr (sub_tree, p, instrs) \<Rightarrow>
              bindR (if upgrade \<noteq> None then
                       bindR (upgrade_proof L t indexed (seek \<noteq> None) from to sub_tree p nodes) (\<lambda>(p, new).
                       if head > to then
                         bindR (additional_upgrade_proof L t to head p nodes) (\<lambda>(p, new').
                         Ok (p, instrs @ new @ new'))
                       else Ok (p, instrs @ new))
                     else Ok (p, instrs)) (\<lambda>(p, instrs).
              if instrs \<noteq> [] then Ok (Inl instrs)
              else
                bindR (case block of
                         Some block \<Rightarrow>
                           bindR (expect (lp_nodes p)) (\<lambda>ns.
                           Ok (Some \<lparr>dh_index = rb_index block, dh_nodes = ns\<rparr>, None))
                       | None \<Rightarrow>
                           (case hash of
                              Some hash \<Rightarrow>
                                bindR (expect (lp_nodes p)) (\<lambda>ns.
                                Ok (None, Some \<lparr>dh_index = rb_index hash, dh_nodes = ns\<rparr>))
                            | None \<Rightarrow> Ok (None, None))) (\<lambda>(data_block, data_hash).
                let data_seek = (case seek of
                      Some seek \<Rightarrow> map_option (\<lambda>ns. \<lparr>ds_bytes = rs_bytes seek, ds_nodes = ns\<rparr>) (lp_seek p)
                    | None \<Rightarrow> None)
                in bindR (case upgrade of
                            Some upgrade \<Rightarrow>
                              bindR (expect (lp_upgrade p)) (\<lambda>ns.
                              bindR (expect (mt_signature t)) (\<lambda>signature.
                              Ok (Some \<lparr>du_start = ru_start upgrade, du_length = ru_length upgrade,
                                du_nodes = ns,
                                du_additional_nodes = (case lp_additional_upgrade p of Some a \<Rightarrow> a | None \<Rightarrow> []),
                                du_signature = signature\<rparr>)))
                          | None \<Rightarrow> Ok None) (\<lambda>data_upgrade.
                   Ok (Inr \<lparr>vp_fork = mt_fork t, vp_block = data_block, vp_hash = data_hash,
                     vp_seek = data_seek, vp_upgrade = data_upgrade\<rparr>))))))"

end
