(* ===== verification/Fixed_Bitfield.thy ===== *)
theory Fixed_Bitfield
  imports Prelude
begin

text \<open>
  \<^verbatim>\<open>src/src/bitfield/fixed.rs\<close>: one page of 1024 \<open>u32\<close> elements with its dirty flag.
  The page is read abstractly as a set of bits (\<open>fixed_bits\<close>); the theorems say what
  \<open>get\<close>, \<open>set\<close>, \<open>set_range\<close>, \<open>index_of\<close>, \<open>last_index_of\<close> and the byte form do to it, and
  where an index makes the array access panic.
\<close>

section \<open>The page and its operations\<close>

definition FIXED_BITFIELD_LENGTH :: nat where
  "FIXED_BITFIELD_LENGTH = 1024"

definition FIXED_BITFIELD_BYTES_LENGTH :: nat where
  "FIXED_BITFIELD_BYTES_LENGTH = FIXED_BITFIELD_LENGTH * 4"

definition FIXED_BITFIELD_BITS_LENGTH :: nat where
  "FIXED_BITFIELD_BITS_LENGTH = FIXED_BITFIELD_BYTES_LENGTH * 8"

definition FIXED_BITFIELD_BITS_PER_ELEM :: u32 where
  "FIXED_BITFIELD_BITS_PER_ELEM = 4 * 8"

record fixed_bitfield =
  fb_dirty :: bool
  fb_bitfield :: "u32 list"

definition fixed_new :: fixed_bitfield where
  "fixed_new = \<lparr>fb_dirty = False, fb_bitfield = replicate FIXED_BITFIELD_LENGTH 0\<rparr>"

definition u32_from_le :: "u8 \<Rightarrow> u8 \<Rightarrow> u8 \<Rightarrow> u8 \<Rightarrow> u32" where
  "u32_from_le b0 b1 b2 b3 =
     ucast b0 OR push_bit 8 (ucast b1) OR push_bit 16 (ucast b2) OR push_bit 24 (ucast b3)"

definition u32_to_le_bytes :: "u32 \<Rightarrow> bytes" where
  "u32_to_le_bytes w =
     [ucast w, ucast (drop_bit 8 w), ucast (drop_bit 16 w), ucast (drop_bit 24 w)]"

function from_data_loop :: "bytes \<Rightarrow> nat \<Rightarrow> nat \<Rightarrow> u32 list \<Rightarrow> (u32 list) hres" where
  "from_data_loop data limit i bf =
     (if i \<le> limit then
        bindR (index_at data i) (\<lambda>b0.
        bindR (index_at data (i + 1)) (\<lambda>b1.
        bindR (index_at data (i + 2)) (\<lambda>b2.
        bindR (index_at data (i + 3)) (\<lambda>b3.
        bindR (assign_at bf (i div 4) (u32_from_le b0 b1 b2 b3)) (\<lambda>bf'.
        from_data_loop data limit (i + 4) bf')))))
      else Ok bf)"
  by pat_completeness auto
termination
  by (relation "measure (\<lambda>(data, limit, i, bf). Suc limit - i)") auto

declare from_data_loop.simps [simp del]

definition fixed_from_data :: "nat \<Rightarrow> bytes \<Rightarrow> fixed_bitfield hres" where
  "fixed_from_data data_index data =
     bindR
       (if data_index + 4 \<le> length data then
          from_data_loop data
            (min (data_index + FIXED_BITFIELD_BYTES_LENGTH) (length data) - 4)
            data_index (replicate FIXED_BITFIELD_LENGTH 0)
        else Ok (replicate FIXED_BITFIELD_LENGTH 0))
       (\<lambda>bf. Ok \<lparr>fb_dirty = False, fb_bitfield = bf\<rparr>)"

definition fixed_to_bytes :: "fixed_bitfield \<Rightarrow> bytes" where
  "fixed_to_bytes p = concat (map u32_to_le_bytes (fb_bitfield p))"

definition fixed_get :: "fixed_bitfield \<Rightarrow> u32 \<Rightarrow> bool hres" where
  "fixed_get p index =
     (let n = FIXED_BITFIELD_BITS_PER_ELEM;
          offset = index AND (n - 1);
          i = unat ((index - offset) div n)
      in bindR (index_at (fb_bitfield p) i) (\<lambda>e.
         Ok (e AND push_bit (unat offset) 1 \<noteq> 0)))"

definition fixed_set :: "fixed_bitfield \<Rightarrow> u32 \<Rightarrow> bool \<Rightarrow> (fixed_bitfield \<times> bool) hres" where
  "fixed_set p index value =
     (let n = FIXED_BITFIELD_BITS_PER_ELEM;
          offset = index AND (n - 1);
          i = unat ((index - offset) div n);
          mask = push_bit (unat offset) 1
      in bindR (index_at (fb_bitfield p) i) (\<lambda>e.
         if value \<and> e AND mask \<noteq> 0 then Ok (p, False)
         else if \<not> value \<and> e AND mask = 0 then Ok (p, False)
         else Ok (p\<lparr>fb_bitfield := (fb_bitfield p)[i := e XOR mask]\<rparr>, True)))"

text \<open>One round of the loop of \<open>set_range\<close> handles one array element; \<open>remaining\<close> is the
  \<open>i64\<close> counter, which goes below zero in the last round.\<close>

definition range_mask :: "int \<Rightarrow> u32 \<Rightarrow> u32" where
  "range_mask remaining offset =
     (let n = FIXED_BITFIELD_BITS_PER_ELEM;
          power = nat (min remaining (uint (n - offset)));
          mask_seed = (if power = 32 then - 1 else 2 ^ power - 1)
      in push_bit (unat offset) mask_seed)"

function set_range_loop ::
  "bool \<Rightarrow> int \<Rightarrow> u32 \<Rightarrow> nat \<Rightarrow> u32 list \<Rightarrow> bool \<Rightarrow> (u32 list \<times> bool) hres" where
  "set_range_loop value remaining offset i bf changed =
     (if remaining > 0 then
        bindR (index_at bf i) (\<lambda>e.
        let mask = range_mask remaining offset;
            upd = (if value then e AND mask \<noteq> mask else e AND mask \<noteq> 0);
            e' = (if \<not> upd then e else if value then e OR mask else e AND NOT mask)
        in set_range_loop value
             (remaining - uint (FIXED_BITFIELD_BITS_PER_ELEM - offset)) 0 (i + 1)
             (bf[i := e']) (changed \<or> upd))
      else Ok (bf, changed))"
  by pat_completeness auto
termination
proof (relation "measure (\<lambda>(v, r, off, i, bf, c). 2 * nat r + (if off = 0 then 0 else 1))", goal_cases)
  case 1
  show ?case by simp
next
  case (2 v remaining offset i bf changed e mask upd e')
  let ?d = "uint (FIXED_BITFIELD_BITS_PER_ELEM - offset)"
  show ?case
  proof (cases "offset = 0")
    case True
    with 2 show ?thesis by (simp add: FIXED_BITFIELD_BITS_PER_ELEM_def)
  next
    case False
    have "0 \<le> ?d" by simp
    with 2 have "nat (remaining - ?d) \<le> nat remaining" by linarith
    with False show ?thesis by simp
  qed
qed

declare set_range_loop.simps [simp del]

definition fixed_set_range ::
  "fixed_bitfield \<Rightarrow> u32 \<Rightarrow> u32 \<Rightarrow> bool \<Rightarrow> (fixed_bitfield \<times> bool) hres" where
  "fixed_set_range p start len value =
     (let end = start + len;
          n = FIXED_BITFIELD_BITS_PER_ELEM;
          remaining = uint end - uint start;
          offset = start AND (n - 1);
          i = unat ((start - offset) div n)
      in bindR (set_range_loop value remaining offset i (fb_bitfield p) False) (\<lambda>(bf, changed).
         Ok (p\<lparr>fb_bitfield := bf\<rparr>, changed)))"

definition fixed_index_of :: "fixed_bitfield \<Rightarrow> bool \<Rightarrow> u32 \<Rightarrow> (u32 option) hres" where
  "fixed_index_of p value position =
     find_first (\<lambda>i. bindR (fixed_get p i) (\<lambda>b. Ok (b = value)))
       (map of_nat [unat position ..< FIXED_BITFIELD_BITS_LENGTH])"

definition fixed_last_index_of :: "fixed_bitfield \<Rightarrow> bool \<Rightarrow> u32 \<Rightarrow> (u32 option) hres" where
  "fixed_last_index_of p value position =
     find_first (\<lambda>i. bindR (fixed_get p i) (\<lambda>b. Ok (b = value)))
       (rev (map of_nat [0 ..< unat (position + 1)]))"

section \<open>The page as a set of bits\<close>

definition fixed_wf :: "fixed_bitfield \<Rightarrow> bool" where
  "fixed_wf p \<longleftrightarrow> length (fb_bitfield p) = FIXED_BITFIELD_LENGTH"

definition word_bits :: "u32 list \<Rightarrow> nat \<Rightarrow> bool" where
  "word_bits bf k = bit (bf ! (k div 32)) (k mod 32)"

definition fixed_bits :: "fixed_bitfield \<Rightarrow> nat \<Rightarrow> bool" where
  "fixed_bits p k \<longleftrightarrow> k < FIXED_BITFIELD_BITS_LENGTH \<and> word_bits (fb_bitfield p) k"

lemmas fixed_consts = FIXED_BITFIELD_LENGTH_def FIXED_BITFIELD_BYTES_LENGTH_def
  FIXED_BITFIELD_BITS_LENGTH_def FIXED_BITFIELD_BITS_PER_ELEM_def

lemma offset_unat: "unat ((index :: u32) AND (FIXED_BITFIELD_BITS_PER_ELEM - 1)) = unat index mod 32"
  using unat_and_mask [of 5 index] by (simp add: fixed_consts)

lemma elem_unat:
  "unat (((index :: u32) - (index AND (FIXED_BITFIELD_BITS_PER_ELEM - 1))) div
     FIXED_BITFIELD_BITS_PER_ELEM) = unat index div 32"
proof -
  have "unat (index - (index AND (FIXED_BITFIELD_BITS_PER_ELEM - 1))) =
      unat index - unat index mod 32"
    by (simp add: unat_sub_small offset_unat)
  moreover have "(unat index - unat index mod 32) div 32 = unat index div 32"
    by (metis div_mult_self1_is_m minus_mod_eq_mult_div zero_less_numeral)
  ultimately show ?thesis
    by (simp add: unat_div fixed_consts)
qed

lemma and_exp_iff: "((e :: u32) AND 2 ^ n = 0) \<longleftrightarrow> \<not> bit e n"
  by (simp add: and_exp_eq_0_iff_not_bit)

lemma div32_less: "k < 32768 \<Longrightarrow> k div 32 < (1024 :: nat)"
  by (simp add: less_mult_imp_div_less)

lemma fixed_get_bits:
  assumes "fixed_wf p" and "unat index < FIXED_BITFIELD_BITS_LENGTH"
  shows "fixed_get p index = Ok (fixed_bits p (unat index))"
  using assms div32_less [of "unat index"] unfolding fixed_get_def Let_def offset_unat elem_unat
  by (simp add: fixed_bits_def word_bits_def index_at_def fixed_wf_def and_exp_iff)
    (simp add: fixed_consts)

lemma fixed_get_panics:
  assumes "fixed_wf p" and "FIXED_BITFIELD_BITS_LENGTH \<le> unat index"
  shows "fixed_get p index = Panic"
proof -
  from assms(2) have "32768 div 32 \<le> unat index div 32"
    unfolding fixed_consts by (intro div_le_mono) simp
  with assms(1) show ?thesis
    unfolding fixed_get_def Let_def elem_unat
    by (simp add: index_at_def fixed_wf_def fixed_consts)
qed

lemma word_bits_update:
  assumes "k div 32 < length bf"
  shows "word_bits (bf[k div 32 := e]) j =
    (if j div 32 = k div 32 then bit e (j mod 32) else word_bits bf j)"
  using assms by (simp add: word_bits_def nth_list_update)

lemma same_elem_bit: "j div 32 = k div 32 \<Longrightarrow> j mod 32 = k mod 32 \<longleftrightarrow> j = (k :: nat)"
  by (metis div_mult_mod_eq)

lemma fixed_set_spec:
  assumes "fixed_wf p" and "unat index < FIXED_BITFIELD_BITS_LENGTH"
  shows "\<exists>p'. fixed_set p index v = Ok (p', fixed_bits p (unat index) \<noteq> v) \<and> fixed_wf p' \<and>
    fb_dirty p' = fb_dirty p \<and> fixed_bits p' = (fixed_bits p)(unat index := v)"
proof -
  let ?k = "unat index" and ?bf = "fb_bitfield p"
  let ?e = "?bf ! (?k div 32)"
  let ?q = "p\<lparr>fb_bitfield := ?bf[?k div 32 := ?e XOR 2 ^ (?k mod 32)]\<rparr>"
  have k: "?k div 32 < length ?bf" "?k < 32768"
    using assms div32_less [of ?k] by (simp_all add: fixed_wf_def fixed_consts)
  have old: "fixed_bits p ?k = bit ?e (?k mod 32)"
    using k by (simp add: fixed_bits_def word_bits_def fixed_consts)
  have eq: "fixed_set p index v = Ok (if bit ?e (?k mod 32) = v then (p, False) else (?q, True))"
    unfolding fixed_set_def Let_def offset_unat elem_unat
    using k by (auto simp add: index_at_def and_exp_iff)
  have new: "fixed_bits ?q j = (if j = ?k then \<not> bit ?e (?k mod 32) else fixed_bits p j)" for j
    using k same_elem_bit [of j ?k]
    by (auto simp: fixed_bits_def word_bits_update bit_xor_iff bit_exp_iff fixed_consts)
      (auto simp: word_bits_def)
  show ?thesis
  proof (cases "bit ?e (?k mod 32) = v")
    case True
    with eq old assms(1) show ?thesis by (auto simp: fun_eq_iff)
  next
    case False
    with eq old new assms(1) show ?thesis by (auto simp: fun_eq_iff fixed_wf_def)
  qed
qed

lemma bit_range_mask:
  assumes "0 < remaining" and "unat offset < 32"
  shows "bit (range_mask remaining offset) k \<longleftrightarrow>
    unat offset \<le> k \<and> k < unat offset + nat (min remaining (int (32 - unat offset)))"
proof -
  let ?pw = "nat (min remaining (int (32 - unat offset)))"
  have "uint (32 - offset) = int (32 - unat offset)"
    unfolding uint_as_int using assms(2) by (simp add: unat_sub_small del: of_nat_unat)
  moreover have "(if n = 32 then - 1 else 2 ^ n - 1 :: u32) = mask n" for n
    by (simp add: mask_eq_exp_minus_1)
  ultimately have "range_mask remaining offset = push_bit (unat offset) (mask ?pw)"
    by (simp add: range_mask_def Let_def FIXED_BITFIELD_BITS_PER_ELEM_def)
  then show ?thesis
    using assms by (auto simp: bit_push_bit_iff bit_mask_iff)
qed

lemma masked_update_bits:
  fixes e m :: u32
  assumes "upd = (if v then e AND m \<noteq> m else e AND m \<noteq> 0)"
  shows "upd \<longleftrightarrow> (\<exists>k. bit m k \<and> bit e k \<noteq> v)"
    and "k < 32 \<Longrightarrow> bit (if \<not> upd then e else if v then e OR m else e AND NOT m) k =
      (if bit m k then v else bit e k)"
proof -
  have "e AND m = m \<longleftrightarrow> (\<forall>k. bit m k \<longrightarrow> bit e k)" "e AND m = 0 \<longleftrightarrow> (\<forall>k. bit m k \<longrightarrow> \<not> bit e k)"
    using bit_imp_le_length [of m] by (auto simp: bit_eq_iff bit_and_iff)
  with assms show upd: "upd \<longleftrightarrow> (\<exists>k. bit m k \<and> bit e k \<noteq> v)"
    by auto
  show "bit (if \<not> upd then e else if v then e OR m else e AND NOT m) k =
      (if bit m k then v else bit e k)" if "k < 32"
    using upd that by (auto simp: bit_or_iff bit_and_iff bit_not_iff)
qed

lemma ex_in_elem: "(\<exists>j<32. P j) \<longleftrightarrow> (\<exists>k :: nat. k div 32 = i \<and> P (k mod 32))"
proof
  assume "\<exists>j<32. P j"
  then obtain j where "j < 32" "P j" by blast
  then have "(32 * i + j) div 32 = i \<and> P ((32 * i + j) mod 32)" by simp
  then show "\<exists>k. k div 32 = i \<and> P (k mod 32)" by blast
next
  assume "\<exists>k. k div 32 = i \<and> P (k mod 32)"
  then show "\<exists>j<32. P j" by (metis mod_less_divisor zero_less_numeral)
qed

text \<open>One round of the loop rewrites the bits of element \<open>i\<close> that lie in the range.\<close>

lemma masked_elem:
  assumes "0 < remaining" and "unat offset < 32" and "i < length bf"
    and e: "e = bf ! i" and m: "m = range_mask remaining offset"
    and upd: "upd = (if v then e AND m \<noteq> m else e AND m \<noteq> 0)"
    and e': "e' = (if \<not> upd then e else if v then e OR m else e AND NOT m)"
  defines "s \<equiv> 32 * i + unat offset"
  shows "word_bits (bf[i := e']) k =
      (if s \<le> k \<and> k < s + nat remaining \<and> k < 32 * (i + 1) then v else word_bits bf k)"
    and "upd \<longleftrightarrow> (\<exists>k. (s \<le> k \<and> k < s + nat remaining \<and> k < 32 * (i + 1)) \<and> word_bits bf k \<noteq> v)"
proof -
  have inside: "k div 32 = i \<and> bit m (k mod 32) \<longleftrightarrow>
      s \<le> k \<and> k < s + nat remaining \<and> k < 32 * (i + 1)" for k
  proof -
    define q r where "q = k div 32" and "r = k mod 32"
    then have "k = 32 * q + r" "r < 32" "k div 32 = q" "k mod 32 = r" by simp_all
    then show ?thesis
      unfolding m s_def bit_range_mask [OF assms(1,2)] using assms(1,2)
      by (cases q i rule: linorder_cases) (auto simp: min_def)
  qed
  show "word_bits (bf[i := e']) k =
      (if s \<le> k \<and> k < s + nat remaining \<and> k < 32 * (i + 1) then v else word_bits bf k)"
    unfolding inside [symmetric] using assms(3) masked_update_bits(2) [OF upd, of "k mod 32"]
    by (auto simp: word_bits_def nth_list_update e e')
  have "upd \<longleftrightarrow> (\<exists>j<32. bit m j \<and> bit e j \<noteq> v)"
    using masked_update_bits(1) [OF upd] bit_imp_le_length [of m] by auto
  also have "\<dots> \<longleftrightarrow> (\<exists>k. (k div 32 = i \<and> bit m (k mod 32)) \<and> word_bits bf k \<noteq> v)"
    unfolding ex_in_elem [of _ i] by (auto simp: word_bits_def e)
  finally show "upd \<longleftrightarrow>
      (\<exists>k. (s \<le> k \<and> k < s + nat remaining \<and> k < 32 * (i + 1)) \<and> word_bits bf k \<noteq> v)"
    unfolding inside .
qed

text \<open>The bits from \<open>32 * i + offset\<close> on, \<open>remaining\<close> of them, get the value; the flag says
  whether one of them had another value before.\<close>

lemma set_range_loop_spec:
  assumes "unat offset < 32" and "32 * i + unat offset + nat remaining \<le> 32 * length bf"
  shows "\<exists>bf'. set_range_loop v remaining offset i bf changed =
      Ok (bf', changed \<or> (\<exists>k. 32 * i + unat offset \<le> k \<and>
        k < 32 * i + unat offset + nat remaining \<and> word_bits bf k \<noteq> v)) \<and>
      length bf' = length bf \<and>
      (\<forall>k. word_bits bf' k = (if 32 * i + unat offset \<le> k \<and>
        k < 32 * i + unat offset + nat remaining then v else word_bits bf k))"
  using assms
proof (induction v remaining offset i bf changed rule: set_range_loop.induct)
  case (1 v remaining offset i bf changed)
  show ?case
  proof (cases "remaining > 0")
    case False
    then show ?thesis by (auto simp: set_range_loop.simps)
  next
    case True
    define s e m where "s = 32 * i + unat offset" and "e = bf ! i"
      and "m = range_mask remaining offset"
    define upd where "upd = (if v then e AND m \<noteq> m else e AND m \<noteq> 0)"
    define e' where "e' = (if \<not> upd then e else if v then e OR m else e AND NOT m)"
    define r where "r = remaining - int (32 - unat offset)"
    have i: "i < length bf" using True "1.prems" by linarith
    have d: "uint (FIXED_BITFIELD_BITS_PER_ELEM - offset) = int (32 - unat offset)"
      unfolding uint_as_int using "1.prems"(1) by (simp add: unat_sub_small fixed_consts)
    have step: "set_range_loop v remaining offset i bf changed =
        set_range_loop v r 0 (i + 1) (bf[i := e']) (changed \<or> upd)"
      using True i d
      by (simp add: set_range_loop.simps [of v remaining] index_at_def Let_def s_def e_def m_def
          upd_def e'_def r_def)
    have "32 * (i + 1) + nat r \<le> 32 * length (bf[i := e'])"
      using True "1.prems" i by (simp add: r_def)
    then obtain bf' where res: "set_range_loop v r 0 (i + 1) (bf[i := e']) (changed \<or> upd) =
        Ok (bf', (changed \<or> upd) \<or> (\<exists>k. 32 * (i + 1) \<le> k \<and>
          k < 32 * (i + 1) + nat r \<and> word_bits (bf[i := e']) k \<noteq> v))"
      and len: "length bf' = length bf"
      and bits': "\<And>k. word_bits bf' k = (if 32 * (i + 1) \<le> k \<and> k < 32 * (i + 1) + nat r
        then v else word_bits (bf[i := e']) k)"
      using "1.IH" [OF True, of e m upd e'] i d
      by (auto simp: index_at_def r_def e_def m_def upd_def e'_def)
    note masked = masked_elem [OF True "1.prems"(1) i e_def m_def upd_def e'_def]
    have rest: "s \<le> k \<and> k < s + nat remaining \<longleftrightarrow>
        (s \<le> k \<and> k < s + nat remaining \<and> k < 32 * (i + 1)) \<or>
        (32 * (i + 1) \<le> k \<and> k < 32 * (i + 1) + nat r)" for k
    proof -
      have "nat r = nat remaining - (32 - unat offset)" by (simp add: r_def)
      then show ?thesis using "1.prems"(1) by (cases "k < 32 * (i + 1)") (auto simp: s_def)
    qed
    have "(changed \<or> upd) \<or> (\<exists>k. 32 * (i + 1) \<le> k \<and> k < 32 * (i + 1) + nat r \<and>
        word_bits (bf[i := e']) k \<noteq> v) \<longleftrightarrow>
        changed \<or> (\<exists>k. s \<le> k \<and> k < s + nat remaining \<and> word_bits bf k \<noteq> v)"
    proof -
      have "(\<exists>k. s \<le> k \<and> k < s + nat remaining \<and> word_bits bf k \<noteq> v) \<longleftrightarrow>
          (\<exists>k. (s \<le> k \<and> k < s + nat remaining) \<and> word_bits bf k \<noteq> v)" by blast
      then show ?thesis unfolding rest masked s_def [symmetric] by auto
    qed
    moreover have "word_bits bf' k =
        (if s \<le> k \<and> k < s + nat remaining then v else word_bits bf k)" for k
      unfolding bits' masked rest s_def [symmetric] by auto
    ultimately show ?thesis
      using res len step s_def by auto
  qed
qed

lemma fixed_set_range_spec:
  assumes "fixed_wf p" and "unat start + unat len \<le> FIXED_BITFIELD_BITS_LENGTH"
  shows "\<exists>p'. fixed_set_range p start len v = Ok (p', \<exists>k. unat start \<le> k \<and>
      k < unat start + unat len \<and> fixed_bits p k \<noteq> v) \<and> fixed_wf p' \<and> fb_dirty p' = fb_dirty p \<and>
    fixed_bits p' = (\<lambda>k. if unat start \<le> k \<and> k < unat start + unat len then v else fixed_bits p k)"
proof -
  let ?s = "unat start" and ?n = "unat len"
  have bound: "?s + ?n \<le> 32768" using assms(2) by (simp add: fixed_consts)
  then have "uint (start + len) - uint start = int ?n"
    unfolding uint_as_int by (simp add: unat_add_small)
  then have rem: "nat (uint (start + len) - uint start) = ?n" by simp
  have s: "32 * (?s div 32) + ?s mod 32 = ?s" by simp
  from assms(1) have len: "length (fb_bitfield p) = 1024" by (simp add: fixed_wf_def fixed_consts)
  have "?s mod 32 < 32" "32 * (?s div 32) + ?s mod 32 + ?n \<le> 32 * length (fb_bitfield p)"
    using bound len by simp_all
  then obtain bf where bf: "set_range_loop v (uint (start + len) - uint start)
      (start AND (FIXED_BITFIELD_BITS_PER_ELEM - 1)) (?s div 32) (fb_bitfield p) False =
      Ok (bf, \<exists>k\<ge>?s. k < ?s + ?n \<and> word_bits (fb_bitfield p) k \<noteq> v)"
    "length bf = length (fb_bitfield p)"
    "\<And>k. word_bits bf k = (if ?s \<le> k \<and> k < ?s + ?n then v else word_bits (fb_bitfield p) k)"
    using set_range_loop_spec [of "start AND (FIXED_BITFIELD_BITS_PER_ELEM - 1)" "?s div 32"
        "uint (start + len) - uint start" "fb_bitfield p" v False]
    unfolding offset_unat rem s by auto
  have range: "(\<exists>k\<ge>?s. k < ?s + ?n \<and> word_bits (fb_bitfield p) k \<noteq> v) \<longleftrightarrow>
      (\<exists>k\<ge>?s. k < ?s + ?n \<and> fixed_bits p k \<noteq> v)"
    using bound by (auto simp: fixed_bits_def fixed_consts)
  have "fixed_set_range p start len v = Ok (p\<lparr>fb_bitfield := bf\<rparr>,
      \<exists>k\<ge>?s. k < ?s + ?n \<and> fixed_bits p k \<noteq> v)"
    unfolding fixed_set_range_def Let_def elem_unat bf(1) range by simp
  moreover have "fixed_bits (p\<lparr>fb_bitfield := bf\<rparr>) =
      (\<lambda>k. if ?s \<le> k \<and> k < ?s + ?n then v else fixed_bits p k)"
    using bound by (auto simp: fixed_bits_def bf(3) fun_eq_iff fixed_consts)
  ultimately show ?thesis
    using assms(1) bf(2) by (auto simp: fixed_wf_def)
qed

lemma fixed_wf_new [simp]: "fixed_wf fixed_new"
  by (simp add: fixed_new_def fixed_wf_def)

lemma fixed_bits_new [simp]: "fixed_bits fixed_new k = False"
  by (auto simp: fixed_new_def fixed_bits_def word_bits_def fixed_consts div32_less)

lemma fixed_bits_dirty [simp]: "fixed_bits (p\<lparr>fb_dirty := d\<rparr>) = fixed_bits p"
  by (simp add: fixed_bits_def fun_eq_iff)

lemma fixed_wf_dirty [simp]: "fixed_wf (p\<lparr>fb_dirty := d\<rparr>) = fixed_wf p"
  by (simp add: fixed_wf_def)

section \<open>Searching\<close>

lemma fixed_index_of_find:
  assumes "fixed_wf p"
  shows "fixed_index_of p v position = Ok (map_option of_nat
    (List.find (\<lambda>k. fixed_bits p k = v) [unat position ..< FIXED_BITFIELD_BITS_LENGTH]))"
proof -
  have "find_first (\<lambda>i. bindR (fixed_get p i) (\<lambda>b. Ok (b = v)))
      (map of_nat [unat position ..< FIXED_BITFIELD_BITS_LENGTH]) =
    Ok (List.find (\<lambda>i. fixed_bits p (unat i) = v)
      (map of_nat [unat position ..< FIXED_BITFIELD_BITS_LENGTH]))"
    by (rule find_first_pure) (auto simp: fixed_get_bits [OF assms] unat_of_nat_small fixed_consts)
  also have "\<dots> = Ok (map_option of_nat (List.find (\<lambda>k. fixed_bits p k = v)
      [unat position ..< FIXED_BITFIELD_BITS_LENGTH]))"
    unfolding find_map_eq
    by (intro arg_cong [where f = "\<lambda>x. Ok (map_option of_nat x)"] find_cong')
      (auto simp: unat_of_nat_small fixed_consts)
  finally show ?thesis by (simp add: fixed_index_of_def)
qed

lemma fixed_last_index_of_find:
  assumes "fixed_wf p" and "unat position < FIXED_BITFIELD_BITS_LENGTH"
  shows "fixed_last_index_of p v position = Ok (map_option of_nat
    (List.find (\<lambda>k. fixed_bits p k = v) (rev [0 ..< Suc (unat position)])))"
proof -
  have pos: "unat (position + 1) = Suc (unat position)"
    using assms(2) by (simp add: unat_add_small fixed_consts)
  have "find_first (\<lambda>i. bindR (fixed_get p i) (\<lambda>b. Ok (b = v)))
      (map of_nat (rev [0 ..< Suc (unat position)])) =
    Ok (List.find (\<lambda>i. fixed_bits p (unat i) = v) (map of_nat (rev [0 ..< Suc (unat position)])))"
    using assms(2)
    by (intro find_first_pure) (auto simp: fixed_get_bits [OF assms(1)] unat_of_nat_small fixed_consts)
  also have "\<dots> = Ok (map_option of_nat (List.find (\<lambda>k. fixed_bits p k = v)
      (rev [0 ..< Suc (unat position)])))"
    unfolding find_map_eq using assms(2)
    by (intro arg_cong [where f = "\<lambda>x. Ok (map_option of_nat x)"] find_cong')
      (auto simp: unat_of_nat_small fixed_consts)
  finally show ?thesis unfolding fixed_last_index_of_def pos rev_map .
qed

section \<open>The byte form\<close>

lemma u32_from_to_le: "u32_from_le (ucast w) (ucast (drop_bit 8 w)) (ucast (drop_bit 16 w))
    (ucast (drop_bit 24 w)) = w"
proof (rule bit_word_eqI)
  fix n assume "n < LENGTH(32)"
  then show "bit (u32_from_le (ucast w) (ucast (drop_bit 8 w)) (ucast (drop_bit 16 w))
      (ucast (drop_bit 24 w))) n = bit w n"
    unfolding u32_from_le_def
    by (cases "n < 16"; cases "n < 24")
      (auto simp: bit_or_iff bit_push_bit_iff bit_ucast_iff bit_drop_bit_eq)
qed

definition word_at :: "bytes \<Rightarrow> nat \<Rightarrow> u32" where
  "word_at data k = u32_from_le (data ! (4 * k)) (data ! (4 * k + 1)) (data ! (4 * k + 2))
     (data ! (4 * k + 3))"

text \<open>Reading the elements \<open>j\<close> to \<open>m - 1\<close>: they are stored at their absolute position, so
  the read panics when it goes beyond the array.\<close>

lemma from_data_loop_words:
  assumes "j \<le> m" and "0 < m" and "4 * m \<le> length data"
  shows "from_data_loop data (4 * m - 4) (4 * j) bf =
    (if m \<le> length bf \<or> j = m
     then Ok (map (\<lambda>k. if j \<le> k \<and> k < m then word_at data k else bf ! k) [0 ..< length bf])
     else Panic)"
  using assms
proof (induction "m - j" arbitrary: j bf)
  case 0
  then have "m = j" "\<not> 4 * j \<le> 4 * m - 4" by auto
  moreover from this have "map (\<lambda>k. if j \<le> k \<and> k < m then word_at data k else bf ! k) [0 ..< length bf] = bf"
    by (intro nth_equalityI) auto
  ultimately show ?case
    by (simp add: from_data_loop.simps)
next
  case (Suc n)
  then have j: "j < m" by simp
  have le: "4 * j \<le> 4 * m - 4" using j by simp
  have step: "from_data_loop data (4 * m - 4) (4 * j) bf =
      bindR (assign_at bf j (word_at data j)) (\<lambda>bf'. from_data_loop data (4 * m - 4) (4 * Suc j) bf')"
    using j le Suc.prems by (simp add: from_data_loop.simps [of data _ "4 * j"] index_at_def word_at_def
        add.commute [of 4])
  have IH: "from_data_loop data (4 * m - 4) (4 * Suc j) bf' =
    (if m \<le> length bf' \<or> Suc j = m
     then Ok (map (\<lambda>k. if Suc j \<le> k \<and> k < m then word_at data k else bf' ! k) [0 ..< length bf'])
     else Panic)" for bf'
    by (rule Suc.hyps(1)) (use Suc j in auto)
  show ?case
    using j unfolding step IH
    by (auto simp: assign_at_def nth_list_update)
qed

lemma fixed_to_bytes_length: "fixed_wf p \<Longrightarrow> length (fixed_to_bytes p) = FIXED_BITFIELD_BYTES_LENGTH"
proof -
  have "length (concat (map u32_to_le_bytes ws)) = 4 * length ws" for ws
    by (induction ws) (auto simp: u32_to_le_bytes_def)
  then show "fixed_wf p \<Longrightarrow> ?thesis"
    by (simp add: fixed_to_bytes_def fixed_wf_def fixed_consts)
qed

lemma concat_quads_nth:
  assumes "k < length ws" and "\<And>w. length (f w) = 4" and "b < 4"
  shows "concat (map f ws) ! (4 * k + b) = f (ws ! k) ! b"
  using assms(1)
proof (induction ws arbitrary: k)
  case (Cons w ws)
  then show ?case
    using assms(2,3) by (cases k) (auto simp: nth_append)
qed simp

lemma word_at_to_bytes:
  assumes "k < length (fb_bitfield p)"
  shows "word_at (fixed_to_bytes p @ rest) k = fb_bitfield p ! k"
proof -
  let ?q = "concat (map u32_to_le_bytes (fb_bitfield p))"
  have len: "length ?q = 4 * length (fb_bitfield p)"
    by (induction "fb_bitfield p" arbitrary: p) (simp_all add: u32_to_le_bytes_def length_concat comp_def sum_list_triv)
  have "(?q @ rest) ! (4 * k + b) = u32_to_le_bytes (fb_bitfield p ! k) ! b" if "b < 4" for b
    using assms len that concat_quads_nth [of k "fb_bitfield p" u32_to_le_bytes b]
    by (simp add: nth_append u32_to_le_bytes_def)
  from this [of 0] this [of 1] this [of 2] this [of 3] show ?thesis
    by (simp add: word_at_def fixed_to_bytes_def u32_to_le_bytes_def u32_from_to_le
        numeral_2_eq_2 numeral_3_eq_3)
qed

lemma fixed_from_to_bytes:
  assumes "fixed_wf p"
  shows "fixed_from_data 0 (fixed_to_bytes p) = Ok (p\<lparr>fb_dirty := False\<rparr>)"
proof -
  have len: "length (fb_bitfield p) = 1024" "length (fixed_to_bytes p) = 4096"
    using assms fixed_to_bytes_length [OF assms] by (simp_all add: fixed_wf_def fixed_consts)
  have "map (\<lambda>k. if 0 \<le> k \<and> k < 1024 then word_at (fixed_to_bytes p) k else replicate 1024 0 ! k)
      [0 ..< 1024] = fb_bitfield p"
    using len word_at_to_bytes [of _ p "[]"] by (intro nth_equalityI) auto
  then show ?thesis
    using len from_data_loop_words [of 0 1024 "fixed_to_bytes p" "replicate 1024 0"]
    by (simp add: fixed_from_data_def fixed_consts)
qed

section \<open>The interface of a page\<close>

text \<open>What the dynamic bitfield relies on: a page of \<open>cap\<close> bits that can be read, written and
  filled, and whose dirty flag only its owner changes.\<close>

locale bit_page =
  fixes page_get :: "'p \<Rightarrow> u32 \<Rightarrow> bool hres"
    and page_set :: "'p \<Rightarrow> u32 \<Rightarrow> bool \<Rightarrow> ('p \<times> bool) hres"
    and page_set_range :: "'p \<Rightarrow> u32 \<Rightarrow> u32 \<Rightarrow> bool \<Rightarrow> ('p \<times> bool) hres"
    and bits :: "'p \<Rightarrow> nat \<Rightarrow> bool"
    and wf :: "'p \<Rightarrow> bool"
    and dirty :: "'p \<Rightarrow> bool"
    and cap :: nat
  assumes get_bits: "wf p \<Longrightarrow> unat i < cap \<Longrightarrow> page_get p i = Ok (bits p (unat i))"
    and set_bits: "wf p \<Longrightarrow> unat i < cap \<Longrightarrow>
      \<exists>p'. page_set p i v = Ok (p', bits p (unat i) \<noteq> v) \<and> wf p' \<and> dirty p' = dirty p \<and>
        bits p' = (bits p)(unat i := v)"
    and set_range_bits: "wf p \<Longrightarrow> unat s + unat n \<le> cap \<Longrightarrow>
      \<exists>p'. page_set_range p s n v = Ok (p', \<exists>k. unat s \<le> k \<and> k < unat s + unat n \<and> bits p k \<noteq> v) \<and>
        wf p' \<and> dirty p' = dirty p \<and>
        bits p' = (\<lambda>k. if unat s \<le> k \<and> k < unat s + unat n then v else bits p k)"
    and no_bits: "cap \<le> k \<Longrightarrow> \<not> bits p k"
begin

lemma page_get_after_set:
  assumes "wf p" "unat i < cap" "unat j < cap" "page_set p i v = Ok (p', c)"
  shows "page_get p' j = (if j = i then Ok v else page_get p j)"
  using set_bits [OF assms(1,2), of v] assms get_bits by (auto simp: word_eq_iff_unat)

text \<open>The flag of a write says whether the page changed.\<close>

lemma page_set_flag:
  assumes "wf p" "unat i < cap" "page_set p i v = Ok (p', c)"
  shows "c \<longleftrightarrow> bits p' \<noteq> bits p"
  using set_bits [OF assms(1,2), of v] assms(3) by (auto simp: fun_eq_iff)

lemma page_set_range_flag:
  assumes "wf p" "unat s + unat n \<le> cap" "page_set_range p s n v = Ok (p', c)"
  shows "c \<longleftrightarrow> bits p' \<noteq> bits p"
proof -
  have "c \<longleftrightarrow> (\<exists>k. unat s \<le> k \<and> k < unat s + unat n \<and> bits p k \<noteq> v)"
    and "bits p' = (\<lambda>k. if unat s \<le> k \<and> k < unat s + unat n then v else bits p k)"
    using set_range_bits [OF assms(1,2), of v] assms(3) by auto
  then show ?thesis by (auto simp: fun_eq_iff)
qed

end

interpretation fixed: bit_page fixed_get fixed_set fixed_set_range fixed_bits fixed_wf fb_dirty FIXED_BITFIELD_BITS_LENGTH
  using fixed_get_bits fixed_set_spec fixed_set_range_spec
  by unfold_locales (auto simp: fixed_bits_def)

end
