(* ===== verification/Dynamic_Bitfield.thy ===== *)
theory Dynamic_Bitfield
  imports Common Fixed_Bitfield
begin

text \<open>
  \<^verbatim>\<open>src/src/bitfield/dynamic.rs\<close>: a bitfield of unbounded size as a map of pages.  It is read
  abstractly as the set of indices whose bit is set (\<open>dyn_bits\<close>).  The theorems say what the
  operations do to that set, that \<open>unflushed\<close> lists exactly the dirty pages, what \<open>flush\<close>
  writes, and what \<open>open\<close> makes of stored bytes.

  The \<open>RefCell\<close> around a page is only ever borrowed for one call, so pages are plain values.
  Page counters are below \<open>2 ^ 49\<close>; the loops that count pages upwards do so in \<open>nat\<close>.
\<close>

section \<open>State and operations\<close>

definition DYNAMIC_BITFIELD_PAGE_SIZE :: nat where
  "DYNAMIC_BITFIELD_PAGE_SIZE = 32768"

abbreviation PAGE :: u64 where
  "PAGE \<equiv> of_nat DYNAMIC_BITFIELD_PAGE_SIZE"

record dynamic_bitfield =
  db_pages :: "fixed_bitfield intmap"
  db_biggest_page_index :: u64
  db_unflushed :: "u64 list"

text \<open>\<open>TryInto<u32>\<close> on a \<open>u64\<close>, unwrapped by \<open>expect\<close>.\<close>

definition u64_to_u32 :: "u64 \<Rightarrow> u32 hres" where
  "u64_to_u32 x = (if unat x < 2 ^ 32 then Ok (of_nat (unat x)) else Panic)"

function open_loop ::
  "bytes \<Rightarrow> nat \<Rightarrow> fixed_bitfield intmap \<Rightarrow> u64 \<Rightarrow> (fixed_bitfield intmap \<times> u64) hres" where
  "open_loop data data_index pages biggest =
     (if data_index < length data then
        let parent_index = of_nat (data_index div FIXED_BITFIELD_LENGTH)
        in bindR (fixed_from_data data_index data) (\<lambda>p.
           open_loop data (data_index + FIXED_BITFIELD_LENGTH)
             (im_insert parent_index p pages)
             (if parent_index > biggest then parent_index else biggest))
      else Ok (pages, biggest))"
  by pat_completeness auto
termination
  by (relation "measure (\<lambda>(data, data_index, pages, biggest). length data - data_index)")
    (auto simp: FIXED_BITFIELD_LENGTH_def)

declare open_loop.simps [simp del]

definition dyn_open :: "store_info option \<Rightarrow> (store_info_instruction + dynamic_bitfield) hres" where
  "dyn_open info =
     (case info of
        None \<Rightarrow> Ok (Inl (sii_new_size Bitfield 0))
      | Some info \<Rightarrow>
          if si_info_type info = Size then
            bindR (expect (si_length info)) (\<lambda>store_length.
            Ok (Inl (sii_new_content Bitfield 0 (store_length - (store_length AND 3)))))
          else
            bindR (expect (si_data info)) (\<lambda>data.
            if length data \<ge> 4 then
              bindR (open_loop data 0 [] 0) (\<lambda>(pages, biggest).
              Ok (Inr \<lparr>db_pages = pages, db_biggest_page_index = biggest, db_unflushed = []\<rparr>))
            else
              Ok (Inr \<lparr>db_pages = [], db_biggest_page_index = 0, db_unflushed = []\<rparr>)))"

fun flush_loop ::
  "u64 list \<Rightarrow> fixed_bitfield intmap \<Rightarrow> store_info list \<Rightarrow>
    (fixed_bitfield intmap \<times> store_info list) hres" where
  "flush_loop [] pages infos = Ok (pages, infos)"
| "flush_loop (unflushed_id # ids) pages infos =
     bindR (expect (im_get pages unflushed_id)) (\<lambda>p.
     let data = fixed_to_bytes p
     in flush_loop ids (im_insert unflushed_id (p\<lparr>fb_dirty := False\<rparr>) pages)
          (infos @ [si_new_content Bitfield (unflushed_id * of_nat (length data)) data]))"

definition dyn_flush :: "dynamic_bitfield \<Rightarrow> (dynamic_bitfield \<times> store_info list) hres" where
  "dyn_flush b =
     bindR (flush_loop (db_unflushed b) (db_pages b) []) (\<lambda>(pages, infos).
     Ok (b\<lparr>db_pages := pages, db_unflushed := []\<rparr>, infos))"

definition dyn_get :: "dynamic_bitfield \<Rightarrow> u64 \<Rightarrow> bool hres" where
  "dyn_get b index =
     (let j = index AND (PAGE - 1); i = (index - j) div PAGE
      in case im_get (db_pages b) i of
           None \<Rightarrow> Ok False
         | Some p \<Rightarrow> bindR (u64_to_u32 j) (\<lambda>j'. fixed_get p j'))"

text \<open>Look a page up, making it first when it is missing (lines 105-109 and 141-146).\<close>

definition ensure_page :: "u64 \<Rightarrow> dynamic_bitfield \<Rightarrow> dynamic_bitfield" where
  "ensure_page i b =
     (case im_get (db_pages b) i of
        Some p \<Rightarrow> b
      | None \<Rightarrow> b\<lparr>db_pages := im_insert i fixed_new (db_pages b),
          db_biggest_page_index :=
            (if i > db_biggest_page_index b then i else db_biggest_page_index b)\<rparr>)"

text \<open>Store a page after a write, marking it dirty when the write changed it.\<close>

definition mark_page :: "u64 \<Rightarrow> fixed_bitfield \<Rightarrow> bool \<Rightarrow> dynamic_bitfield \<Rightarrow> dynamic_bitfield" where
  "mark_page i p changed b =
     (if changed \<and> \<not> fb_dirty p
      then b\<lparr>db_pages := im_insert i (p\<lparr>fb_dirty := True\<rparr>) (db_pages b),
             db_unflushed := db_unflushed b @ [i]\<rparr>
      else b\<lparr>db_pages := im_insert i p (db_pages b)\<rparr>)"

definition dyn_set :: "dynamic_bitfield \<Rightarrow> u64 \<Rightarrow> bool \<Rightarrow> (dynamic_bitfield \<times> bool) hres" where
  "dyn_set b index v =
     (let j = index AND (PAGE - 1); i = (index - j) div PAGE
      in if im_get (db_pages b) i = None \<and> \<not> v then Ok (b, False)
         else let b' = ensure_page i b
              in bindR (expect (im_get (db_pages b') i)) (\<lambda>p.
                 bindR (u64_to_u32 j) (\<lambda>j'.
                 bindR (fixed_set p j' v) (\<lambda>(p', changed).
                 Ok (mark_page i p' changed b', changed)))))"

function dyn_set_range_loop ::
  "bool \<Rightarrow> u64 \<Rightarrow> u64 \<Rightarrow> u64 \<Rightarrow> dynamic_bitfield \<Rightarrow> dynamic_bitfield hres" where
  "dyn_set_range_loop v j i len b =
     (if len > 0 then
        let b' = ensure_page i b
        in bindR (expect (im_get (db_pages b') i)) (\<lambda>p.
           let end = min (j + len) PAGE
           in bindR (u64_to_u32 j) (\<lambda>range_start.
              bindR (u64_to_u32 (end - j)) (\<lambda>range_end.
              bindR (fixed_set_range p range_start range_end v) (\<lambda>(p', changed).
              dyn_set_range_loop v 0 (i + 1) (len - of_nat (unat range_end))
                (mark_page i p' changed b')))))
      else Ok b)"
  by pat_completeness auto
termination
proof (relation "measure (\<lambda>(v, j, i, len, b). if j = 0 then unat len else 2 ^ 64)", goal_cases)
  case 1
  show ?case by simp
next
  case (2 v j i len b b' p end' range_start range_end pc p' changed)
  show ?case
  proof (cases "j = 0")
    case True
    let ?e = "min len PAGE"
    have e: "unat range_end = unat ?e"
      using 2 True by (auto simp: u64_to_u32_def unat_of_nat_small split: if_splits)
    have "0 < unat ?e" "unat ?e \<le> unat len"
      using 2(1) by (auto simp: min_def DYNAMIC_BITFIELD_PAGE_SIZE_def word_less_nat_alt
          word_le_nat_alt split: if_splits)
    then have "unat (len - of_nat (unat range_end)) < unat len"
      unfolding e by (simp add: unat_sub_small)
    with True show ?thesis by simp
  next
    case False
    have "unat (len - of_nat (unat range_end)) < 2 ^ 64"
      using unsigned_less [of "len - of_nat (unat range_end)"] by simp
    with False show ?thesis by simp
  qed
qed

declare dyn_set_range_loop.simps [simp del]

definition dyn_set_range :: "dynamic_bitfield \<Rightarrow> u64 \<Rightarrow> u64 \<Rightarrow> bool \<Rightarrow> dynamic_bitfield hres" where
  "dyn_set_range b start len v =
     (let j = start AND (PAGE - 1); i = (start - j) div PAGE
      in dyn_set_range_loop v j i len b)"

definition dyn_update :: "dynamic_bitfield \<Rightarrow> bitfield_update \<Rightarrow> dynamic_bitfield hres" where
  "dyn_update b u = dyn_set_range b (bu_start u) (bu_length u) (\<not> bu_drop u)"

text \<open>The search for a set bit goes through the existing pages only.\<close>

fun search_pages ::
  "(fixed_bitfield \<Rightarrow> (u32 option) hres) \<Rightarrow> fixed_bitfield intmap \<Rightarrow> u64 list \<Rightarrow> (u64 option) hres" where
  "search_pages look pages [] = Ok None"
| "search_pages look pages (key # keys) =
     (case im_get pages key of
        None \<Rightarrow> search_pages look pages keys
      | Some p \<Rightarrow> bindR (look p) (\<lambda>r.
          case r of
            Some index \<Rightarrow> Ok (Some (key * PAGE + of_nat (unat index)))
          | None \<Rightarrow> search_pages look pages keys))"

text \<open>The search for a clear bit also hits missing pages.\<close>

function index_of_false_loop ::
  "dynamic_bitfield \<Rightarrow> nat \<Rightarrow> nat \<Rightarrow> u32 \<Rightarrow> (u64 option) hres" where
  "index_of_false_loop b first_page i j =
     (if i = first_page \<or> i \<le> unat (db_biggest_page_index b) then
        (case im_get (db_pages b) (of_nat i) of
           None \<Rightarrow> Ok (Some (of_nat i * PAGE + of_nat (unat j)))
         | Some p \<Rightarrow> bindR (fixed_index_of p False j) (\<lambda>r.
             case r of
               Some index \<Rightarrow> Ok (Some (of_nat i * PAGE + of_nat (unat index)))
             | None \<Rightarrow> index_of_false_loop b first_page (i + 1) 0))
      else Ok None)"
  by pat_completeness auto
termination
  by (relation "measure (\<lambda>(b, first_page, i, j).
      Suc (max first_page (unat (db_biggest_page_index b))) - i)") auto

declare index_of_false_loop.simps [simp del]

definition dyn_index_of :: "dynamic_bitfield \<Rightarrow> bool \<Rightarrow> u64 \<Rightarrow> (u64 option) hres" where
  "dyn_index_of b v position =
     (let first_index = position AND (PAGE - 1);
          first_page = (position - first_index) div PAGE
      in if v then
           bindR (case im_get (db_pages b) first_page of
                    None \<Rightarrow> Ok None
                  | Some p \<Rightarrow> fixed_index_of p v (of_nat (unat first_index))) (\<lambda>r.
           case r of
             Some index \<Rightarrow> Ok (Some (first_page * PAGE + of_nat (unat index)))
           | None \<Rightarrow>
               search_pages (\<lambda>p. fixed_index_of p v 0) (db_pages b)
                 (sort (filter (\<lambda>key. key > first_page) (im_keys (db_pages b)))))
         else index_of_false_loop b (unat first_page) (unat first_page) (of_nat (unat first_index)))"

function last_index_of_false_loop ::
  "dynamic_bitfield \<Rightarrow> u64 \<Rightarrow> u64 \<Rightarrow> u32 \<Rightarrow> (u64 option) hres" where
  "last_index_of_false_loop b last_page i j =
     (if i = last_page \<or> i = 0 then
        (case im_get (db_pages b) i of
           None \<Rightarrow> Ok (Some (i * PAGE + of_nat (unat j)))
         | Some p \<Rightarrow> bindR (fixed_last_index_of p False j) (\<lambda>r.
             case r of
               Some index \<Rightarrow> Ok (Some (i * PAGE + of_nat (unat index)))
             | None \<Rightarrow> last_index_of_false_loop b last_page (i - 1)
                 (of_nat FIXED_BITFIELD_BITS_LENGTH - 1)))
      else Ok None)"
  by pat_completeness auto
termination
  by (relation "measure (\<lambda>(b, lp, i, j).
      if i = 0 \<and> lp \<noteq> 0 then (if lp = - 1 then 2 else 1)
      else if i = lp then (if lp = 1 then 2 else 1) else 0)") auto

declare last_index_of_false_loop.simps [simp del]

definition dyn_last_index_of :: "dynamic_bitfield \<Rightarrow> bool \<Rightarrow> u64 \<Rightarrow> (u64 option) hres" where
  "dyn_last_index_of b v position =
     (let last_index = position AND (PAGE - 1);
          last_page = (position - last_index) div PAGE
      in if v then
           bindR (case im_get (db_pages b) last_page of
                    None \<Rightarrow> Ok None
                  | Some p \<Rightarrow> fixed_last_index_of p v (of_nat (unat last_index))) (\<lambda>r.
           case r of
             Some index \<Rightarrow> Ok (Some (last_page * PAGE + of_nat (unat index)))
           | None \<Rightarrow>
               search_pages
                 (\<lambda>p. fixed_last_index_of p v (of_nat FIXED_BITFIELD_BITS_LENGTH - 1)) (db_pages b)
                 (rev (sort (filter (\<lambda>key. key < last_page) (im_keys (db_pages b))))))
         else last_index_of_false_loop b last_page last_page (of_nat (unat last_index)))"

section \<open>The bitfield as a set of indices\<close>

definition dyn_bits :: "dynamic_bitfield \<Rightarrow> nat \<Rightarrow> bool" where
  "dyn_bits b k \<longleftrightarrow> k < 2 ^ 64 \<and>
     (case im_get (db_pages b) (of_nat (k div 32768)) of
        None \<Rightarrow> False
      | Some p \<Rightarrow> fixed_bits p (k mod 32768))"

definition dyn_wf :: "dynamic_bitfield \<Rightarrow> bool" where
  "dyn_wf b \<longleftrightarrow> im_wf (db_pages b) \<and>
     (\<forall>i p. im_get (db_pages b) i = Some p \<longrightarrow>
        fixed_wf p \<and> unat i < 2 ^ 49 \<and> i \<le> db_biggest_page_index b) \<and>
     distinct (db_unflushed b) \<and>
     (\<forall>i. i \<in> set (db_unflushed b) \<longleftrightarrow> (\<exists>p. im_get (db_pages b) i = Some p \<and> fb_dirty p))"

lemma unat_PAGE [simp]: "unat PAGE = 32768"
  by (simp add: DYNAMIC_BITFIELD_PAGE_SIZE_def)

lemma page_offset: "unat ((index :: u64) AND (PAGE - 1)) = unat index mod 32768"
  using unat_and_mask [of 15 index] by (simp add: DYNAMIC_BITFIELD_PAGE_SIZE_def)

lemma page_number: "unat (((index :: u64) - (index AND (PAGE - 1))) div PAGE) = unat index div 32768"
proof -
  have "unat (index - (index AND (PAGE - 1))) = unat index - unat index mod 32768"
    by (simp only: unat_sub_small page_offset mod_less_eq_dividend)
  moreover have "(unat index - unat index mod 32768) div 32768 = unat index div 32768"
    by (metis div_mult_self1_is_m minus_mod_eq_mult_div zero_less_numeral)
  ultimately show ?thesis
    by (simp only: unat_div unat_PAGE)
qed

lemma page_number_eq:
  "((index :: u64) - (index AND (PAGE - 1))) div PAGE = of_nat (unat index div 32768)"
  using page_number [of index] by (metis of_nat_unat_same)

lemma page_number_bound: "unat (index :: u64) div 32768 < 2 ^ 49"
  using u64_bound [of index] by (simp add: less_mult_imp_div_less)

lemma u64_to_u32_small: "unat x < 2 ^ 32 \<Longrightarrow> \<exists>y. u64_to_u32 x = Ok y \<and> unat y = unat x"
  by (simp add: u64_to_u32_def unat_of_nat_small)

lemma page_offset_u32: "\<exists>y. u64_to_u32 ((index :: u64) AND (PAGE - 1)) = Ok y \<and>
    unat y = unat index mod 32768"
proof -
  have "unat index mod 32768 < 32768" by simp
  then have "unat (index AND (PAGE - 1)) < 2 ^ 32" unfolding page_offset by simp
  from u64_to_u32_small [OF this] show ?thesis unfolding page_offset .
qed

lemma dyn_wfD:
  assumes "dyn_wf b" "im_get (db_pages b) i = Some p"
  shows "fixed_wf p" "unat i < 2 ^ 49" "i \<le> db_biggest_page_index b"
  using assms by (auto simp: dyn_wf_def)

lemma page_key_eq:
  assumes "unat i < 2 ^ 49" "k < 2 ^ 64"
  shows "of_nat (k div 32768) = (i :: u64) \<longleftrightarrow> k div 32768 = unat i"
proof -
  have "k div 32768 < 2 ^ 64" using assms(2) by (simp add: less_mult_imp_div_less)
  then have "unat (of_nat (k div 32768) :: u64) = k div 32768" by (simp add: unat_of_nat_small)
  then show ?thesis by (metis of_nat_unat_same)
qed

lemma ensure_page_wf:
  assumes "dyn_wf b" "unat i < 2 ^ 49"
  shows "dyn_wf (ensure_page i b)" "dyn_bits (ensure_page i b) = dyn_bits b"
    "\<exists>p. im_get (db_pages (ensure_page i b)) i = Some p"
proof -
  show "dyn_wf (ensure_page i b)"
  proof (cases "im_get (db_pages b) i")
    case None
    with assms show ?thesis
      by (auto simp: dyn_wf_def ensure_page_def fixed_new_def fixed_wf_def
          intro: order_trans [OF _ less_imp_le])
  next
    case (Some p)
    with assms show ?thesis by (simp add: ensure_page_def)
  qed
  show "dyn_bits (ensure_page i b) = dyn_bits b"
    by (auto simp: dyn_bits_def ensure_page_def fun_eq_iff split: option.splits)
  show "\<exists>p. im_get (db_pages (ensure_page i b)) i = Some p"
    by (auto simp: ensure_page_def split: option.splits)
qed

text \<open>Writing a page back: the dirty pages stay exactly the unflushed ones.\<close>

lemma mark_page_spec:
  assumes "dyn_wf b" "im_get (db_pages b) i = Some p" "fixed_wf p'" "fb_dirty p' = fb_dirty p"
  shows "dyn_wf (mark_page i p' c b)"
    and "k < 2 ^ 64 \<Longrightarrow> dyn_bits (mark_page i p' c b) k =
      (if k div 32768 = unat i then fixed_bits p' (k mod 32768) else dyn_bits b k)"
proof -
  show "dyn_wf (mark_page i p' c b)"
    using assms by (auto simp: dyn_wf_def mark_page_def)
  show "dyn_bits (mark_page i p' c b) k =
      (if k div 32768 = unat i then fixed_bits p' (k mod 32768) else dyn_bits b k)" if "k < 2 ^ 64"
    using page_key_eq [OF dyn_wfD(2) [OF assms(1,2)] that] that
    by (auto simp: dyn_bits_def mark_page_def)
qed

lemma dyn_get_bits:
  assumes "dyn_wf b"
  shows "dyn_get b index = Ok (dyn_bits b (unat index))"
proof (cases "im_get (db_pages b) (of_nat (unat index div 32768))")
  case None
  then show ?thesis by (simp add: dyn_get_def Let_def page_number_eq dyn_bits_def)
next
  case (Some p)
  obtain j where j: "u64_to_u32 (index AND (PAGE - 1)) = Ok j" "unat j = unat index mod 32768"
    using page_offset_u32 by blast
  have "fixed_get p j = Ok (fixed_bits p (unat j))"
    by (rule fixed.get_bits [OF dyn_wfD(1) [OF assms Some]]) (simp add: j fixed_consts)
  with Some j u64_bound [of index] show ?thesis
    unfolding dyn_get_def Let_def page_number_eq by (simp add: dyn_bits_def)
qed

lemma dyn_bits_bound: "dyn_bits b k \<Longrightarrow> k < 2 ^ 64"
  by (simp add: dyn_bits_def)

lemma dyn_bits_page:
  assumes "dyn_wf b" "im_get (db_pages b) i = Some p" "k < 2 ^ 64" "k div 32768 = unat i"
  shows "dyn_bits b k = fixed_bits p (k mod 32768)"
  using assms page_key_eq [OF dyn_wfD(2) [OF assms(1,2)] assms(3)] by (auto simp: dyn_bits_def)

lemma dyn_set_spec:
  assumes "dyn_wf b"
  shows "\<exists>b'. dyn_set b index v = Ok (b', dyn_bits b (unat index) \<noteq> v) \<and> dyn_wf b' \<and>
    dyn_bits b' = (dyn_bits b)(unat index := v)"
proof -
  let ?n = "unat index" and ?i = "of_nat (unat index div 32768) :: u64"
  have i: "unat ?i = ?n div 32768" "unat ?i < 2 ^ 49"
    using page_number [of index] page_number_bound [of index] by (simp_all add: page_number_eq)
  show ?thesis
  proof (cases "im_get (db_pages b) ?i = None \<and> \<not> v")
    case True
    then have "\<not> dyn_bits b ?n" by (simp add: dyn_bits_def)
    with True assms show ?thesis
      unfolding dyn_set_def Let_def page_number_eq by (auto simp: fun_eq_iff)
  next
    case False
    obtain p where p: "im_get (db_pages (ensure_page ?i b)) ?i = Some p"
      using ensure_page_wf(3) [OF assms i(2)] by blast
    note wf = ensure_page_wf(1) [OF assms i(2)] and same = ensure_page_wf(2) [OF assms i(2)]
    obtain j where j: "u64_to_u32 (index AND (PAGE - 1)) = Ok j" "unat j = ?n mod 32768"
      using page_offset_u32 by blast
    have "unat j < FIXED_BITFIELD_BITS_LENGTH" by (simp add: j fixed_consts)
    then obtain p' where p': "fixed_set p j v = Ok (p', fixed_bits p (unat j) \<noteq> v)" "fixed_wf p'"
      "fb_dirty p' = fb_dirty p" "fixed_bits p' = (fixed_bits p)(unat j := v)"
      using fixed.set_bits [OF dyn_wfD(1) [OF wf p], of j v] by blast
    let ?b = "mark_page ?i p' (fixed_bits p (unat j) \<noteq> v) (ensure_page ?i b)"
    have old: "dyn_bits b ?n = fixed_bits p (unat j)"
      using dyn_bits_page [OF wf p, of ?n] i(1) j(2) u64_bound [of index] same by simp
    have "dyn_set b index v = Ok (?b, dyn_bits b ?n \<noteq> v)"
      unfolding dyn_set_def Let_def page_number_eq using False j p p' old by auto
    moreover have "dyn_bits ?b k = ((dyn_bits b)(?n := v)) k" for k
    proof (cases "k < 2 ^ 64")
      case True
      have "k div 32768 = ?n div 32768 \<Longrightarrow> k mod 32768 = ?n mod 32768 \<longleftrightarrow> k = ?n"
        by (metis div_mult_mod_eq)
      with True show ?thesis
        using mark_page_spec(2) [OF wf p p'(2,3) True] i(1) j(2) p'(4) same
          dyn_bits_page [OF wf p True] by auto
    next
      case False
      with u64_bound [of index] show ?thesis using dyn_bits_bound by fastforce
    qed
    ultimately show ?thesis
      using mark_page_spec(1) [OF wf p p'(2,3)] by blast
  qed
qed

text \<open>One round of \<open>set_range\<close> fills a range within one page.\<close>

lemma fill_page:
  assumes "dyn_wf b" "unat i < 2 ^ 49" "unat rs + unat re \<le> 32768"
  shows "\<exists>p p' c. im_get (db_pages (ensure_page i b)) i = Some p \<and>
    fixed_set_range p rs re v = Ok (p', c) \<and> dyn_wf (mark_page i p' c (ensure_page i b)) \<and>
    dyn_bits (mark_page i p' c (ensure_page i b)) = (\<lambda>k. if 32768 * unat i + unat rs \<le> k \<and>
      k < 32768 * unat i + unat rs + unat re then v else dyn_bits b k)"
proof -
  note wf = ensure_page_wf(1) [OF assms(1,2)] and same = ensure_page_wf(2) [OF assms(1,2)]
  obtain p where p: "im_get (db_pages (ensure_page i b)) i = Some p"
    using ensure_page_wf(3) [OF assms(1,2)] by blast
  have "unat rs + unat re \<le> FIXED_BITFIELD_BITS_LENGTH" using assms(3) by (simp add: fixed_consts)
  then obtain p' c where p': "fixed_set_range p rs re v = Ok (p', c)" "fixed_wf p'"
    "fb_dirty p' = fb_dirty p"
    "fixed_bits p' = (\<lambda>k. if unat rs \<le> k \<and> k < unat rs + unat re then v else fixed_bits p k)"
    using fixed.set_range_bits [OF dyn_wfD(1) [OF wf p], of rs re v] by blast
  have "dyn_bits (mark_page i p' c (ensure_page i b)) k = (if 32768 * unat i + unat rs \<le> k \<and>
      k < 32768 * unat i + unat rs + unat re then v else dyn_bits b k)" for k
  proof (cases "k < 2 ^ 64")
    case True
    define q r where "q = k div 32768" and "r = k mod 32768"
    then have k: "k = 32768 * q + r" "r < 32768" "k div 32768 = q" "k mod 32768 = r" by simp_all
    show ?thesis
      using mark_page_spec(2) [OF wf p p'(2,3) True] dyn_bits_page [OF wf p True] k assms(3)
      by (cases q "unat i" rule: linorder_cases) (auto simp: same p'(4))
  next
    case False
    with assms(2,3) show ?thesis using dyn_bits_bound by fastforce
  qed
  then show ?thesis
    using p p' mark_page_spec(1) [OF wf p p'(2,3)] by blast
qed

lemma dyn_set_range_loop_spec:
  assumes "dyn_wf b" "unat j < 32768" "32768 * unat i + unat j + unat len < 2 ^ 64"
  shows "\<exists>b'. dyn_set_range_loop v j i len b = Ok b' \<and> dyn_wf b' \<and>
    dyn_bits b' = (\<lambda>k. if 32768 * unat i + unat j \<le> k \<and> k < 32768 * unat i + unat j + unat len
      then v else dyn_bits b k)"
  using assms
proof (induction v j i len b rule: dyn_set_range_loop.induct)
  case (1 v j i len b)
  show ?case
  proof (cases "len > 0")
    case False
    then have "len = 0" by (simp add: word_neq_0_conv [symmetric])
    with "1.prems"(1) show ?thesis by (auto simp: dyn_set_range_loop.simps)
  next
    case True
    define n where "n = min (unat len) (32768 - unat j)"
    have i: "unat i < 2 ^ 49" using "1.prems"(3) by simp
    have n: "0 < n" "n \<le> 32768" "n \<le> unat len" "unat j + n \<le> 32768"
      using True "1.prems"(2) by (auto simp: n_def word_less_nat_alt)
    obtain rs where rs: "u64_to_u32 j = Ok rs" "unat rs = unat j"
      using u64_to_u32_small [of j] "1.prems"(2) by auto
    have "unat (j + len) = unat j + unat len"
      using "1.prems"(3) by (intro unat_add_small) simp
    then have "unat (min (j + len) PAGE - j) = n"
      using "1.prems"(2) by (auto simp: n_def min_def word_le_nat_alt unat_sub_small)
    then obtain re where re: "u64_to_u32 (min (j + len) PAGE - j) = Ok re" "unat re = n"
      using u64_to_u32_small [of "min (j + len) PAGE - j"] n by auto
    obtain p p' c where p: "im_get (db_pages (ensure_page i b)) i = Some p"
      "fixed_set_range p rs re v = Ok (p', c)"
      and wf: "dyn_wf (mark_page i p' c (ensure_page i b))"
      and bits: "dyn_bits (mark_page i p' c (ensure_page i b)) = (\<lambda>k. if 32768 * unat i + unat j \<le> k \<and>
        k < 32768 * unat i + unat j + n then v else dyn_bits b k)"
      using fill_page [OF "1.prems"(1) i, of rs re v] rs re n by auto
    let ?b = "mark_page i p' c (ensure_page i b)" and ?l = "len - of_nat n"
    have l: "unat ?l = unat len - n"
      using n by (simp add: unat_sub_small unat_of_nat64)
    have i1: "unat (i + 1) = unat i + 1" using i by (simp add: unat_add_small)
    have step: "dyn_set_range_loop v j i len b = dyn_set_range_loop v 0 (i + 1) ?l ?b"
      using True p rs re by (simp add: dyn_set_range_loop.simps [of v j] Let_def)
    show ?thesis
    proof (cases "unat len = n")
      case True
      with l have "?l = 0" by (simp add: word_eq_iff_unat)
      then show ?thesis using step wf bits True by (simp add: dyn_set_range_loop.simps)
    next
      case False
      then have full: "n = 32768 - unat j" "unat j + n = 32768" using n by (auto simp: n_def)
      have "\<exists>b'. dyn_set_range_loop v 0 (i + 1) ?l ?b = Ok b' \<and> dyn_wf b' \<and>
        dyn_bits b' = (\<lambda>k. if 32768 * unat (i + 1) + unat (0 :: u64) \<le> k \<and>
          k < 32768 * unat (i + 1) + unat (0 :: u64) + unat ?l then v else dyn_bits ?b k)"
        using "1.IH" [of "ensure_page i b" p "min (j + len) PAGE" rs re "(p', c)" p' c]
          \<open>len > 0\<close> p rs re wf l i1 n full "1.prems"(3) by simp
      then show ?thesis
        using step full n l i1 bits by (auto simp: fun_eq_iff)
    qed
  qed
qed

lemma dyn_set_range_spec:
  assumes "dyn_wf b" "unat start + unat len < 2 ^ 64"
  shows "\<exists>b'. dyn_set_range b start len v = Ok b' \<and> dyn_wf b' \<and>
    dyn_bits b' = (\<lambda>k. if unat start \<le> k \<and> k < unat start + unat len then v else dyn_bits b k)"
  using dyn_set_range_loop_spec [OF assms(1), of "start AND (PAGE - 1)"
      "(start - (start AND (PAGE - 1))) div PAGE" len v] assms(2)
  unfolding dyn_set_range_def Let_def page_offset page_number by simp

section \<open>Searching\<close>

text \<open>\<open>is_first P a r\<close>: \<open>r\<close> is the first index from \<open>a\<close> on where \<open>P\<close> holds, if any;
  \<open>is_last P a r\<close>: \<open>r\<close> is the last one up to \<open>a\<close>.\<close>

definition is_first :: "(nat \<Rightarrow> bool) \<Rightarrow> nat \<Rightarrow> nat option \<Rightarrow> bool" where
  "is_first P a r \<longleftrightarrow> (case r of
     None \<Rightarrow> (\<forall>k\<ge>a. \<not> P k)
   | Some k \<Rightarrow> a \<le> k \<and> P k \<and> (\<forall>j. a \<le> j \<and> j < k \<longrightarrow> \<not> P j))"

definition is_last :: "(nat \<Rightarrow> bool) \<Rightarrow> nat \<Rightarrow> nat option \<Rightarrow> bool" where
  "is_last P a r \<longleftrightarrow> (case r of
     None \<Rightarrow> (\<forall>k\<le>a. \<not> P k)
   | Some k \<Rightarrow> k \<le> a \<and> P k \<and> (\<forall>j. k < j \<and> j \<le> a \<longrightarrow> \<not> P j))"

lemma page_position:
  assumes "unat (key :: u64) < 2 ^ 49" "x < 32768"
  shows "unat (key * PAGE + of_nat (unat (of_nat x :: u32))) = 32768 * unat key + x"
proof -
  have x: "unat (of_nat x :: u32) = x" using assms(2) by (simp add: unat_of_nat_small)
  have k: "unat (key * PAGE) = unat key * 32768"
    using assms(1) by (subst unat_mult_small) simp_all
  show ?thesis
    unfolding x using assms by (subst unat_add_small) (simp_all add: k unat_of_nat64)
qed

definition page_hit :: "(fixed_bitfield \<Rightarrow> nat option) \<Rightarrow> fixed_bitfield intmap \<Rightarrow> u64 \<Rightarrow> bool" where
  "page_hit f pages key \<longleftrightarrow> (case im_get pages key of None \<Rightarrow> False | Some p \<Rightarrow> f p \<noteq> None)"

lemma search_pages_find:
  assumes "\<And>key p. key \<in> set keys \<Longrightarrow> im_get pages key = Some p \<Longrightarrow>
    look p = Ok (map_option of_nat (f p))"
  shows "search_pages look pages keys = Ok (map_option
    (\<lambda>key. key * PAGE + of_nat (unat (of_nat (the (f (the (im_get pages key)))) :: u32)))
    (List.find (page_hit f pages) keys))"
  using assms
proof (induction keys)
  case (Cons key keys)
  have IH: "search_pages look pages keys = Ok (map_option
    (\<lambda>key. key * PAGE + of_nat (unat (of_nat (the (f (the (im_get pages key)))) :: u32)))
    (List.find (page_hit f pages) keys))"
    by (rule Cons.IH) (use Cons.prems in auto)
  show ?case
  proof (cases "im_get pages key")
    case None
    then have "\<not> page_hit f pages key" by (simp add: page_hit_def)
    with None IH show ?thesis by simp
  next
    case (Some p)
    then have "look p = Ok (map_option of_nat (f p))" "page_hit f pages key \<longleftrightarrow> f p \<noteq> None"
      using Cons.prems by (auto simp: page_hit_def)
    with Some IH show ?thesis by (cases "f p") simp_all
  qed
qed simp

text \<open>A hit in a list of pages, in terms of the bits: no page before it has a set bit.\<close>

lemma search_hit:
  assumes "dyn_wf b"
    and look: "\<And>p. fixed_wf p \<Longrightarrow> look p = Ok (map_option of_nat (f p))"
    and none: "\<And>p x. f p = None \<Longrightarrow> x < 32768 \<Longrightarrow> \<not> fixed_bits p x"
    and less: "\<And>p x. f p = Some x \<Longrightarrow> x < 32768"
  obtains "search_pages look (db_pages b) keys = Ok None"
      "\<And>key k. key \<in> set keys \<Longrightarrow> k div 32768 = unat key \<Longrightarrow> \<not> dyn_bits b k"
  | ks1 key ks2 p x w where "keys = ks1 @ key # ks2" "search_pages look (db_pages b) keys = Ok (Some w)"
      "unat w = 32768 * unat key + x" "im_get (db_pages b) key = Some p" "f p = Some x"
      "\<And>key k. key \<in> set ks1 \<Longrightarrow> k div 32768 = unat key \<Longrightarrow> \<not> dyn_bits b k"
proof -
  let ?hit = "page_hit f (db_pages b)"
  have search: "search_pages look (db_pages b) keys = Ok (map_option
    (\<lambda>key. key * PAGE + of_nat (unat (of_nat (the (f (the (im_get (db_pages b) key)))) :: u32)))
    (List.find ?hit keys))"
    by (rule search_pages_find) (use look dyn_wfD(1) [OF assms(1)] in blast)
  have miss: "\<not> dyn_bits b k" if "\<not> ?hit key" "k div 32768 = unat key" for key k
  proof (cases "im_get (db_pages b) key")
    case None
    with that(2) show ?thesis by (auto simp: dyn_bits_def)
  next
    case (Some p)
    with that none [of p "k mod 32768"] show ?thesis
      using dyn_bits_page [OF assms(1) Some _ that(2)] dyn_bits_bound by (auto simp: page_hit_def)
  qed
  show thesis
  proof (cases "List.find ?hit keys")
    case None
    then have "\<forall>key\<in>set keys. \<not> ?hit key" by (simp add: find_None_iff)
    with search miss None show thesis by (intro that(1)) auto
  next
    case (Some key)
    then obtain n where n: "n < length keys" "key = keys ! n" "?hit key" "\<forall>j<n. \<not> ?hit (keys ! j)"
      by (auto simp: find_Some_iff)
    then obtain p x where px: "im_get (db_pages b) key = Some p" "f p = Some x"
      by (auto simp: page_hit_def split: option.splits)
    have "keys = take n keys @ key # drop (Suc n) keys"
      using n(1,2) by (simp add: id_take_nth_drop)
    moreover have "\<not> ?hit key'" if "key' \<in> set (take n keys)" for key'
      using that n by (auto simp: in_set_conv_nth)
    ultimately show thesis
      using that(2) [of "take n keys" key "drop (Suc n) keys" _ x p] search Some px miss
        page_position [OF dyn_wfD(2) [OF assms(1) px(1)] less [OF px(2)]] by auto
  qed
qed

text \<open>The search in the page of the position itself.\<close>

lemma page_first:
  fixes v :: bool
  assumes "dyn_wf b" "im_get (db_pages b) i = Some p" "x < 32768" "32768 * unat i + x < 2 ^ 64"
  defines "r \<equiv> List.find (\<lambda>k. fixed_bits p k = v) [x ..< 32768]"
  shows "r = Some y \<Longrightarrow> x \<le> y \<and> y < 32768 \<and> dyn_bits b (32768 * unat i + y) = v \<and>
      (\<forall>k. 32768 * unat i + x \<le> k \<and> k < 32768 * unat i + y \<longrightarrow> dyn_bits b k \<noteq> v)"
    and "r = None \<Longrightarrow> 32768 * unat i + x \<le> k \<Longrightarrow> k < 32768 * unat i + 32768 \<Longrightarrow> dyn_bits b k \<noteq> v"
proof -
  have page: "dyn_bits b (32768 * unat i + z) = fixed_bits p z" if "z < 32768" for z
    using dyn_bits_page [OF assms(1,2), of "32768 * unat i + z"] that dyn_wfD(2) [OF assms(1,2)] by simp
  have shift: "\<exists>z. k = 32768 * unat i + z \<and> x \<le> z"
    if "32768 * unat i + x \<le> k" for k
    using that by (intro exI [of _ "k - 32768 * unat i"]) linarith
  show "r = Some y \<Longrightarrow> x \<le> y \<and> y < 32768 \<and> dyn_bits b (32768 * unat i + y) = v \<and>
      (\<forall>k. 32768 * unat i + x \<le> k \<and> k < 32768 * unat i + y \<longrightarrow> dyn_bits b k \<noteq> v)"
    unfolding r_def find_upt_Some using page by (auto dest!: shift)
  show "r = None \<Longrightarrow> 32768 * unat i + x \<le> k \<Longrightarrow> k < 32768 * unat i + 32768 \<Longrightarrow> dyn_bits b k \<noteq> v"
    unfolding r_def find_None_iff using page by (auto dest!: shift)
qed

lemma fixed_index_of_page:
  assumes "fixed_wf p" "x < 32768"
  shows "fixed_index_of p v (of_nat x) =
    Ok (map_option of_nat (List.find (\<lambda>k. fixed_bits p k = v) [x ..< 32768]))"
  using fixed_index_of_find [OF assms(1), of v "of_nat x"] assms(2)
  by (simp add: unat_of_nat_small fixed_consts)

lemma dyn_bits_key:
  assumes "dyn_bits b k"
  shows "\<exists>key. key \<in> set (im_keys (db_pages b)) \<and> unat key = k div 32768"
proof -
  from assms obtain p where "k < 2 ^ 64" "im_get (db_pages b) (of_nat (k div 32768)) = Some p"
    by (auto simp: dyn_bits_def split: option.splits)
  then have "of_nat (k div 32768) \<in> set (im_keys (db_pages b))"
    and "unat (of_nat (k div 32768) :: u64) = k div 32768"
    by (auto simp: set_im_keys less_mult_imp_div_less intro!: unat_of_nat64)
  then show ?thesis by blast
qed

text \<open>Beyond the page of the position, the pages are searched in increasing order.\<close>

lemma search_later_pages:
  assumes wf: "dyn_wf b" and fp: "a div 32768 = unat (fp :: u64)"
    and nobits: "\<And>k. a \<le> k \<Longrightarrow> k div 32768 = unat fp \<Longrightarrow> \<not> dyn_bits b k"
  shows "\<exists>r. search_pages (\<lambda>p. fixed_index_of p True 0) (db_pages b)
      (sort (filter (\<lambda>key. key > fp) (im_keys (db_pages b)))) = Ok r \<and>
    is_first (dyn_bits b) a (map_option unat r)"
proof -
  let ?keys = "sort (filter (\<lambda>key. key > fp) (im_keys (db_pages b)))"
  let ?look = "\<lambda>p. fixed_index_of p True 0"
  let ?find = "\<lambda>p. List.find (\<lambda>k. fixed_bits p k = True) [0 ..< 32768]"
  have key: "\<exists>key\<in>set ?keys. unat key = k div 32768" if k: "a \<le> k" "dyn_bits b k" for k
  proof -
    obtain key where key: "key \<in> set (im_keys (db_pages b))" "unat key = k div 32768"
      using dyn_bits_key [OF k(2)] by blast
    moreover have "a div 32768 \<le> k div 32768" using k(1) by (rule div_le_mono)
    moreover have "k div 32768 \<noteq> unat fp" using nobits k by blast
    ultimately have "fp < key" using fp by (simp add: word_less_nat_alt)
    with key show ?thesis by auto
  qed
  have look: "fixed_wf p \<Longrightarrow> ?look p = Ok (map_option of_nat (?find p))" for p
    using fixed_index_of_page [of p 0 True] by simp
  show ?thesis
  proof (rule search_hit [where look = ?look and f = ?find and keys = ?keys, OF wf look])
    show "\<And>p x. ?find p = None \<Longrightarrow> x < 32768 \<Longrightarrow> \<not> fixed_bits p x"
      by (auto simp: find_None_iff)
    show "\<And>p x. ?find p = Some x \<Longrightarrow> x < 32768"
      by (auto simp: find_upt_Some)
  next
    assume none: "search_pages ?look (db_pages b) ?keys = Ok None"
      "\<And>key k. key \<in> set ?keys \<Longrightarrow> k div 32768 = unat key \<Longrightarrow> \<not> dyn_bits b k"
    then have "\<not> dyn_bits b k" if "a \<le> k" for k using key [OF that] by metis
    with none(1) show ?thesis by (simp add: is_first_def)
  next
    fix ks1 key' ks2 p x w
    assume ks: "?keys = ks1 @ key' # ks2"
      and w: "search_pages ?look (db_pages b) ?keys = Ok (Some w)" "unat w = 32768 * unat key' + x"
      and p: "im_get (db_pages b) key' = Some p" "?find p = Some x"
      and before: "\<And>key k. key \<in> set ks1 \<Longrightarrow> k div 32768 = unat key \<Longrightarrow> \<not> dyn_bits b k"
    have hit: "x < 32768" "dyn_bits b (unat w)"
      "\<forall>k. 32768 * unat key' \<le> k \<and> k < unat w \<longrightarrow> \<not> dyn_bits b k"
      using page_first(1) [OF wf p(1), of 0 True x] p(2) dyn_wfD(2) [OF wf p(1)] w(2) by auto
    have sorted: "sorted (ks1 @ key' # ks2)" by (metis ks sorted_sort)
    have "key' \<in> set ?keys" unfolding ks by simp
    then have "fp < key'" by simp
    then have "unat fp + 1 \<le> unat key'" by (simp add: word_less_nat_alt)
    then have "a \<le> 32768 * unat key'" using fp by linarith
    moreover have "\<not> dyn_bits b k" if k: "a \<le> k" "k < unat w" for k
    proof
      assume bit: "dyn_bits b k"
      then obtain key where k': "key \<in> set ?keys" "unat key = k div 32768"
        using key k(1) by blast
      from hit(1) w(2) k(2) have "k div 32768 \<le> unat key'" by linarith
      moreover have "k div 32768 \<noteq> unat key'"
        using hit(3) bit k(2) by (metis div_mult_mod_eq le_add1 mult.commute)
      ultimately have "key < key'" using k'(2) by (simp add: word_less_nat_alt)
      with k'(1) sorted have "key \<in> set ks1" unfolding ks by (auto simp: sorted_append)
      then show False using before k'(2) bit by metis
    qed
    ultimately show ?thesis
      using w hit by (auto simp: is_first_def)
  qed
qed

lemma position_page:
  obtains x where "unat ((position - (position AND (PAGE - 1))) div PAGE) = unat position div 32768"
    "unat position div 32768 < 2 ^ 49"
    "unat ((position :: u64) AND (PAGE - 1)) = x" "x < 32768"
    "unat position = 32768 * (unat position div 32768) + x"
  using page_number page_number_bound page_offset by simp

lemma dyn_index_of_true:
  assumes wf: "dyn_wf b"
  shows "\<exists>r. dyn_index_of b True position = Ok r \<and>
    is_first (dyn_bits b) (unat position) (map_option unat r)"
proof -
  define fp where "fp = (position - (position AND (PAGE - 1))) div PAGE"
  obtain x where fp: "unat fp = unat position div 32768" "unat fp < 2 ^ 49"
    and x: "unat (position AND (PAGE - 1)) = x" "x < 32768" "unat position = 32768 * unat fp + x"
    using position_page [of position] unfolding fp_def by metis
  let ?rest = "search_pages (\<lambda>p. fixed_index_of p True 0) (db_pages b)
    (sort (filter (\<lambda>key. key > fp) (im_keys (db_pages b))))"
  let ?r = "\<lambda>p. List.find (\<lambda>k. fixed_bits p k = True) [x ..< 32768]"
  have later: "\<exists>r. ?rest = Ok r \<and> is_first (dyn_bits b) (unat position) (map_option unat r)"
    if "\<And>k. unat position \<le> k \<Longrightarrow> k div 32768 = unat fp \<Longrightarrow> \<not> dyn_bits b k"
    using search_later_pages [OF wf _ that] fp by simp
  have eq: "dyn_index_of b True position = bindR (case im_get (db_pages b) fp of
        None \<Rightarrow> Ok None | Some p \<Rightarrow> fixed_index_of p True (of_nat x)) (\<lambda>r.
      case r of Some index \<Rightarrow> Ok (Some (fp * PAGE + of_nat (unat index))) | None \<Rightarrow> ?rest)"
    unfolding dyn_index_of_def Let_def fp_def [symmetric] x(1) by simp
  show ?thesis
  proof (cases "im_get (db_pages b) fp")
    case None
    then have "\<not> dyn_bits b k" if "k div 32768 = unat fp" for k
      using that by (auto simp: dyn_bits_def)
    with None eq later show ?thesis by simp
  next
    case (Some p)
    note found = fixed_index_of_page [OF dyn_wfD(1) [OF wf Some] x(2), of True]
    have lt: "32768 * unat fp + x < 2 ^ 64" using u64_bound [of position] x(3) by simp
    show ?thesis
    proof (cases "?r p")
      case None
      have "\<not> dyn_bits b k" if "unat position \<le> k" "k div 32768 = unat fp" for k
        using page_first(2) [OF wf Some x(2) lt None, of k] that x(3) by simp
      with None eq later found Some show ?thesis by simp
    next
      case (Some y)
      note y = page_first(1) [OF wf \<open>im_get (db_pages b) fp = Some p\<close> x(2) lt Some]
      with eq found \<open>im_get (db_pages b) fp = Some p\<close> Some show ?thesis
        using page_position [OF fp(2), of y] x(3) by (auto simp: is_first_def)
    qed
  qed
qed

text \<open>The search backwards is the mirror image.\<close>

lemma page_last:
  fixes v :: bool
  assumes "dyn_wf b" "im_get (db_pages b) i = Some p" "x < 32768"
  defines "r \<equiv> List.find (\<lambda>k. fixed_bits p k = v) (rev [0 ..< Suc x])"
  shows "r = Some y \<Longrightarrow> y \<le> x \<and> dyn_bits b (32768 * unat i + y) = v \<and>
      (\<forall>k. 32768 * unat i + y < k \<and> k \<le> 32768 * unat i + x \<longrightarrow> dyn_bits b k \<noteq> v)"
    and "r = None \<Longrightarrow> 32768 * unat i \<le> k \<Longrightarrow> k \<le> 32768 * unat i + x \<Longrightarrow> dyn_bits b k \<noteq> v"
proof -
  have page: "dyn_bits b (32768 * unat i + z) = fixed_bits p z" if "z < 32768" for z
    using dyn_bits_page [OF assms(1,2), of "32768 * unat i + z"] that dyn_wfD(2) [OF assms(1,2)] by simp
  have shift: "\<exists>z. k = 32768 * unat i + z" if "32768 * unat i \<le> k" for k
    using that by (intro exI [of _ "k - 32768 * unat i"]) linarith
  show "r = Some y \<Longrightarrow> y \<le> x \<and> dyn_bits b (32768 * unat i + y) = v \<and>
      (\<forall>k. 32768 * unat i + y < k \<and> k \<le> 32768 * unat i + x \<longrightarrow> dyn_bits b k \<noteq> v)"
  proof -
    assume "r = Some y"
    then have y: "y \<le> x" "fixed_bits p y = v" "\<And>j. y < j \<Longrightarrow> j \<le> x \<Longrightarrow> fixed_bits p j \<noteq> v"
      unfolding r_def find_rev_upt_Some by auto
    moreover have "dyn_bits b k \<noteq> v" if "32768 * unat i + y < k" "k \<le> 32768 * unat i + x" for k
      using shift [of k] that y(3) page assms(3) by auto
    ultimately show ?thesis using page [of y] assms(3) by simp
  qed
  show "r = None \<Longrightarrow> 32768 * unat i \<le> k \<Longrightarrow> k \<le> 32768 * unat i + x \<Longrightarrow> dyn_bits b k \<noteq> v"
  proof -
    assume r: "r = None" and k: "32768 * unat i \<le> k" "k \<le> 32768 * unat i + x"
    obtain z where z: "k = 32768 * unat i + z" "z \<le> x" using shift [OF k(1)] k(2) by auto
    have "z \<in> set (rev [0 ..< Suc x])" unfolding set_rev set_upt using z(2) by simp
    then have "fixed_bits p z \<noteq> v" using r unfolding r_def find_None_iff by blast
    then show "dyn_bits b k \<noteq> v" using page [of z] z assms(3) by simp
  qed
qed

lemma fixed_last_index_of_page:
  assumes "fixed_wf p" "x < 32768"
  shows "fixed_last_index_of p v (of_nat x) =
    Ok (map_option of_nat (List.find (\<lambda>k. fixed_bits p k = v) (rev [0 ..< Suc x])))"
  using fixed_last_index_of_find [OF assms(1), of "of_nat x" v] assms(2)
  by (simp add: unat_of_nat_small fixed_consts)

lemma search_earlier_pages:
  assumes wf: "dyn_wf b" and lp: "a div 32768 = unat (lp :: u64)"
    and nobits: "\<And>k. k \<le> a \<Longrightarrow> k div 32768 = unat lp \<Longrightarrow> \<not> dyn_bits b k"
  shows "\<exists>r. search_pages (\<lambda>p. fixed_last_index_of p True (of_nat FIXED_BITFIELD_BITS_LENGTH - 1)) (db_pages b)
      (rev (sort (filter (\<lambda>key. key < lp) (im_keys (db_pages b))))) = Ok r \<and>
    is_last (dyn_bits b) a (map_option unat r)"
proof -
  let ?keys = "rev (sort (filter (\<lambda>key. key < lp) (im_keys (db_pages b))))"
  let ?look = "\<lambda>p. fixed_last_index_of p True (of_nat FIXED_BITFIELD_BITS_LENGTH - 1)"
  let ?find = "\<lambda>p. List.find (\<lambda>k. fixed_bits p k = True) (rev [0 ..< Suc 32767])"
  have key: "\<exists>key\<in>set ?keys. unat key = k div 32768" if k: "k \<le> a" "dyn_bits b k" for k
  proof -
    obtain key where key: "key \<in> set (im_keys (db_pages b))" "unat key = k div 32768"
      using dyn_bits_key [OF k(2)] by blast
    moreover have "k div 32768 \<le> a div 32768" using k(1) by (rule div_le_mono)
    moreover have "k div 32768 \<noteq> unat lp" using nobits k by blast
    ultimately have "key < lp" using lp by (simp add: word_less_nat_alt)
    with key show ?thesis by auto
  qed
  have look: "fixed_wf p \<Longrightarrow> ?look p = Ok (map_option of_nat (?find p))" for p
    using fixed_last_index_of_page [of p 32767 True] by (simp add: fixed_consts)
  show ?thesis
  proof (rule search_hit [where look = ?look and f = ?find and keys = ?keys, OF wf look])
    show "\<And>p x. ?find p = None \<Longrightarrow> x < 32768 \<Longrightarrow> \<not> fixed_bits p x"
      unfolding find_None_iff by auto
    show "\<And>p x. ?find p = Some x \<Longrightarrow> x < 32768"
      unfolding find_rev_upt_Some by auto
  next
    assume none: "search_pages ?look (db_pages b) ?keys = Ok None"
      "\<And>key k. key \<in> set ?keys \<Longrightarrow> k div 32768 = unat key \<Longrightarrow> \<not> dyn_bits b k"
    then have "\<not> dyn_bits b k" if "k \<le> a" for k using key [OF that] by metis
    with none(1) show ?thesis by (simp add: is_last_def)
  next
    fix ks1 key' ks2 p x w
    assume ks: "?keys = ks1 @ key' # ks2"
      and w: "search_pages ?look (db_pages b) ?keys = Ok (Some w)" "unat w = 32768 * unat key' + x"
      and p: "im_get (db_pages b) key' = Some p" "?find p = Some x"
      and before: "\<And>key k. key \<in> set ks1 \<Longrightarrow> k div 32768 = unat key \<Longrightarrow> \<not> dyn_bits b k"
    have hit: "x \<le> 32767" "dyn_bits b (unat w)"
      "\<forall>k. unat w < k \<and> k \<le> 32768 * unat key' + 32767 \<longrightarrow> \<not> dyn_bits b k"
      using page_last(1) [OF wf p(1), of 32767 True x] p(2) w(2) by auto
    have sorted: "sorted (rev (ks1 @ key' # ks2))" by (metis ks rev_rev_ident sorted_sort)
    have "key' \<in> set ?keys" unfolding ks by simp
    then have "key' < lp" by simp
    then have "unat key' + 1 \<le> unat lp" by (simp add: word_less_nat_alt)
    then have "unat w \<le> a" using lp hit(1) w(2) by linarith
    moreover have "\<not> dyn_bits b k" if k: "k \<le> a" "unat w < k" for k
    proof
      assume bit: "dyn_bits b k"
      then obtain key where k': "key \<in> set ?keys" "unat key = k div 32768"
        using key k(1) by blast
      from w(2) k(2) have "unat key' \<le> k div 32768" by linarith
      moreover have "k div 32768 \<noteq> unat key'"
      proof
        assume "k div 32768 = unat key'"
        then have "k \<le> 32768 * unat key' + 32767" by linarith
        with hit(3) bit k(2) show False by blast
      qed
      ultimately have "key' < key" using k'(2) by (simp add: word_less_nat_alt)
      with k'(1) sorted have "key \<in> set ks1" unfolding ks by (auto simp: sorted_append)
      then show False using before k'(2) bit by metis
    qed
    ultimately show ?thesis
      using w hit by (auto simp: is_last_def)
  qed
qed

lemma dyn_last_index_of_true:
  assumes wf: "dyn_wf b"
  shows "\<exists>r. dyn_last_index_of b True position = Ok r \<and>
    is_last (dyn_bits b) (unat position) (map_option unat r)"
proof -
  define lp where "lp = (position - (position AND (PAGE - 1))) div PAGE"
  obtain x where lp: "unat lp = unat position div 32768" "unat lp < 2 ^ 49"
    and x: "unat (position AND (PAGE - 1)) = x" "x < 32768" "unat position = 32768 * unat lp + x"
    using position_page [of position] unfolding lp_def by metis
  let ?rest = "search_pages (\<lambda>p. fixed_last_index_of p True (of_nat FIXED_BITFIELD_BITS_LENGTH - 1))
    (db_pages b) (rev (sort (filter (\<lambda>key. key < lp) (im_keys (db_pages b)))))"
  let ?r = "\<lambda>p. List.find (\<lambda>k. fixed_bits p k = True) (rev [0 ..< Suc x])"
  have earlier: "\<exists>r. ?rest = Ok r \<and> is_last (dyn_bits b) (unat position) (map_option unat r)"
    if "\<And>k. k \<le> unat position \<Longrightarrow> k div 32768 = unat lp \<Longrightarrow> \<not> dyn_bits b k"
    using search_earlier_pages [OF wf _ that] lp by simp
  have eq: "dyn_last_index_of b True position = bindR (case im_get (db_pages b) lp of
        None \<Rightarrow> Ok None | Some p \<Rightarrow> fixed_last_index_of p True (of_nat x)) (\<lambda>r.
      case r of Some index \<Rightarrow> Ok (Some (lp * PAGE + of_nat (unat index))) | None \<Rightarrow> ?rest)"
    unfolding dyn_last_index_of_def Let_def lp_def [symmetric] x(1) by simp
  show ?thesis
  proof (cases "im_get (db_pages b) lp")
    case None
    then have "\<not> dyn_bits b k" if "k div 32768 = unat lp" for k
      using that by (auto simp: dyn_bits_def)
    with None eq earlier show ?thesis by simp
  next
    case (Some p)
    note found = fixed_last_index_of_page [OF dyn_wfD(1) [OF wf Some] x(2), of True]
    show ?thesis
    proof (cases "?r p")
      case None
      have "\<not> dyn_bits b k" if "k \<le> unat position" "k div 32768 = unat lp" for k
        using page_last(2) [OF wf Some x(2) None, of k] that x(3) by simp
      with None eq earlier found Some show ?thesis by simp
    next
      case (Some y)
      note y = page_last(1) [OF wf \<open>im_get (db_pages b) lp = Some p\<close> x(2) Some]
      with eq found \<open>im_get (db_pages b) lp = Some p\<close> Some show ?thesis
        using page_position [OF lp(2), of y] x(2,3) by (auto simp: is_last_def)
    qed
  qed
qed


section \<open>Searching for a clear bit\<close>

text \<open>The forward search stops after the biggest page (or the page of the position, whichever
  comes later): if it finds nothing, every bit up to there is set.\<close>

lemma index_of_false_loop_spec:
  assumes wf: "dyn_wf b" and "fp \<le> i" "i < 2 ^ 49" "x < 32768" "fp < 2 ^ 49"
    and "unat (db_biggest_page_index b) < 2 ^ 49"
  shows "\<exists>r. index_of_false_loop b fp i (of_nat x) = Ok r \<and>
    (case r of
       Some w \<Rightarrow> is_first (\<lambda>k. \<not> dyn_bits b k) (32768 * i + x) (Some (unat w))
     | None \<Rightarrow> (\<forall>k. 32768 * i + x \<le> k \<and>
         k < 32768 * Suc (max fp (unat (db_biggest_page_index b))) \<longrightarrow> dyn_bits b k))"
  using assms
proof (induction "Suc (max fp (unat (db_biggest_page_index b))) - i" arbitrary: i x
    rule: less_induct)
  case (less i x)
  let ?m = "max fp (unat (db_biggest_page_index b))"
  have ui: "unat (of_nat i :: u64) = i" using less.prems(3) by (intro unat_of_nat64) simp
  have lt: "32768 * unat (of_nat i :: u64) + x < 2 ^ 64"
    unfolding ui using less.prems(3,4) by simp
  note pos = page_position [of "of_nat i", unfolded ui, OF less.prems(3)]
  show ?case
  proof (cases "i \<le> ?m")
    case False
    then show ?thesis
      using less.prems(2) by (auto simp: index_of_false_loop.simps [of b fp i])
  next
    case go: True
    then have step: "index_of_false_loop b fp i (of_nat x) =
        (case im_get (db_pages b) (of_nat i) of
           None \<Rightarrow> Ok (Some (of_nat i * PAGE + of_nat (unat (of_nat x :: u32))))
         | Some p \<Rightarrow> bindR (fixed_index_of p False (of_nat x)) (\<lambda>r.
             case r of
               Some index \<Rightarrow> Ok (Some (of_nat i * PAGE + of_nat (unat index)))
             | None \<Rightarrow> index_of_false_loop b fp (i + 1) 0))"
      using less.prems(2) by (subst index_of_false_loop.simps) auto
    show ?thesis
    proof (cases "im_get (db_pages b) (of_nat i)")
      case None
      then have "\<not> dyn_bits b (32768 * i + x)"
        using less.prems(4) by (simp add: dyn_bits_def)
      then show ?thesis using None pos [OF less.prems(4)] by (auto simp: step is_first_def)
    next
      case (Some p)
      note found = fixed_index_of_page [OF dyn_wfD(1) [OF wf Some] less.prems(4), of False]
      note first = page_first [OF wf Some less.prems(4) lt, of False, unfolded ui]
      show ?thesis
      proof (cases "List.find (\<lambda>k. fixed_bits p k = False) [x ..< 32768]")
        case (Some y)
        then show ?thesis
          using first(1) [OF Some] found pos [of y] \<open>im_get (db_pages b) (of_nat i) = Some p\<close>
          by (auto simp: step is_first_def)
      next
        case None
        have full: "dyn_bits b k" if "32768 * i + x \<le> k" "k < 32768 * i + 32768" for k
          using first(2) [OF None that] by simp
        have m: "?m < 2 ^ 49" using less.prems(5,6) by simp
        have next_eq: "index_of_false_loop b fp i (of_nat x) = index_of_false_loop b fp (Suc i) 0"
          using found None \<open>im_get (db_pages b) (of_nat i) = Some p\<close> by (simp add: step)
        show ?thesis
        proof (cases "Suc i \<le> ?m")
          case True
          have "Suc ?m - Suc i < Suc ?m - i" "fp \<le> Suc i" "Suc i < 2 ^ 49"
            using True less.prems(2) m by linarith+
          then obtain r where r: "index_of_false_loop b fp (Suc i) 0 = Ok r"
            "case r of
               Some w \<Rightarrow> is_first (\<lambda>k. \<not> dyn_bits b k) (32768 * Suc i + 0) (Some (unat w))
             | None \<Rightarrow> (\<forall>k. 32768 * Suc i + 0 \<le> k \<and> k < 32768 * Suc ?m \<longrightarrow> dyn_bits b k)"
            using less.hyps [of "Suc i" 0] wf less.prems(5,6) by (auto simp del: max_less_iff_conj)
          have ext: "dyn_bits b k" if "32768 * i + x \<le> k" "32768 * Suc i \<le> k \<Longrightarrow> dyn_bits b k" for k
            using that full [of k] by (cases "32768 * Suc i \<le> k") auto
          show ?thesis
          proof (cases r)
            case None
            then show ?thesis using r ext next_eq by auto
          next
            case (Some w)
            then have "is_first (\<lambda>k. \<not> dyn_bits b k) (32768 * i + x) (Some (unat w))"
              using r(2) ext less.prems(4) by (auto simp: is_first_def)
            then show ?thesis using r(1) Some next_eq by simp
          qed
        next
          case False
          then have "index_of_false_loop b fp (Suc i) 0 = Ok None"
            using less.prems(2) by (subst index_of_false_loop.simps) auto
          moreover have "?m = i" using False go by simp
          ultimately show ?thesis using full next_eq by auto
        qed
      qed
    qed
  qed
qed

lemma dyn_index_of_false:
  assumes wf: "dyn_wf b" and big: "unat (db_biggest_page_index b) < 2 ^ 49"
  shows "\<exists>r. dyn_index_of b False position = Ok r \<and>
    (case r of
       Some w \<Rightarrow> is_first (\<lambda>k. \<not> dyn_bits b k) (unat position) (Some (unat w))
     | None \<Rightarrow> (\<forall>k. unat position \<le> k \<and>
         k < 32768 * Suc (max (unat position div 32768) (unat (db_biggest_page_index b)))
           \<longrightarrow> dyn_bits b k))"
proof -
  obtain x where x: "unat ((position - (position AND (PAGE - 1))) div PAGE) = unat position div 32768"
    "unat position div 32768 < 2 ^ 49"
    "unat (position AND (PAGE - 1)) = x" "x < 32768"
    "unat position = 32768 * (unat position div 32768) + x"
    using position_page [of position] by metis
  have "dyn_index_of b False position =
      index_of_false_loop b (unat position div 32768) (unat position div 32768) (of_nat x)"
    unfolding dyn_index_of_def Let_def x(1,3) by simp
  then show ?thesis
    using index_of_false_loop_spec [OF wf order.refl x(2,4,2) big] unfolding x(5) [symmetric] by simp
qed

text \<open>The backward search looks at the page of the position and, if that is page 1, at page 0;
  it gives up in front of every other page.\<close>

lemma dyn_last_index_of_false_gives_up:
  assumes wf: "dyn_wf b" and pos: "65536 \<le> unat position"
    and p: "im_get (db_pages b) (of_nat (unat position div 32768)) = Some p"
    and full: "\<And>x. x \<le> unat position mod 32768 \<Longrightarrow> fixed_bits p x"
  shows "dyn_last_index_of b False position = Ok None"
proof -
  let ?lp = "of_nat (unat position div 32768) :: u64" and ?x = "unat position mod 32768"
  have ulp: "unat ?lp = unat position div 32768"
    using page_number [of position] by (simp add: page_number_eq)
  have "List.find (\<lambda>k. fixed_bits p k = False) (rev [0 ..< Suc ?x]) = None"
    unfolding find_None_iff set_rev set_upt using full by simp
  then have none: "fixed_last_index_of p False (of_nat ?x) = Ok None"
    using fixed_last_index_of_page [OF dyn_wfD(1) [OF wf p], of ?x False] by simp
  have "2 \<le> unat ?lp" unfolding ulp using pos div_le_mono [OF pos, of 32768] by simp
  then have "unat (?lp - 1) = unat ?lp - 1" by (simp add: unat_sub_small)
  with \<open>2 \<le> unat ?lp\<close> have ne: "?lp - 1 \<noteq> ?lp" "?lp - 1 \<noteq> 0"
    by (auto simp: word_eq_iff_unat simp del: unat_of_nat)
  have "last_index_of_false_loop b ?lp ?lp (of_nat ?x) =
      last_index_of_false_loop b ?lp (?lp - 1) (of_nat FIXED_BITFIELD_BITS_LENGTH - 1)"
    by (subst last_index_of_false_loop.simps) (simp add: p none)
  also have "\<dots> = Ok None"
    using ne by (subst last_index_of_false_loop.simps) simp
  finally show ?thesis
    unfolding dyn_last_index_of_def Let_def page_number_eq page_offset by simp
qed

section \<open>Flushing\<close>

lemma flush_loop_spec:
  assumes "distinct ids" "im_wf pages" "\<And>i. i \<in> set ids \<Longrightarrow> \<exists>p. im_get pages i = Some p"
  shows "\<exists>pages'. flush_loop ids pages infos = Ok (pages',
      infos @ map (\<lambda>i. let data = fixed_to_bytes (the (im_get pages i))
        in si_new_content Bitfield (i * of_nat (length data)) data) ids) \<and> im_wf pages' \<and>
    (\<forall>i. im_get pages' i = (if i \<in> set ids then map_option (\<lambda>p. p\<lparr>fb_dirty := False\<rparr>) (im_get pages i)
      else im_get pages i))"
  using assms
proof (induction ids arbitrary: pages infos)
  case (Cons i ids)
  obtain p where p: "im_get pages i = Some p" using Cons.prems(3) by force
  let ?pages = "im_insert i (p\<lparr>fb_dirty := False\<rparr>) pages"
  let ?infos = "infos @ [si_new_content Bitfield (i * of_nat (length (fixed_to_bytes p))) (fixed_to_bytes p)]"
  have step: "flush_loop (i # ids) pages infos = flush_loop ids ?pages ?infos"
    using p by (simp add: Let_def)
  have old: "map (\<lambda>i. let data = fixed_to_bytes (the (im_get ?pages i))
      in si_new_content Bitfield (i * of_nat (length data)) data) ids =
    map (\<lambda>i. let data = fixed_to_bytes (the (im_get pages i))
      in si_new_content Bitfield (i * of_nat (length data)) data) ids"
    using Cons.prems(1) by auto
  have "\<exists>p. im_get ?pages k = Some p" if "k \<in> set ids" for k
    using Cons.prems(3) that by simp
  then obtain pages' where IH: "flush_loop ids ?pages ?infos = Ok (pages',
      ?infos @ map (\<lambda>i. let data = fixed_to_bytes (the (im_get ?pages i))
        in si_new_content Bitfield (i * of_nat (length data)) data) ids)" "im_wf pages'"
    "\<forall>k. im_get pages' k = (if k \<in> set ids
      then map_option (\<lambda>p. p\<lparr>fb_dirty := False\<rparr>) (im_get ?pages k) else im_get ?pages k)"
    using Cons.IH [of ?pages ?infos] Cons.prems by auto
  show ?case
    using IH p unfolding step old by (auto simp: Let_def)
qed simp

text \<open>Flushing writes one instruction per dirty page, at its place in the store, keeps every
  bit, and leaves no page dirty.\<close>

lemma dyn_flush_spec:
  assumes wf: "dyn_wf b"
  shows "\<exists>b'. dyn_flush b = Ok (b',
      map (\<lambda>i. si_new_content Bitfield (i * 4096) (fixed_to_bytes (the (im_get (db_pages b) i))))
        (db_unflushed b)) \<and>
    dyn_wf b' \<and> dyn_bits b' = dyn_bits b \<and> db_unflushed b' = [] \<and>
    (\<forall>i p. im_get (db_pages b') i = Some p \<longrightarrow> \<not> fb_dirty p)"
proof -
  have ids: "\<exists>p. im_get (db_pages b) i = Some p \<and> fb_dirty p" if "i \<in> set (db_unflushed b)" for i
    using wf that by (simp add: dyn_wf_def)
  have "distinct (db_unflushed b)" "im_wf (db_pages b)" using wf by (simp_all add: dyn_wf_def)
  then obtain pages where fl: "flush_loop (db_unflushed b) (db_pages b) [] = Ok (pages,
      map (\<lambda>i. let data = fixed_to_bytes (the (im_get (db_pages b) i))
        in si_new_content Bitfield (i * of_nat (length data)) data) (db_unflushed b))"
    and pages: "im_wf pages" "\<And>i. im_get pages i = (if i \<in> set (db_unflushed b)
      then map_option (\<lambda>p. p\<lparr>fb_dirty := False\<rparr>) (im_get (db_pages b) i) else im_get (db_pages b) i)"
    using flush_loop_spec [of "db_unflushed b" "db_pages b" "[]"] ids by auto
  let ?b = "b\<lparr>db_pages := pages, db_unflushed := []\<rparr>"
  have "length (fixed_to_bytes (the (im_get (db_pages b) i))) = 4096" if i: "i \<in> set (db_unflushed b)" for i
  proof -
    from ids [OF i] obtain p where "im_get (db_pages b) i = Some p" by blast
    then show ?thesis
      using fixed_to_bytes_length [OF dyn_wfD(1) [OF wf]] by (simp add: fixed_consts)
  qed
  then have infos: "map (\<lambda>i. let data = fixed_to_bytes (the (im_get (db_pages b) i))
        in si_new_content Bitfield (i * of_nat (length data)) data) (db_unflushed b) =
    map (\<lambda>i. si_new_content Bitfield (i * 4096) (fixed_to_bytes (the (im_get (db_pages b) i))))
        (db_unflushed b)"
    by (simp add: Let_def)
  have "dyn_bits ?b = dyn_bits b"
    by (auto simp: dyn_bits_def fun_eq_iff pages(2) split: option.splits)
  moreover have clean: "\<forall>i p. im_get pages i = Some p \<longrightarrow> \<not> fb_dirty p"
    using wf by (auto simp: pages(2) dyn_wf_def)
  moreover have "fixed_wf p \<and> unat i < 2 ^ 49 \<and> i \<le> db_biggest_page_index b"
    if i: "im_get pages i = Some p" for i p
  proof -
    from i obtain p' where p': "im_get (db_pages b) i = Some p'" "fixed_wf p = fixed_wf p'"
      by (auto simp: pages(2) split: if_splits)
    show ?thesis using dyn_wfD [OF wf p'(1)] p'(2) by simp
  qed
  then have "dyn_wf ?b"
    using pages(1) clean by (simp add: dyn_wf_def)
  ultimately show ?thesis
    using fl infos by (auto simp: dyn_flush_def)
qed

section \<open>Reopening\<close>

text \<open>\<open>open\<close> moves on by 1024 bytes where a page has 4096, and \<open>from_data\<close> stores each element
  at its absolute position.  For one stored page the second, third and fourth quarter appear
  again in pages 1, 2 and 3.\<close>

lemma from_data_one_page:
  assumes "fixed_wf p" "i < 4"
  shows "fixed_from_data (1024 * i) (fixed_to_bytes p) =
    Ok \<lparr>fb_dirty = False,
        fb_bitfield = map (\<lambda>k. if 256 * i \<le> k then fb_bitfield p ! k else 0) [0 ..< 1024]\<rparr>"
proof -
  have len: "length (fb_bitfield p) = 1024" "length (fixed_to_bytes p) = 4096"
    using assms(1) fixed_to_bytes_length [OF assms(1)] by (simp_all add: fixed_wf_def fixed_consts)
  have "map (\<lambda>k. if 256 * i \<le> k \<and> k < 1024 then word_at (fixed_to_bytes p) k else replicate 1024 0 ! k)
      [0 ..< 1024] = map (\<lambda>k. if 256 * i \<le> k then fb_bitfield p ! k else 0) [0 ..< 1024]"
    using word_at_to_bytes [of _ p "[]"] len by auto
  then show ?thesis
    using len from_data_loop_words [of "256 * i" 1024 "fixed_to_bytes p" "replicate 1024 0"] assms(2)
    by (simp add: fixed_from_data_def fixed_consts)
qed

lemma dyn_open_one_page:
  assumes wf: "fixed_wf p"
  shows "\<exists>b. dyn_open (Some (si_new_content Bitfield 0 (fixed_to_bytes p))) = Ok (Inr b) \<and>
    dyn_wf b \<and> db_biggest_page_index b = 3 \<and> db_unflushed b = [] \<and>
    (\<forall>k. dyn_bits b k \<longleftrightarrow>
      k < 131072 \<and> 8192 * (k div 32768) \<le> k mod 32768 \<and> fixed_bits p (k mod 32768))"
proof -
  let ?d = "fixed_to_bytes p"
  have len: "length ?d = 4096" using fixed_to_bytes_length [OF wf] by (simp add: fixed_consts)
  define q where "q i = \<lparr>fb_dirty = False,
    fb_bitfield = map (\<lambda>k. if 256 * i \<le> k then fb_bitfield p ! k else 0) [0 ..< 1024]\<rparr>" for i
  let ?pages = "im_insert 3 (q 3) (im_insert 2 (q 2) (im_insert 1 (q 1) (im_insert 0 (q 0) [])))"
  have step: "open_loop ?d (1024 * i) pages big =
      open_loop ?d (1024 * Suc i) (im_insert (of_nat i) (q i) pages)
        (if of_nat i > big then of_nat i else big)" if "i < 4" for i pages big
    using from_data_one_page [OF wf that] that len
    by (subst open_loop.simps) (simp add: q_def FIXED_BITFIELD_LENGTH_def Let_def add.commute)
  have "open_loop ?d 0 [] 0 = open_loop ?d (1024 * 4) ?pages 3"
    using step [of 0 "[]" 0] step [of 1] step [of 2] step [of 3] by simp
  also have "\<dots> = Ok (?pages, 3)"
    using len by (subst open_loop.simps) simp
  finally have "dyn_open (Some (si_new_content Bitfield 0 ?d)) =
    Ok (Inr \<lparr>db_pages = ?pages, db_biggest_page_index = 3, db_unflushed = []\<rparr>)"
    using len by (simp add: dyn_open_def si_new_content_def)
  moreover have "fixed_bits (q i) r \<longleftrightarrow> 8192 * i \<le> r \<and> fixed_bits p r" if "r < 32768" for i r
  proof -
    have "256 * i \<le> r div 32 \<longleftrightarrow> 8192 * i \<le> r" by (auto simp: less_eq_div_iff_mult_less_eq)
    then show ?thesis
      using that div32_less [OF that] wf
      by (simp add: fixed_bits_def word_bits_def q_def fixed_wf_def fixed_consts)
  qed
  moreover have "im_get ?pages (of_nat (k div 32768)) =
      (if k < 131072 then Some (q (k div 32768)) else None)" if "k < 2 ^ 64" for k
  proof -
    have page: "im_get ?pages w = (if unat w \<le> 3 then Some (q (unat w)) else None)" for w :: u64
    proof -
      have "unat w = 0 \<or> unat w = 1 \<or> unat w = 2 \<or> unat w = 3 \<or> 3 < unat w" by linarith
      then show ?thesis by (auto simp: word_eq_iff_unat)
    qed
    have "unat (of_nat (k div 32768) :: u64) = k div 32768"
      using that by (intro unat_of_nat64) (simp add: less_mult_imp_div_less)
    moreover have "k div 32768 \<le> 3 \<longleftrightarrow> k < 131072" by linarith
    ultimately show ?thesis unfolding page by simp
  qed
  moreover have "dyn_wf \<lparr>db_pages = ?pages, db_biggest_page_index = 3, db_unflushed = []\<rparr>"
    unfolding dyn_wf_def by (auto simp: q_def fixed_wf_def fixed_consts split: if_splits)
  ultimately show ?thesis
    by (auto simp: dyn_bits_def simp del: im_get_insert split: if_splits)
qed

text \<open>Two stored pages cannot be opened at all.\<close>

lemma dyn_open_two_pages:
  assumes "4096 < length data" "4 dvd length data"
  shows "dyn_open (Some (si_new_content Bitfield start data)) = Panic"
proof -
  obtain n where n: "length data = 4 * n" using assms(2) by blast
  have first: "\<exists>p. fixed_from_data 0 data = Ok p"
    using from_data_loop_words [of 0 1024 data "replicate 1024 0"] n assms(1)
    by (simp add: fixed_from_data_def fixed_consts)
  have "fixed_from_data 1024 data = Panic"
    using from_data_loop_words [of 256 1280 data "replicate 1024 0"]
      from_data_loop_words [of 256 n data "replicate 1024 0"] n assms(1)
    by (cases "1280 \<le> n") (simp_all add: fixed_from_data_def fixed_consts min_def)
  with first have "open_loop data 0 [] 0 = Panic"
    using assms(1) open_loop.simps [of data 0] open_loop.simps [of data 1024]
    by (auto simp: FIXED_BITFIELD_LENGTH_def)
  with assms(1) show ?thesis by (simp add: dyn_open_def si_new_content_def)
qed

section \<open>The bitfield, as its callers see it\<close>

definition empty_bitfield :: dynamic_bitfield where
  "empty_bitfield = \<lparr>db_pages = [], db_biggest_page_index = 0, db_unflushed = []\<rparr>"

lemma empty_bitfield_wf: "dyn_wf empty_bitfield" "\<not> dyn_bits empty_bitfield k"
  by (simp_all add: empty_bitfield_def dyn_wf_def dyn_bits_def im_wf_def im_get_def im_keys_def)

text \<open>C27: writing a range that does not run past the last index succeeds, keeps the bitfield well
  formed, gives the written value inside the range and leaves every other bit as it was.\<close>

theorem set_range_then_get:
  assumes "dyn_wf b" "unat start + unat len < 2 ^ 64"
  shows "\<exists>b'. dyn_set_range b start len v = Ok b' \<and> dyn_wf b' \<and>
    (\<forall>index. dyn_get b' index =
       (if start \<le> index \<and> unat index < unat start + unat len then Ok v else dyn_get b index))"
proof -
  obtain b' where b': "dyn_set_range b start len v = Ok b'" "dyn_wf b'"
    "dyn_bits b' = (\<lambda>k. if unat start \<le> k \<and> k < unat start + unat len then v else dyn_bits b k)"
    using dyn_set_range_spec [OF assms] by blast
  show ?thesis
    using b' assms(1) by (intro exI [of _ b']) (simp add: dyn_get_bits word_le_nat_alt)
qed

theorem set_range_then_get_witness:
  "\<exists>b'. dyn_set_range empty_bitfield 32766 4 True = Ok b' \<and> dyn_get b' 32768 = Ok True \<and> dyn_get b' 32770 = Ok False"
  using set_range_then_get [of empty_bitfield 32766 4 True] empty_bitfield_wf(1)
  by (auto simp: dyn_get_bits [OF empty_bitfield_wf(1)] empty_bitfield_wf(2))

end
