(* ===== verification/Oplog_Entry.thy ===== *)
theory Oplog_Entry
  imports Encoding
begin

text \<open>
  \<^verbatim>\<open>src/src/oplog/entry.rs\<close>: the entries of the operation log and their encoding, a byte
  of flags followed by the parts that are present.
\<close>

section \<open>Parts of an entry\<close>

record entry_tree_upgrade =
  etu_fork :: u64
  etu_ancestors :: u64
  etu_length :: u64
  etu_signature :: bytes

definition pre_tree_upgrade :: "'it libs \<Rightarrow> entry_tree_upgrade preencoder" where
  "pre_tree_upgrade L v st =
     bindR (ce_pre_uint (lib_ce L) (etu_fork v) st) (\<lambda>st.
     bindR (ce_pre_uint (lib_ce L) (etu_ancestors v) st) (\<lambda>st.
     bindR (ce_pre_uint (lib_ce L) (etu_length v) st) (\<lambda>st.
     ce_pre_bytes (lib_ce L) (etu_signature v) st)))"

definition enc_tree_upgrade :: "'it libs \<Rightarrow> entry_tree_upgrade encoder" where
  "enc_tree_upgrade L v st buf =
     bindR (ce_enc_uint (lib_ce L) (etu_fork v) st buf) (\<lambda>(st, buf).
     bindR (ce_enc_uint (lib_ce L) (etu_ancestors v) st buf) (\<lambda>(st, buf).
     bindR (ce_enc_uint (lib_ce L) (etu_length v) st buf) (\<lambda>(st, buf).
     ce_enc_bytes (lib_ce L) (etu_signature v) st buf)))"

definition dec_tree_upgrade :: "'it libs \<Rightarrow> entry_tree_upgrade decoder" where
  "dec_tree_upgrade L buf st =
     bindR (ce_dec_uint (lib_ce L) buf st) (\<lambda>(fork, st).
     bindR (ce_dec_uint (lib_ce L) buf st) (\<lambda>(ancestors, st).
     bindR (ce_dec_uint (lib_ce L) buf st) (\<lambda>(len, st).
     bindR (ce_dec_bytes (lib_ce L) buf st) (\<lambda>(signature, st).
     Ok (\<lparr>etu_fork = fork, etu_ancestors = ancestors, etu_length = len,
          etu_signature = signature\<rparr>, st)))))"

definition pre_bitfield_update :: "'it libs \<Rightarrow> bitfield_update preencoder" where
  "pre_bitfield_update L v st =
     bindR (ce_add_end (lib_ce L) 1 st) (\<lambda>st.
     bindR (ce_pre_uint (lib_ce L) (bu_start v) st) (\<lambda>st.
     ce_pre_uint (lib_ce L) (bu_length v) st))"

definition enc_bitfield_update :: "'it libs \<Rightarrow> bitfield_update encoder" where
  "enc_bitfield_update L v st buf =
     (let flags = (if bu_drop v then 1 else 0)
      in bindR (ce_set_byte (lib_ce L) flags st buf) (\<lambda>(st, buf).
         bindR (ce_enc_uint (lib_ce L) (bu_start v) st buf) (\<lambda>(st, buf).
         ce_enc_uint (lib_ce L) (bu_length v) st buf)))"

definition dec_bitfield_update :: "'it libs \<Rightarrow> bitfield_update decoder" where
  "dec_bitfield_update L buf st =
     bindR (ce_dec_u8 (lib_ce L) buf st) (\<lambda>(flags, st).
     bindR (ce_dec_uint (lib_ce L) buf st) (\<lambda>(start, st).
     bindR (ce_dec_uint (lib_ce L) buf st) (\<lambda>(len, st).
     Ok (\<lparr>bu_drop = (flags = 1), bu_start = start, bu_length = len\<rparr>, st))))"

section \<open>Entries\<close>

record entry =
  e_user_data :: "string list"
  e_tree_nodes :: "node list"
  e_tree_upgrade :: "entry_tree_upgrade option"
  e_bitfield :: "bitfield_update option"

text \<open>\<open>if let Some(x) = v\<close> around a step of the encoder.\<close>

definition pre_opt :: "'v preencoder \<Rightarrow> 'v option preencoder" where
  "pre_opt pre v st = (case v of None \<Rightarrow> Ok st | Some x \<Rightarrow> pre x st)"

definition pre_entry :: "'it libs \<Rightarrow> entry preencoder" where
  "pre_entry L v st =
     bindR (ce_add_end (lib_ce L) 1 st) (\<lambda>st.
     bindR (if e_user_data v \<noteq> [] then ce_pre_strings (lib_ce L) (e_user_data v) st else Ok st) (\<lambda>st.
     bindR (if e_tree_nodes v \<noteq> [] then pre_nodes L (e_tree_nodes v) st else Ok st) (\<lambda>st.
     bindR (pre_opt (pre_tree_upgrade L) (e_tree_upgrade v) st) (\<lambda>st.
     pre_opt (pre_bitfield_update L) (e_bitfield v) st))))"

definition enc_entry :: "'it libs \<Rightarrow> entry encoder" where
  "enc_entry L v st buf =
     (let start = cs_start st
      in bindR (ce_add_start (lib_ce L) 1 st) (\<lambda>st.
         let flags = 0
         in bindR (if e_user_data v \<noteq> [] then
                     bindR (ce_enc_strings (lib_ce L) (e_user_data v) st buf) (\<lambda>(st, buf).
                     Ok (flags OR 1, st, buf))
                   else Ok (flags, st, buf)) (\<lambda>(flags, st, buf).
            bindR (if e_tree_nodes v \<noteq> [] then
                     bindR (enc_nodes L (e_tree_nodes v) st buf) (\<lambda>(st, buf).
                     Ok (flags OR 2, st, buf))
                   else Ok (flags, st, buf)) (\<lambda>(flags, st, buf).
            bindR (case e_tree_upgrade v of
                     Some tree_upgrade \<Rightarrow>
                       bindR (enc_tree_upgrade L tree_upgrade st buf) (\<lambda>(st, buf).
                       Ok (flags OR 4, st, buf))
                   | None \<Rightarrow> Ok (flags, st, buf)) (\<lambda>(flags, st, buf).
            bindR (case e_bitfield v of
                     Some bitfield \<Rightarrow>
                       bindR (enc_bitfield_update L bitfield st buf) (\<lambda>(st, buf).
                       Ok (flags OR 8, st, buf))
                   | None \<Rightarrow> Ok (flags, st, buf)) (\<lambda>(flags, st, buf).
            bindR (assign_at buf start flags) (\<lambda>buf.
            Ok (st, buf))))))))"

definition dec_entry :: "'it libs \<Rightarrow> entry decoder" where
  "dec_entry L buf st =
     bindR (ce_dec_u8 (lib_ce L) buf st) (\<lambda>(flags, st).
     bindR (if flags AND 1 \<noteq> 0 then ce_dec_strings (lib_ce L) buf st else Ok ([], st)) (\<lambda>(user_data, st).
     bindR (if flags AND 2 \<noteq> 0 then dec_nodes L buf st else Ok ([], st)) (\<lambda>(tree_nodes, st).
     bindR (if flags AND 4 \<noteq> 0
            then bindR (dec_tree_upgrade L buf st) (\<lambda>(v, st). Ok (Some v, st))
            else Ok (None, st)) (\<lambda>(tree_upgrade, st).
     bindR (if flags AND 8 \<noteq> 0
            then bindR (dec_bitfield_update L buf st) (\<lambda>(v, st). Ok (Some v, st))
            else Ok (None, st)) (\<lambda>(bitfield, st).
     Ok (\<lparr>e_user_data = user_data, e_tree_nodes = tree_nodes, e_tree_upgrade = tree_upgrade,
          e_bitfield = bitfield\<rparr>, st))))))"

section \<open>Wire forms\<close>

definition wire_tree_upgrade :: "wire_format \<Rightarrow> entry_tree_upgrade \<Rightarrow> bytes" where
  "wire_tree_upgrade w v =
     w_uint w (etu_fork v) @ w_uint w (etu_ancestors v) @ w_uint w (etu_length v) @
     w_bytes w (etu_signature v)"

definition wire_bitfield_update :: "wire_format \<Rightarrow> bitfield_update \<Rightarrow> bytes" where
  "wire_bitfield_update w v =
     (if bu_drop v then 1 else 0) # w_uint w (bu_start v) @ w_uint w (bu_length v)"

definition entry_flags :: "entry \<Rightarrow> u8" where
  "entry_flags v =
     (if e_user_data v \<noteq> [] then 1 else 0) + (if e_tree_nodes v \<noteq> [] then 2 else 0) +
     (if e_tree_upgrade v \<noteq> None then 4 else 0) + (if e_bitfield v \<noteq> None then 8 else 0)"

definition wire_entry :: "wire_format \<Rightarrow> entry \<Rightarrow> bytes" where
  "wire_entry w v = entry_flags v #
     (if e_user_data v = [] then [] else w_strings w (e_user_data v)) @
     (if e_tree_nodes v = [] then [] else wire_nodes w (e_tree_nodes v)) @
     (case e_tree_upgrade v of None \<Rightarrow> [] | Some u \<Rightarrow> wire_tree_upgrade w u) @
     (case e_bitfield v of None \<Rightarrow> [] | Some u \<Rightarrow> wire_bitfield_update w u)"

definition entry_ok :: "'it libs \<Rightarrow> entry \<Rightarrow> bool" where
  "entry_ok L v \<longleftrightarrow> length (e_user_data v) < MAX_USIZE \<and>
     list_all (\<lambda>s. length s < MAX_USIZE) (e_user_data v) \<and> nodes_ok L (e_tree_nodes v) \<and>
     (case e_tree_upgrade v of None \<Rightarrow> True | Some u \<Rightarrow> length (etu_signature u) < MAX_USIZE)"

sublocale libs_laws < tree_upgradec: codec "pre_tree_upgrade L" "enc_tree_upgrade L"
    "dec_tree_upgrade L" "wire_tree_upgrade w" "\<lambda>v. length (etu_signature v) < MAX_USIZE"
  by unfold_locales (auto simp: pre_tree_upgrade_def enc_tree_upgrade_def dec_tree_upgrade_def
      wire_tree_upgrade_def crate_laws codec_simps)

sublocale libs_laws < bitfield_updatec: codec "pre_bitfield_update L" "enc_bitfield_update L"
    "dec_bitfield_update L" "wire_bitfield_update w" "\<lambda>_. True"
  by unfold_locales (auto simp: pre_bitfield_update_def enc_bitfield_update_def
      dec_bitfield_update_def wire_bitfield_update_def crate_laws dec_byte codec_simps Let_def)

context libs_laws
begin

lemmas entry_part_laws = crate_laws dec_byte nodesc.pre_law nodesc.enc_law nodesc.dec_law
  tree_upgradec.pre_law tree_upgradec.enc_law tree_upgradec.dec_law
  bitfield_updatec.pre_law bitfield_updatec.enc_law bitfield_updatec.dec_law

lemma pre_entry_eq:
  assumes "entry_ok L v" "cs_end st + length (wire_entry w v) < MAX_USIZE"
  shows "pre_entry L v st = Ok (extend_end (length (wire_entry w v)) st)"
  using assms
  by (cases "e_tree_upgrade v"; cases "e_bitfield v")
    (auto simp: pre_entry_def pre_opt_def wire_entry_def entry_ok_def entry_part_laws)

lemma enc_entry_eq:
  assumes "entry_ok L v" "room st (length (wire_entry w v)) buf"
  shows "enc_entry L v st buf =
    Ok (advance (length (wire_entry w v)) st, put buf (cs_start st) (wire_entry w v))"
  using assms
  by (cases "e_tree_upgrade v"; cases "e_bitfield v"; cases "e_user_data v = []"; cases "e_tree_nodes v = []")
    (simp_all add: enc_entry_def wire_entry_def entry_flags_def entry_ok_def entry_part_laws
      cenc.add_start assign_at_def update_before_put put_Nil Let_def codec_simps,
      simp add: update_as_put)

lemma dec_entry_eq:
  assumes "holds_at buf (cs_start st) (wire_entry w v)" "entry_ok L v"
    and "room st (length (wire_entry w v)) buf"
  shows "dec_entry L buf st = Ok (v, advance (length (wire_entry w v)) st)"
  using assms
  by (cases "e_tree_upgrade v"; cases "e_bitfield v"; cases "e_user_data v = []"; cases "e_tree_nodes v = []")
    (auto simp: dec_entry_def wire_entry_def entry_flags_def entry_ok_def entry_part_laws codec_simps)

end

sublocale libs_laws < entryc: codec "pre_entry L" "enc_entry L" "dec_entry L" "wire_entry w" "entry_ok L"
  using enc_entry_eq dec_entry_eq pre_entry_eq by unfold_locales

end
