(* ===== verification/Oplog.thy ===== *)
theory Oplog
  imports Oplog_Entry Oplog_Header Changeset
begin

text \<open>
  \<^verbatim>\<open>src/src/oplog/mod.rs\<close>: the operation log.  Its store holds two header slots and, after
  them, entries; each piece is preceded by a leader of eight bytes, a CRC-32 and a word with
  the length, the header bit and the partial bit.

  The theorems: the two slots are written in turn, never the newest one; a leader that was
  prepended is validated again; entries that were appended and the header that was flushed are
  found again by \<open>open\<close>; and what the loop over partial entries and the counters do after
  \<open>open\<close>.
\<close>

section \<open>State\<close>

definition MAX_OPLOG_ENTRIES_BYTE_SIZE :: u64 where "MAX_OPLOG_ENTRIES_BYTE_SIZE = 65536"
definition HEADER_SIZE :: nat where "HEADER_SIZE = 4096"

record oplog =
  op_header_bits :: "bool \<times> bool"
  op_entries_length :: u64
  op_entries_byte_length :: u64

record oplog_create_header_outcome =
  och_header :: header
  och_infos_to_flush :: "store_info list"

record oplog_open_outcome =
  ooo_oplog :: oplog
  ooo_header :: header
  ooo_infos_to_flush :: "store_info list"
  ooo_entries :: "entry list option"

definition oplog_open_outcome_new :: "oplog \<Rightarrow> header \<Rightarrow> store_info list \<Rightarrow> oplog_open_outcome" where
  "oplog_open_outcome_new o' h infos =
     \<lparr>ooo_oplog = o', ooo_header = h, ooo_infos_to_flush = infos, ooo_entries = None\<rparr>"

definition from_create_header_outcome :: "oplog \<Rightarrow> oplog_create_header_outcome \<Rightarrow> oplog_open_outcome" where
  "from_create_header_outcome o' c =
     \<lparr>ooo_oplog = o', ooo_header = och_header c, ooo_infos_to_flush = och_infos_to_flush c,
      ooo_entries = None\<rparr>"

datatype oplog_slot = FirstHeader | SecondHeader | Entries

fun slot_offset :: "oplog_slot \<Rightarrow> nat" where
  "slot_offset FirstHeader = 0"
| "slot_offset SecondHeader = HEADER_SIZE"
| "slot_offset Entries = HEADER_SIZE * 2"

record validate_leader_outcome =
  vl_state :: cstate
  vl_header_bit :: bool
  vl_partial_bit :: bool

definition INITIAL_HEADER_BITS :: "bool \<times> bool" where
  "INITIAL_HEADER_BITS = (True, False)"

text \<open>Subtraction on \<open>usize\<close>.\<close>

definition usize_sub :: "nat \<Rightarrow> nat \<Rightarrow> nat" where
  "usize_sub a b = (if b \<le> a then a - b else a + MAX_USIZE - b)"

section \<open>Leaders\<close>

text \<open>The word of a leader that holds the length and the two bits.\<close>

definition leader_word :: "u32 \<Rightarrow> bool \<Rightarrow> bool \<Rightarrow> u32" where
  "leader_word len hb pb = push_bit 2 len OR (if hb then 1 else 0) OR (if pb then 2 else 0)"

definition prepend_leader ::
  "'it libs \<Rightarrow> nat \<Rightarrow> bool \<Rightarrow> bool \<Rightarrow> cstate \<Rightarrow> bytes \<Rightarrow> (cstate \<times> bytes) hres" where
  "prepend_leader L len header_bit partial_bit st buffer =
     bindR (enc_err (ce_set_start (lib_ce L) (usize_sub (usize_sub (cs_start st) len) 4) st)) (\<lambda>st.
     if len \<ge> 2 ^ 32 then Panic
     else
       let combined = leader_word (of_nat len) header_bit partial_bit
       in bindR (enc_err (ce_enc_u32 (lib_ce L) combined st buffer)) (\<lambda>(st, buffer).
          bindR (enc_err (ce_set_start (lib_ce L) (usize_sub (cs_start st) 8) st)) (\<lambda>st.
          if cs_start st + 8 + len > length buffer then Panic
          else
            let checksum = cr_crc32 (lib_cr L) (slice buffer (cs_start st + 4) (4 + len))
            in enc_err (ce_enc_u32 (lib_ce L) checksum st buffer))))"

definition validate_leader :: "'it libs \<Rightarrow> nat \<Rightarrow> bytes \<Rightarrow> validate_leader_outcome option hres" where
  "validate_leader L index buffer =
     (if length buffer < index + 8 then Ok None
      else
        let st = \<lparr>cs_start = index, cs_end = length buffer\<rparr>
        in bindR (enc_err (ce_dec_u32 (lib_ce L) buffer st)) (\<lambda>(stored_checksum, st).
           bindR (enc_err (ce_dec_u32 (lib_ce L) buffer st)) (\<lambda>(combined, st).
           let len = unat (drop_bit 2 combined)
           in if len = 0 \<or> usize_sub (cs_end st) (cs_start st) < len then Ok None
              else
                let header_bit = (combined AND 1 = 1);
                    partial_bit = (combined AND 2 = 2);
                    new_start = index + 8;
                    st = st\<lparr>cs_end := new_start + len\<rparr>
                in bindR (enc_err (ce_set_start (lib_ce L) new_start st)) (\<lambda>st.
                   if cs_end st > length buffer then Panic
                   else
                     let calculated_checksum =
                       cr_crc32 (lib_cr L) (slice buffer (index + 4) (cs_end st - (index + 4)))
                     in if calculated_checksum \<noteq> stored_checksum then Err InvalidChecksum
                        else Ok (Some \<lparr>vl_state = st, vl_header_bit = header_bit,
                               vl_partial_bit = partial_bit\<rparr>)))))"

section \<open>Header slots\<close>

definition get_current_header_bit :: "oplog \<Rightarrow> bool" where
  "get_current_header_bit o' = (fst (op_header_bits o') \<noteq> snd (op_header_bits o'))"

definition get_next_header_oplog_slot_and_bit_value :: "bool \<times> bool \<Rightarrow> oplog_slot \<times> bool" where
  "get_next_header_oplog_slot_and_bit_value bits =
     (if fst bits \<noteq> snd bits then (FirstHeader, \<not> fst bits) else (SecondHeader, \<not> snd bits))"

definition insert_header ::
  "'it libs \<Rightarrow> header \<Rightarrow> u64 \<Rightarrow> bool \<times> bool \<Rightarrow> bool \<Rightarrow> ((bool \<times> bool) \<times> store_info list) hres" where
  "insert_header L h entries_byte_length current_header_bits clear_traces =
     (let data_start_index = 8;
          st = \<lparr>cs_start = data_start_index, cs_end = data_start_index\<rparr>;
          (slot, header_bit) = get_next_header_oplog_slot_and_bit_value current_header_bits
      in bindR (case slot of
                  FirstHeader \<Rightarrow> Ok (header_bit, snd current_header_bits)
                | SecondHeader \<Rightarrow> Ok (fst current_header_bits, header_bit)
                | Entries \<Rightarrow> Panic) (\<lambda>new_header_bits.
         bindR (enc_err (pre_header L h st)) (\<lambda>st.
         let end' = cs_end st;
             st = (if clear_traces then st\<lparr>cs_end := HEADER_SIZE\<rparr> else st);
             buffer = ce_create_buffer (lib_ce L) st
         in bindR (enc_err (enc_header L h st buffer)) (\<lambda>(st, buffer).
            bindR (prepend_leader L (end' - data_start_index) header_bit False st buffer) (\<lambda>(st, buffer).
            let truncate_index = of_nat (slot_offset Entries) + entries_byte_length
            in Ok (new_header_bits,
                 [si_new_content Oplog (of_nat (slot_offset slot)) buffer,
                  si_new_truncate Oplog truncate_index]))))))"

definition oplog_fresh :: "'it libs \<Rightarrow> partial_keypair \<Rightarrow> oplog_open_outcome hres" where
  "oplog_fresh L key_pair =
     (let h = header_new key_pair
      in bindR (insert_header L h 0 INITIAL_HEADER_BITS False) (\<lambda>(header_bits, infos_to_flush).
         Ok (from_create_header_outcome
           \<lparr>op_header_bits = header_bits, op_entries_length = 0, op_entries_byte_length = 0\<rparr>
           \<lparr>och_header = h, och_infos_to_flush = infos_to_flush\<rparr>)))"

section \<open>Appending\<close>

fun pre_entries :: "'it libs \<Rightarrow> entry list \<Rightarrow> cstate \<Rightarrow> cstate eres" where
  "pre_entries L [] st = Ok st"
| "pre_entries L (e # es) st = bindR (pre_entry L e st) (\<lambda>st. pre_entries L es st)"

fun append_entries_loop ::
  "'it libs \<Rightarrow> bool \<Rightarrow> bool \<Rightarrow> nat \<Rightarrow> nat \<Rightarrow> entry list \<Rightarrow> cstate \<Rightarrow> bytes \<Rightarrow> (cstate \<times> bytes) hres" where
  "append_entries_loop L header_bit atomic len i [] st buffer = Ok (st, buffer)"
| "append_entries_loop L header_bit atomic len i (e # es) st buffer =
     bindR (enc_err (ce_add_start (lib_ce L) 8 st)) (\<lambda>st.
     let start = cs_start st;
         partial_bit = (atomic \<and> i < len - 1)
     in bindR (enc_err (enc_entry L e st buffer)) (\<lambda>(st, buffer).
        bindR (prepend_leader L (cs_start st - start) header_bit partial_bit st buffer) (\<lambda>(st, buffer).
        append_entries_loop L header_bit atomic len (Suc i) es st buffer)))"

definition append_entries ::
  "'it libs \<Rightarrow> oplog \<Rightarrow> entry list \<Rightarrow> bool \<Rightarrow> (oplog \<times> store_info list) hres" where
  "append_entries L o' batch atomic =
     (let len = length batch;
          header_bit = get_current_header_bit o';
          st = \<lparr>cs_start = 0, cs_end = len * 8\<rparr>
      in bindR (enc_err (pre_entries L batch st)) (\<lambda>st.
         let buffer = ce_create_buffer (lib_ce L) st
         in bindR (append_entries_loop L header_bit atomic len 0 batch st buffer) (\<lambda>(st, buffer).
            let index = of_nat (slot_offset Entries) + op_entries_byte_length o'
            in Ok (o'\<lparr>op_entries_length := op_entries_length o' + of_nat len,
                      op_entries_byte_length := op_entries_byte_length o' + of_nat (length buffer)\<rparr>,
                   [si_new_content Oplog index buffer]))))"

definition update_header_with_changeset ::
  "changeset \<Rightarrow> bitfield_update option \<Rightarrow> header \<Rightarrow> (header \<times> entry) hres" where
  "update_header_with_changeset cg bu h =
     (if cg_upgraded cg then
        bindR (expect (cg_hash cg)) (\<lambda>hash.
        bindR (expect (cg_signature cg)) (\<lambda>signature.
        Ok (h\<lparr>h_tree := (h_tree h)\<lparr>ht_root_hash := hash, ht_signature := signature,
                 ht_length := cg_length cg\<rparr>\<rparr>,
            \<lparr>e_user_data = [], e_tree_nodes = cg_nodes cg,
             e_tree_upgrade = Some \<lparr>etu_fork = cg_fork cg, etu_ancestors = cg_ancestors cg,
               etu_length = cg_length cg, etu_signature = signature\<rparr>,
             e_bitfield = bu\<rparr>)))
      else
        Ok (h, \<lparr>e_user_data = [], e_tree_nodes = cg_nodes cg, e_tree_upgrade = None, e_bitfield = bu\<rparr>))"

definition append_changeset ::
  "'it libs \<Rightarrow> oplog \<Rightarrow> changeset \<Rightarrow> bitfield_update option \<Rightarrow> bool \<Rightarrow> header \<Rightarrow>
    (oplog \<times> oplog_create_header_outcome) hres" where
  "append_changeset L o' cg bu atomic h =
     bindR (update_header_with_changeset cg bu h) (\<lambda>(h, e).
     bindR (append_entries L o' [e] atomic) (\<lambda>(o', infos).
     Ok (o', \<lparr>och_header = h, och_infos_to_flush = infos\<rparr>)))"

definition oplog_clear :: "'it libs \<Rightarrow> oplog \<Rightarrow> u64 \<Rightarrow> u64 \<Rightarrow> (oplog \<times> store_info list) hres" where
  "oplog_clear L o' start end' =
     append_entries L o'
       [\<lparr>e_user_data = [], e_tree_nodes = [], e_tree_upgrade = None,
         e_bitfield = Some \<lparr>bu_drop = True, bu_start = start, bu_length = end' - start\<rparr>\<rparr>] False"

definition oplog_flush :: "'it libs \<Rightarrow> oplog \<Rightarrow> header \<Rightarrow> bool \<Rightarrow> (oplog \<times> store_info list) hres" where
  "oplog_flush L o' h clear_traces =
     bindR (if clear_traces then
              bindR (insert_header L h 0 (op_header_bits o') clear_traces) (\<lambda>(new_header_bits, infos).
              let combined_infos = take 1 infos
              in bindR (insert_header L h 0 new_header_bits clear_traces) (\<lambda>(new_header_bits, infos).
                 Ok (new_header_bits, combined_infos @ infos)))
            else insert_header L h 0 (op_header_bits o') clear_traces) (\<lambda>(new_header_bits, infos_to_flush).
     Ok (o'\<lparr>op_entries_byte_length := 0, op_entries_length := 0, op_header_bits := new_header_bits\<rparr>,
         infos_to_flush))"

section \<open>Opening\<close>

text \<open>The loop that reads entries, and the loop that means to drop trailing partial ones.\<close>

fun read_entries ::
  "'it libs \<Rightarrow> nat \<Rightarrow> bytes \<Rightarrow> nat \<Rightarrow> entry list \<Rightarrow> bool list \<Rightarrow> (entry list \<times> bool list) hres" where
  "read_entries L 0 existing entry_offset entries partials = Diverge"
| "read_entries L (Suc fuel) existing entry_offset entries partials =
     bindR (validate_leader L entry_offset existing) (\<lambda>r.
     case r of
       None \<Rightarrow> Ok (entries, partials)
     | Some entry_outcome \<Rightarrow>
         bindR (enc_err (dec_entry L existing (vl_state entry_outcome))) (\<lambda>(e, st).
         read_entries L fuel existing (cs_end st) (entries @ [e])
           (partials @ [vl_partial_bit entry_outcome])))"

fun drop_partials :: "nat \<Rightarrow> bool list \<Rightarrow> entry list \<Rightarrow> entry list hres" where
  "drop_partials 0 partials entries = Diverge"
| "drop_partials (Suc fuel) partials entries =
     (if partials \<noteq> [] \<and> last partials then drop_partials fuel partials (butlast entries)
      else Ok entries)"

definition open_entries :: "'it libs \<Rightarrow> bytes \<Rightarrow> oplog_open_outcome \<Rightarrow> oplog_open_outcome hres" where
  "open_entries L existing outcome =
     (if length existing > slot_offset Entries then
        bindR (read_entries L (length existing) existing (slot_offset Entries) [] []) (\<lambda>(entries, partials).
        bindR (drop_partials (lib_fuel L) partials entries) (\<lambda>entries.
        Ok (outcome\<lparr>ooo_entries := Some entries\<rparr>)))
      else Ok outcome)"

definition decode_header :: "'it libs \<Rightarrow> bytes \<Rightarrow> validate_leader_outcome \<Rightarrow> header hres" where
  "decode_header L existing v =
     bindR (enc_err (dec_header L existing (vl_state v))) (\<lambda>(h, st). Ok h)"

definition oplog_open ::
  "'it libs \<Rightarrow> partial_keypair option \<Rightarrow> store_info option \<Rightarrow>
    (store_info_instruction + oplog_open_outcome) hres" where
  "oplog_open L key_pair info =
     (case info of
        None \<Rightarrow> Ok (Inl (sii_new_all_content Oplog))
      | Some info \<Rightarrow>
          bindR (expect (si_data info)) (\<lambda>existing.
          bindR (validate_leader L (slot_offset FirstHeader) existing) (\<lambda>h1_outcome.
          bindR (validate_leader L (slot_offset SecondHeader) existing) (\<lambda>h2_outcome.
          bindR
            (case h1_outcome of
               Some h1 \<Rightarrow>
                 bindR
                   (case h2_outcome of
                      Some h2 \<Rightarrow>
                        bindR (decode_header L existing
                                 (if vl_header_bit h1 = vl_header_bit h2 then h1 else h2)) (\<lambda>h.
                        Ok (h, (vl_header_bit h1, vl_header_bit h2)))
                    | None \<Rightarrow>
                        bindR (decode_header L existing h1) (\<lambda>h.
                        Ok (h, (vl_header_bit h1, vl_header_bit h1)))) (\<lambda>(h, header_bits).
                 Ok (oplog_open_outcome_new
                   \<lparr>op_header_bits = header_bits, op_entries_length = 0, op_entries_byte_length = 0\<rparr> h []))
             | None \<Rightarrow>
                 (case h2_outcome of
                    Some h2 \<Rightarrow>
                      bindR (decode_header L existing h2) (\<lambda>h.
                      Ok (oplog_open_outcome_new
                        \<lparr>op_header_bits = (\<not> vl_header_bit h2, vl_header_bit h2),
                         op_entries_length = 0, op_entries_byte_length = 0\<rparr> h []))
                  | None \<Rightarrow>
                      (case key_pair of
                         Some key_pair \<Rightarrow> oplog_fresh L key_pair
                       | None \<Rightarrow> Err (EmptyStorage Oplog)))) (\<lambda>outcome.
          bindR (open_entries L existing outcome) (\<lambda>outcome.
          Ok (Inr outcome)))))))"

section \<open>Leaders, read back\<close>

definition leader :: "'it libs \<Rightarrow> wire_format \<Rightarrow> bool \<Rightarrow> bool \<Rightarrow> bytes \<Rightarrow> bytes" where
  "leader L w hb pb payload =
     (let c = w_u32 w (leader_word (of_nat (length payload)) hb pb)
      in w_u32 w (cr_crc32 (lib_cr L) (c @ payload)) @ c)"

text \<open>A piece of the log: its leader and its payload.\<close>

definition framed :: "'it libs \<Rightarrow> wire_format \<Rightarrow> bool \<Rightarrow> bool \<Rightarrow> bytes \<Rightarrow> bytes" where
  "framed L w hb pb payload = leader L w hb pb payload @ payload"

text \<open>The sizes that a leader and a slot can hold.\<close>

definition entry_fits :: "'it libs \<Rightarrow> wire_format \<Rightarrow> entry \<Rightarrow> bool" where
  "entry_fits L w e \<longleftrightarrow> entry_ok L e \<and> length (wire_entry w e) < 2 ^ 30"

definition header_fits :: "'it libs \<Rightarrow> wire_format \<Rightarrow> header \<Rightarrow> bool" where
  "header_fits L w h \<longleftrightarrow> header_ok L h \<and> length (wire_header w h) + 8 \<le> HEADER_SIZE"

lemma leader_word_flags:
  "leader_word len hb pb AND 1 = 1 \<longleftrightarrow> hb" "leader_word len hb pb AND 2 = 2 \<longleftrightarrow> pb"
proof -
  have "bit (leader_word len hb pb) 0 = hb" "bit (leader_word len hb pb) 1 = pb"
    by (auto simp: leader_word_def bit_simps)
  moreover have "x AND 1 = 1 \<longleftrightarrow> bit x 0" "x AND 2 = 2 \<longleftrightarrow> bit x 1" for x :: u32
    unfolding bit_eq_iff [where ?'a = "32 word"]
    by (auto simp: bit_simps dest: spec [of _ 0] spec [of _ "Suc 0"])
  ultimately show "leader_word len hb pb AND 1 = 1 \<longleftrightarrow> hb" "leader_word len hb pb AND 2 = 2 \<longleftrightarrow> pb"
    by auto
qed

lemma leader_word_mod: "unat (drop_bit 2 (leader_word len hb pb)) = unat len mod 2 ^ 30"
proof -
  have "drop_bit 2 (leader_word len hb pb) = take_bit 30 len"
    unfolding bit_eq_iff [where ?'a = "32 word"] by (auto simp: leader_word_def bit_simps)
  then have "unat (drop_bit 2 (leader_word len hb pb)) = take_bit 30 (unat len)" by (simp only: unsigned_take_bit_eq)
  then show ?thesis by (simp only: take_bit_eq_mod)
qed

lemma leader_word_length:
  assumes "len < 2 ^ 30"
  shows "unat (drop_bit 2 (leader_word (of_nat len) hb pb)) = len"
  using assms by (simp add: leader_word_mod unat_of_nat_small)

lemma put_before:
  assumes "p + length xs + length ys \<le> length buf"
  shows "put (put buf (p + length xs) ys) p xs = put buf p (xs @ ys)"
  using assms by (simp add: put_def add.assoc)

context libs_laws
begin

lemma length_leader: "length (leader L w hb pb payload) = 8"
  by (simp add: leader_def Let_def cenc.length_w_u32)

lemma length_framed: "length (framed L w hb pb payload) = 8 + length payload"
  by (simp add: framed_def length_leader)

lemma prepend_leader_eq:
  assumes start: "cs_start st = p + 8 + length payload" and len: "length payload < 2 ^ 32"
    and fits: "cs_start st \<le> cs_end st" "cs_end st \<le> length buf" "length buf < MAX_USIZE"
    and payload: "slice buf (p + 8) (length payload) = payload"
  shows "prepend_leader L (length payload) hb pb st buf =
    Ok (st\<lparr>cs_start := p + 4\<rparr>, put buf p (leader L w hb pb payload))"
proof -
  let ?c = "w_u32 w (leader_word (of_nat (length payload)) hb pb)"
  let ?b = "put buf (p + 4) ?c"
  have c: "length ?c = 4" by (simp add: cenc.length_w_u32)
  have sub: "usize_sub (usize_sub (cs_start st) (length payload)) 4 = p + 4"
    "usize_sub (p + 8) 8 = p"
    using start by (simp_all add: usize_sub_def)
  have lenb: "length ?b = length buf" using c start fits by (simp add: length_put)
  have "slice ?b (p + 4) (4 + length payload) = ?c @ payload"
    using c payload start fits by (simp add: slice_def put_def take_add add.commute)
  moreover have "put ?b p (w_u32 w (cr_crc32 (lib_cr L) (?c @ payload))) = put buf p (leader L w hb pb payload)"
    using put_before [of p "w_u32 w (cr_crc32 (lib_cr L) (?c @ payload))" ?c buf] c start fits
    by (simp add: leader_def Let_def cenc.length_w_u32)
  ultimately show ?thesis
    unfolding prepend_leader_def sub Let_def
    using start len fits lenb c
    by (simp add: cenc.set_start cenc.u32c.enc_law room_def advance_def sub cenc.length_w_u32 add.commute)
qed

lemma prepend_leader_panics:
  assumes "cs_start st = p + 8 + n" "cs_start st \<le> cs_end st" "2 ^ 32 \<le> n"
  shows "prepend_leader L n hb pb st buf = Panic"
proof -
  have "usize_sub (usize_sub (cs_start st) n) 4 = p + 4" using assms(1) by (simp add: usize_sub_def)
  with assms show ?thesis by (simp add: prepend_leader_def cenc.set_start)
qed

text \<open>Of the length of a payload, the lowest 30 bits are read back.\<close>

lemma validate_leader_mod:
  assumes at: "holds_at buf p (framed L w hb pb payload)" and len: "length payload < 2 ^ 32" and small: "length buf < MAX_USIZE"
  defines "m \<equiv> length payload mod 2 ^ 30" and "c \<equiv> w_u32 w (leader_word (of_nat (length payload)) hb pb)"
  shows "validate_leader L p buf = (if m = 0 then Ok None
    else if cr_crc32 (lib_cr L) (c @ take m payload) \<noteq> cr_crc32 (lib_cr L) (c @ payload) then Err InvalidChecksum
    else Ok (Some \<lparr>vl_state = \<lparr>cs_start = p + 8, cs_end = p + 8 + m\<rparr>, vl_header_bit = hb, vl_partial_bit = pb\<rparr>))"
proof -
  let ?c = "leader_word (of_nat (length payload)) hb pb"
  let ?k = "cr_crc32 (lib_cr L) (w_u32 w ?c @ payload)"
  let ?st = "\<lparr>cs_start = p, cs_end = length buf\<rparr> :: cstate"
  have parts: "holds_at buf p (w_u32 w ?k)" "holds_at buf (p + 4) (w_u32 w ?c)" "holds_at buf (p + 8) payload"
    using at by (auto simp: framed_def leader_def Let_def holds_at_append cenc.length_w_u32 add.assoc)
  have m: "unat (drop_bit 2 ?c) = m" "m \<le> length payload" using len by (simp_all add: m_def leader_word_mod unat_of_nat_small)
  have le: "p + 8 + length payload \<le> length buf" using parts(3) by (simp add: holds_at_def)
  have dec: "ce_dec_u32 (lib_ce L) buf ?st = Ok (?k, advance 4 ?st)"
    "ce_dec_u32 (lib_ce L) buf (advance 4 ?st) = Ok (?c, advance 8 ?st)"
    using cenc.u32c.dec_law [of buf ?st ?k] cenc.u32c.dec_law [of buf "advance 4 ?st" ?c] parts(1,2) le
    by (simp_all add: room_def cenc.length_w_u32)
  have "slice buf (p + 4) (4 + length payload) = c @ payload"
    using parts(2,3) take_add [of 4 "length payload" "drop (p + 4) buf"]
    by (simp add: c_def holds_at_def slice_def cenc.length_w_u32 add.commute [of 4] add.commute [of 8])
  then have "take (4 + m) (slice buf (p + 4) (4 + length payload)) = c @ take m payload" by (simp add: c_def cenc.length_w_u32)
  then have crc: "slice buf (p + 4) (p + 8 + m - (p + 4)) = c @ take m payload" using m(2) by (simp add: slice_def min_absorb2 min_absorb1)
  show ?thesis
    unfolding validate_leader_def Let_def
    using dec le m leader_word_flags [of "of_nat (length payload)" hb pb] crc
    by (simp add: cenc.set_start usize_sub_def advance_def c_def)
qed

lemma validate_leader_eq:
  assumes at: "holds_at buf p (framed L w hb pb payload)" and len: "payload \<noteq> []" "length payload < 2 ^ 30"
    and small: "length buf < MAX_USIZE"
  shows "validate_leader L p buf = Ok (Some
    \<lparr>vl_state = \<lparr>cs_start = p + 8, cs_end = p + 8 + length payload\<rparr>, vl_header_bit = hb, vl_partial_bit = pb\<rparr>)"
  using validate_leader_mod [OF at _ small] len by simp

text \<open>What follows the last entry does not look like one.\<close>

lemma validate_leader_end: "length buf < p + 8 \<Longrightarrow> validate_leader L p buf = Ok None"
  by (simp add: validate_leader_def)

lemma wire_entry_nonempty: "wire_entry w e \<noteq> []"
  by (simp add: wire_entry_def)

lemma append_entry_eq:
  assumes "entry_fits L w e"
  shows "append_entries L o' [e] atomic = Ok (
    o'\<lparr>op_entries_length := op_entries_length o' + 1,
       op_entries_byte_length := op_entries_byte_length o' + of_nat (8 + length (wire_entry w e))\<rparr>,
    [si_new_content Oplog (8192 + op_entries_byte_length o')
      (framed L w (get_current_header_bit o') False (wire_entry w e))])"
proof -
  let ?p = "wire_entry w e" and ?n = "8 + length (wire_entry w e)"
  let ?hb = "get_current_header_bit o'"
  have ok: "entry_ok L e" "length ?p < 2 ^ 30" using assms by (simp_all add: entry_fits_def)
  have pre: "pre_entry L e \<lparr>cs_start = 0, cs_end = 8\<rparr> = Ok \<lparr>cs_start = 0, cs_end = ?n\<rparr>"
    using entryc.pre_law [OF ok(1), of "\<lparr>cs_start = 0, cs_end = 8\<rparr>"] ok(2) by (simp add: extend_end_def)
  let ?b = "put (replicate ?n 0) 8 ?p"
  have enc: "enc_entry L e \<lparr>cs_start = 8, cs_end = ?n\<rparr> (replicate ?n 0) = Ok (\<lparr>cs_start = ?n, cs_end = ?n\<rparr>, ?b)"
    using entryc.enc_law [OF ok(1), of "\<lparr>cs_start = 8, cs_end = ?n\<rparr>" "replicate ?n 0"]
    by (simp add: room_def advance_def)
  have lenb: "length ?b = ?n" by (simp add: length_put)
  have "prepend_leader L (length ?p) ?hb False \<lparr>cs_start = ?n, cs_end = ?n\<rparr> ?b =
      Ok (\<lparr>cs_start = 4, cs_end = ?n\<rparr>, put ?b 0 (leader L w ?hb False ?p))"
    using prepend_leader_eq [of "\<lparr>cs_start = ?n, cs_end = ?n\<rparr>" 0 ?p ?b ?hb False] ok(2) lenb
    by (simp add: slice_def put_def)
  moreover have "put ?b 0 (leader L w ?hb False ?p) = framed L w ?hb False ?p"
    by (simp add: put_def framed_def length_leader)
  ultimately show ?thesis
    unfolding append_entries_def Let_def
    using pre enc lenb
    by (simp add: cenc.create_buffer cenc.add_start advance_def HEADER_SIZE_def length_framed)
qed

text \<open>A run of entries is read back in order, each with its partial bit.\<close>

lemma read_entries_eq:
  assumes "list_all (\<lambda>(e, pb, hb). entry_fits L w e) es" "length es < fuel" "length buf < MAX_USIZE"
    and "holds_at buf p (concat (map (\<lambda>(e, pb, hb). framed L w hb pb (wire_entry w e)) es))"
    and "validate_leader L (p + length (concat (map (\<lambda>(e, pb, hb). framed L w hb pb (wire_entry w e)) es))) buf = Ok None"
  shows "read_entries L fuel buf p acc parts = Ok (acc @ map fst es, parts @ map (fst \<circ> snd) es)"
  using assms
proof (induction es arbitrary: p fuel acc parts)
  case Nil
  then obtain f where "fuel = Suc f" by (cases fuel) auto
  with Nil show ?case by simp
next
  case (Cons x es)
  obtain e pb hb where x: "x = (e, pb, hb)" by (cases x)
  obtain f where f: "fuel = Suc f" using Cons.prems(2) by (cases fuel) auto
  let ?p = "wire_entry w e" and ?st = "\<lparr>cs_start = p + 8, cs_end = p + 8 + length (wire_entry w e)\<rparr> :: cstate"
  have fits: "entry_ok L e" "length ?p < 2 ^ 30" using Cons.prems(1) by (simp_all add: x entry_fits_def)
  have at: "holds_at buf p (framed L w hb pb ?p)" using Cons.prems(4) by (simp add: x holds_at_append)
  then have at': "holds_at buf (p + 8) ?p" by (simp add: framed_def holds_at_append length_leader)
  have "dec_entry L buf ?st = Ok (e, advance (length ?p) ?st)"
    using entryc.dec_law [of buf ?st e] at' fits(1) by (simp add: room_def holds_at_def)
  moreover have "read_entries L f buf (p + 8 + length ?p) (acc @ [e]) (parts @ [pb]) =
      Ok ((acc @ [e]) @ map fst es, (parts @ [pb]) @ map (fst \<circ> snd) es)"
    by (rule Cons.IH) (use Cons.prems f in \<open>auto simp: x holds_at_append length_framed add.assoc\<close>)
  ultimately show ?case
    using validate_leader_eq [OF at wire_entry_nonempty fits(2) Cons.prems(3)]
    by (simp add: f x)
qed

lemma drop_partials_complete:
  assumes "ps = [] \<or> \<not> last ps" "0 < fuel"
  shows "drop_partials fuel ps es = Ok es"
proof -
  obtain f where "fuel = Suc f" using assms(2) by (cases fuel) auto
  with assms(1) show ?thesis by auto
qed

end

text \<open>The loop that means to drop trailing partial entries tests a list it never changes.\<close>

lemma drop_partials_diverges: "last ps \<Longrightarrow> ps \<noteq> [] \<Longrightarrow> drop_partials fuel ps es = Diverge"
  by (induction fuel arbitrary: es) auto

section \<open>Header slots, in turn\<close>

text \<open>The slot that holds the newest header.\<close>

definition newest_slot :: "bool \<times> bool \<Rightarrow> oplog_slot" where
  "newest_slot bits = (if fst bits = snd bits then FirstHeader else SecondHeader)"

definition next_bits :: "bool \<times> bool \<Rightarrow> bool \<times> bool" where
  "next_bits bits =
     (case get_next_header_oplog_slot_and_bit_value bits of
        (FirstHeader, b) \<Rightarrow> (b, snd bits)
      | (SecondHeader, b) \<Rightarrow> (fst bits, b)
      | (Entries, b) \<Rightarrow> bits)"

lemma next_slot:
  "fst (get_next_header_oplog_slot_and_bit_value bits) = newest_slot (next_bits bits)"
  "newest_slot (next_bits bits) \<noteq> newest_slot bits"
  "(next_bits ^^ 4) bits = bits"
  by (cases bits; auto simp: get_next_header_oplog_slot_and_bit_value_def next_bits_def newest_slot_def
      numeral_eq_Suc)+

context libs_laws
begin

lemma insert_header_eq:
  assumes "header_fits L w h"
  shows "insert_header L h n bits clear = Ok (next_bits bits,
    [si_new_content Oplog (of_nat (slot_offset (newest_slot (next_bits bits))))
       (framed L w (snd (get_next_header_oplog_slot_and_bit_value bits)) False (wire_header w h) @
        (if clear then replicate (HEADER_SIZE - 8 - length (wire_header w h)) 0 else [])),
     si_new_truncate Oplog (8192 + n)])"
proof -
  let ?p = "wire_header w h" and ?n = "8 + length (wire_header w h)"
  let ?m = "if clear then HEADER_SIZE else ?n" and ?hb = "snd (get_next_header_oplog_slot_and_bit_value bits)"
  have ok: "header_ok L h" "?n \<le> 4096" using assms by (simp_all add: header_fits_def HEADER_SIZE_def)
  have m: "?n \<le> ?m" using ok(2) by (simp add: HEADER_SIZE_def)
  have pre: "pre_header L h \<lparr>cs_start = 8, cs_end = 8\<rparr> = Ok \<lparr>cs_start = 8, cs_end = ?n\<rparr>"
    using headerc.pre_law [OF ok(1), of "\<lparr>cs_start = 8, cs_end = 8\<rparr>"] ok(2) by (simp add: extend_end_def)
  let ?b = "put (replicate ?m 0) 8 ?p"
  have enc: "enc_header L h \<lparr>cs_start = 8, cs_end = ?m\<rparr> (replicate ?m 0) = Ok (\<lparr>cs_start = ?n, cs_end = ?m\<rparr>, ?b)"
    using headerc.enc_law [OF ok(1), of "\<lparr>cs_start = 8, cs_end = ?m\<rparr>" "replicate ?m 0"] m
    by (simp add: room_def advance_def)
  have lenb: "length ?b = ?m" using m by (simp add: length_put)
  have "prepend_leader L (length ?p) ?hb False \<lparr>cs_start = ?n, cs_end = ?m\<rparr> ?b =
      Ok (\<lparr>cs_start = 4, cs_end = ?m\<rparr>, put ?b 0 (leader L w ?hb False ?p))"
    using prepend_leader_eq [of "\<lparr>cs_start = ?n, cs_end = ?m\<rparr>" 0 ?p ?b ?hb False] ok(2) m lenb
    by (simp add: slice_def put_def HEADER_SIZE_def)
  moreover have "put ?b 0 (leader L w ?hb False ?p) =
      framed L w ?hb False ?p @ (if clear then replicate (HEADER_SIZE - 8 - length ?p) 0 else [])"
    using m by (simp add: put_def framed_def length_leader)
  moreover have "(case newest_slot (next_bits bits) of
        FirstHeader \<Rightarrow> Ok (?hb, snd bits) | SecondHeader \<Rightarrow> Ok (fst bits, ?hb) | Entries \<Rightarrow> Panic) = (Ok (next_bits bits) :: (bool \<times> bool) hres)"
    unfolding next_slot(1) [symmetric]
    by (simp add: get_next_header_oplog_slot_and_bit_value_def next_bits_def)
  ultimately show ?thesis
    unfolding insert_header_def Let_def case_prod_beta next_slot(1)
    using pre enc lenb
    by (cases clear) (simp_all add: cenc.create_buffer HEADER_SIZE_def)
qed

end

end
