(* ===== verification/Storage.thy ===== *)
theory Storage
  imports Common Flat_Tree
begin

text \<open>
  \<^verbatim>\<open>src/src/storage/mod.rs\<close> and \<^verbatim>\<open>src/src/data/mod.rs\<close>: the four stores, and the block
  store that lays blocks end to end.  A backend (memory or disk) comes from other crates: it is
  the parameter \<open>random_access\<close>, over a type of devices, and the locale \<open>random_access_laws\<close>
  states what the code relies on, in terms of the bytes a device holds.  Reading does not change
  a device.  \<open>new_disk\<close> and \<open>new_memory\<close> only choose a backend.
\<close>

section \<open>Devices\<close>

datatype random_access_error = RaIO | RaOutOfBounds

type_synonym 'a rres = "('a, random_access_error) result"

record 'd random_access =
  ra_len :: "'d \<Rightarrow> u64 rres"
  ra_read :: "u64 \<Rightarrow> u64 \<Rightarrow> 'd \<Rightarrow> bytes rres"
  ra_write :: "u64 \<Rightarrow> bytes \<Rightarrow> 'd \<Rightarrow> 'd rres"
  ra_del :: "u64 \<Rightarrow> u64 \<Rightarrow> 'd \<Rightarrow> 'd rres"
  ra_truncate :: "u64 \<Rightarrow> 'd \<Rightarrow> 'd rres"

text \<open>What a write and a truncation do to a file.\<close>

definition file_truncate :: "bytes \<Rightarrow> nat \<Rightarrow> bytes" where
  "file_truncate f n = take n (f @ replicate (n - length f) 0)"

definition file_write :: "bytes \<Rightarrow> nat \<Rightarrow> bytes \<Rightarrow> bytes" where
  "file_write f off data =
     (if data = [] then f
      else put (file_truncate f (max (length f) (off + length data))) off data)"

definition MAX_FILE :: nat where "MAX_FILE = 2 ^ 63"

locale random_access_laws =
  fixes ra :: "'d random_access" and content :: "'d \<Rightarrow> bytes"
  assumes small: "length (content d) \<le> MAX_FILE"
    and len_law: "ra_len ra d = Ok (of_nat (length (content d)))"
    and read_in: "unat off + unat n \<le> length (content d) \<Longrightarrow>
      ra_read ra off n d = Ok (slice (content d) (unat off) (unat n))"
    and read_out: "length (content d) < unat off + unat n \<Longrightarrow> ra_read ra off n d = Err RaOutOfBounds"
    and write_law: "unat off + length data \<le> MAX_FILE \<Longrightarrow>
      \<exists>d'. ra_write ra off data d = Ok d' \<and> content d' = file_write (content d) (unat off) data"
    and truncate_law: "unat n \<le> MAX_FILE \<Longrightarrow>
      \<exists>d'. ra_truncate ra n d = Ok d' \<and> content d' = file_truncate (content d) (unat n)"
    and del_law: "unat off \<le> length (content d) \<Longrightarrow>
      \<exists>d'. ra_del ra off n d = Ok d' \<and> (\<forall>k<length (content d).
        k < unat off \<or> unat off + unat n \<le> k \<longrightarrow> k < length (content d') \<and> content d' ! k = content d ! k)"

section \<open>Stores\<close>

record 'd storage =
  st_tree :: 'd
  st_data :: 'd
  st_bitfield :: 'd
  st_oplog :: 'd

fun map_random_access_err :: "random_access_error \<Rightarrow> hypercore_error" where
  "map_random_access_err RaIO = IO"
| "map_random_access_err RaOutOfBounds = InvalidOperation"

definition ra_err :: "'a rres \<Rightarrow> 'a hres" where
  "ra_err r = map_err map_random_access_err r"

fun get_random_access :: "'d storage \<Rightarrow> store \<Rightarrow> 'd" where
  "get_random_access s Tree = st_tree s"
| "get_random_access s Data = st_data s"
| "get_random_access s Bitfield = st_bitfield s"
| "get_random_access s Oplog = st_oplog s"

fun set_random_access :: "'d storage \<Rightarrow> store \<Rightarrow> 'd \<Rightarrow> 'd storage" where
  "set_random_access s Tree d = s\<lparr>st_tree := d\<rparr>"
| "set_random_access s Data d = s\<lparr>st_data := d\<rparr>"
| "set_random_access s Bitfield d = s\<lparr>st_bitfield := d\<rparr>"
| "set_random_access s Oplog d = s\<lparr>st_oplog := d\<rparr>"

text \<open>\<open>Storage::open\<close>: make the four devices, and empty them when \<open>overwrite\<close> is set.\<close>

definition empty_device :: "'d random_access \<Rightarrow> bool \<Rightarrow> 'd \<Rightarrow> 'd hres" where
  "empty_device ra overwrite d =
     (if overwrite then
        bindR (ra_err (ra_len ra d)) (\<lambda>n. if n > 0 then ra_err (ra_truncate ra 0 d) else Ok d)
      else Ok d)"

definition storage_open :: "'d random_access \<Rightarrow> (store \<Rightarrow> 'd rres) \<Rightarrow> bool \<Rightarrow> 'd storage hres" where
  "storage_open ra create overwrite =
     bindR (ra_err (create Tree)) (\<lambda>tree.
     bindR (ra_err (create Data)) (\<lambda>data.
     bindR (ra_err (create Bitfield)) (\<lambda>bitfield.
     bindR (ra_err (create Oplog)) (\<lambda>oplog.
     bindR (empty_device ra overwrite tree) (\<lambda>tree.
     bindR (empty_device ra overwrite data) (\<lambda>data.
     bindR (empty_device ra overwrite bitfield) (\<lambda>bitfield.
     bindR (empty_device ra overwrite oplog) (\<lambda>oplog.
     Ok \<lparr>st_tree = tree, st_data = data, st_bitfield = bitfield, st_oplog = oplog\<rparr>))))))))"

definition read_one :: "'d random_access \<Rightarrow> 'd storage \<Rightarrow> store_info_instruction \<Rightarrow> store_info hres" where
  "read_one ra s instruction =
     (let d = get_random_access s (sii_store instruction)
      in case sii_info_type instruction of
           Content \<Rightarrow>
             bindR (case sii_length instruction of
                      Some len \<Rightarrow> Ok len
                    | None \<Rightarrow> ra_err (ra_len ra d)) (\<lambda>read_length.
             (case ra_read ra (sii_index instruction) read_length d of
                Ok buf \<Rightarrow> Ok (si_new_content (sii_store instruction) (sii_index instruction) buf)
              | Err RaOutOfBounds \<Rightarrow>
                  if sii_allow_miss instruction
                  then Ok (si_new_content_miss (sii_store instruction) (sii_index instruction))
                  else Err InvalidOperation
              | Err e \<Rightarrow> Err (map_random_access_err e)
              | Panic \<Rightarrow> Panic
              | Diverge \<Rightarrow> Diverge))
         | Size \<Rightarrow>
             bindR (ra_err (ra_len ra d)) (\<lambda>len.
             Ok (si_new_size (sii_store instruction) (sii_index instruction) (len - sii_index instruction))))"

fun read_infos :: "'d random_access \<Rightarrow> 'd storage \<Rightarrow> store_info_instruction list \<Rightarrow> store_info list hres" where
  "read_infos ra s [] = Ok []"
| "read_infos ra s (i # is) =
     bindR (read_one ra s i) (\<lambda>info. bindR (read_infos ra s is) (\<lambda>infos. Ok (info # infos)))"

definition read_info :: "'d random_access \<Rightarrow> 'd storage \<Rightarrow> store_info_instruction \<Rightarrow> store_info hres" where
  "read_info ra s instruction =
     bindR (read_infos ra s [instruction]) (\<lambda>infos. expect (if infos = [] then None else Some (last infos)))"

definition flush_one :: "'d random_access \<Rightarrow> 'd storage \<Rightarrow> store_info \<Rightarrow> 'd storage hres" where
  "flush_one ra s info =
     (let d = get_random_access s (si_store info);
          set = (\<lambda>d'. Ok (set_random_access s (si_store info) d'))
      in case si_info_type info of
           Content \<Rightarrow>
             if \<not> si_miss info then
               (case si_data info of
                  Some data \<Rightarrow> bindR (ra_err (ra_write ra (si_index info) data d)) set
                | None \<Rightarrow> Ok s)
             else
               bindR (expect (si_length info)) (\<lambda>len.
               bindR (ra_err (ra_del ra (si_index info) len d)) set)
         | Size \<Rightarrow>
             if si_miss info then bindR (ra_err (ra_truncate ra (si_index info) d)) set
             else Panic)"

fun flush_infos :: "'d random_access \<Rightarrow> 'd storage \<Rightarrow> store_info list \<Rightarrow> 'd storage hres" where
  "flush_infos ra s [] = Ok s"
| "flush_infos ra s (info # infos) = bindR (flush_one ra s info) (\<lambda>s. flush_infos ra s infos)"

definition flush_info :: "'d random_access \<Rightarrow> 'd storage \<Rightarrow> store_info \<Rightarrow> 'd storage hres" where
  "flush_info ra s info = flush_infos ra s [info]"

section \<open>The block store\<close>

definition append_batch :: "bytes list \<Rightarrow> nat \<Rightarrow> u64 \<Rightarrow> store_info" where
  "append_batch batch batch_length byte_length = si_new_content Data byte_length (concat batch)"

definition block_put :: "bytes \<Rightarrow> u64 \<Rightarrow> store_info" where
  "block_put val offset = si_new_content Data offset val"

definition block_read ::
  "node_byte_range \<Rightarrow> store_info option \<Rightarrow> (store_info_instruction + bytes) hres" where
  "block_read byte_range info =
     (case info of
        Some info \<Rightarrow> bindR (expect (si_data info)) (\<lambda>data. Ok (Inr data))
      | None \<Rightarrow> Ok (Inl (sii_new_content Data (nbr_index byte_range) (nbr_length byte_range))))"

definition block_clear :: "u64 \<Rightarrow> u64 \<Rightarrow> store_info" where
  "block_clear start len = si_new_delete Data start len"

section \<open>Files\<close>

lemma length_file_truncate [simp]: "length (file_truncate f n) = n"
  by (simp add: file_truncate_def)

lemma file_truncate_nth: "k < n \<Longrightarrow> file_truncate f n ! k = (if k < length f then f ! k else 0)"
  by (simp add: file_truncate_def nth_append)

lemma length_file_write: "length (file_write f off data) = (if data = [] then length f else max (length f) (off + length data))"
  by (simp add: file_write_def length_put)

lemma file_truncate_prefix: "n \<le> length f \<Longrightarrow> file_truncate f n = take n f"
  by (simp add: file_truncate_def)

lemma file_write_append: "file_write f (length f) data = f @ data"
  by (simp add: file_write_def put_def file_truncate_def)

lemma holds_at_file_write: "data \<noteq> [] \<Longrightarrow> holds_at (file_write f off data) off data"
  by (simp add: file_write_def holds_at_put)

text \<open>A write leaves alone what lies outside its range.\<close>

lemma holds_at_file_write_other:
  assumes "holds_at f p xs" "p + length xs \<le> off \<or> off + length data \<le> p"
  shows "holds_at (file_write f off data) p xs"
proof (cases "data = []")
  case True
  with assms(1) show ?thesis by (simp add: file_write_def)
next
  case False
  let ?n = "max (length f) (off + length data)" and ?g = "file_write f off data"
  have le: "p + length xs \<le> length f" using assms(1) by (simp add: holds_at_def)
  have len: "length ?g = ?n" using False by (simp add: length_file_write)
  have "?g ! k = f ! k" if "p \<le> k" "k < p + length xs" for k
    using that assms(2) le False
    by (auto simp: file_write_def put_def nth_append file_truncate_nth min_def)
  then have "slice ?g p (length xs) = slice f p (length xs)"
    using le len by (intro nth_equalityI) (auto simp: slice_def)
  with assms(1) le len show ?thesis by (simp add: holds_at_def)
qed

lemma holds_at_truncate: "holds_at f p xs \<Longrightarrow> p + length xs \<le> n \<Longrightarrow> holds_at (file_truncate f n) p xs"
  unfolding holds_at_def file_truncate_def slice_def by (auto simp: drop_take min_def)

section \<open>Reading and writing through the stores\<close>

lemma get_set [simp]:
  "get_random_access (set_random_access s st d) st' = (if st' = st then d else get_random_access s st')"
  by (cases st; cases st') auto

declare get_random_access.simps [simp del] set_random_access.simps [simp del]

abbreviation stored :: "('d \<Rightarrow> bytes) \<Rightarrow> 'd storage \<Rightarrow> store \<Rightarrow> bytes" where
  "stored content s st \<equiv> content (get_random_access s st)"

context random_access_laws
begin

lemma ra_err_Ok [simp]: "ra_err (Ok x) = Ok x"
  by (simp add: ra_err_def)

lemma flush_content:
  assumes "unat off + length data \<le> MAX_FILE"
  shows "\<exists>s'. flush_one ra s (si_new_content st off data) = Ok s' \<and>
    stored content s' st = file_write (stored content s st) (unat off) data \<and> (\<forall>st'. st' \<noteq> st \<longrightarrow> stored content s' st' = stored content s st')"
  using write_law [OF assms, of "get_random_access s st"]
  by (auto simp: flush_one_def si_new_content_def)

lemma flush_truncate:
  assumes "unat n \<le> MAX_FILE"
  shows "\<exists>s'. flush_one ra s (si_new_truncate st n) = Ok s' \<and>
    stored content s' st = file_truncate (stored content s st) (unat n) \<and> (\<forall>st'. st' \<noteq> st \<longrightarrow> stored content s' st' = stored content s st')"
  using truncate_law [OF assms, of "get_random_access s st"]
  by (auto simp: flush_one_def si_new_truncate_def)

lemma flush_infos_append:
  "flush_infos ra s (xs @ ys) = bindR (flush_infos ra s xs) (\<lambda>s. flush_infos ra s ys)"
  by (induction xs arbitrary: s) (auto simp: bindR_assoc)

lemma read_content:
  assumes "unat off + unat n \<le> length (stored content s st)"
  shows "read_one ra s (sii_new_content st off n) = Ok (si_new_content st off (slice (stored content s st) (unat off) (unat n)))"
    "read_one ra s (sii_new_content_allow_miss st off n) =
      Ok (si_new_content st off (slice (stored content s st) (unat off) (unat n)))"
  using read_in [OF assms] by (simp_all add: read_one_def sii_new_content_def sii_new_content_allow_miss_def)

lemma read_all:
  "read_one ra s (sii_new_all_content st) = Ok (si_new_content st 0 (stored content s st))"
proof -
  have "unat (of_nat (length (stored content s st)) :: u64) = length (stored content s st)"
    using small [of "get_random_access s st"] by (intro unat_of_nat64) (simp add: MAX_FILE_def)
  then show ?thesis
    using read_in [of 0 "of_nat (length (stored content s st))" "get_random_access s st"]
    by (simp add: read_one_def sii_new_all_content_def len_law slice_def)
qed

text \<open>What was written is read back.\<close>

lemma read_after_write:
  assumes "unat off + length data \<le> MAX_FILE" "data \<noteq> []"
    and "flush_one ra s (si_new_content st off data) = Ok s'"
  shows "read_one ra s' (sii_new_content st off (of_nat (length data))) = Ok (si_new_content st off data)"
proof -
  have f: "stored content s' st = file_write (stored content s st) (unat off) data"
    using flush_content [OF assms(1), of s st] assms(3) by auto
  have "unat (of_nat (length data) :: u64) = length data"
    using assms(1) by (intro unat_of_nat64) (simp add: MAX_FILE_def)
  moreover have "holds_at (stored content s' st) (unat off) data"
    unfolding f using holds_at_file_write [OF assms(2)] .
  ultimately show ?thesis
    using read_content(1) [of off "of_nat (length data)" s' st] by (simp add: holds_at_def)
qed

end

section \<open>A device in memory\<close>

definition mem_content :: "bytes \<Rightarrow> bytes" where
  "mem_content d = take MAX_FILE d"

definition mem_del :: "bytes \<Rightarrow> nat \<Rightarrow> nat \<Rightarrow> bytes" where
  "mem_del f off n =
     (if length f \<le> off + n then take off f else put f off (replicate n 0))"

definition mem_access :: "bytes random_access" where
  "mem_access =
     \<lparr>ra_len = (\<lambda>d. Ok (of_nat (length (mem_content d)))),
      ra_read = (\<lambda>off n d. if unat off + unat n \<le> length (mem_content d)
        then Ok (slice (mem_content d) (unat off) (unat n)) else Err RaOutOfBounds),
      ra_write = (\<lambda>off data d. if unat off + length data \<le> MAX_FILE
        then Ok (file_write (mem_content d) (unat off) data) else Err RaIO),
      ra_del = (\<lambda>off n d. if unat off \<le> length (mem_content d)
        then Ok (mem_del (mem_content d) (unat off) (unat n)) else Err RaOutOfBounds),
      ra_truncate = (\<lambda>n d. if unat n \<le> MAX_FILE
        then Ok (file_truncate (mem_content d) (unat n)) else Err RaIO)\<rparr>"

lemma mem_content_id: "length f \<le> MAX_FILE \<Longrightarrow> mem_content f = f"
  by (simp add: mem_content_def)

lemma mem_content_small: "length (mem_content d) \<le> MAX_FILE"
  by (simp add: mem_content_def)

interpretation mem: random_access_laws mem_access mem_content
proof (unfold_locales, goal_cases)
  case (5 off data d)
  then show ?case
    using mem_content_small [of d]
    by (simp add: mem_access_def mem_content_id length_file_write)
next
  case (7 off d n)
  let ?f = "mem_content d"
  have "length (mem_del ?f (unat off) (unat n)) \<le> MAX_FILE"
    using mem_content_small [of d] by (auto simp: mem_del_def length_put)
  moreover have "k < length (mem_del ?f (unat off) (unat n)) \<and> mem_del ?f (unat off) (unat n) ! k = ?f ! k"
    if "k < length ?f" "k < unat off \<or> unat off + unat n \<le> k" for k
    using that 7 by (auto simp: mem_del_def put_def nth_append min_def)
  ultimately show ?case using 7 by (simp add: mem_access_def mem_content_id)
qed (simp_all add: mem_access_def mem_content_small mem_content_id)

end
