(* ===== verification/Events.thy ===== *)
theory Events
  imports Common
begin

text \<open>
  \<^verbatim>\<open>src/src/replication/events.rs\<close>: the events a core sends to its replicators.  The broadcast
  channel belongs to another crate; \<open>ev_sent\<close> lists the messages handed to its
  \<open>try_broadcast\<close>, oldest first.  The result of \<open>try_broadcast\<close> is ignored by the code, so
  that it fails when nobody listens makes no difference to a core.
\<close>

record have_event =
  hv_start :: u64
  hv_length :: u64
  hv_drop :: bool

definition have_from :: "bitfield_update \<Rightarrow> have_event" where
  "have_from bu = \<lparr>hv_start = bu_start bu, hv_length = bu_length bu, hv_drop = bu_drop bu\<rparr>"

datatype event = Get u64 | DataUpgrade | Have have_event

record events =
  ev_sent :: "event list"

definition events_new :: events where
  "events_new = \<lparr>ev_sent = []\<rparr>"

definition events_send :: "events \<Rightarrow> event \<Rightarrow> events" where
  "events_send ev e = ev\<lparr>ev_sent := ev_sent ev @ [e]\<rparr>"

definition send_on_get :: "events \<Rightarrow> u64 \<Rightarrow> events" where
  "send_on_get ev index = events_send ev (Get index)"

end
