(* ===== verification/Core.thy ===== *)
theory Core
  imports Merkle_Proof Dynamic_Bitfield Oplog Storage Events
begin

text \<open>
  \<^verbatim>\<open>src/src/core.rs\<close> and \<^verbatim>\<open>src/src/builder.rs\<close>: the core itself.  An operation of
  \<open>&mut self\<close> is a function from a core to an outcome and the core it leaves behind, also when
  the outcome is an error or a panic: the early return of a \<open>?\<close> keeps the changes made before it.
\<close>

section \<open>The state of a core\<close>

record 'd hypercore =
  hc_key_pair :: partial_keypair
  hc_storage :: "'d storage"
  hc_oplog :: oplog
  hc_tree :: merkle_tree
  hc_bitfield :: dynamic_bitfield
  hc_skip_flush_count :: u8
  hc_header :: header
  hc_events :: events

record append_outcome =
  ao_length :: u64
  ao_byte_length :: u64

record core_info_record =
  ci_length :: u64
  ci_byte_length :: u64
  ci_contiguous_length :: u64
  ci_fork :: u64
  ci_writeable :: bool

record hypercore_options =
  ho_key_pair :: "partial_keypair option"
  ho_open :: bool

definition hypercore_options_new :: hypercore_options where
  "hypercore_options_new = \<lparr>ho_key_pair = None, ho_open = False\<rparr>"

type_synonym ('d, 'a) core_op = "'d hypercore \<Rightarrow> 'a hres \<times> 'd hypercore"

definition bindC :: "('d, 'a) core_op \<Rightarrow> ('a \<Rightarrow> ('d, 'b) core_op) \<Rightarrow> ('d, 'b) core_op" where
  "bindC m f c =
     (case m c of
        (Ok x, c') \<Rightarrow> f x c'
      | (Err e, c') \<Rightarrow> (Err e, c')
      | (Panic, c') \<Rightarrow> (Panic, c')
      | (Diverge, c') \<Rightarrow> (Diverge, c'))"

text \<open>A computation on the core that does not change it, and one that changes it when it
  succeeds.\<close>

definition readC :: "('d hypercore \<Rightarrow> 'a hres) \<Rightarrow> ('d, 'a) core_op" where
  "readC f c = (f c, c)"

definition stepC :: "('d hypercore \<Rightarrow> ('a \<times> 'd hypercore) hres) \<Rightarrow> ('d, 'a) core_op" where
  "stepC f c =
     (case f c of
        Ok (x, c') \<Rightarrow> (Ok x, c')
      | Err e \<Rightarrow> (Err e, c)
      | Panic \<Rightarrow> (Panic, c)
      | Diverge \<Rightarrow> (Diverge, c))"

abbreviation modifyC :: "('d hypercore \<Rightarrow> 'd hypercore) \<Rightarrow> ('d, unit) core_op" where
  "modifyC g \<equiv> stepC (\<lambda>c. Ok ((), g c))"

section \<open>Helpers\<close>

text \<open>The loop of \<open>update_contiguous_length\<close> stops at the latest behind the last page, which the
  fuel covers (\<open>contiguous_loop_spec\<close>).\<close>

fun contiguous_loop :: "nat \<Rightarrow> dynamic_bitfield \<Rightarrow> u64 \<Rightarrow> u64 hres" where
  "contiguous_loop 0 b c = Diverge"
| "contiguous_loop (Suc fuel) b c =
     bindR (dyn_get b c) (\<lambda>set. if set then contiguous_loop fuel b (c + 1) else Ok c)"

definition contiguous_fuel :: "dynamic_bitfield \<Rightarrow> nat" where
  "contiguous_fuel b = Suc (32768 * Suc (unat (db_biggest_page_index b)))"

definition update_contiguous_length ::
  "header \<Rightarrow> dynamic_bitfield \<Rightarrow> bitfield_update \<Rightarrow> header hres" where
  "update_contiguous_length h b bu =
     (let e = bu_start bu + bu_length bu;
          c = hh_contiguous_length (h_hints h)
      in bindR (if bu_drop bu then
                  Ok (if c \<le> e \<and> c > bu_start bu then bu_start bu else c)
                else if c \<le> e \<and> c \<ge> bu_start bu then contiguous_loop (contiguous_fuel b) b e
                else Ok c) (\<lambda>c'.
         Ok (if c' \<noteq> c then h\<lparr>h_hints := (h_hints h)\<lparr>hh_contiguous_length := c'\<rparr>\<rparr> else h)))"

definition core_flush_infos :: "'d random_access \<Rightarrow> store_info list \<Rightarrow> ('d, unit) core_op" where
  "core_flush_infos ra infos =
     stepC (\<lambda>c. bindR (flush_infos ra (hc_storage c) infos) (\<lambda>s. Ok ((), c\<lparr>hc_storage := s\<rparr>)))"

definition core_read_infos ::
  "'d random_access \<Rightarrow> store_info_instruction list \<Rightarrow> ('d, store_info list) core_op" where
  "core_read_infos ra instrs = readC (\<lambda>c. read_infos ra (hc_storage c) instrs)"

definition should_flush_bitfield_and_tree_and_oplog :: "('d, bool) core_op" where
  "should_flush_bitfield_and_tree_and_oplog =
     stepC (\<lambda>c.
       if hc_skip_flush_count c = 0 \<or> op_entries_byte_length (hc_oplog c) \<ge> MAX_OPLOG_ENTRIES_BYTE_SIZE
       then Ok (True, c\<lparr>hc_skip_flush_count := 3\<rparr>)
       else Ok (False, c\<lparr>hc_skip_flush_count := hc_skip_flush_count c - 1\<rparr>))"

definition flush_bitfield_and_tree_and_oplog ::
  "'it libs \<Rightarrow> 'd random_access \<Rightarrow> bool \<Rightarrow> ('d, unit) core_op" where
  "flush_bitfield_and_tree_and_oplog L ra clear_traces =
     bindC (stepC (\<lambda>c. bindR (dyn_flush (hc_bitfield c)) (\<lambda>(b, infos). Ok (infos, c\<lparr>hc_bitfield := b\<rparr>)))) (\<lambda>infos.
     bindC (core_flush_infos ra infos) (\<lambda>_.
     bindC (stepC (\<lambda>c. bindR (mt_flush L (hc_tree c)) (\<lambda>(t, infos). Ok (infos, c\<lparr>hc_tree := t\<rparr>)))) (\<lambda>infos.
     bindC (core_flush_infos ra infos) (\<lambda>_.
     bindC (stepC (\<lambda>c. bindR (oplog_flush L (hc_oplog c) (hc_header c) clear_traces) (\<lambda>(o', infos).
       Ok (infos, c\<lparr>hc_oplog := o'\<rparr>)))) (\<lambda>infos.
     core_flush_infos ra infos)))))"

text \<open>The end of every operation that writes: lines 325-327, 449-451 and 566-568.\<close>

definition maybe_flush :: "'it libs \<Rightarrow> 'd random_access \<Rightarrow> ('d, unit) core_op" where
  "maybe_flush L ra =
     bindC should_flush_bitfield_and_tree_and_oplog (\<lambda>flush.
     if flush then flush_bitfield_and_tree_and_oplog L ra False else readC (\<lambda>_. Ok ()))"

text \<open>Append a changeset to the oplog and take the header over: lines 306-313 and 545-552.\<close>

definition log_changeset ::
  "'it libs \<Rightarrow> 'd random_access \<Rightarrow> changeset \<Rightarrow> bitfield_update option \<Rightarrow> ('d, unit) core_op" where
  "log_changeset L ra cg bu =
     bindC (stepC (\<lambda>c. bindR (append_changeset L (hc_oplog c) cg bu False (hc_header c)) (\<lambda>(o', out).
       Ok (out, c\<lparr>hc_oplog := o'\<rparr>)))) (\<lambda>out.
     bindC (core_flush_infos ra (och_infos_to_flush out)) (\<lambda>_.
     modifyC (\<lambda>c. c\<lparr>hc_header := och_header out\<rparr>)))"

text \<open>Write to the bitfield and bring the contiguous length up to date: lines 316-319 and 556-559.\<close>

definition update_bitfield :: "bitfield_update \<Rightarrow> ('d, unit) core_op" where
  "update_bitfield bu =
     bindC (stepC (\<lambda>c. bindR (dyn_update (hc_bitfield c) bu) (\<lambda>b. Ok ((), c\<lparr>hc_bitfield := b\<rparr>)))) (\<lambda>_.
     stepC (\<lambda>c. bindR (update_contiguous_length (hc_header c) (hc_bitfield c) bu) (\<lambda>h.
       Ok ((), c\<lparr>hc_header := h\<rparr>))))"

definition core_commit :: "'it libs \<Rightarrow> changeset \<Rightarrow> ('d, unit) core_op" where
  "core_commit L cg =
     stepC (\<lambda>c. bindR (mt_commit L (hc_tree c) cg) (\<lambda>t. Ok ((), c\<lparr>hc_tree := t\<rparr>)))"

definition core_send :: "event \<Rightarrow> ('d, unit) core_op" where
  "core_send e = modifyC (\<lambda>c. c\<lparr>hc_events := events_send (hc_events c) e\<rparr>)"

section \<open>Reading through the store\<close>

text \<open>The loop of \<open>byte_range\<close>, \<open>create_valueless_proof\<close> and
  \<open>missing_nodes_from_merkle_tree_index\<close>: ask the tree, read what it asks for, ask again with
  everything read so far.\<close>

fun read_loop ::
  "nat \<Rightarrow> 'd random_access \<Rightarrow> 'd storage \<Rightarrow> (store_info list \<Rightarrow> (instructions + 'a) hres) \<Rightarrow>
    store_info list \<Rightarrow> instructions \<Rightarrow> 'a hres" where
  "read_loop 0 ra s ask infos instrs = Diverge"
| "read_loop (Suc fuel) ra s ask infos instrs =
     bindR (read_infos ra s instrs) (\<lambda>new.
     bindR (ask (infos @ new)) (\<lambda>r.
     case r of Inr v \<Rightarrow> Ok v | Inl instrs \<Rightarrow> read_loop fuel ra s ask (infos @ new) instrs))"

definition core_byte_range ::
  "'it libs \<Rightarrow> 'd random_access \<Rightarrow> 'd hypercore \<Rightarrow> u64 \<Rightarrow> store_info list option \<Rightarrow> node_byte_range hres" where
  "core_byte_range L ra c index initial_infos =
     bindR (byte_range L (hc_tree c) index initial_infos) (\<lambda>r.
     case r of
       Inr v \<Rightarrow> Ok v
     | Inl instrs \<Rightarrow>
         read_loop (lib_fuel L) ra (hc_storage c) (\<lambda>infos. byte_range L (hc_tree c) index (Some infos)) [] instrs)"

definition core_create_valueless_proof ::
  "'it libs \<Rightarrow> 'd random_access \<Rightarrow> 'd hypercore \<Rightarrow> request_block option \<Rightarrow> request_block option \<Rightarrow>
    request_seek option \<Rightarrow> request_upgrade option \<Rightarrow> valueless_proof hres" where
  "core_create_valueless_proof L ra c block hash seek upgrade =
     bindR (create_valueless_proof L (hc_tree c) block hash seek upgrade None) (\<lambda>r.
     case r of
       Inr v \<Rightarrow> Ok v
     | Inl instrs \<Rightarrow>
         read_loop (lib_fuel L) ra (hc_storage c)
           (\<lambda>infos. create_valueless_proof L (hc_tree c) block hash seek upgrade (Some infos)) [] instrs)"

definition core_verify_proof ::
  "'it libs \<Rightarrow> 'd random_access \<Rightarrow> 'd hypercore \<Rightarrow> proof_msg \<Rightarrow> changeset hres" where
  "core_verify_proof L ra c pf =
     bindR (verify_proof L (hc_tree c) pf (kp_public (hc_key_pair c)) None) (\<lambda>r.
     case r of
       Inr v \<Rightarrow> Ok v
     | Inl instrs \<Rightarrow>
         bindR (read_infos ra (hc_storage c) instrs) (\<lambda>infos.
         bindR (verify_proof L (hc_tree c) pf (kp_public (hc_key_pair c)) (Some infos)) (\<lambda>r.
         case r of Inr v \<Rightarrow> Ok v | Inl _ \<Rightarrow> Err InvalidOperation)))"

definition missing_nodes_from_merkle_tree_index ::
  "'it libs \<Rightarrow> 'd random_access \<Rightarrow> u64 \<Rightarrow> ('d, u64) core_op" where
  "missing_nodes_from_merkle_tree_index L ra merkle_tree_index =
     readC (\<lambda>c.
       bindR (missing_nodes L (hc_tree c) merkle_tree_index None) (\<lambda>r.
       case r of
         Inr v \<Rightarrow> Ok v
       | Inl instrs \<Rightarrow>
           read_loop (lib_fuel L) ra (hc_storage c)
             (\<lambda>infos. missing_nodes L (hc_tree c) merkle_tree_index (Some infos)) [] instrs))"

definition core_missing_nodes :: "'it libs \<Rightarrow> 'd random_access \<Rightarrow> u64 \<Rightarrow> ('d, u64) core_op" where
  "core_missing_nodes L ra index = missing_nodes_from_merkle_tree_index L ra (index * 2)"

section \<open>Operations\<close>

definition core_info :: "'d hypercore \<Rightarrow> core_info_record" where
  "core_info c =
     \<lparr>ci_length = mt_length (hc_tree c), ci_byte_length = mt_byte_length (hc_tree c),
      ci_contiguous_length = hh_contiguous_length (h_hints (hc_header c)),
      ci_fork = mt_fork (hc_tree c), ci_writeable = (kp_secret (hc_key_pair c) \<noteq> None)\<rparr>"

fun append_all :: "'it libs \<Rightarrow> changeset \<Rightarrow> bytes list \<Rightarrow> nat \<Rightarrow> (changeset \<times> nat) hres" where
  "append_all L cg [] batch_length = Ok (cg, batch_length)"
| "append_all L cg (data # batch) batch_length =
     bindR (changeset_append L cg data) (\<lambda>(cg, len). append_all L cg batch (batch_length + len))"

definition core_append_batch ::
  "'it libs \<Rightarrow> 'd random_access \<Rightarrow> bytes list \<Rightarrow> ('d, append_outcome) core_op" where
  "core_append_batch L ra batch =
     bindC (readC (\<lambda>c. case kp_secret (hc_key_pair c) of Some key \<Rightarrow> Ok key | None \<Rightarrow> Err NotWritable)) (\<lambda>secret_key.
     bindC (if batch \<noteq> [] then
              bindC (readC (\<lambda>c.
                bindR (append_all L (mt_changeset (hc_tree c)) batch 0) (\<lambda>(cg, batch_length).
                bindR (hash_and_sign L cg secret_key) (\<lambda>cg.
                Ok (cg, append_batch batch batch_length (mt_byte_length (hc_tree c))))))) (\<lambda>(cg, info).
              bindC (core_flush_infos ra [info]) (\<lambda>_.
              let bu = \<lparr>bu_drop = False, bu_start = cg_ancestors cg, bu_length = cg_batch_length cg\<rparr>
              in bindC (log_changeset L ra cg (Some bu)) (\<lambda>_.
                 bindC (update_bitfield bu) (\<lambda>_.
                 bindC (core_commit L cg) (\<lambda>_.
                 bindC (maybe_flush L ra) (\<lambda>_.
                 bindC (core_send DataUpgrade) (\<lambda>_.
                 core_send (Have (have_from bu)))))))))
            else readC (\<lambda>_. Ok ())) (\<lambda>_.
     readC (\<lambda>c. Ok \<lparr>ao_length = mt_length (hc_tree c), ao_byte_length = mt_byte_length (hc_tree c)\<rparr>)))"

definition core_append :: "'it libs \<Rightarrow> 'd random_access \<Rightarrow> bytes \<Rightarrow> ('d, append_outcome) core_op" where
  "core_append L ra data = core_append_batch L ra [data]"

definition core_has :: "'d hypercore \<Rightarrow> u64 \<Rightarrow> bool hres" where
  "core_has c index = dyn_get (hc_bitfield c) index"

definition core_get :: "'it libs \<Rightarrow> 'd random_access \<Rightarrow> u64 \<Rightarrow> ('d, bytes option) core_op" where
  "core_get L ra index =
     bindC (readC (\<lambda>c. dyn_get (hc_bitfield c) index)) (\<lambda>present.
     if \<not> present then
       bindC (modifyC (\<lambda>c. c\<lparr>hc_events := send_on_get (hc_events c) index\<rparr>)) (\<lambda>_. readC (\<lambda>_. Ok None))
     else
       readC (\<lambda>c.
         bindR (core_byte_range L ra c index None) (\<lambda>br.
         bindR (block_read br None) (\<lambda>r.
         bindR (case r of
                  Inr v \<Rightarrow> Ok v
                | Inl instr \<Rightarrow>
                    bindR (read_info ra (hc_storage c) instr) (\<lambda>info.
                    bindR (block_read br (Some info)) (\<lambda>r.
                    case r of Inr v \<Rightarrow> Ok v | Inl _ \<Rightarrow> Err InvalidOperation))) (\<lambda>data.
         Ok (Some data))))))"

text \<open>The hole that \<open>clear\<close> punches: lines 410-442.\<close>

definition clear_range ::
  "'it libs \<Rightarrow> 'd random_access \<Rightarrow> 'd hypercore \<Rightarrow> u64 \<Rightarrow> u64 \<Rightarrow> (u64 \<times> u64) hres" where
  "clear_range L ra c start e =
     bindR (dyn_last_index_of (hc_bitfield c) True start) (\<lambda>r.
     let start = (case r of Some index \<Rightarrow> index + 1 | None \<Rightarrow> 0)
     in bindR (dyn_index_of (hc_bitfield c) True e) (\<lambda>r.
        let e = (case r of Some index \<Rightarrow> index | None \<Rightarrow> mt_length (hc_tree c))
        in bindR (byte_offset L (hc_tree c) start None) (\<lambda>r.
           bindR (case r of
                    Inr v \<Rightarrow> Ok (v, [])
                  | Inl instrs \<Rightarrow>
                      bindR (read_infos ra (hc_storage c) instrs) (\<lambda>infos.
                      bindR (byte_offset L (hc_tree c) start (Some infos)) (\<lambda>r.
                      case r of Inr v \<Rightarrow> Ok (v, infos) | Inl _ \<Rightarrow> Err InvalidOperation))) (\<lambda>(clear_offset, infos).
           bindR (core_byte_range L ra c (e - 1) (Some infos)) (\<lambda>last_byte_range.
           Ok (clear_offset, (nbr_index last_byte_range + nbr_length last_byte_range) - clear_offset))))))"

definition core_clear :: "'it libs \<Rightarrow> 'd random_access \<Rightarrow> u64 \<Rightarrow> u64 \<Rightarrow> ('d, unit) core_op" where
  "core_clear L ra start e =
     (if start \<ge> e then readC (\<lambda>_. Ok ())
      else
        bindC (stepC (\<lambda>c. bindR (oplog_clear L (hc_oplog c) start e) (\<lambda>(o', infos).
          Ok (infos, c\<lparr>hc_oplog := o'\<rparr>)))) (\<lambda>infos.
        bindC (core_flush_infos ra infos) (\<lambda>_.
        bindC (stepC (\<lambda>c. bindR (dyn_set_range (hc_bitfield c) start (e - start) False) (\<lambda>b.
          Ok ((), c\<lparr>hc_bitfield := b\<rparr>)))) (\<lambda>_.
        bindC (modifyC (\<lambda>c.
          if start < hh_contiguous_length (h_hints (hc_header c))
          then c\<lparr>hc_header := (hc_header c)\<lparr>h_hints := (h_hints (hc_header c))\<lparr>hh_contiguous_length := start\<rparr>\<rparr>\<rparr>
          else c)) (\<lambda>_.
        bindC (readC (\<lambda>c. clear_range L ra c start e)) (\<lambda>(clear_offset, clear_length).
        bindC (core_flush_infos ra [block_clear clear_offset clear_length]) (\<lambda>_.
        maybe_flush L ra)))))))"

definition core_create_proof ::
  "'it libs \<Rightarrow> 'd random_access \<Rightarrow> request_block option \<Rightarrow> request_block option \<Rightarrow> request_seek option \<Rightarrow>
    request_upgrade option \<Rightarrow> ('d, proof_msg option) core_op" where
  "core_create_proof L ra block hash seek upgrade =
     bindC (readC (\<lambda>c. core_create_valueless_proof L ra c block hash seek upgrade)) (\<lambda>vp.
     case vp_block vp of
       Some block \<Rightarrow>
         bindC (core_get L ra (dh_index block)) (\<lambda>val.
         readC (\<lambda>_. case val of None \<Rightarrow> Ok None | Some _ \<Rightarrow> bindR (into_proof vp val) (\<lambda>p. Ok (Some p))))
     | None \<Rightarrow> readC (\<lambda>_. bindR (into_proof vp None) (\<lambda>p. Ok (Some p))))"

text \<open>Store the block of a proof: lines 502-542.\<close>

definition apply_block ::
  "'it libs \<Rightarrow> 'd random_access \<Rightarrow> changeset \<Rightarrow> data_block option \<Rightarrow> ('d, bitfield_update option) core_op" where
  "apply_block L ra cg block =
     (case block of
        Some block \<Rightarrow>
          bindC (readC (\<lambda>c.
            bindR (byte_offset_in_changeset L (hc_tree c) (dblk_index block) cg None) (\<lambda>r.
            case r of
              Inr v \<Rightarrow> Ok v
            | Inl instrs \<Rightarrow>
                bindR (read_infos ra (hc_storage c) instrs) (\<lambda>infos.
                bindR (byte_offset_in_changeset L (hc_tree c) (dblk_index block) cg (Some infos)) (\<lambda>r.
                case r of Inr v \<Rightarrow> Ok v | Inl _ \<Rightarrow> Err InvalidOperation))))) (\<lambda>byte_offset.
          bindC (core_flush_infos ra [block_put (dblk_value block) byte_offset]) (\<lambda>_.
          readC (\<lambda>_. Ok (Some \<lparr>bu_drop = False, bu_start = dblk_index block, bu_length = 1\<rparr>))))
      | None \<Rightarrow> readC (\<lambda>_. Ok None))"

definition verify_and_apply_proof ::
  "'it libs \<Rightarrow> 'd random_access \<Rightarrow> proof_msg \<Rightarrow> ('d, bool) core_op" where
  "verify_and_apply_proof L ra pf =
     bindC (readC (\<lambda>c. Ok (mt_fork (hc_tree c)))) (\<lambda>fork.
     if pf_fork pf \<noteq> fork then readC (\<lambda>_. Ok False)
     else
       bindC (readC (\<lambda>c. core_verify_proof L ra c pf)) (\<lambda>cg.
       bindC (readC (\<lambda>c. Ok (commitable (hc_tree c) cg))) (\<lambda>ok.
       if \<not> ok then readC (\<lambda>_. Ok False)
       else
         bindC (apply_block L ra cg (pf_block pf)) (\<lambda>bu.
         bindC (log_changeset L ra cg bu) (\<lambda>_.
         bindC (case bu of Some bu \<Rightarrow> update_bitfield bu | None \<Rightarrow> readC (\<lambda>_. Ok ())) (\<lambda>_.
         bindC (core_commit L cg) (\<lambda>_.
         bindC (maybe_flush L ra) (\<lambda>_.
         bindC (if pf_upgrade pf \<noteq> None then core_send DataUpgrade else readC (\<lambda>_. Ok ())) (\<lambda>_.
         bindC (case bu of Some bu \<Rightarrow> core_send (Have (have_from bu)) | None \<Rightarrow> readC (\<lambda>_. Ok ())) (\<lambda>_.
         readC (\<lambda>_. Ok True)))))))))))"

definition make_read_only :: "'it libs \<Rightarrow> 'd random_access \<Rightarrow> ('d, bool) core_op" where
  "make_read_only L ra =
     bindC (readC (\<lambda>c. Ok (kp_secret (hc_key_pair c) \<noteq> None))) (\<lambda>writeable.
     if writeable then
       bindC (modifyC (\<lambda>c. c\<lparr>hc_key_pair := (hc_key_pair c)\<lparr>kp_secret := None\<rparr>,
         hc_header := (hc_header c)\<lparr>h_key_pair := (h_key_pair (hc_header c))\<lparr>kp_secret := None\<rparr>\<rparr>\<rparr>)) (\<lambda>_.
       bindC (flush_bitfield_and_tree_and_oplog L ra True) (\<lambda>_.
       readC (\<lambda>_. Ok True)))
     else readC (\<lambda>_. Ok False))"

end
