(* ===== verification/Core_Open.thy ===== *)
theory Core_Open
  imports Core
begin

text \<open>
  \<open>Hypercore::new\<close> of \<^verbatim>\<open>src/src/core.rs\<close>, which opens a stored core or makes a new one and
  replays the entries of the log, and the builder of \<^verbatim>\<open>src/src/builder.rs\<close> in front of it.
\<close>

section \<open>Opening the parts\<close>

definition open_oplog ::
  "'it libs \<Rightarrow> 'd random_access \<Rightarrow> 'd storage \<Rightarrow> partial_keypair option \<Rightarrow> oplog_open_outcome hres" where
  "open_oplog L ra s key_pair =
     bindR (oplog_open L key_pair None) (\<lambda>r.
     case r of
       Inr v \<Rightarrow> Ok v
     | Inl instr \<Rightarrow>
         bindR (read_info ra s instr) (\<lambda>info.
         bindR (oplog_open L key_pair (Some info)) (\<lambda>r.
         case r of Inr v \<Rightarrow> Ok v | Inl _ \<Rightarrow> Err InvalidOperation)))"

definition open_tree ::
  "'it libs \<Rightarrow> 'd random_access \<Rightarrow> 'd storage \<Rightarrow> header_tree \<Rightarrow> merkle_tree hres" where
  "open_tree L ra s ht =
     bindR (mt_open L ht None) (\<lambda>r.
     case r of
       Inr v \<Rightarrow> Ok v
     | Inl instrs \<Rightarrow>
         bindR (read_infos ra s instrs) (\<lambda>infos.
         bindR (mt_open L ht (Some infos)) (\<lambda>r.
         case r of Inr v \<Rightarrow> Ok v | Inl _ \<Rightarrow> Err InvalidOperation)))"

definition open_bitfield :: "'d random_access \<Rightarrow> 'd storage \<Rightarrow> dynamic_bitfield hres" where
  "open_bitfield ra s =
     bindR (dyn_open None) (\<lambda>r.
     case r of
       Inr v \<Rightarrow> Ok v
     | Inl instr \<Rightarrow>
         bindR (read_info ra s instr) (\<lambda>info.
         bindR (dyn_open (Some info)) (\<lambda>r.
         case r of
           Inr v \<Rightarrow> Ok v
         | Inl instr \<Rightarrow>
             bindR (read_info ra s instr) (\<lambda>info.
             bindR (dyn_open (Some info)) (\<lambda>r.
             case r of Inr v \<Rightarrow> Ok v | Inl _ \<Rightarrow> Err InvalidOperation)))))"

section \<open>Replaying the log\<close>

text \<open>Bring one tree upgrade of the log into the header and the tree: lines 191-234.\<close>

definition replay_upgrade ::
  "'it libs \<Rightarrow> 'd random_access \<Rightarrow> 'd storage \<Rightarrow> entry_tree_upgrade \<Rightarrow> header \<times> merkle_tree \<Rightarrow>
    (header \<times> merkle_tree) hres" where
  "replay_upgrade L ra s u acc =
     (case acc of (h, t) \<Rightarrow>
     bindR (mt_truncate L t (etu_length u) (etu_fork u) None) (\<lambda>r.
     bindR (case r of
              Inr cg \<Rightarrow> Ok cg
            | Inl instrs \<Rightarrow>
                bindR (read_infos ra s instrs) (\<lambda>infos.
                bindR (mt_truncate L t (etu_length u) (etu_fork u) (Some infos)) (\<lambda>r.
                case r of Inr cg \<Rightarrow> Ok cg | Inl _ \<Rightarrow> Err InvalidOperation))) (\<lambda>cg.
     let cg = cg\<lparr>cg_ancestors := etu_ancestors u\<rparr>
     in bindR (changeset_hash L cg) (\<lambda>hash.
        bindR (case signature_try_from (etu_signature u) of
                 None \<Rightarrow> Err InvalidSignature
               | Some sig \<Rightarrow> Ok sig) (\<lambda>sig.
        let cg = cg\<lparr>cg_hash := Some hash, cg_signature := Some sig\<rparr>
        in bindR (update_header_with_changeset cg None h) (\<lambda>(h, e).
           bindR (mt_commit L t cg) (\<lambda>t. Ok (h, t))))))))"

definition replay_entry ::
  "'it libs \<Rightarrow> 'd random_access \<Rightarrow> 'd storage \<Rightarrow> entry \<Rightarrow> header \<times> merkle_tree \<times> dynamic_bitfield \<Rightarrow>
    (header \<times> merkle_tree \<times> dynamic_bitfield) hres" where
  "replay_entry L ra s e acc =
     (case acc of (h, t, b) \<Rightarrow>
      let t = fold (\<lambda>n t. add_node t n) (e_tree_nodes e) t
      in bindR (case e_bitfield e of
                  Some bu \<Rightarrow>
                    bindR (dyn_update b bu) (\<lambda>b.
                    bindR (update_contiguous_length h b bu) (\<lambda>h. Ok (h, b)))
                | None \<Rightarrow> Ok (h, b)) (\<lambda>(h, b).
         bindR (case e_tree_upgrade e of
                  Some u \<Rightarrow> replay_upgrade L ra s u (h, t)
                | None \<Rightarrow> Ok (h, t)) (\<lambda>(h, t).
         Ok (h, t, b))))"

fun replay_entries ::
  "'it libs \<Rightarrow> 'd random_access \<Rightarrow> 'd storage \<Rightarrow> entry list \<Rightarrow> header \<times> merkle_tree \<times> dynamic_bitfield \<Rightarrow>
    (header \<times> merkle_tree \<times> dynamic_bitfield) hres" where
  "replay_entries L ra s [] acc = Ok acc"
| "replay_entries L ra s (e # es) acc = bindR (replay_entry L ra s e acc) (\<lambda>acc. replay_entries L ra s es acc)"

section \<open>\<open>Hypercore::new\<close>\<close>

text \<open>\<open>generated\<close> is the key that \<open>generate_signing_key\<close> draws.\<close>

definition core_new ::
  "'it libs \<Rightarrow> 'd random_access \<Rightarrow> bytes \<Rightarrow> 'd storage \<Rightarrow> hypercore_options \<Rightarrow> 'd hypercore hres" where
  "core_new L ra generated s options =
     bindR (if ho_open options then
              if ho_key_pair options \<noteq> None then Err BadArgument else Ok None
            else
              Ok (Some (case ho_key_pair options of
                Some kp \<Rightarrow> kp
              | None \<Rightarrow> \<lparr>kp_public = cr_verifying_key (lib_cr L) generated, kp_secret = Some generated\<rparr>))) (\<lambda>key_pair.
     bindR (open_oplog L ra s key_pair) (\<lambda>out.
     bindR (flush_infos ra s (ooo_infos_to_flush out)) (\<lambda>s.
     bindR (open_tree L ra s (h_tree (ooo_header out))) (\<lambda>t.
     bindR (open_bitfield ra s) (\<lambda>b.
     bindR (case ooo_entries out of
              Some entries \<Rightarrow> replay_entries L ra s entries (ooo_header out, t, b)
            | None \<Rightarrow> Ok (ooo_header out, t, b)) (\<lambda>(h, t, b).
     Ok \<lparr>hc_key_pair = h_key_pair h, hc_storage = s, hc_oplog = ooo_oplog out, hc_tree = t,
         hc_bitfield = b, hc_skip_flush_count = 0, hc_header = h, hc_events = events_new\<rparr>))))))"

section \<open>The builder\<close>

record 'd hypercore_builder =
  hb_storage :: "'d storage"
  hb_options :: hypercore_options

definition builder_new :: "'d storage \<Rightarrow> 'd hypercore_builder" where
  "builder_new s = \<lparr>hb_storage = s, hb_options = hypercore_options_new\<rparr>"

definition builder_key_pair :: "'d hypercore_builder \<Rightarrow> partial_keypair \<Rightarrow> 'd hypercore_builder" where
  "builder_key_pair hb kp = hb\<lparr>hb_options := (hb_options hb)\<lparr>ho_key_pair := Some kp\<rparr>\<rparr>"

definition builder_open :: "'d hypercore_builder \<Rightarrow> bool \<Rightarrow> 'd hypercore_builder" where
  "builder_open hb op = hb\<lparr>hb_options := (hb_options hb)\<lparr>ho_open := op\<rparr>\<rparr>"

definition builder_build ::
  "'it libs \<Rightarrow> 'd random_access \<Rightarrow> bytes \<Rightarrow> 'd hypercore_builder \<Rightarrow> 'd hypercore hres" where
  "builder_build L ra generated hb = core_new L ra generated (hb_storage hb) (hb_options hb)"

end
