(* ===== verification/Oplog_Storage.thy ===== *)
theory Oplog_Storage
  imports Oplog Storage
begin

text \<open>
  The operation log on its store: how the files that \<open>fresh\<close>, \<open>append_entries\<close> and \<open>flush\<close>
  leave behind look, and that \<open>open\<close> reads the last flushed header and the entries appended
  since out of every one of them.  \<open>oplog_reach\<close> is the state machine of the log: every
  sequence of those operations, each with its writes.
\<close>

section \<open>The image of a log\<close>

definition entry_frames :: "'it libs \<Rightarrow> wire_format \<Rightarrow> bool \<Rightarrow> entry list \<Rightarrow> bytes" where
  "entry_frames L w hb es = concat (map (\<lambda>e. framed L w hb False (wire_entry w e)) es)"

definition slot_bit :: "bool \<times> bool \<Rightarrow> oplog_slot \<Rightarrow> bool" where
  "slot_bit bits slot = (if slot = FirstHeader then fst bits else snd bits)"

definition slot_holds :: "'it libs \<Rightarrow> wire_format \<Rightarrow> bytes \<Rightarrow> bool \<times> bool \<Rightarrow> oplog_slot \<Rightarrow> header \<Rightarrow> bool" where
  "slot_holds L w f bits slot h \<longleftrightarrow> header_fits L w h \<and>
     holds_at f (slot_offset slot) (framed L w (slot_bit bits slot) False (wire_header w h))"

definition oplog_image ::
  "'it libs \<Rightarrow> wire_format \<Rightarrow> bytes \<Rightarrow> bool \<times> bool \<Rightarrow> bool \<Rightarrow> header \<Rightarrow> entry list \<Rightarrow> bool" where
  "oplog_image L w f bits hb h es \<longleftrightarrow>
     list_all (entry_fits L w) es \<and>
     length f = 8192 + length (entry_frames L w hb es) \<and>
     holds_at f 8192 (entry_frames L w hb es) \<and>
     slot_holds L w f bits (newest_slot bits) h \<and>
     (case newest_slot bits of
        FirstHeader \<Rightarrow> holds_at f 4096 (replicate 8 0) \<or> (\<exists>h'. slot_holds L w f bits SecondHeader h')
      | _ \<Rightarrow> \<exists>h'. slot_holds L w f bits FirstHeader h')"

inductive oplog_reach ::
  "'it libs \<Rightarrow> wire_format \<Rightarrow> 'd random_access \<Rightarrow> ('d \<Rightarrow> bytes) \<Rightarrow>
    'd storage \<Rightarrow> oplog \<Rightarrow> header \<Rightarrow> entry list \<Rightarrow> bool"
  for L w ra content where
  fresh: "stored content s Oplog = [] \<Longrightarrow> key_pair_ok L kp \<Longrightarrow> oplog_fresh L kp = Ok out \<Longrightarrow>
    flush_infos ra s (ooo_infos_to_flush out) = Ok s' \<Longrightarrow>
    oplog_reach L w ra content s' (ooo_oplog out) (ooo_header out) []"
| append: "oplog_reach L w ra content s o' h es \<Longrightarrow> entry_fits L w e \<Longrightarrow>
    length (stored content s Oplog) + 8 + length (wire_entry w e) \<le> MAX_FILE \<Longrightarrow>
    append_entries L o' [e] atomic = Ok (o1, infos) \<Longrightarrow> flush_infos ra s infos = Ok s' \<Longrightarrow>
    oplog_reach L w ra content s' o1 h (es @ [e])"
| flush: "oplog_reach L w ra content s o' h es \<Longrightarrow> header_fits L w h' \<Longrightarrow>
    oplog_flush L o' h' clear = Ok (o1, infos) \<Longrightarrow> flush_infos ra s infos = Ok s' \<Longrightarrow>
    oplog_reach L w ra content s' o1 h' []"


declare slot_offset.simps [simp del]

lemma slot_offset_simps [simp]:
  "slot_offset FirstHeader = 0" "slot_offset SecondHeader = 4096" "slot_offset Entries = 8192"
  by (simp_all add: slot_offset.simps HEADER_SIZE_def)

context libs_laws
begin

lemma validate_zeros:
  assumes "holds_at f p (replicate 8 0)"
  shows "validate_leader L p f = Ok None"
proof -
  have "replicate 8 (0 :: u8) = w_u32 w 0 @ w_u32 w 0"
    by (simp add: cenc.w_u32_zero replicate_add [symmetric])
  with assms have at: "holds_at f p (w_u32 w 0)" "holds_at f (p + 4) (w_u32 w 0)"
    by (simp_all add: holds_at_append cenc.length_w_u32)
  let ?st = "\<lparr>cs_start = p, cs_end = length f\<rparr> :: cstate"
  have le: "p + 8 \<le> length f" using assms by (simp add: holds_at_def)
  have "ce_dec_u32 (lib_ce L) f ?st = Ok (0, advance 4 ?st)"
    "ce_dec_u32 (lib_ce L) f (advance 4 ?st) = Ok (0, advance 8 ?st)"
    using cenc.u32c.dec_law [of f ?st 0] cenc.u32c.dec_law [of f "advance 4 ?st" 0] at le
    by (simp_all add: room_def cenc.length_w_u32)
  then show ?thesis
    using le by (simp add: validate_leader_def Let_def)
qed

lemma wire_header_nonempty: "wire_header w h \<noteq> []"
  by (simp add: wire_header_def)

lemma slot_valid:
  assumes "slot_holds L w f bits slot h" "length f < MAX_USIZE"
  defines "v \<equiv> \<lparr>vl_state = \<lparr>cs_start = slot_offset slot + 8, cs_end = slot_offset slot + 8 + length (wire_header w h)\<rparr>,
    vl_header_bit = slot_bit bits slot, vl_partial_bit = False\<rparr>"
  shows "validate_leader L (slot_offset slot) f = Ok (Some v)" "decode_header L f v = Ok h"
proof -
  have fits: "header_ok L h" "length (wire_header w h) < 2 ^ 30"
    and at: "holds_at f (slot_offset slot) (framed L w (slot_bit bits slot) False (wire_header w h))"
    using assms(1) by (auto simp: slot_holds_def header_fits_def HEADER_SIZE_def)
  show "validate_leader L (slot_offset slot) f = Ok (Some v)"
    using validate_leader_eq [OF at wire_header_nonempty fits(2) assms(2)] by (simp add: v_def)
  have "holds_at f (slot_offset slot + 8) (wire_header w h)"
    using at by (simp add: framed_def holds_at_append length_leader)
  then show "decode_header L f v = Ok h"
    using headerc.dec_law [of f "vl_state v" h] fits(1)
    by (simp add: decode_header_def v_def room_def holds_at_def)
qed

lemma open_entries_eq:
  assumes img: "oplog_image L w f bits hb h es" and small: "length f < MAX_USIZE"
  shows "open_entries L f out = Ok (if es = [] then out else out\<lparr>ooo_entries := Some es\<rparr>)"
proof -
  let ?xs = "map (\<lambda>e. (e, False, hb)) es"
  have len: "length f = 8192 + length (entry_frames L w hb es)"
    and at: "holds_at f 8192 (entry_frames L w hb es)" and fits: "list_all (entry_fits L w) es"
    using img unfolding oplog_image_def by blast+
  show ?thesis
  proof (cases "es = []")
    case True
    then show ?thesis using len by (simp add: open_entries_def entry_frames_def)
  next
    case False
    have frames: "concat (map (\<lambda>(e, pb, hb). framed L w hb pb (wire_entry w e)) ?xs) = entry_frames L w hb es"
      by (simp add: entry_frames_def comp_def)
    have le: "length es \<le> length (entry_frames L w hb es)"
      unfolding entry_frames_def by (induction es) (auto simp: length_framed)
    have "read_entries L (length f) f 8192 [] [] = Ok ([] @ map fst ?xs, [] @ map (fst \<circ> snd) ?xs)"
    proof (rule read_entries_eq, unfold frames)
      show "list_all (\<lambda>(e, pb, hb). entry_fits L w e) ?xs" using fits by (simp add: list_all_iff)
      show "length ?xs < length f" using le len by simp
      show "validate_leader L (8192 + length (entry_frames L w hb es)) f = Ok None"
        using len by (intro validate_leader_end) simp
    qed (fact small at)+
    moreover have "drop_partials (lib_fuel L) (map (\<lambda>e. False) es) es = Ok es"
      using enough_fuel by (intro drop_partials_complete) (auto simp: last_map)
    moreover have "entry_frames L w hb es \<noteq> []" using False le by (cases es) auto
    ultimately show ?thesis
      using len le False by (simp add: open_entries_def comp_def)
  qed
qed

text \<open>Opening an image gives its header and its entries.\<close>

lemma open_image:
  assumes img: "oplog_image L w f bits hb h es" and small: "length f < MAX_USIZE"
  shows "oplog_open L kp (Some (si_new_content Oplog 0 f)) = Ok (Inr
    \<lparr>ooo_oplog = \<lparr>op_header_bits = bits, op_entries_length = 0, op_entries_byte_length = 0\<rparr>,
     ooo_header = h, ooo_infos_to_flush = [], ooo_entries = (if es = [] then None else Some es)\<rparr>)"
proof (cases "newest_slot bits")
  case FirstHeader
  then have bits: "fst bits = snd bits" by (simp add: newest_slot_def split: if_splits)
  have h: "slot_holds L w f bits FirstHeader h" using img FirstHeader by (simp add: oplog_image_def)
  note v1 = slot_valid [OF h small]
  consider "holds_at f 4096 (replicate 8 0)" | h' where "slot_holds L w f bits SecondHeader h'"
    using img FirstHeader by (auto simp: oplog_image_def)
  then show ?thesis
  proof cases
    case 1
    then show ?thesis
      using v1 validate_zeros [OF 1] open_entries_eq [OF img small] bits
      by (cases bits) (simp add: oplog_open_def si_new_content_def slot_bit_def oplog_open_outcome_new_def)
  next
    case 2
    then show ?thesis
      using v1 slot_valid(1) [OF 2 small] open_entries_eq [OF img small] bits
      by (cases bits) (simp add: oplog_open_def si_new_content_def slot_bit_def oplog_open_outcome_new_def)
  qed
next
  case SecondHeader
  then have bits: "fst bits \<noteq> snd bits" by (simp add: newest_slot_def split: if_splits)
  have h: "slot_holds L w f bits SecondHeader h" using img SecondHeader by (simp add: oplog_image_def)
  note v2 = slot_valid [OF h small]
  obtain h' where "slot_holds L w f bits FirstHeader h'"
    using img SecondHeader by (auto simp: oplog_image_def)
  then show ?thesis
    using v2 slot_valid(1) [of f bits FirstHeader h'] small open_entries_eq [OF img small] bits
    by (cases bits) (auto simp: oplog_open_def si_new_content_def slot_bit_def oplog_open_outcome_new_def)
next
  case Entries
  then show ?thesis by (simp add: newest_slot_def split: if_splits)
qed

end

section \<open>The invariant of the state machine\<close>

definition oplog_inv ::
  "'it libs \<Rightarrow> wire_format \<Rightarrow> ('d \<Rightarrow> bytes) \<Rightarrow> 'd storage \<Rightarrow> oplog \<Rightarrow> header \<Rightarrow> entry list \<Rightarrow> bool" where
  "oplog_inv L w content s o' h es \<longleftrightarrow>
     oplog_image L w (stored content s Oplog) (op_header_bits o') (get_current_header_bit o') h es \<and>
     op_entries_length o' = of_nat (length es) \<and>
     op_entries_byte_length o' = of_nat (length (stored content s Oplog) - 8192)"

text \<open>What a flush needs of the log: the newest header is in its slot.\<close>

definition oplog_slots :: "'it libs \<Rightarrow> wire_format \<Rightarrow> ('d \<Rightarrow> bytes) \<Rightarrow> 'd storage \<Rightarrow> oplog \<Rightarrow> bool" where
  "oplog_slots L w content s o' \<longleftrightarrow> 8192 \<le> length (stored content s Oplog) \<and>
     (\<exists>h. slot_holds L w (stored content s Oplog) (op_header_bits o') (newest_slot (op_header_bits o')) h)"

lemma image_oplog_slots:
  "oplog_image L w (stored content s Oplog) (op_header_bits o') hb h es \<Longrightarrow> oplog_slots L w content s o'"
  by (auto simp: oplog_image_def oplog_slots_def)

text \<open>A slot that holds nothing but a header, and the log store with the same header in both slots.\<close>

definition header_slot :: "'it libs \<Rightarrow> wire_format \<Rightarrow> bool \<Rightarrow> header \<Rightarrow> bytes" where
  "header_slot L w hb h = framed L w hb False (wire_header w h) @ replicate (HEADER_SIZE - 8 - length (wire_header w h)) 0"

definition header_slots :: "'it libs \<Rightarrow> wire_format \<Rightarrow> bool \<times> bool \<Rightarrow> header \<Rightarrow> bytes" where
  "header_slots L w bits h = header_slot L w (fst bits) h @ header_slot L w (snd bits) h"

lemma both_slots:
  assumes "holds_at f 0 x" "holds_at f 4096 y" "length x = 4096" "length y = 4096"
  shows "file_truncate f 8192 = x @ y"
proof -
  have le: "8192 \<le> length f" using assms(2,4) by (simp add: holds_at_def)
  have "take 8192 f = take 4096 f @ take 4096 (drop 4096 f)" using take_add [of 4096 4096 f] by simp
  also have "\<dots> = x @ y" using assms by (simp add: holds_at_def slice_def)
  finally show ?thesis using le by (simp add: file_truncate_prefix)
qed

locale device_laws = libs_laws L w + random_access_laws ra content
  for L :: "'it libs" and w :: wire_format and ra :: "'d random_access" and content :: "'d \<Rightarrow> bytes"
begin

lemma image_append:
  assumes "oplog_image L w f bits hb h es" "entry_fits L w e"
  shows "oplog_image L w (f @ framed L w hb False (wire_entry w e)) bits hb h (es @ [e])"
proof -
  have len: "length f = 8192 + length (entry_frames L w hb es)"
    using assms(1) by (simp add: oplog_image_def)
  have mono: "holds_at (f @ ys) p xs" if "holds_at f p xs" for p xs ys
    using that by (auto simp: holds_at_def slice_def)
  have "holds_at (f @ framed L w hb False (wire_entry w e)) (length f) (framed L w hb False (wire_entry w e))"
    using holds_at_mid [of f "framed L w hb False (wire_entry w e)" "[]"] by simp
  then show ?thesis
    using assms mono len unfolding oplog_image_def slot_holds_def
    by (auto simp: entry_frames_def holds_at_append split: oplog_slot.splits)
qed

lemma current_bit_upd [simp]:
  "get_current_header_bit (o'\<lparr>op_entries_length := a, op_entries_byte_length := b\<rparr>) = get_current_header_bit o'"
  by (simp add: get_current_header_bit_def)

lemma inv_append:
  assumes inv: "oplog_inv L w content s o' h es" and fits: "entry_fits L w e"
    and room: "length (stored content s Oplog) + 8 + length (wire_entry w e) \<le> MAX_FILE"
    and app: "append_entries L o' [e] atomic = Ok (o1, infos)" and fl: "flush_infos ra s infos = Ok s'"
  shows "oplog_inv L w content s' o1 h (es @ [e])"
proof -
  let ?f = "stored content s Oplog" and ?x = "framed L w (get_current_header_bit o') False (wire_entry w e)"
  have len: "8192 \<le> length ?f" using inv by (simp add: oplog_inv_def oplog_image_def)
  have off: "unat (8192 + op_entries_byte_length o') = length ?f"
    using inv len room by (simp add: oplog_inv_def unat_add_small unat_of_nat64 MAX_FILE_def)
  have o1: "o1 = o'\<lparr>op_entries_length := op_entries_length o' + 1,
       op_entries_byte_length := op_entries_byte_length o' + of_nat (8 + length (wire_entry w e))\<rparr>"
    and infos: "infos = [si_new_content Oplog (8192 + op_entries_byte_length o') ?x]"
    using app append_entry_eq [OF fits, of o' atomic] by simp_all
  have "unat (8192 + op_entries_byte_length o') + length ?x \<le> MAX_FILE"
    using off room by (simp add: length_framed)
  from flush_content [OF this, of s Oplog] fl have f': "stored content s' Oplog = ?f @ ?x"
    by (auto simp: infos off file_write_append)
  have "oplog_image L w (?f @ ?x) (op_header_bits o') (get_current_header_bit o') h (es @ [e])"
    using image_append [OF _ fits] inv by (simp add: oplog_inv_def)
  then show ?thesis
    using inv len by (simp add: oplog_inv_def f' o1 length_framed)
qed

text \<open>Writing behind the headers keeps them.\<close>

lemma slots_write:
  assumes "oplog_slots L w content s o'" "8192 \<le> off" "stored content s' Oplog = file_write (stored content s Oplog) off x"
    and "op_header_bits o1 = op_header_bits o'"
  shows "oplog_slots L w content s' o1"
proof -
  let ?f = "stored content s Oplog" and ?bits = "op_header_bits o'"
  obtain h where h: "slot_holds L w ?f ?bits (newest_slot ?bits) h" "8192 \<le> length ?f"
    using assms(1) by (auto simp: oplog_slots_def)
  have "slot_offset (newest_slot ?bits) \<le> 4096" by (simp add: newest_slot_def)
  with h assms(2) have "holds_at (file_write ?f off x) (slot_offset (newest_slot ?bits))
      (framed L w (slot_bit ?bits (newest_slot ?bits)) False (wire_header w h))"
    by (intro holds_at_file_write_other) (simp_all add: slot_holds_def length_framed header_fits_def HEADER_SIZE_def)
  with h assms(3,4) show ?thesis by (auto simp: oplog_slots_def slot_holds_def length_file_write)
qed

text \<open>Writing a header to the slot that is not the newest keeps the newest one.\<close>

lemma slots_after_write:
  fixes zs :: bytes
  assumes "header_fits L w h'" "slot_holds L w f bits (newest_slot bits) h"
  defines "x \<equiv> framed L w (snd (get_next_header_oplog_slot_and_bit_value bits)) False (wire_header w h') @ zs"
  assumes "length x \<le> 4096"
  defines "f' \<equiv> file_write f (slot_offset (newest_slot (next_bits bits))) x"
  shows "slot_holds L w f' (next_bits bits) (newest_slot (next_bits bits)) h'"
    "slot_holds L w f' (next_bits bits) (newest_slot bits) h"
    "slot_offset (newest_slot (next_bits bits)) + length x \<le> 8192" "x \<noteq> []"
proof -
  let ?bs = "next_bits bits" and ?new = "newest_slot (next_bits bits)"
  have bit: "snd (get_next_header_oplog_slot_and_bit_value bits) = slot_bit ?bs ?new"
    and old: "newest_slot bits \<noteq> ?new" "slot_bit ?bs (newest_slot bits) = slot_bit bits (newest_slot bits)"
    and slots: "?new \<noteq> Entries" "newest_slot bits \<noteq> Entries"
    by (cases bits; auto simp: get_next_header_oplog_slot_and_bit_value_def next_bits_def newest_slot_def slot_bit_def)+
  show x: "x \<noteq> []" by (simp add: x_def framed_def wire_header_nonempty)
  show "slot_offset ?new + length x \<le> 8192" using assms(4) slots(1) by (cases ?new) auto
  have "holds_at f' (slot_offset ?new) x" unfolding f'_def by (rule holds_at_file_write [OF x])
  then show "slot_holds L w f' ?bs ?new h'"
    using assms(1) by (simp add: slot_holds_def x_def bit holds_at_append)
  let ?y = "framed L w (slot_bit bits (newest_slot bits)) False (wire_header w h)"
  have y: "holds_at f (slot_offset (newest_slot bits)) ?y" "length ?y \<le> 4096"
    using assms(2) by (simp_all add: slot_holds_def length_framed header_fits_def HEADER_SIZE_def)
  have "holds_at f' (slot_offset (newest_slot bits)) ?y"
    unfolding f'_def using y assms(4) old(1) slots
    by (intro holds_at_file_write_other [OF y(1)]) (cases "newest_slot bits"; cases ?new; simp)
  then show "slot_holds L w f' ?bs (newest_slot bits) h"
    using assms(2) old(2) by (simp add: slot_holds_def)
qed

lemma slot_holds_truncate:
  assumes "slot_holds L w f bits slot h" "slot \<noteq> Entries"
  shows "slot_holds L w (file_truncate f 8192) bits slot h"
  using assms
  by (cases slot) (auto simp: slot_holds_def length_framed header_fits_def HEADER_SIZE_def intro!: holds_at_truncate)

lemma newest_not_entries: "newest_slot bits \<noteq> Entries"
  by (simp add: newest_slot_def)

lemma image_slots:
  assumes "slot_holds L w f (next_bits bits) (newest_slot (next_bits bits)) h'"
    "slot_holds L w f (next_bits bits) (newest_slot bits) h"
    and "list_all (entry_fits L w) es" "length f = 8192 + length (entry_frames L w hb es)"
    "holds_at f 8192 (entry_frames L w hb es)"
  shows "oplog_image L w f (next_bits bits) hb h' es"
  using assms next_slot(2) [of bits] newest_not_entries [of bits] newest_not_entries [of "next_bits bits"]
  unfolding oplog_image_def by (cases "newest_slot bits"; cases "newest_slot (next_bits bits)") auto

lemma image_insert_header:
  fixes zs :: bytes
  assumes "header_fits L w h'" "slot_holds L w f bits (newest_slot bits) h"
  defines "x \<equiv> framed L w (snd (get_next_header_oplog_slot_and_bit_value bits)) False (wire_header w h') @ zs"
  assumes "length x \<le> 4096"
  shows "oplog_image L w (file_truncate (file_write f (slot_offset (newest_slot (next_bits bits))) x) 8192)
    (next_bits bits) hb h' []"
  using slots_after_write [OF assms(1,2), of zs] assms(4) unfolding x_def
  by (intro image_slots slot_holds_truncate newest_not_entries) (auto simp: entry_frames_def holds_at_Nil)

lemma flush_header_infos:
  assumes "length x \<le> 4096"
    and fl: "flush_infos ra s ([si_new_content Oplog (of_nat (slot_offset (newest_slot bits))) x,
      si_new_truncate Oplog 8192]) = Ok s'"
  shows "stored content s' Oplog =
    file_truncate (file_write (stored content s Oplog) (slot_offset (newest_slot bits)) x) 8192"
proof -
  have off: "unat (of_nat (slot_offset (newest_slot bits)) :: u64) = slot_offset (newest_slot bits)"
    "slot_offset (newest_slot bits) \<le> 4096"
    by (simp_all add: newest_slot_def)
  obtain s1 where s1: "flush_one ra s (si_new_content Oplog (of_nat (slot_offset (newest_slot bits))) x) = Ok s1"
    "stored content s1 Oplog = file_write (stored content s Oplog) (slot_offset (newest_slot bits)) x"
    using flush_content [of "of_nat (slot_offset (newest_slot bits))" x s Oplog] off assms(1)
    by (auto simp: MAX_FILE_def)
  obtain s2 where "flush_one ra s1 (si_new_truncate Oplog 8192) = Ok s2"
    "stored content s2 Oplog = file_truncate (stored content s1 Oplog) 8192"
    using flush_truncate [of 8192 s1 Oplog] by (auto simp: MAX_FILE_def)
  with s1 fl show ?thesis by simp
qed

lemma inv_insert_header:
  assumes fits: "header_fits L w h'" and len: "8192 \<le> length (stored content s Oplog)"
    and old: "slot_holds L w (stored content s Oplog) bits (newest_slot bits) h"
    and ins: "insert_header L h' 0 bits clear = Ok (bits', infos)" and fl: "flush_infos ra s infos = Ok s'"
  shows "bits' = next_bits bits" "oplog_image L w (stored content s' Oplog) bits' hb h' []"
proof -
  define zs :: bytes where "zs = (if clear then replicate (HEADER_SIZE - 8 - length (wire_header w h')) 0 else [])"
  let ?x = "framed L w (snd (get_next_header_oplog_slot_and_bit_value bits)) False (wire_header w h') @ zs"
  have eq: "insert_header L h' 0 bits clear = Ok (next_bits bits,
      [si_new_content Oplog (of_nat (slot_offset (newest_slot (next_bits bits)))) ?x, si_new_truncate Oplog 8192])"
    using insert_header_eq [OF fits, of 0 bits clear] by (simp add: zs_def)
  have x: "length ?x \<le> 4096"
    using fits by (simp add: zs_def length_framed header_fits_def HEADER_SIZE_def)
  show bits: "bits' = next_bits bits" using ins eq by simp
  show "oplog_image L w (stored content s' Oplog) bits' hb h' []"
  proof -
    have "infos = [si_new_content Oplog (of_nat (slot_offset (newest_slot (next_bits bits)))) ?x,
        si_new_truncate Oplog 8192]"
      using ins unfolding eq by auto
    with fl have "flush_infos ra s ([si_new_content Oplog (of_nat (slot_offset (newest_slot (next_bits bits)))) ?x,
        si_new_truncate Oplog 8192]) = Ok s'"
      by (simp only:)
    from flush_header_infos [OF x this] image_insert_header [OF fits old x] bits
    show ?thesis by simp
  qed
qed

text \<open>The first of the two writes of a flush that clears traces.\<close>

lemma first_header_write:
  assumes fits: "header_fits L w h'" and len: "8192 \<le> length (stored content s Oplog)"
    and ins: "insert_header L h' 0 bits clear = Ok (bits', infos)" and fl: "flush_infos ra s (take 1 infos) = Ok s'"
  shows "slot_holds L w (stored content s' Oplog) bits' (newest_slot bits') h' \<and> 8192 \<le> length (stored content s' Oplog)"
proof -
  define zs :: bytes where "zs = (if clear then replicate (HEADER_SIZE - 8 - length (wire_header w h')) 0 else [])"
  let ?new = "newest_slot (next_bits bits)"
  let ?x = "framed L w (snd (get_next_header_oplog_slot_and_bit_value bits)) False (wire_header w h') @ zs"
  have eq: "bits' = next_bits bits" "infos = [si_new_content Oplog (of_nat (slot_offset ?new)) ?x, si_new_truncate Oplog 8192]"
    using insert_header_eq [OF fits, of 0 bits clear] ins by (simp_all add: zs_def)
  have x: "length ?x \<le> 4096" "?x \<noteq> []"
    using fits by (simp_all add: zs_def length_leader header_fits_def HEADER_SIZE_def framed_def wire_header_nonempty)
  have off: "unat (of_nat (slot_offset ?new) :: u64) = slot_offset ?new" "slot_offset ?new \<le> 4096"
    by (simp_all add: newest_slot_def)
  have f: "stored content s' Oplog = file_write (stored content s Oplog) (slot_offset ?new) ?x"
    using flush_content [of "of_nat (slot_offset ?new)" ?x s Oplog] off x(1) fl
    by (auto simp: MAX_FILE_def eq(2))
  have bit: "snd (get_next_header_oplog_slot_and_bit_value bits) = slot_bit (next_bits bits) ?new"
    by (cases bits) (auto simp: get_next_header_oplog_slot_and_bit_value_def next_bits_def newest_slot_def slot_bit_def)
  have "holds_at (stored content s' Oplog) (slot_offset ?new) ?x"
    unfolding f using holds_at_file_write [OF x(2)] .
  then show ?thesis
    using fits len x(2) by (simp add: slot_holds_def eq(1) bit holds_at_append f length_file_write)
qed

lemma flush_infos_twice:
  assumes "flush_infos ra s (xs @ ys) = Ok s'"
  obtains s1 where "flush_infos ra s xs = Ok s1" "flush_infos ra s1 ys = Ok s'"
  using assms by (auto simp: flush_infos_append bindR_eq_Ok)

lemma inv_flush:
  assumes slots: "oplog_slots L w content s o'" and fits: "header_fits L w h'"
    and flush: "oplog_flush L o' h' clear = Ok (o1, infos)" and fl: "flush_infos ra s infos = Ok s'"
  shows "oplog_inv L w content s' o1 h' []"
proof -
  let ?f = "stored content s Oplog" and ?bits = "op_header_bits o'"
  obtain h where len: "8192 \<le> length ?f" and old: "slot_holds L w ?f ?bits (newest_slot ?bits) h"
    using slots by (auto simp: oplog_slots_def)
  have finish: "oplog_inv L w content s' o1 h' []"
    if "oplog_image L w (stored content s' Oplog) (op_header_bits o1) (get_current_header_bit o1) h' []"
      "op_entries_length o1 = 0" "op_entries_byte_length o1 = 0"
    using that by (simp add: oplog_inv_def oplog_image_def entry_frames_def)
  show ?thesis
  proof (cases clear)
    case False
    then obtain bits' where "insert_header L h' 0 ?bits False = Ok (bits', infos)"
      "o1 = o'\<lparr>op_entries_byte_length := 0, op_entries_length := 0, op_header_bits := bits'\<rparr>"
      using flush by (auto simp: oplog_flush_def bindR_eq_Ok)
    then show ?thesis using inv_insert_header [OF fits len old _ fl] by (intro finish) auto
  next
    case True
    then obtain b1 i1 b2 i2 where ins: "insert_header L h' 0 ?bits True = Ok (b1, i1)"
      "insert_header L h' 0 b1 True = Ok (b2, i2)" "infos = take 1 i1 @ i2"
      "o1 = o'\<lparr>op_entries_byte_length := 0, op_entries_length := 0, op_header_bits := b2\<rparr>"
      using flush by (auto simp: oplog_flush_def bindR_eq_Ok Let_def)
    obtain s1 where s1: "flush_infos ra s (take 1 i1) = Ok s1" "flush_infos ra s1 i2 = Ok s'"
      using fl flush_infos_twice unfolding ins(3) by blast
    have "slot_holds L w (stored content s1 Oplog) b1 (newest_slot b1) h'" "8192 \<le> length (stored content s1 Oplog)"
      using first_header_write [OF fits len ins(1) s1(1)] by simp_all
    then show ?thesis
      using inv_insert_header [OF fits _ _ ins(2) s1(2)] ins(4) by (intro finish) auto
  qed
qed

text \<open>A flush that clears traces leaves nothing in the log store but the header, in both slots.\<close>

lemma flush_scrubs:
  assumes fits: "header_fits L w h" and flush: "oplog_flush L o' h True = Ok (o1, infos)" and fl: "flush_infos ra s infos = Ok s'"
  shows "stored content s' Oplog = header_slots L w (op_header_bits o1) h"
proof -
  let ?b0 = "op_header_bits o'"
  let ?b1 = "next_bits ?b0"
  let ?b2 = "next_bits ?b1"
  let ?slot = "\<lambda>bits. slot_offset (newest_slot bits)"
  let ?x = "\<lambda>bits. header_slot L w (snd (get_next_header_oplog_slot_and_bit_value bits)) h"
  have len: "length (?x bits) = 4096" "?x bits \<noteq> []" for bits
    using fits by (simp_all add: header_slot_def length_framed header_fits_def HEADER_SIZE_def framed_def length_leader wire_header_nonempty)
  have off: "unat (of_nat (?slot bits) :: u64) = ?slot bits" "?slot bits \<le> 4096" for bits by (simp_all add: newest_slot_def)
  have ins: "insert_header L h 0 bits True = Ok (next_bits bits,
      [si_new_content Oplog (of_nat (?slot (next_bits bits))) (?x bits), si_new_truncate Oplog 8192])" for bits
    using insert_header_eq [OF fits, of 0 bits True] by (simp add: header_slot_def)
  have o1: "op_header_bits o1 = ?b2" "infos = [si_new_content Oplog (of_nat (?slot ?b1)) (?x ?b0)] @
      [si_new_content Oplog (of_nat (?slot ?b2)) (?x ?b1), si_new_truncate Oplog 8192]"
    using flush by (auto simp: oplog_flush_def ins Let_def)
  obtain s1 where s1: "flush_infos ra s [si_new_content Oplog (of_nat (?slot ?b1)) (?x ?b0)] = Ok s1"
    "flush_infos ra s1 [si_new_content Oplog (of_nat (?slot ?b2)) (?x ?b1), si_new_truncate Oplog 8192] = Ok s'"
    using fl flush_infos_twice unfolding o1(2) by blast
  have f1: "stored content s1 Oplog = file_write (stored content s Oplog) (?slot ?b1) (?x ?b0)"
    using flush_content [of "of_nat (?slot ?b1)" "?x ?b0" s Oplog] off [of ?b1] len(1) [of ?b0] s1(1) by (auto simp: MAX_FILE_def)
  let ?f = "file_write (stored content s1 Oplog) (?slot ?b2) (?x ?b1)"
  have f: "stored content s' Oplog = file_truncate ?f 8192" using flush_header_infos [OF _ s1(2)] len by simp
  have new: "holds_at ?f (?slot ?b2) (?x ?b1)" using holds_at_file_write [OF len(2)] .
  have bits: "?slot ?b1 = 0 \<and> ?slot ?b2 = 4096 \<or> ?slot ?b1 = 4096 \<and> ?slot ?b2 = 0"
    "?slot ?b1 = 0 \<longrightarrow> ?b2 = (snd (get_next_header_oplog_slot_and_bit_value ?b0), snd (get_next_header_oplog_slot_and_bit_value ?b1))"
    "?slot ?b1 = 4096 \<longrightarrow> ?b2 = (snd (get_next_header_oplog_slot_and_bit_value ?b1), snd (get_next_header_oplog_slot_and_bit_value ?b0))"
    by (cases ?b0; auto simp: next_bits_def newest_slot_def get_next_header_oplog_slot_and_bit_value_def)+
  have "holds_at (stored content s1 Oplog) (?slot ?b1) (?x ?b0)" unfolding f1 using holds_at_file_write [OF len(2)] .
  then have old: "holds_at ?f (?slot ?b1) (?x ?b0)"
    by (rule holds_at_file_write_other) (use bits(1) len(1) in auto)
  show ?thesis
    using bits both_slots [OF _ _ len(1) len(1), of ?f ?b0 ?b1] both_slots [OF _ _ len(1) len(1), of ?f ?b1 ?b0] new old
    unfolding f o1(1) header_slots_def by (metis fst_conv snd_conv)
qed

lemma fresh_eq:
  assumes "key_pair_ok L kp" "header_fits L w (header_new kp)"
  shows "oplog_fresh L kp = Ok
    \<lparr>ooo_oplog = \<lparr>op_header_bits = (False, False), op_entries_length = 0, op_entries_byte_length = 0\<rparr>,
     ooo_header = header_new kp,
     ooo_infos_to_flush = [si_new_content Oplog 0 (framed L w False False (wire_header w (header_new kp))),
       si_new_truncate Oplog 8192],
     ooo_entries = None\<rparr>"
proof -
  have "next_bits INITIAL_HEADER_BITS = (False, False)" "newest_slot (False, False) = FirstHeader"
    "snd (get_next_header_oplog_slot_and_bit_value INITIAL_HEADER_BITS) = False"
    by (simp_all add: INITIAL_HEADER_BITS_def next_bits_def newest_slot_def
        get_next_header_oplog_slot_and_bit_value_def)
  with insert_header_eq [OF assms(2), of 0 INITIAL_HEADER_BITS False] show ?thesis
    by (simp add: oplog_fresh_def from_create_header_outcome_def Let_def)
qed

lemma header_new_fits: "key_pair_ok L kp \<Longrightarrow> header_fits L w (header_new kp)"
  using header_new_ok [of L kp] key_pair_lengths [of kp] cenc.length_w_uint [of 0]
  by (auto simp: header_fits_def wire_header_def header_new_def wire_key_pair_def wire_header_tree_def
      wire_header_hints_def wire_manifest_def wire_manifest_signer_def default_signer_manifest_def Let_def
      DEFAULT_NAMESPACE_def HEADER_SIZE_def header_tree_new_def cenc.w_bytes_Nil cenc.w_strings_Nil key_pair_ok_def
      split: option.splits)

lemma inv_fresh:
  assumes empty: "stored content s Oplog = []" and kp: "key_pair_ok L kp" "header_fits L w (header_new kp)"
    and out: "oplog_fresh L kp = Ok out" and fl: "flush_infos ra s (ooo_infos_to_flush out) = Ok s'"
  shows "oplog_inv L w content s' (ooo_oplog out) (ooo_header out) []"
proof -
  let ?h = "header_new kp" and ?x = "framed L w False False (wire_header w (header_new kp))"
  have x: "length ?x \<le> 4096" "?x \<noteq> []"
    using kp(2) by (simp_all add: length_leader header_fits_def HEADER_SIZE_def framed_def wire_header_nonempty)
  have "stored content s' Oplog = file_truncate (file_write [] 0 ?x) 8192"
    using flush_header_infos [OF x(1), of s "(False, False)" s'] fl fresh_eq [OF kp] out empty
    by (simp add: newest_slot_def)
  moreover have "file_write [] 0 ?x = ?x" using file_write_append [of "[]" ?x] by simp
  ultimately have f: "stored content s' Oplog = ?x @ replicate (8192 - length ?x) 0"
    using x(1) by (simp add: file_truncate_def)
  have "holds_at (stored content s' Oplog) 0 ?x"
    unfolding f using holds_at_mid [of "[]" ?x] by simp
  moreover have "holds_at (stored content s' Oplog) 4096 (replicate 8 0)"
    unfolding f using x(1) by (simp add: holds_at_def slice_def)
  ultimately show ?thesis
    using kp(2) fresh_eq [OF kp] out x(1)
    by (auto simp: oplog_inv_def oplog_image_def slot_holds_def slot_bit_def newest_slot_def
        entry_frames_def holds_at_Nil f)
qed

lemma reach_inv:
  assumes "oplog_reach L w ra content s o' h es"
  shows "oplog_inv L w content s o' h es"
  using assms
proof (induction rule: oplog_reach.induct)
  case (fresh s kp out s')
  then show ?case using inv_fresh header_new_fits by blast
next
  case (append s o' h es e atomic o1 infos s')
  then show ?case using inv_append by blast
next
  case (flush s o' h es h' clear o1 infos s')
  then show ?case using inv_flush image_oplog_slots by (metis oplog_inv_def)
qed

text \<open>Whatever was appended and flushed, reading the store and opening it gives the last flushed
  header and the entries since, in order.\<close>

lemma reach_reopen:
  assumes "oplog_reach L w ra content s o' h es"
  shows "\<exists>info. read_one ra s (sii_new_all_content Oplog) = Ok info \<and>
    oplog_open L kp (Some info) = Ok (Inr
      \<lparr>ooo_oplog = \<lparr>op_header_bits = op_header_bits o', op_entries_length = 0, op_entries_byte_length = 0\<rparr>,
       ooo_header = h, ooo_infos_to_flush = [], ooo_entries = (if es = [] then None else Some es)\<rparr>)"
proof -
  have "oplog_image L w (stored content s Oplog) (op_header_bits o') (get_current_header_bit o') h es"
    using reach_inv [OF assms] by (simp add: oplog_inv_def)
  moreover have "length (stored content s Oplog) < MAX_USIZE"
    using small [of "get_random_access s Oplog"] by (simp add: MAX_FILE_def)
  ultimately show ?thesis using open_image read_all [of s Oplog] by blast
qed

text \<open>Between the write of the header and the truncation of a flush, the store holds the new
  header and the old entries, which \<open>open\<close> returns together.\<close>

lemma crash_reopen:
  assumes inv: "oplog_inv L w content s o' h es" and fits: "header_fits L w h'"
    and flush: "oplog_flush L o' h' False = Ok (o1, infos)" and fl: "flush_infos ra s (take 1 infos) = Ok s1"
  shows "\<exists>out. oplog_open L kp (Some (si_new_content Oplog 0 (stored content s1 Oplog))) = Ok (Inr out) \<and>
    ooo_header out = h' \<and> ooo_entries out = (if es = [] then None else Some es)"
proof -
  let ?f = "stored content s Oplog" and ?bits = "op_header_bits o'" and ?hb = "get_current_header_bit o'"
  let ?x = "framed L w (snd (get_next_header_oplog_slot_and_bit_value (op_header_bits o'))) False (wire_header w h')"
  have img: "oplog_image L w ?f ?bits ?hb h es" using inv by (simp add: oplog_inv_def)
  have len: "length ?f = 8192 + length (entry_frames L w ?hb es)" "list_all (entry_fits L w) es"
    "holds_at ?f 8192 (entry_frames L w ?hb es)" "slot_holds L w ?f ?bits (newest_slot ?bits) h"
    using img by (simp_all add: oplog_image_def)
  have "insert_header L h' 0 ?bits False = Ok (op_header_bits o1, infos)"
    using flush by (auto simp: oplog_flush_def bindR_eq_Ok)
  then have infos: "infos = [si_new_content Oplog (of_nat (slot_offset (newest_slot (next_bits ?bits)))) ?x,
      si_new_truncate Oplog 8192]"
    using insert_header_eq [OF fits, of 0 ?bits False] by auto
  have x: "length (?x @ []) \<le> 4096"
    using fits by (simp add: length_framed header_fits_def HEADER_SIZE_def)
  note w' = slots_after_write [OF fits len(4) x]
  have f1: "stored content s1 Oplog = file_write ?f (slot_offset (newest_slot (next_bits ?bits))) ?x"
    using flush_content [of "of_nat (slot_offset (newest_slot (next_bits ?bits)))" ?x s Oplog] fl w'(3)
    by (auto simp: infos MAX_FILE_def newest_slot_def)
  have "oplog_image L w (stored content s1 Oplog) (next_bits ?bits) ?hb h' es"
    unfolding f1 using w' len
    by (intro image_slots holds_at_file_write_other) (auto simp: length_file_write)
  moreover have "length (stored content s1 Oplog) < MAX_USIZE"
    using small [of "get_random_access s1 Oplog"] by (simp add: MAX_FILE_def)
  ultimately show ?thesis using open_image by fastforce
qed

end

interpretation mem_log: device_laws ref_libs ref_wire mem_access mem_content
  by (intro device_laws.intro rl.libs_laws_axioms mem.random_access_laws_axioms)

end
