(* ===== verification/Merkle_Tree_Proofs.thy ===== *)
theory Merkle_Tree_Proofs
  imports Merkle_Tree
begin

text \<open>
  What the operations of \<open>Merkle_Tree\<close> do, read against the reference of \<open>Changeset\<close>: a tree
  of the blocks \<open>bs\<close> has the reference roots, and every node it can read is the reference
  node.  Offsets and ranges are then those of the blocks laid end to end; opening, committing,
  truncating and flushing move between trees of lists of blocks.
\<close>

section \<open>Trees of a list of blocks\<close>

definition tree_of :: "'it libs \<Rightarrow> wire_format \<Rightarrow> bytes list \<Rightarrow> merkle_tree \<Rightarrow> bool" where
  "tree_of L w bs t \<longleftrightarrow> mt_roots t = merkle_roots L w bs \<and> mt_length t = of_nat (length bs) \<and>
     mt_byte_length t = of_nat (byte_size bs) \<and> length bs \<le> 2 ^ 62"

definition pos_index :: "nat \<times> nat \<Rightarrow> u64" where
  "pos_index p = of_nat (tree_index (fst p) (snd p))"

definition instr_of :: "nat \<times> nat \<Rightarrow> store_info_instruction" where
  "instr_of p = sii_new_content Tree (40 * pos_index p) 40"

definition in_tree :: "nat \<Rightarrow> nat \<times> nat \<Rightarrow> bool" where
  "in_tree n p \<longleftrightarrow> (snd p + 1) * 2 ^ fst p \<le> n"

text \<open>Reading a node of the tree either asks for it or gives the reference node.\<close>

definition node_source ::
  "'it libs \<Rightarrow> wire_format \<Rightarrow> bytes list \<Rightarrow> merkle_tree \<Rightarrow> node_infos \<Rightarrow> bool" where
  "node_source L w bs t nodes \<longleftrightarrow> (\<forall>p. in_tree (length bs) p \<longrightarrow>
     required_node t (pos_index p) nodes = Ok (Inl (instr_of p)) \<or>
     required_node t (pos_index p) nodes = Ok (Inr (merkle_node L w bs p)))"

definition avail :: "merkle_tree \<Rightarrow> node_infos \<Rightarrow> nat \<times> nat \<Rightarrow> bool" where
  "avail t nodes p \<longleftrightarrow> (\<exists>n. required_node t (pos_index p) nodes = Ok (Inr n))"

section \<open>Chains of subtrees from the left\<close>

fun fchain :: "nat \<Rightarrow> nat \<Rightarrow> (nat \<times> nat) list \<Rightarrow> bool" where
  "fchain m n [] \<longleftrightarrow> m = n"
| "fchain m n ((d, off) # ps) \<longleftrightarrow> m = off * 2 ^ d \<and> fchain ((off + 1) * 2 ^ d) n ps"

lemma fchain_snoc: "fchain m n ps \<Longrightarrow> n = off * 2 ^ d \<Longrightarrow> fchain m ((off + 1) * 2 ^ d) (ps @ [(d, off)])"
  by (induction m n ps rule: fchain.induct) auto

lemma rchain_fchain: "rchain n ps \<Longrightarrow> fchain 0 n (rev ps)"
proof (induction n ps rule: rchain.induct)
  case (2 n d off ps)
  then show ?case using fchain_snoc [of 0 "off * 2 ^ d" "rev ps" off d] by simp
qed simp

lemma fchain_roots: "fchain 0 n (root_positions n)"
  using rchain_fchain [OF rchain_root_positions, of n] by simp

lemma fchain_le: "fchain m n ps \<Longrightarrow> m \<le> n"
proof (induction m n ps rule: fchain.induct)
  case (2 m n d off ps)
  then show ?case by simp
qed simp

lemma tree_index_eq: "tree_index d off + 1 = 2 * (off * 2 ^ d) + 2 ^ d"
  using pow2_Suc [of d] by (auto simp: tree_index_def algebra_simps)

text \<open>The span of a root: \<open>head\<close> moves on by twice the number of leaves.\<close>

lemma head_step:
  assumes "pos_ok d off" "head = of_nat (2 * (off * 2 ^ d))"
  shows "head + 2 * ((pos_index (d, off) - head) + 1) = (of_nat (2 * ((off + 1) * 2 ^ d)) :: u64)"
proof -
  have "pos_index (d, off) = of_nat (2 * (off * 2 ^ d) + 2 ^ d) - 1"
    unfolding pos_index_def fst_conv snd_conv tree_index_eq [symmetric] by simp
  then show ?thesis using assms(2) by (simp add: algebra_simps)
qed

section \<open>Byte offsets\<close>

text \<open>The left siblings on the way from a subtree down to leaf \<open>i\<close>.\<close>

fun left_path :: "nat \<Rightarrow> nat \<Rightarrow> nat \<Rightarrow> (nat \<times> nat) list" where
  "left_path 0 off i = []"
| "left_path (Suc d) off i =
     (if i < (2 * off + 1) * 2 ^ d then left_path d (2 * off) i
      else (d, 2 * off) # left_path d (2 * off + 1) i)"

lemma left_path_in_tree:
  "p \<in> set (left_path d off i) \<Longrightarrow> i < (off + 1) * 2 ^ d \<Longrightarrow> in_tree i p"
proof (induction d off i rule: left_path.induct)
  case (2 d off i)
  then show ?case by (auto simp: in_tree_def not_less algebra_simps split: if_splits)
qed simp

lemma left_path_size:
  assumes "off * 2 ^ d \<le> i" "i < (off + 1) * 2 ^ d"
  shows "(\<Sum>p \<leftarrow> left_path d off i. subtree_size bs (fst p) (snd p)) =
    byte_size (slice bs (off * 2 ^ d) (i - off * 2 ^ d))"
  using assms
proof (induction d off i rule: left_path.induct)
  case (1 off i)
  then show ?case by (simp add: byte_size_def slice_def)
next
  case (2 d off i)
  show ?case
  proof (cases "i < (2 * off + 1) * 2 ^ d")
    case True
    then show ?thesis using 2 by (simp add: algebra_simps)
  next
    case False
    then have ge: "(2 * off + 1) * 2 ^ d \<le> i" by simp
    have "slice bs (off * 2 ^ Suc d) (i - off * 2 ^ Suc d) =
      slice bs (2 * off * 2 ^ d) (2 ^ d) @ slice bs ((2 * off + 1) * 2 ^ d) (i - (2 * off + 1) * 2 ^ d)"
    proof -
      have "i - off * 2 ^ Suc d = 2 ^ d + (i - (2 * off + 1) * 2 ^ d)" using ge by (simp add: algebra_simps)
      then show ?thesis by (simp add: slice_def take_add algebra_simps)
    qed
    then show ?thesis
      using 2 False ge by (simp add: subtree_size_def byte_size_def algebra_simps)
  qed
qed

context libs_laws
begin

lemma in_tree_pos_ok: "in_tree n (d, off) \<Longrightarrow> n \<le> 2 ^ 62 \<Longrightarrow> pos_ok d off"
  using pos_okI(1) [of off d n] by (simp add: in_tree_def)

lemma pos_index_unat: "pos_ok d off \<Longrightarrow> unat (pos_index (d, off)) = tree_index d off"
  using index_eq by (simp add: pos_index_def)

lemma at_index: "ft_at (lib_ft L) it d off \<Longrightarrow> ft_index (lib_ft L) it = pos_index (d, off)"
  unfolding ft_at_def pos_index_def by (metis fst_conv of_nat_unat_same snd_conv)

lemma offset_walk_eq:
  assumes src: "node_source L w bs t nodes" and small: "length bs \<le> 2 ^ 62"
    and "ft_at (lib_ft L) it d off" "off * 2 ^ d \<le> i" "i < (off + 1) * 2 ^ d"
    and "(off + 1) * 2 ^ d \<le> length bs" "d < fuel" and index: "unat index = 2 * i"
  shows "offset_walk L fuel t nodes index it instrs offset =
    Ok (instrs @ map instr_of (filter (\<lambda>p. \<not> avail t nodes p) (left_path d off i)),
      offset + of_nat (\<Sum>p \<leftarrow> filter (avail t nodes) (left_path d off i). subtree_size bs (fst p) (snd p)))"
  using assms(3-7)
proof (induction d arbitrary: fuel it off instrs offset)
  case 0
  then obtain f where f: "fuel = Suc f" by (cases fuel) auto
  have "ft_index (lib_ft L) it = index"
    using 0 index by (simp add: ft_at_def word_eq_iff_unat)
  then show ?case unfolding f by simp
next
  case (Suc d)
  then obtain f where f: "fuel = Suc f" "d < f" by (cases fuel) auto
  have ok: "pos_ok (Suc d) off" using pos_okI(1) [OF Suc.prems(4) small] .
  have kids: "(2 * off + 1) * 2 ^ d \<le> length bs" "(2 * off + 1 + 1) * 2 ^ d \<le> length bs"
    using Suc.prems(4) by (simp_all add: algebra_simps)
  have ok': "pos_ok d (2 * off)" "pos_ok d (2 * off + 1)"
    using pos_okI(1) [OF _ small] kids by auto
  let ?lc = "ft_left_child (lib_ft L) it"
  have lc: "ft_at (lib_ft L) ?lc d (2 * off)"
    using flat.left_child [OF Suc.prems(1) ok] .
  have sib: "ft_at (lib_ft L) (ft_sibling (lib_ft L) ?lc) d (2 * off + 1)"
    using flat.sibling [OF lc ok'(1)] ok'(2) by (simp add: sibling_offset_def)
  have idx: "unat (ft_index (lib_ft L) it) = tree_index (Suc d) off"
    using Suc.prems(1) by (simp add: ft_at_def)
  have cmp: "2 * i < tree_index (Suc d) off \<longleftrightarrow> i < (2 * off + 1) * 2 ^ d"
    using tree_index_eq [of "Suc d" off] by (auto simp: algebra_simps)
  have ne: "2 * i \<noteq> tree_index (Suc d) off"
    using tree_index_Suc [of d off] by presburger
  have ne': "ft_index (lib_ft L) it \<noteq> index" using idx index ne by auto
  show ?case
  proof (cases "i < (2 * off + 1) * 2 ^ d")
    case True
    then have "index < ft_index (lib_ft L) it" using idx index cmp by (simp add: word_less_nat_alt)
    then show ?thesis
      unfolding f using Suc.IH [OF lc, of f instrs offset] Suc.prems(2) True kids(1) f(2) ne'
      by (simp add: algebra_simps)
  next
    case False
    then have less: "\<not> index < ft_index (lib_ft L) it" using idx index cmp by (simp add: word_less_nat_alt)
    note IH = Suc.IH [OF sib, of f]
    have "in_tree (length bs) (d, 2 * off)" using kids(1) by (simp add: in_tree_def)
    then have "required_node t (pos_index (d, 2 * off)) nodes = Ok (Inl (instr_of (d, 2 * off))) \<or>
        required_node t (pos_index (d, 2 * off)) nodes = Ok (Inr (merkle_node L w bs (d, 2 * off)))"
      using src by (simp add: node_source_def)
    then show ?thesis
      unfolding f using IH Suc.prems(3) False less kids f(2) ne' at_index [OF lc]
      by (auto simp: avail_def add.assoc)
  qed
qed

lemma offset_roots_eq:
  assumes src: "node_source L w bs t nodes" and small: "length bs \<le> 2 ^ 62"
    and "fchain m (length bs) ps" "m \<le> i" "i < length bs" and index: "unat index = 2 * i"
  shows "\<exists>d off ps1 ps2. ps = ps1 @ (d, off) # ps2 \<and> off * 2 ^ d \<le> i \<and> i < (off + 1) * 2 ^ d \<and>
      (off + 1) * 2 ^ d \<le> length bs \<and> fchain m (off * 2 ^ d) ps1 \<and>
    offset_roots_loop L t nodes index (map (merkle_node L w bs) ps) (of_nat (2 * m)) offset =
      (let miss = map instr_of (filter (\<lambda>p. \<not> avail t nodes p) (left_path d off i));
           sum = offset + of_nat (\<Sum>p \<leftarrow> ps1. subtree_size bs (fst p) (snd p)) +
             of_nat (\<Sum>p \<leftarrow> filter (avail t nodes) (left_path d off i). subtree_size bs (fst p) (snd p))
       in Ok (if miss = [] then Inr sum else Inl miss))"
  using assms(3,4)
proof (induction ps arbitrary: m offset)
  case Nil
  with assms(5) show ?case by simp
next
  case (Cons p ps)
  obtain d off where p: "p = (d, off)" by (cases p)
  have m: "m = off * 2 ^ d" "fchain ((off + 1) * 2 ^ d) (length bs) ps" using Cons.prems(1) by (simp_all add: p)
  note le = fchain_le [OF m(2)]
  have ok: "pos_ok d off" using pos_okI(1) [OF le small] .
  let ?r = "merkle_node L w bs p" and ?h = "of_nat (2 * ((off + 1) * 2 ^ d)) :: u64"
  have head: "of_nat (2 * m) + 2 * ((n_index ?r - of_nat (2 * m)) + 1) = ?h"
    using head_step [OF ok, of "of_nat (2 * m)"] m(1) by (simp add: p pos_index_def)
  have uh: "unat ?h = 2 * ((off + 1) * 2 ^ d)"
  proof (rule unat_of_nat64)
    have "(2 :: nat) ^ 62 = 4611686018427387904" by simp
    with le small show "2 * ((off + 1) * 2 ^ d) < 18446744073709551616" by linarith
  qed
  show ?case
  proof (cases "(off + 1) * 2 ^ d \<le> i")
    case True
    then have "index \<ge> ?h" using uh index by (simp add: word_le_nat_alt)
    then have step: "offset_roots_loop L t nodes index (map (merkle_node L w bs) (p # ps)) (of_nat (2 * m)) offset =
        offset_roots_loop L t nodes index (map (merkle_node L w bs) ps) ?h (offset + of_nat (subtree_size bs d off))"
      using head by (simp add: p Let_def)
    obtain d' off' ps1 ps2 where IH: "ps = ps1 @ (d', off') # ps2" "off' * 2 ^ d' \<le> i"
      "i < (off' + 1) * 2 ^ d'" "(off' + 1) * 2 ^ d' \<le> length bs" "fchain ((off + 1) * 2 ^ d) (off' * 2 ^ d') ps1"
      "offset_roots_loop L t nodes index (map (merkle_node L w bs) ps) ?h (offset + of_nat (subtree_size bs d off)) =
        (let miss = map instr_of (filter (\<lambda>p. \<not> avail t nodes p) (left_path d' off' i));
           sum = offset + of_nat (subtree_size bs d off) + of_nat (\<Sum>p \<leftarrow> ps1. subtree_size bs (fst p) (snd p)) +
             of_nat (\<Sum>p \<leftarrow> filter (avail t nodes) (left_path d' off' i). subtree_size bs (fst p) (snd p))
         in Ok (if miss = [] then Inr sum else Inl miss))"
      using Cons.IH [OF m(2) True] by blast
    show ?thesis
      unfolding step IH(6)
      using IH(1-5) m(1) p
      by - (rule exI [of _ d'], rule exI [of _ off'], rule exI [of _ "p # ps1"], rule exI [of _ ps2],
          simp add: add.assoc)
  next
    case False
    then have "\<not> index \<ge> ?h" using uh index by (simp add: word_le_nat_alt)
    then have "offset_roots_loop L t nodes index (map (merkle_node L w bs) (p # ps)) (of_nat (2 * m)) offset =
        bindR (offset_walk L (lib_fuel L) t nodes index (ft_new (lib_ft L) (n_index ?r)) [] offset)
          (\<lambda>(instrs, offset). Ok (if instrs = [] then Inr offset else Inl instrs))"
      unfolding list.map offset_roots_loop.simps Let_def head by simp
    moreover have "ft_at (lib_ft L) (ft_new (lib_ft L) (n_index ?r)) d off"
      using flat.new [OF _ ok] pos_index_unat [OF ok] by (simp add: p pos_index_def)
    note offset_walk_eq [OF src small this, of i "lib_fuel L" index "[]" offset]
    moreover have "d < lib_fuel L" using enough_fuel pos_ok_bounds(1) [OF ok] by simp
    ultimately show ?thesis
      using m(1) Cons.prems(2) False le index p
      by - (rule exI [of _ d], rule exI [of _ off], rule exI [of _ "[]"], rule exI [of _ ps],
          simp add: Let_def)
  qed
qed

end

lemma fchain_size:
  "fchain m n ps \<Longrightarrow> n \<le> length bs \<Longrightarrow>
    (\<Sum>p \<leftarrow> ps. subtree_size bs (fst p) (snd p)) = byte_size (slice bs m (n - m))"
proof (induction m n ps rule: fchain.induct)
  case (1 m n)
  then show ?case by (simp add: byte_size_def slice_def)
next
  case (2 m n d off ps)
  then have m: "m = off * 2 ^ d" and le: "(off + 1) * 2 ^ d \<le> n" using fchain_le by auto
  have "n - m = 2 ^ d + (n - (off + 1) * 2 ^ d)" using m le by (simp add: algebra_simps)
  then have "slice bs m (n - m) = slice bs m (2 ^ d) @ slice bs ((off + 1) * 2 ^ d) (n - (off + 1) * 2 ^ d)"
    by (simp add: slice_def take_add m algebra_simps)
  then show ?case using 2 by (simp add: subtree_size_def byte_size_def m)
qed

text \<open>The nodes to read for the offset of block \<open>i\<close> in a tree of \<open>n\<close> blocks.\<close>

definition offset_path :: "nat \<Rightarrow> nat \<Rightarrow> (nat \<times> nat) list" where
  "offset_path n i =
     (case List.find (\<lambda>(d, off). i < (off + 1) * 2 ^ d) (root_positions n) of
        None \<Rightarrow> []
      | Some (d, off) \<Rightarrow> left_path d off i)"

lemma fchain_before:
  "fchain m n ps \<Longrightarrow> (d, off) \<in> set ps \<Longrightarrow> (off + 1) * 2 ^ d \<le> n"
  by (induction m n ps rule: fchain.induct) (auto dest: fchain_le)

lemma offset_path_eq:
  assumes "root_positions n = ps1 @ (d, off) # ps2" "off * 2 ^ d \<le> i" "i < (off + 1) * 2 ^ d"
    and "fchain 0 (off * 2 ^ d) ps1"
  shows "offset_path n i = left_path d off i"
proof -
  have "\<not> (case p of (d, off) \<Rightarrow> i < (off + 1) * 2 ^ d)" if "p \<in> set ps1" for p
    using fchain_before [OF assms(4), of "fst p" "snd p"] that assms(2) by (cases p) auto
  then have "List.find (\<lambda>(d, off). i < (off + 1) * 2 ^ d) ps1 = None"
    by (auto simp: find_None_iff)
  then have "List.find (\<lambda>(d, off). i < (off + 1) * 2 ^ d) (ps1 @ (d, off) # ps2) = Some (d, off)"
    using assms(3) by (induction ps1) (auto split: if_splits)
  then show ?thesis by (simp add: offset_path_def assms(1))
qed

context libs_laws
begin

lemma byte_offset_from_nodes_eq:
  assumes t: "tree_of L w bs t" and src: "node_source L w bs t nodes" and i: "i < length bs"
  shows "byte_offset_from_nodes L t (of_nat (2 * i)) nodes =
    (let miss = map instr_of (filter (\<lambda>p. \<not> avail t nodes p) (offset_path (length bs) i))
     in Ok (if miss = [] then Inr (of_nat (byte_size (take i bs))) else Inl miss))"
proof -
  let ?ix = "of_nat (2 * i) :: u64"
  have small: "length bs \<le> 2 ^ 62" using t by (simp add: tree_of_def)
  have idx: "unat ?ix = 2 * i" using i small by (intro unat_of_nat64) simp
  have "?ix AND 1 \<noteq> 1" by (simp add: and_one_eq mod2_eq_if)
  then have "byte_offset_from_nodes L t ?ix nodes = offset_roots_loop L t nodes ?ix (mt_roots t) (of_nat (2 * 0)) 0"
    by (simp add: byte_offset_from_nodes_def)
  moreover obtain d off ps1 ps2 where ps: "root_positions (length bs) = ps1 @ (d, off) # ps2"
    "off * 2 ^ d \<le> i" "i < (off + 1) * 2 ^ d" "(off + 1) * 2 ^ d \<le> length bs" "fchain 0 (off * 2 ^ d) ps1"
    "offset_roots_loop L t nodes ?ix (map (merkle_node L w bs) (root_positions (length bs))) (of_nat (2 * 0)) 0 =
      (let miss = map instr_of (filter (\<lambda>p. \<not> avail t nodes p) (left_path d off i));
           sum = 0 + of_nat (\<Sum>p \<leftarrow> ps1. subtree_size bs (fst p) (snd p)) +
             of_nat (\<Sum>p \<leftarrow> filter (avail t nodes) (left_path d off i). subtree_size bs (fst p) (snd p))
       in Ok (if miss = [] then Inr sum else Inl miss))"
    using offset_roots_eq [OF src small fchain_roots _ i idx, of 0] by blast
  moreover have "(\<Sum>p \<leftarrow> ps1. subtree_size bs (fst p) (snd p)) +
      (\<Sum>p \<leftarrow> left_path d off i. subtree_size bs (fst p) (snd p)) = byte_size (take i bs)"
  proof -
    have "take i bs = slice bs 0 (off * 2 ^ d) @ slice bs (off * 2 ^ d) (i - off * 2 ^ d)"
      using ps(2) take_add [of "off * 2 ^ d" "i - off * 2 ^ d" bs] by (simp add: slice_def)
    then show ?thesis
      using left_path_size [OF ps(2,3), of bs] fchain_size [OF ps(5), of bs] ps(4)
      by (simp add: byte_size_def)
  qed
  moreover have "filter (avail t nodes) ps = ps" if "filter (\<lambda>p. \<not> avail t nodes p) ps = []" for ps
    using that by (simp add: filter_empty_conv filter_id_conv)
  ultimately show ?thesis
    using offset_path_eq [OF ps(1,2,3,5)] t
    by (auto simp: Let_def tree_of_def merkle_roots_def of_nat_add [symmetric] simp del: of_nat_add)
qed

lemma validate_index_eq:
  assumes "tree_of L w bs t"
  shows "validate_hypercore_index L t i =
    (if unat (2 * i) < 2 * length bs then Ok (2 * i) else Err BadArgument)"
proof -
  have "2 * i AND 1 = 0" by (simp add: and_one_eq mod2_eq_if)
  moreover have "unat (2 * mt_length t) = 2 * length bs"
    using assms by (simp add: tree_of_def unat_mult_small unat_of_nat64)
  ultimately show ?thesis
    by (simp add: validate_hypercore_index_def hypercore_index_into_merkle_tree_index_def
        Let_def word_le_nat_alt)
qed

lemma in_tree_offset_path:
  assumes "i < n" "p \<in> set (offset_path n i)"
  shows "in_tree n p"
proof -
  obtain d off where "List.find (\<lambda>(d, off). i < (off + 1) * 2 ^ d) (root_positions n) = Some (d, off)"
    "p \<in> set (left_path d off i)"
    using assms(2) unfolding offset_path_def
    by (cases "List.find (\<lambda>(d, off). i < (off + 1) * 2 ^ d) (root_positions n)") auto
  then have "in_tree i p"
    using left_path_in_tree [of p d off i] by (auto simp: find_Some_iff)
  then show ?thesis using assms(1) by (simp add: in_tree_def)
qed

text \<open>The byte range of a block is where it lies when the blocks are laid end to end; when nodes
  are missing the answer is the list of reads that supplies them.\<close>

lemma byte_range_eq:
  assumes t: "tree_of L w bs t" and nodes: "infos_to_nodes L infos = Ok nodes"
    and src: "node_source L w bs t nodes" and i: "i < length bs"
  shows "byte_range L t (of_nat i) infos =
    (let miss = map instr_of (filter (\<lambda>p. \<not> avail t nodes p) ((0, i) # offset_path (length bs) i))
     in Ok (if miss = []
       then Inr \<lparr>nbr_index = of_nat (byte_size (take i bs)), nbr_length = of_nat (length (bs ! i))\<rparr>
       else Inl miss))"
proof -
  have small: "length bs \<le> 2 ^ 62" using t by (simp add: tree_of_def)
  have ix: "2 * of_nat i = (of_nat (2 * i) :: u64)" "unat (of_nat (2 * i) :: u64) = 2 * i"
    using i small unat_of_nat64 [of "2 * i"] by simp_all
  have pos: "pos_index (0, i) = of_nat (2 * i)" by (simp add: pos_index_def)
  have "in_tree (length bs) (0, i)" using i by (simp add: in_tree_def)
  then have "required_node t (of_nat (2 * i)) nodes = Ok (Inl (instr_of (0, i))) \<and> \<not> avail t nodes (0, i) \<or>
      required_node t (of_nat (2 * i)) nodes = Ok (Inr (merkle_node L w bs (0, i))) \<and> avail t nodes (0, i)"
    using src unfolding node_source_def avail_def pos by (metis (no_types, lifting) Inl_Inr_False pos result.inject(1))
  moreover have "subtree_size bs 0 i = length (bs ! i)"
    using i by (simp add: subtree_size_def slice_def take_Suc_conv_app_nth hd_drop_conv_nth take_Suc)
  ultimately show ?thesis
    using validate_index_eq [OF t, of "of_nat i"] nodes byte_offset_from_nodes_eq [OF t src i] ix i
    unfolding byte_range_def ix(1) by (auto simp: Let_def)
qed

end

end
