(* ===== verification/Tree_Storage.thy ===== *)
theory Tree_Storage
  imports Oplog_Storage Merkle_Tree_Proofs
begin

text \<open>
  The Merkle tree on its store: how nodes are written and read back, that every node of the
  reference tree is either still unflushed or found on the store, and that the reads which the
  tree asks for make its byte ranges complete.
\<close>

section \<open>Nodes as bytes\<close>

definition node_bytes :: "wire_format \<Rightarrow> node \<Rightarrow> bytes" where
  "node_bytes w n = w_u64 w (n_length n) @ n_hash n"

text \<open>The number of blocks for which every byte position of a node fits its store.\<close>

definition MAX_BLOCKS :: nat where "MAX_BLOCKS = 2 ^ 56"

text \<open>Every node of the tree over \<open>bs\<close> is unflushed or stored in \<open>f\<close>, nothing else is unflushed,
  and no node has the hash that marks a blank node.\<close>

definition tree_held :: "'it libs \<Rightarrow> wire_format \<Rightarrow> bytes list \<Rightarrow> merkle_tree \<Rightarrow> bytes \<Rightarrow> bool" where
  "tree_held L w bs t f \<longleftrightarrow> tree_of L w bs t \<and> length bs \<le> MAX_BLOCKS \<and> \<not> mt_truncated t \<and>
     im_wf (mt_unflushed t) \<and>
     (\<forall>i n. im_get (mt_unflushed t) i = Some n \<longrightarrow>
        (\<exists>p. in_tree (length bs) p \<and> i = pos_index p \<and> n = merkle_node L w bs p)) \<and>
     (\<forall>p. in_tree (length bs) p \<longrightarrow> \<not> n_blank (merkle_node L w bs p)) \<and>
     (\<forall>p. in_tree (length bs) p \<longrightarrow> im_get (mt_unflushed t) (pos_index p) = None \<longrightarrow>
        holds_at f (40 * tree_index (fst p) (snd p)) (node_bytes w (merkle_node L w bs p)))"

text \<open>The same for a tree of which only the nodes at the positions \<open>K\<close> are known.\<close>

definition tree_known :: "'it libs \<Rightarrow> wire_format \<Rightarrow> bytes list \<Rightarrow> (nat \<times> nat) set \<Rightarrow> merkle_tree \<Rightarrow> bytes \<Rightarrow> bool" where
  "tree_known L w bs K t f \<longleftrightarrow> tree_of L w bs t \<and> length bs \<le> MAX_BLOCKS \<and> \<not> mt_truncated t \<and>
     im_wf (mt_unflushed t) \<and>
     (\<forall>i n. im_get (mt_unflushed t) i = Some n \<longrightarrow>
        (\<exists>p. in_tree (length bs) p \<and> i = pos_index p \<and> n = merkle_node L w bs p)) \<and>
     (\<forall>p. in_tree (length bs) p \<longrightarrow> \<not> n_blank (merkle_node L w bs p)) \<and>
     (\<forall>p\<in>K. in_tree (length bs) p \<and> (im_get (mt_unflushed t) (pos_index p) = None \<longrightarrow>
        holds_at f (40 * tree_index (fst p) (snd p)) (node_bytes w (merkle_node L w bs p))))"

lemma tree_held_known: "tree_held L w bs t f \<longleftrightarrow> tree_known L w bs {p. in_tree (length bs) p} t f"
  by (auto simp: tree_held_def tree_known_def)

lemmas held_known = tree_held_known [THEN iffD1]

text \<open>Nothing but the nodes at the positions \<open>K\<close> is unflushed or on the store, where the place of
  every other node holds zeros.\<close>

definition slots :: "(nat \<times> nat) set \<Rightarrow> nat set" where
  "slots K = (\<lambda>p. tree_index (fst p) (snd p)) ` K"

definition blank_outside :: "nat set \<Rightarrow> bytes \<Rightarrow> bool" where
  "blank_outside S f \<longleftrightarrow> 40 dvd length f \<and> (\<forall>j<length f. j div 40 \<notin> S \<longrightarrow> f ! j = 0)"

definition tree_gaps :: "(nat \<times> nat) set \<Rightarrow> merkle_tree \<Rightarrow> bytes \<Rightarrow> bool" where
  "tree_gaps K t f \<longleftrightarrow> (\<forall>i n. im_get (mt_unflushed t) i = Some n \<longrightarrow> unat i \<in> slots K) \<and> blank_outside (slots K) f"

lemma blank_outside_write:
  assumes f: "blank_outside S f" and x: "x \<in> S" "length data = 40"
  shows "blank_outside S (file_write f (40 * x) data)"
proof -
  have len: "length (file_write f (40 * x) data) = max (length f) (40 * x + 40)" using x(2) by (auto simp: length_file_write)
  have "40 dvd 40 * x + (40 :: nat)" by simp
  then have "40 dvd max (length f) (40 * x + 40)" using f unfolding blank_outside_def max_def by (simp split: if_splits)
  moreover have "file_write f (40 * x) data ! j = 0" if j: "j < max (length f) (40 * x + 40)" "j div 40 \<notin> S" for j
  proof -
    have "j < 40 * x \<or> 40 * x + 40 \<le> j"
    proof (rule ccontr)
      assume "\<not> ?thesis"
      then have "j div 40 = x" by (intro div_nat_eqI) auto
      with j(2) x(1) show False by simp
    qed
    then show ?thesis
      using j f x(2) by (auto simp: file_write_def put_def file_truncate_def blank_outside_def nth_append max_def)
  qed
  ultimately show ?thesis unfolding blank_outside_def len by blast
qed

definition node_info :: "'it libs \<Rightarrow> wire_format \<Rightarrow> bytes list \<Rightarrow> nat \<times> nat \<Rightarrow> store_info" where
  "node_info L w bs p = si_new_content Tree (40 * pos_index p) (node_bytes w (merkle_node L w bs p))"

text \<open>What has been read, as the argument of the tree's operations, and what is still to be read.\<close>

definition infos_of ::
  "'it libs \<Rightarrow> wire_format \<Rightarrow> bytes list \<Rightarrow> store_info list option \<Rightarrow> (nat \<times> nat) list \<Rightarrow> bool" where
  "infos_of L w bs infos ps \<longleftrightarrow>
     (case infos of None \<Rightarrow> ps = [] | Some infos \<Rightarrow> infos = map (node_info L w bs) ps)"

definition to_read :: "merkle_tree \<Rightarrow> (nat \<times> nat) list \<Rightarrow> (nat \<times> nat) list \<Rightarrow> (nat \<times> nat) list" where
  "to_read t ps qs = filter (\<lambda>p. im_get (mt_unflushed t) (pos_index p) = None \<and> p \<notin> set ps) qs"

declare split_paired_All [simp del] split_paired_Ex [simp del]

lemma map_preimage:
  "(\<And>x. x \<in> set xs \<Longrightarrow> \<exists>p. P p \<and> x = g p) \<Longrightarrow> \<exists>ps. xs = map g ps \<and> (\<forall>p\<in>set ps. P p)"
proof (induction xs)
  case (Cons x xs)
  then obtain ps p where "xs = map g ps" "\<forall>p\<in>set ps. P p" "P p" "x = g p" by (metis list.set_intros)
  then show ?case by (intro exI [of _ "p # ps"]) auto
qed simp

lemma in_tree_index:
  assumes "in_tree n p" "n \<le> MAX_BLOCKS"
  shows "tree_index (fst p) (snd p) < 2 ^ 57" "pos_ok (fst p) (snd p)"
proof -
  have "tree_index (fst p) (snd p) < 2 * n"
    using assms(1) tree_index_bound [of "fst p" "snd p"] by (simp add: in_tree_def)
  then show "tree_index (fst p) (snd p) < 2 ^ 57" using assms(2) by (simp add: MAX_BLOCKS_def)
  show "pos_ok (fst p) (snd p)"
  proof -
    have "1 * 2 ^ fst p \<le> (snd p + 1) * 2 ^ fst p" by (intro mult_le_mono1) simp
    then have "2 ^ fst p \<le> (2 :: nat) ^ 56" using assms by (simp add: in_tree_def MAX_BLOCKS_def)
    then have "fst p \<le> 56" using power_le_imp_le_exp [of "2 :: nat" "fst p" 56] by simp
    then show ?thesis using assms by (simp add: in_tree_def pos_ok_def MAX_BLOCKS_def)
  qed
qed

lemma pos_index_nat:
  assumes "in_tree n p" "n \<le> MAX_BLOCKS"
  shows "unat (pos_index p) = tree_index (fst p) (snd p)"
    "unat (40 * pos_index p) = 40 * tree_index (fst p) (snd p)"
proof -
  show eq: "unat (pos_index p) = tree_index (fst p) (snd p)"
    using in_tree_index(1) [OF assms] by (simp add: pos_index_def unat_of_nat64)
  show "unat (40 * pos_index p) = 40 * tree_index (fst p) (snd p)"
    using in_tree_index(1) [OF assms] eq by (subst unat_mult_lem [THEN iffD1]) auto
qed

lemma pos_index_inj:
  assumes "in_tree n p" "in_tree n q" "n \<le> MAX_BLOCKS" "pos_index p = pos_index q"
  shows "p = q"
proof -
  have "tree_index (fst p) (snd p) = tree_index (fst q) (snd q)"
    using pos_index_nat(1) [OF assms(1,3)] pos_index_nat(1) [OF assms(2,3)] assms(4) by simp
  then show ?thesis by (simp add: tree_index_inj prod_eq_iff)
qed

lemma index_from_node_info:
  assumes "in_tree n p" "n \<le> MAX_BLOCKS"
  shows "index_from_info (si_new_content Tree (40 * pos_index p) data) = pos_index p"
  using pos_index_nat [OF assms]
  by (simp add: index_from_info_def si_new_content_def NODE_SIZE_def word_eq_iff_unat unat_div)

section \<open>The nodes that new blocks complete\<close>

definition new_positions :: "nat \<Rightarrow> nat \<Rightarrow> (nat \<times> nat) list" where
  "new_positions n m = concat (map completed_at [Suc n ..< Suc m])"

lemma dvd_trailing_zeros:
  assumes "0 < n" "2 ^ d dvd n"
  shows "d \<le> trailing_zeros n"
proof (rule ccontr)
  obtain m where m: "odd m" "n = m * 2 ^ trailing_zeros n" using odd_part [OF assms(1)] by auto
  assume "\<not> d \<le> trailing_zeros n"
  then have "2 ^ Suc (trailing_zeros n) dvd (2 :: nat) ^ d" by (intro le_imp_power_dvd) simp
  with assms(2) m(2) have "2 ^ Suc (trailing_zeros n) dvd m * 2 ^ trailing_zeros n" by (metis dvd_trans)
  with m(1) show False by simp
qed

lemma trailing_zeros_dvd: "0 < n \<Longrightarrow> d \<le> trailing_zeros n \<Longrightarrow> 2 ^ d dvd n"
  using odd_part [of n] by (metis dvd_trans dvd_triv_right le_imp_power_dvd)

lemma completed_at_iff: "0 < n \<Longrightarrow> p \<in> set (completed_at n) \<longleftrightarrow> (snd p + 1) * 2 ^ fst p = n"
proof -
  assume n: "0 < n"
  have "p \<in> set (completed_at n) \<longleftrightarrow> fst p \<le> trailing_zeros n \<and> snd p = n div 2 ^ fst p - 1"
    by (cases p) (auto simp: completed_at_def simp del: upt_Suc)
  also have "\<dots> \<longleftrightarrow> (snd p + 1) * 2 ^ fst p = n"
  proof
    assume a: "fst p \<le> trailing_zeros n \<and> snd p = n div 2 ^ fst p - 1"
    then have d: "2 ^ fst p dvd n" using trailing_zeros_dvd [OF n] by blast
    then have "0 < n div 2 ^ fst p" using n by (simp add: dvd_imp_le div_greater_zero_iff)
    with a d show "(snd p + 1) * 2 ^ fst p = n" by simp
  next
    assume a: "(snd p + 1) * 2 ^ fst p = n"
    then have "2 ^ fst p dvd n" by (metis dvd_triv_right)
    moreover have "n div 2 ^ fst p = snd p + 1" unfolding a [symmetric] by simp
    ultimately show "fst p \<le> trailing_zeros n \<and> snd p = n div 2 ^ fst p - 1"
      using dvd_trailing_zeros [OF n] by simp
  qed
  finally show ?thesis .
qed

lemma new_positions_iff: "p \<in> set (new_positions n m) \<longleftrightarrow> in_tree m p \<and> \<not> in_tree n p"
proof -
  have "p \<in> set (new_positions n m) \<longleftrightarrow> (\<exists>k. n < k \<and> k \<le> m \<and> p \<in> set (completed_at k))"
    by (auto simp: new_positions_def less_Suc_eq_le Suc_le_eq simp del: upt_Suc)
  also have "\<dots> \<longleftrightarrow> (\<exists>k. n < k \<and> k \<le> m \<and> (snd p + 1) * 2 ^ fst p = k)"
    using completed_at_iff by (metis gr_zeroI less_zeroE)
  finally have "p \<in> set (new_positions n m) \<longleftrightarrow> (\<exists>k. n < k \<and> k \<le> m \<and> (snd p + 1) * 2 ^ fst p = k)" .
  then show ?thesis by (auto simp: in_tree_def)
qed

lemma new_positions_Suc: "n \<le> m \<Longrightarrow> new_positions n (Suc m) = new_positions n m @ completed_at (Suc m)"
  by (simp add: new_positions_def)

lemma in_tree_mono: "in_tree n p \<Longrightarrow> n \<le> m \<Longrightarrow> in_tree m p"
  by (simp add: in_tree_def)

lemma merkle_node_extend: "in_tree (length bs) p \<Longrightarrow> merkle_node L w (bs @ cs) p = merkle_node L w bs p"
  by (cases p) (simp add: in_tree_def merkle_node_prefix)

text \<open>The tree over a longer log \<open>bs\<close>, with the nodes at \<open>ps\<close> in memory; the tree after the blocks \<open>cs\<close>.\<close>

definition grown_tree ::
  "'it libs \<Rightarrow> wire_format \<Rightarrow> bytes list \<Rightarrow> (nat \<times> nat) list \<Rightarrow> u64 \<Rightarrow> bytes option \<Rightarrow> merkle_tree \<Rightarrow> merkle_tree" where
  "grown_tree L w bs ps fork sig t =
     t\<lparr>mt_roots := merkle_roots L w bs, mt_length := of_nat (length bs), mt_byte_length := of_nat (byte_size bs),
       mt_fork := fork, mt_signature := sig,
       mt_unflushed := fold (\<lambda>n m. im_insert (n_index n) n m) (map (merkle_node L w bs) ps) (mt_unflushed t)\<rparr>"

abbreviation extended_tree ::
  "'it libs \<Rightarrow> wire_format \<Rightarrow> bytes list \<Rightarrow> bytes list \<Rightarrow> u64 \<Rightarrow> bytes option \<Rightarrow> merkle_tree \<Rightarrow> merkle_tree" where
  "extended_tree L w bs cs \<equiv> grown_tree L w (bs @ cs) (new_positions (length bs) (length (bs @ cs)))"

context libs_laws
begin

lemma length_merkle_hash: "length (merkle_hash (lib_cr L) w bs d off) = 32"
  by (cases d) (simp_all add: crypt.length_blake2b)

lemma length_node_bytes: "length (node_bytes w (merkle_node L w bs p)) = 40"
  by (cases p) (simp add: node_bytes_def cenc.length_w_u64 length_merkle_hash)

lemma flush_node_eq:
  assumes "length (n_hash n) = 32"
  shows "flush_node L n = Ok (si_new_content Tree (n_index n * 40) (node_bytes w n))"
proof -
  have "put (put (replicate 40 0) 0 (w_u64 w (n_length n))) 8 (n_hash n) = node_bytes w n"
    using assms put_chain [of 8 0 "w_u64 w (n_length n)" "n_hash n" "replicate 40 0"]
    by (simp add: cenc.length_w_u64 node_bytes_def put_def)
  with assms show ?thesis
    by (simp add: flush_node_def cenc.new_with_size cenc.u64c.enc_law cenc.fixed32c.enc_law room_def
        cenc.length_w_u64 length_put)
qed

lemma node_from_bytes_eq:
  assumes "length (n_hash n) = 32"
  shows "node_from_bytes L index (node_bytes w n) = Ok (node_new (lib_ft L) index (n_hash n) (n_length n))"
proof -
  have "holds_at (w_u64 w (n_length n)) 0 (w_u64 w (n_length n))" by (rule holds_at_whole)
  then have "ce_dec_u64 (lib_ce L) (w_u64 w (n_length n)) \<lparr>cs_start = 0, cs_end = 8\<rparr> =
      Ok (n_length n, advance 8 \<lparr>cs_start = 0, cs_end = 8\<rparr>)"
    using cenc.u64c.dec_law [of "w_u64 w (n_length n)" "\<lparr>cs_start = 0, cs_end = 8\<rparr>" "n_length n"]
    by (simp add: room_def cenc.length_w_u64)
  then show ?thesis
    by (simp add: node_from_bytes_def node_bytes_def cenc.length_w_u64 cenc.from_buffer Let_def enc_err_def)
qed

lemma stored_node_read:
  assumes "in_tree (length bs) p" "length bs \<le> MAX_BLOCKS"
  shows "node_from_bytes L (pos_index p) (node_bytes w (merkle_node L w bs p)) = Ok (merkle_node L w bs p)"
  using node_from_bytes_eq [of "merkle_node L w bs p" "pos_index p"]
  by (cases p) (simp add: length_merkle_hash merkle_node_def pos_index_def node_new_def)

text \<open>The map of nodes that the tree builds from what was read.\<close>

lemma infos_to_nodes_loop_eq:
  assumes "\<forall>p\<in>set ps. in_tree (length bs) p" "length bs \<le> MAX_BLOCKS"
  shows "\<exists>m. infos_to_nodes_loop L (map (node_info L w bs) ps) nodes = Ok m \<and>
    (\<forall>p. in_tree (length bs) p \<longrightarrow> im_get m (pos_index p) =
      (if p \<in> set ps then Some (Some (merkle_node L w bs p)) else im_get nodes (pos_index p)))"
  using assms(1)
proof (induction ps arbitrary: nodes)
  case Nil
  then show ?case by simp
next
  case (Cons p ps)
  have p: "in_tree (length bs) p" using Cons.prems by simp
  have "infos_to_nodes_loop L (map (node_info L w bs) (p # ps)) nodes =
      infos_to_nodes_loop L (map (node_info L w bs) ps) (im_insert (pos_index p) (Some (merkle_node L w bs p)) nodes)"
    using stored_node_read [OF p assms(2)] index_from_node_info [OF p assms(2)]
    by (simp add: node_info_def si_new_content_def index_from_info_def)
  then show ?case
    using Cons.IH [of "im_insert (pos_index p) (Some (merkle_node L w bs p)) nodes"] Cons.prems
      pos_index_inj [OF _ p assms(2)] by fastforce
qed

lemma infos_to_nodes_eq:
  assumes "\<forall>p\<in>set ps. in_tree (length bs) p" "length bs \<le> MAX_BLOCKS"
  shows "\<exists>m. infos_to_nodes L (Some (map (node_info L w bs) ps)) = Ok m \<and>
    (\<forall>p. in_tree (length bs) p \<longrightarrow> im_get m (pos_index p) =
      (if p \<in> set ps then Some (Some (merkle_node L w bs p)) else None))"
  using infos_to_nodes_loop_eq [OF assms, of "[]"] by (simp add: infos_to_nodes_def cong: if_cong)

text \<open>With the nodes at \<open>ps\<close> read, a node of the tree is at hand when it is unflushed or among
  \<open>ps\<close>, and asked for otherwise.\<close>

lemma known_required_node:
  assumes "tree_known L w bs K t f" "in_tree (length bs) p"
    and "im_get m (pos_index p) = (if p \<in> set ps then Some (Some (merkle_node L w bs p)) else None)"
  shows "required_node t (pos_index p) m =
    Ok (if im_get (mt_unflushed t) (pos_index p) \<noteq> None \<or> p \<in> set ps then Inr (merkle_node L w bs p)
        else Inl (instr_of p))"
proof (cases "im_get (mt_unflushed t) (pos_index p)")
  case None
  then show ?thesis
    using assms by (simp add: tree_known_def required_node_def mt_node_def Let_def instr_of_def)
next
  case (Some n)
  then obtain q where "in_tree (length bs) q" "pos_index p = pos_index q" "n = merkle_node L w bs q"
    using assms(1) unfolding tree_known_def by metis
  moreover from this have "q = p"
    using pos_index_inj [OF assms(2)] assms(1) by (simp add: tree_known_def)
  ultimately show ?thesis
    using Some assms by (simp add: tree_known_def required_node_def mt_node_def Let_def)
qed

lemmas held_required_node = known_required_node [OF held_known]

text \<open>The nodes of \<open>qs\<close> that still have to be read, when those of \<open>ps\<close> have been.\<close>

lemma known_nodes:
  assumes held: "tree_known L w bs K t f" and ps: "\<forall>p\<in>set ps. in_tree (length bs) p"
    and infos: "infos_of L w bs infos ps"
  obtains m where "infos_to_nodes L infos = Ok m" "node_source L w bs t m"
    "\<And>qs. \<forall>p\<in>set qs. in_tree (length bs) p \<Longrightarrow> filter (\<lambda>p. \<not> avail t m p) qs = to_read t ps qs"
proof -
  have small: "length bs \<le> MAX_BLOCKS" using held by (simp add: tree_known_def)
  obtain m where m: "infos_to_nodes L infos = Ok m"
    "\<And>p. in_tree (length bs) p \<Longrightarrow> im_get m (pos_index p) =
      (if p \<in> set ps then Some (Some (merkle_node L w bs p)) else None)"
  proof (cases infos)
    case None
    with infos that show ?thesis by (auto simp: infos_of_def infos_to_nodes_def)
  next
    case Some
    with infos that infos_to_nodes_eq [OF ps small] show ?thesis by (auto simp: infos_of_def)
  qed
  have req: "required_node t (pos_index p) m =
      Ok (if im_get (mt_unflushed t) (pos_index p) \<noteq> None \<or> p \<in> set ps then Inr (merkle_node L w bs p)
        else Inl (instr_of p))" if "in_tree (length bs) p" for p
    using known_required_node [OF held that m(2) [OF that]] .
  have "node_source L w bs t m" using req by (simp add: node_source_def)
  moreover have "filter (\<lambda>p. \<not> avail t m p) qs = to_read t ps qs" if "\<forall>p\<in>set qs. in_tree (length bs) p" for qs
    using that req unfolding to_read_def avail_def by (intro filter_cong) auto
  ultimately show thesis using that m(1) by blast
qed

lemmas held_nodes = known_nodes [OF held_known]

lemma known_byte_range:
  assumes held: "tree_known L w bs K t f" and ps: "\<forall>p\<in>set ps. in_tree (length bs) p"
    and infos: "infos_of L w bs infos ps" and i: "i < length bs"
  shows "byte_range L t (of_nat i) infos =
    (let qs = to_read t ps ((0, i) # offset_path (length bs) i)
     in Ok (if qs = [] then Inr \<lparr>nbr_index = of_nat (byte_size (take i bs)), nbr_length = of_nat (length (bs ! i))\<rparr>
       else Inl (map instr_of qs)))"
proof -
  obtain m where m: "infos_to_nodes L infos = Ok m" "node_source L w bs t m"
    "\<And>qs. \<forall>p\<in>set qs. in_tree (length bs) p \<Longrightarrow> filter (\<lambda>p. \<not> avail t m p) qs = to_read t ps qs"
    using known_nodes [OF held ps infos] by blast
  have t: "tree_of L w bs t" using held by (simp add: tree_known_def)
  have "\<forall>p\<in>set ((0, i) # offset_path (length bs) i). in_tree (length bs) p"
    using i in_tree_offset_path [OF i] by (auto simp: in_tree_def)
  from byte_range_eq [OF t m(1,2) i, unfolded m(3) [OF this]] show ?thesis
    by (simp only: Let_def map_is_Nil_conv)
qed

lemmas held_byte_range = known_byte_range [OF held_known]

lemma known_byte_offset:
  assumes held: "tree_known L w bs K t f" and ps: "\<forall>p\<in>set ps. in_tree (length bs) p"
    and infos: "infos_of L w bs infos ps" and i: "i < length bs"
  shows "byte_offset L t (of_nat i) infos =
    (let qs = to_read t ps (offset_path (length bs) i)
     in Ok (if qs = [] then Inr (of_nat (byte_size (take i bs))) else Inl (map instr_of qs)))"
proof -
  obtain m where m: "infos_to_nodes L infos = Ok m" "node_source L w bs t m"
    "\<And>qs. \<forall>p\<in>set qs. in_tree (length bs) p \<Longrightarrow> filter (\<lambda>p. \<not> avail t m p) qs = to_read t ps qs"
    using known_nodes [OF held ps infos] by blast
  have t: "tree_of L w bs t" using held by (simp add: tree_known_def)
  have ix: "2 * of_nat i = (of_nat (2 * i) :: u64)" "unat (of_nat (2 * i) :: u64) = 2 * i"
    using i t unat_of_nat64 [of "2 * i"] by (simp_all add: tree_of_def)
  have "\<forall>p\<in>set (offset_path (length bs) i). in_tree (length bs) p"
    using in_tree_offset_path [OF i] by auto
  note offset = byte_offset_from_nodes_eq [OF t m(2) i, unfolded m(3) [OF this]]
  have "validate_hypercore_index L t (of_nat i) = Ok (of_nat (2 * i))"
    unfolding validate_index_eq [OF t] ix(1) using ix(2) i by simp
  with offset m(1) show ?thesis
    by (simp only: byte_offset_def byte_offset_from_index_def bindR.simps Let_def map_is_Nil_conv)
qed

lemmas held_byte_offset = known_byte_offset [OF held_known]

section \<open>Committing new blocks\<close>

lemma insert_nodes_get:
  fixes m :: "node intmap"
  assumes "\<forall>p\<in>set ps. in_tree (length bs) p" "length bs \<le> MAX_BLOCKS"
  defines "m' \<equiv> fold (\<lambda>n m. im_insert (n_index n) n m) (map (merkle_node L w bs) ps) m"
  shows "im_wf m \<Longrightarrow> im_wf m'"
    and "in_tree (length bs) p \<Longrightarrow> im_get m' (pos_index p) =
      (if p \<in> set ps then Some (merkle_node L w bs p) else im_get m (pos_index p))"
    and "im_get m' i = Some n \<Longrightarrow> im_get m i = Some n \<or> (\<exists>p\<in>set ps. i = pos_index p \<and> n = merkle_node L w bs p)"
proof -
  have index: "n_index (merkle_node L w bs p) = pos_index p" for p
    by (cases p) (simp add: pos_index_def)
  show "im_wf m \<Longrightarrow> im_wf m'"
    unfolding m'_def by (induction ps arbitrary: m) auto
  show "in_tree (length bs) p \<Longrightarrow> im_get m' (pos_index p) =
      (if p \<in> set ps then Some (merkle_node L w bs p) else im_get m (pos_index p))"
    using assms(1) unfolding m'_def
  proof (induction ps arbitrary: m)
    case (Cons q ps)
    then show ?case using pos_index_inj [of "length bs" p q] assms(2) by (auto simp: index)
  qed simp
  show "im_get m' i = Some n \<Longrightarrow> im_get m i = Some n \<or> (\<exists>p\<in>set ps. i = pos_index p \<and> n = merkle_node L w bs p)"
    unfolding m'_def
  proof (induction ps arbitrary: m)
    case (Cons q ps)
    then show ?case by (fastforce simp: index split: if_splits)
  qed simp
qed

text \<open>Nodes of the log that come into memory are known, and a longer log keeps the nodes of a shorter one.\<close>

lemma known_insert:
  assumes known: "tree_known L w bs K t f" and ps: "\<forall>p\<in>set ps. in_tree (length bs) p"
  shows "tree_known L w bs (K \<union> set ps) (t\<lparr>mt_unflushed := fold (\<lambda>n m. im_insert (n_index n) n m) (map (merkle_node L w bs) ps) (mt_unflushed t)\<rparr>) f"
proof -
  have max: "length bs \<le> MAX_BLOCKS" using known by (simp add: tree_known_def)
  let ?m = "fold (\<lambda>n m. im_insert (n_index n) n m) (map (merkle_node L w bs) ps) (mt_unflushed t)"
  note ins = insert_nodes_get [OF ps max, where m = "mt_unflushed t"]
  have "\<exists>p. in_tree (length bs) p \<and> i = pos_index p \<and> n = merkle_node L w bs p" if "im_get ?m i = Some n" for i n
    using ins(3) [OF that] known ps unfolding tree_known_def by blast
  moreover have "in_tree (length bs) p \<and> (im_get ?m (pos_index p) = None \<longrightarrow>
      holds_at f (40 * tree_index (fst p) (snd p)) (node_bytes w (merkle_node L w bs p)))" if "p \<in> K \<union> set ps" for p
    using that ins(2) [of p] known ps unfolding tree_known_def by (cases "p \<in> set ps") auto
  moreover have "im_wf ?m" using ins(1) known by (simp add: tree_known_def)
  ultimately show ?thesis using known unfolding tree_known_def tree_of_def by auto
qed

lemma known_grow:
  assumes known: "tree_known L w bs K t f" and small: "length (bs @ cs) \<le> MAX_BLOCKS"
    and blank: "\<forall>p. in_tree (length (bs @ cs)) p \<longrightarrow> \<not> n_blank (merkle_node L w (bs @ cs) p)"
    and ps: "\<forall>p\<in>set ps. in_tree (length (bs @ cs)) p"
  shows "tree_known L w (bs @ cs) (K \<union> set ps) (grown_tree L w (bs @ cs) ps fork sig t) f"
proof -
  let ?t = "t\<lparr>mt_roots := merkle_roots L w (bs @ cs), mt_length := of_nat (length (bs @ cs)),
       mt_byte_length := of_nat (byte_size (bs @ cs)), mt_fork := fork, mt_signature := sig\<rparr>"
  have node: "merkle_node L w bs p = merkle_node L w (bs @ cs) p" "in_tree (length (bs @ cs)) p" if "in_tree (length bs) p" for p
    using merkle_node_extend [OF that, of L w cs] in_tree_mono [OF that, of "length (bs @ cs)"] by simp_all
  have "\<exists>p. in_tree (length (bs @ cs)) p \<and> i = pos_index p \<and> n = merkle_node L w (bs @ cs) p" if "im_get (mt_unflushed t) i = Some n" for i n
    using known that node unfolding tree_known_def by metis
  moreover have "in_tree (length (bs @ cs)) p \<and> (im_get (mt_unflushed t) (pos_index p) = None \<longrightarrow>
      holds_at f (40 * tree_index (fst p) (snd p)) (node_bytes w (merkle_node L w (bs @ cs) p)))" if "p \<in> K" for p
    using known that node unfolding tree_known_def by metis
  moreover have "tree_of L w (bs @ cs) ?t" using small by (simp add: tree_of_def MAX_BLOCKS_def)
  ultimately have "tree_known L w (bs @ cs) K ?t f" using known small blank unfolding tree_known_def by simp
  from known_insert [OF this ps] show ?thesis by (simp add: grown_tree_def)
qed

lemma held_extend:
  assumes held: "tree_held L w bs t f" and small: "length (bs @ cs) \<le> MAX_BLOCKS"
    and blank: "\<forall>p. in_tree (length (bs @ cs)) p \<longrightarrow> \<not> n_blank (merkle_node L w (bs @ cs) p)"
  shows "tree_held L w (bs @ cs) (extended_tree L w bs cs fork sig t) f"
proof -
  let ?ps = "new_positions (length bs) (length (bs @ cs))"
  have "{p. in_tree (length bs) p} \<union> set ?ps = {p. in_tree (length (bs @ cs)) p}"
    using in_tree_mono [of "length bs" _ "length (bs @ cs)"] by (auto simp: new_positions_iff)
  with known_grow [OF held_known [OF held] small blank, of ?ps fork sig] show ?thesis
    by (simp add: tree_held_known new_positions_iff)
qed

text \<open>The changeset that appending the blocks \<open>cs\<close> to the tree leads to.\<close>

lemma held_commit:
  assumes held: "tree_held L w bs t f" and small: "length (bs @ cs) \<le> MAX_BLOCKS"
    and blank: "\<forall>p. in_tree (length (bs @ cs)) p \<longrightarrow> \<not> n_blank (merkle_node L w (bs @ cs) p)"
    and cg: "cg_upgraded cg" "cg_roots cg = merkle_roots L w (bs @ cs)"
      "cg_length cg = of_nat (length (bs @ cs))" "cg_byte_length cg = of_nat (byte_size (bs @ cs))"
      "cg_nodes cg = map (merkle_node L w (bs @ cs)) (new_positions (length bs) (length (bs @ cs)))"
      "cg_original_tree_length cg = mt_length t" "cg_original_tree_fork cg = mt_fork t" "cg_ancestors cg = mt_length t"
  shows "\<exists>t'. mt_commit L t cg = Ok t' \<and> tree_held L w (bs @ cs) t' f \<and> mt_fork t' = cg_fork cg \<and>
    mt_signature t' = cg_signature cg"
proof -
  have "mt_commit L t cg = Ok (extended_tree L w bs cs (cg_fork cg) (cg_signature cg) t)"
    using cg by (simp add: mt_commit_def commitable_def commit_truncation_def grown_tree_def)
  with held_extend [OF held small blank, of "cg_fork cg" "cg_signature cg"] show ?thesis
    by (simp add: grown_tree_def)
qed

end

context device_laws
begin

lemma read_known_nodes:
  assumes "tree_known L w bs K t (stored content s Tree)"
    and "\<forall>p\<in>set ps. p \<in> K \<and> im_get (mt_unflushed t) (pos_index p) = None"
  shows "read_infos ra s (map instr_of ps) = Ok (map (node_info L w bs) ps)"
  using assms(2)
proof (induction ps)
  case Nil
  then show ?case by simp
next
  case (Cons p ps)
  let ?f = "stored content s Tree"
  have p: "in_tree (length bs) p" and small: "length bs \<le> MAX_BLOCKS"
    and held: "holds_at ?f (40 * tree_index (fst p) (snd p)) (node_bytes w (merkle_node L w bs p))"
    using Cons.prems assms(1) by (auto simp: tree_known_def)
  have "unat (40 * pos_index p) + unat (40 :: u64) \<le> length ?f"
    using held pos_index_nat(2) [OF p small] by (simp add: holds_at_def length_node_bytes)
  moreover have "slice ?f (unat (40 * pos_index p)) 40 = node_bytes w (merkle_node L w bs p)"
    using held pos_index_nat(2) [OF p small] by (simp add: holds_at_def length_node_bytes)
  ultimately show ?case
    using Cons read_content(1) [of "40 * pos_index p" 40 s Tree]
    by (simp add: instr_of_def node_info_def)
qed

lemma read_stored_nodes:
  assumes "tree_held L w bs t (stored content s Tree)"
    and "\<forall>p\<in>set ps. in_tree (length bs) p \<and> im_get (mt_unflushed t) (pos_index p) = None"
  shows "read_infos ra s (map instr_of ps) = Ok (map (node_info L w bs) ps)"
  by (rule read_known_nodes [OF held_known [OF assms(1)]]) (use assms(2) in simp)

section \<open>Flushing nodes\<close>

text \<open>Writing the node at \<open>p\<close> puts it into the file and keeps every other node.\<close>

lemma flush_node_info:
  assumes "in_tree (length bs) p" "length bs \<le> MAX_BLOCKS"
  obtains s' where "flush_one ra s (node_info L w bs p) = Ok s'"
    "holds_at (stored content s' Tree) (40 * tree_index (fst p) (snd p)) (node_bytes w (merkle_node L w bs p))"
    "\<And>q x. q \<noteq> p \<Longrightarrow> length x = 40 \<Longrightarrow> holds_at (stored content s Tree) (40 * tree_index (fst q) (snd q)) x \<Longrightarrow>
      holds_at (stored content s' Tree) (40 * tree_index (fst q) (snd q)) x"
    "\<And>st. st \<noteq> Tree \<Longrightarrow> stored content s' st = stored content s st"
    "\<And>S. tree_index (fst p) (snd p) \<in> S \<Longrightarrow> blank_outside S (stored content s Tree) \<Longrightarrow> blank_outside S (stored content s' Tree)"
proof -
  let ?x = "node_bytes w (merkle_node L w bs p)" and ?off = "40 * tree_index (fst p) (snd p)"
  have off: "unat (40 * pos_index p) = ?off" using pos_index_nat(2) [OF assms] .
  have "unat (40 * pos_index p) + length ?x \<le> MAX_FILE"
    using in_tree_index(1) [OF assms] unfolding off length_node_bytes by (simp add: MAX_FILE_def)
  from flush_content [OF this, of s Tree] obtain s' where s': "flush_one ra s (node_info L w bs p) = Ok s'"
    "stored content s' Tree = file_write (stored content s Tree) ?off ?x"
    "\<forall>st. st \<noteq> Tree \<longrightarrow> stored content s' st = stored content s st"
    unfolding off node_info_def by blast
  have ne: "?x \<noteq> []" using length_node_bytes [of bs p] by auto
  have other: "holds_at (stored content s' Tree) (40 * tree_index (fst q) (snd q)) x"
    if "q \<noteq> p" "length x = 40" "holds_at (stored content s Tree) (40 * tree_index (fst q) (snd q)) x" for q x
  proof -
    have "tree_index (fst q) (snd q) \<noteq> tree_index (fst p) (snd p)"
      using that(1) by (simp add: tree_index_inj prod_eq_iff)
    then show ?thesis
      unfolding s'(2) using that(2) by (intro holds_at_file_write_other [OF that(3)]) (auto simp: length_node_bytes)
  qed
  show thesis
    by (rule that [OF s'(1)]) (use s'(2,3) holds_at_file_write [OF ne] other blank_outside_write length_node_bytes in auto)
qed

lemma flush_node_infos:
  assumes "\<forall>p\<in>set ps. in_tree (length bs) p" "length bs \<le> MAX_BLOCKS"
  shows "\<exists>s'. flush_infos ra s (map (node_info L w bs) ps) = Ok s' \<and>
    (\<forall>p. in_tree (length bs) p \<longrightarrow> p \<in> set ps \<or>
        holds_at (stored content s Tree) (40 * tree_index (fst p) (snd p)) (node_bytes w (merkle_node L w bs p)) \<longrightarrow>
      holds_at (stored content s' Tree) (40 * tree_index (fst p) (snd p)) (node_bytes w (merkle_node L w bs p))) \<and>
    (\<forall>st. st \<noteq> Tree \<longrightarrow> stored content s' st = stored content s st) \<and>
    (\<forall>S. slots (set ps) \<subseteq> S \<longrightarrow> blank_outside S (stored content s Tree) \<longrightarrow> blank_outside S (stored content s' Tree))"
  using assms(1)
proof (induction ps arbitrary: s)
  case Nil
  then show ?case by simp
next
  case (Cons p ps)
  let ?h = "\<lambda>s q. holds_at (stored content s Tree) (40 * tree_index (fst q) (snd q)) (node_bytes w (merkle_node L w bs q))"
  have p: "in_tree (length bs) p" using Cons.prems by simp
  obtain s1 where s1: "flush_one ra s (node_info L w bs p) = Ok s1" "?h s1 p" "\<And>q. ?h s q \<Longrightarrow> ?h s1 q"
    "\<And>st. st \<noteq> Tree \<Longrightarrow> stored content s1 st = stored content s st"
    "\<And>S. tree_index (fst p) (snd p) \<in> S \<Longrightarrow> blank_outside S (stored content s Tree) \<Longrightarrow> blank_outside S (stored content s1 Tree)"
    by (rule flush_node_info [OF p assms(2), of s]) (metis length_node_bytes)
  have "\<forall>p\<in>set ps. in_tree (length bs) p" using Cons.prems by simp
  from Cons.IH [OF this, of s1] obtain s' where s': "flush_infos ra s1 (map (node_info L w bs) ps) = Ok s'"
    "\<forall>p. in_tree (length bs) p \<longrightarrow> p \<in> set ps \<or> ?h s1 p \<longrightarrow> ?h s' p"
    "\<forall>st. st \<noteq> Tree \<longrightarrow> stored content s' st = stored content s1 st"
    "\<forall>S. slots (set ps) \<subseteq> S \<longrightarrow> blank_outside S (stored content s1 Tree) \<longrightarrow> blank_outside S (stored content s' Tree)" by blast
  have "flush_infos ra s (map (node_info L w bs) (p # ps)) = Ok s'" using s1(1) s'(1) by simp
  then show ?case using s1(2-5) s'(2-4) by (intro exI [of _ s']) (auto simp: slots_def)
qed

lemma unflushed_positions:
  assumes "tree_known L w bs K t f"
  obtains ps where "mt_unflushed t = map (\<lambda>p. (pos_index p, merkle_node L w bs p)) ps"
    "\<forall>p\<in>set ps. in_tree (length bs) p"
proof -
  have "\<exists>p. in_tree (length bs) p \<and> x = (pos_index p, merkle_node L w bs p)" if "x \<in> set (mt_unflushed t)" for x
  proof -
    have "im_get (mt_unflushed t) (fst x) = Some (snd x)"
      using assms that by (simp add: tree_known_def im_wf_def im_get_def)
    then show ?thesis using assms unfolding tree_known_def by (metis prod.collapse)
  qed
  then show thesis
    using that map_preimage [of "mt_unflushed t" "in_tree (length bs)" "\<lambda>p. (pos_index p, merkle_node L w bs p)"] by blast
qed

lemma known_flush:
  assumes held: "tree_known L w bs K t (stored content s Tree)"
  shows "\<exists>infos s'. mt_flush L t = Ok (t\<lparr>mt_unflushed := []\<rparr>, infos) \<and> flush_infos ra s infos = Ok s' \<and>
    tree_known L w bs K (t\<lparr>mt_unflushed := []\<rparr>) (stored content s' Tree) \<and>
    (\<forall>st. st \<noteq> Tree \<longrightarrow> stored content s' st = stored content s st) \<and>
    (tree_gaps K t (stored content s Tree) \<longrightarrow> tree_gaps K (t\<lparr>mt_unflushed := []\<rparr>) (stored content s' Tree))"
proof -
  obtain ps where ps: "mt_unflushed t = map (\<lambda>p. (pos_index p, merkle_node L w bs p)) ps"
    "\<forall>p\<in>set ps. in_tree (length bs) p"
    using unflushed_positions [OF held] by blast
  have small: "length bs \<le> MAX_BLOCKS" and tr: "\<not> mt_truncated t" using held by (simp_all add: tree_known_def)
  have node: "flush_node L (merkle_node L w bs p) = Ok (node_info L w bs p)" for p
    using flush_node_eq [of "merkle_node L w bs p"]
    by (cases p) (simp add: length_merkle_hash node_info_def pos_index_def mult.commute)
  have "flush_nodes_loop L (map (\<lambda>p. (pos_index p, merkle_node L w bs p)) ps) = Ok (map (node_info L w bs) ps)"
    by (induction ps) (auto simp: node)
  then have fl: "mt_flush L t = Ok (t\<lparr>mt_unflushed := []\<rparr>, map (node_info L w bs) ps)"
    using tr ps(1) by (simp add: mt_flush_def flush_nodes_def)
  obtain s' where s': "flush_infos ra s (map (node_info L w bs) ps) = Ok s'"
    "\<forall>p. in_tree (length bs) p \<longrightarrow> p \<in> set ps \<or>
        holds_at (stored content s Tree) (40 * tree_index (fst p) (snd p)) (node_bytes w (merkle_node L w bs p)) \<longrightarrow>
      holds_at (stored content s' Tree) (40 * tree_index (fst p) (snd p)) (node_bytes w (merkle_node L w bs p))"
    "\<forall>st. st \<noteq> Tree \<longrightarrow> stored content s' st = stored content s st"
    "\<forall>S. slots (set ps) \<subseteq> S \<longrightarrow> blank_outside S (stored content s Tree) \<longrightarrow> blank_outside S (stored content s' Tree)"
    using flush_node_infos [OF ps(2) small, of s] by blast
  have "p \<in> set ps" if "in_tree (length bs) p" "im_get (mt_unflushed t) (pos_index p) \<noteq> None" for p
  proof -
    have "pos_index p \<in> set (im_keys (mt_unflushed t))" using that(2) by (auto simp: set_im_keys)
    then obtain q where "q \<in> set ps" "pos_index q = pos_index p" using ps(1) by (auto simp: im_keys_def)
    then show ?thesis using pos_index_inj [OF _ that(1) small, of q] ps(2) by metis
  qed
  then have "holds_at (stored content s' Tree) (40 * tree_index (fst p) (snd p)) (node_bytes w (merkle_node L w bs p))"
    if "p \<in> K" for p
    using that s'(2) held unfolding tree_known_def by blast
  then have "tree_known L w bs K (t\<lparr>mt_unflushed := []\<rparr>) (stored content s' Tree)"
    using held unfolding tree_known_def tree_of_def by simp
  moreover have "slots (set ps) \<subseteq> slots K" if "tree_gaps K t (stored content s Tree)"
  proof
    fix x assume "x \<in> slots (set ps)"
    then obtain p where p: "p \<in> set ps" "x = tree_index (fst p) (snd p)" by (auto simp: slots_def)
    then have "(pos_index p, merkle_node L w bs p) \<in> set (mt_unflushed t)" using ps(1) by simp
    then have "im_get (mt_unflushed t) (pos_index p) = Some (merkle_node L w bs p)"
      using held by (simp add: tree_known_def im_wf_def im_get_def)
    then have "unat (pos_index p) \<in> slots K" using that by (simp add: tree_gaps_def)
    then show "x \<in> slots K" using pos_index_nat(1) [OF _ small, of p] ps(2) p by simp
  qed
  then have "tree_gaps K (t\<lparr>mt_unflushed := []\<rparr>) (stored content s' Tree)" if "tree_gaps K t (stored content s Tree)"
    using that s'(4) by (simp add: tree_gaps_def im_get_def)
  ultimately show ?thesis using fl s'(1,3) by blast
qed

lemma held_flush:
  assumes "tree_held L w bs t (stored content s Tree)"
  shows "\<exists>infos s'. mt_flush L t = Ok (t\<lparr>mt_unflushed := []\<rparr>, infos) \<and> flush_infos ra s infos = Ok s' \<and>
    tree_held L w bs (t\<lparr>mt_unflushed := []\<rparr>) (stored content s' Tree) \<and>
    (\<forall>st. st \<noteq> Tree \<longrightarrow> stored content s' st = stored content s st)"
  using known_flush [OF held_known [OF assms]] unfolding tree_held_known by blast

end

end
