(* ===== verification/Bitfield_Spec.thy ===== *)
theory Bitfield_Spec
  imports Dynamic_Bitfield
begin

text \<open>
  What the core relies on of its bitfield, as an interface, and that the paged bitfield provides
  it.  The client lemmas are about the hole that \<open>clear\<close> looks for around a cleared range.
\<close>

section \<open>The interface\<close>

locale index_bitfield =
  fixes wf :: "'b \<Rightarrow> bool" and bits :: "'b \<Rightarrow> nat \<Rightarrow> bool" and top :: "'b \<Rightarrow> nat"
    and get :: "'b \<Rightarrow> u64 \<Rightarrow> bool hres"
    and set_range :: "'b \<Rightarrow> u64 \<Rightarrow> u64 \<Rightarrow> bool \<Rightarrow> 'b hres"
    and first_set :: "'b \<Rightarrow> u64 \<Rightarrow> u64 option hres"
    and last_set :: "'b \<Rightarrow> u64 \<Rightarrow> u64 option hres"
  assumes get_law: "wf b \<Longrightarrow> get b i = Ok (bits b (unat i))"
    and set_range_law: "wf b \<Longrightarrow> unat s + unat n < 2 ^ 64 \<Longrightarrow>
      \<exists>b'. set_range b s n v = Ok b' \<and> wf b' \<and>
        bits b' = (\<lambda>k. if unat s \<le> k \<and> k < unat s + unat n then v else bits b k) \<and>
        (\<forall>m. top b \<le> 32768 * m \<longrightarrow> unat s + unat n \<le> 32768 * m \<longrightarrow> top b' \<le> 32768 * m)"
    and first_law: "wf b \<Longrightarrow> \<exists>r. first_set b i = Ok r \<and> is_first (bits b) (unat i) (map_option unat r)"
    and last_law: "wf b \<Longrightarrow> \<exists>r. last_set b i = Ok r \<and> is_last (bits b) (unat i) (map_option unat r)"
    and top_law: "wf b \<Longrightarrow> bits b k \<Longrightarrow> k < top b"
begin

text \<open>After a range has been cleared, the bits from the one after the last set bit before it up to
  the first set bit behind it are all clear.\<close>

lemma hole:
  assumes "wf b" "\<And>k. unat s \<le> k \<Longrightarrow> k < unat e \<Longrightarrow> \<not> bits b k" "unat s < unat e"
    and "last_set b s = Ok l" "first_set b e = Ok r"
  shows "\<And>k. (case l of Some i \<Rightarrow> unat i < k | None \<Rightarrow> True) \<Longrightarrow> (case r of Some i \<Rightarrow> k < unat i | None \<Rightarrow> True) \<Longrightarrow>
      \<not> bits b k"
    and "case l of Some i \<Rightarrow> unat i < unat s \<and> bits b (unat i) | None \<Rightarrow> True"
    and "case r of Some i \<Rightarrow> unat e \<le> unat i \<and> bits b (unat i) | None \<Rightarrow> True"
proof -
  have l: "is_last (bits b) (unat s) (map_option unat l)" and r: "is_first (bits b) (unat e) (map_option unat r)"
    using last_law [OF assms(1), of s] first_law [OF assms(1), of e] assms(4,5) by auto
  have s: "\<not> bits b (unat s)" using assms(2,3) by blast
  show "\<not> bits b k"
    if "case l of Some i \<Rightarrow> unat i < k | None \<Rightarrow> True" "case r of Some i \<Rightarrow> k < unat i | None \<Rightarrow> True" for k
  proof (cases "k \<le> unat s" "k < unat e" rule: bool.exhaust [case_product bool.exhaust])
    case True_True
    with l that(1) show ?thesis by (cases l) (auto simp: is_last_def)
  next
    case False_True
    with assms(2) [of k] show ?thesis by simp
  next
    case False_False
    with r that(2) show ?thesis by (cases r) (auto simp: is_first_def)
  qed (use assms(3) in auto)
  show "case l of Some i \<Rightarrow> unat i < unat s \<and> bits b (unat i) | None \<Rightarrow> True"
    using l s by (cases l) (auto simp: is_last_def order_le_less)
  show "case r of Some i \<Rightarrow> unat e \<le> unat i \<and> bits b (unat i) | None \<Rightarrow> True"
    using r by (cases r) (auto simp: is_first_def)
qed

end

section \<open>The paged bitfield\<close>

definition dyn_top :: "dynamic_bitfield \<Rightarrow> nat" where
  "dyn_top b = 32768 * Suc (unat (db_biggest_page_index b))"

text \<open>What every round of \<open>set_range\<close> keeps holds after all of them.  A round changes the bits from
  \<open>rs\<close> on, \<open>re\<close> of them, in page \<open>i\<close>, all within the range.\<close>

lemma set_range_loop_invariant:
  assumes "dyn_set_range_loop v j i len b = Ok b'" "unat j < 32768" "32768 * unat i + unat j + unat len \<le> lim" "lim < 2 ^ 64" "P b"
    and step: "\<And>b i p rs re p' c. P b \<Longrightarrow> unat i < 2 ^ 49 \<Longrightarrow> im_get (db_pages (ensure_page i b)) i = Some p \<Longrightarrow>
      fixed_set_range p rs re v = Ok (p', c) \<Longrightarrow> unat rs + unat re \<le> 32768 \<Longrightarrow> 0 < unat re \<Longrightarrow>
      32768 * unat i + unat rs + unat re \<le> lim \<Longrightarrow> P (mark_page i p' c (ensure_page i b))"
  shows "P b'"
  using assms
proof (induction v j i len b rule: dyn_set_range_loop.induct [case_names round])
  case (round v j i len b)
  show ?case
  proof (cases "len > 0")
    case False
    with round.prems(1,5) show ?thesis by (simp add: dyn_set_range_loop.simps)
  next
    case True
    have "unat (j + len) = unat j + unat len" using round.prems(3,4) by (intro unat_add_small) simp
    then have re: "unat (min (j + len) PAGE - j) = min (unat len) (32768 - unat j)"
      using round.prems(2) by (auto simp: min_def word_le_nat_alt unat_sub_small)
    obtain p rs re p' c where r: "im_get (db_pages (ensure_page i b)) i = Some p" "u64_to_u32 j = Ok rs"
      "u64_to_u32 (min (j + len) PAGE - j) = Ok re" "fixed_set_range p rs re v = Ok (p', c)"
      "dyn_set_range_loop v 0 (i + 1) (len - of_nat (unat re)) (mark_page i p' c (ensure_page i b)) = Ok b'"
      using True round.prems(1) unfolding dyn_set_range_loop.simps [of v j i len b]
      by (cases "im_get (db_pages (ensure_page i b)) i") (auto simp: bindR_eq_Ok Let_def)
    have n: "unat re = min (unat len) (32768 - unat j)" "unat rs = unat j"
      using r(2,3) re by (auto simp: u64_to_u32_def unat_of_nat_small split: if_splits)
    have l: "unat (len - of_nat (unat re)) = unat len - unat re"
      using n by (simp add: unat_sub_small unat_of_nat64)
    have i: "unat i < 2 ^ 49" using round.prems(3,4) by simp
    have i1: "unat (i + 1) = unat i + 1" using i by (simp add: unat_add_small)
    have P: "P (mark_page i p' c (ensure_page i b))"
      using True n round.prems(2,3) by (intro round.prems(6) [OF round.prems(5) i r(1,4)]) (simp_all add: word_less_nat_alt)
    show ?thesis
    proof (cases "unat len \<le> 32768 - unat j")
      case True
      then have "len - of_nat (unat re) = 0" using n l by (simp add: word_eq_iff_unat)
      with r(5) P show ?thesis by (simp add: dyn_set_range_loop.simps)
    next
      case False
      show ?thesis
        by (rule round.IH [OF \<open>len > 0\<close> refl _ refl r(2,3,4) refl r(5) _ _ round.prems(4) P round.prems(6)])
          (use False n l i1 r(1) round.prems(2,3) in simp_all)
    qed
  qed
qed

lemma dyn_set_range_invariant:
  assumes "dyn_set_range b start len v = Ok b'" "unat start + unat len < 2 ^ 64" "P b"
    and "\<And>b i p rs re p' c. P b \<Longrightarrow> unat i < 2 ^ 49 \<Longrightarrow> im_get (db_pages (ensure_page i b)) i = Some p \<Longrightarrow>
      fixed_set_range p rs re v = Ok (p', c) \<Longrightarrow> unat rs + unat re \<le> 32768 \<Longrightarrow> 0 < unat re \<Longrightarrow>
      32768 * unat i + unat rs + unat re \<le> unat start + unat len \<Longrightarrow> P (mark_page i p' c (ensure_page i b))"
  shows "P b'"
  by (rule set_range_loop_invariant [OF assms(1) [unfolded dyn_set_range_def Let_def] _ _ assms(2,3,4)])
    (simp_all add: page_offset page_number)

interpretation dyn: index_bitfield dyn_wf dyn_bits dyn_top dyn_get dyn_set_range
    "\<lambda>b. dyn_index_of b True" "\<lambda>b. dyn_last_index_of b True"
proof (unfold_locales, goal_cases)
  case (1 b i)
  then show ?case by (rule dyn_get_bits)
next
  case (2 b s n v)
  obtain b' where b': "dyn_set_range b s n v = Ok b'" "dyn_wf b'"
    "dyn_bits b' = (\<lambda>k. if unat s \<le> k \<and> k < unat s + unat n then v else dyn_bits b k)"
    using dyn_set_range_spec [OF 2] by blast
  moreover have "dyn_top b' \<le> 32768 * m" if "dyn_top b \<le> 32768 * m" "unat s + unat n \<le> 32768 * m" for m
  proof (rule dyn_set_range_invariant [where P = "\<lambda>b. dyn_top b \<le> 32768 * m", OF b'(1) 2(2) that(1)])
    show "dyn_top (mark_page i p' c (ensure_page i b)) \<le> 32768 * m"
      if "dyn_top b \<le> 32768 * m" "0 < unat re" "32768 * unat i + unat rs + unat re \<le> unat s + unat n" for b i rs re p' c
    proof -
      have "unat i < m" using that(2,3) \<open>unat s + unat n \<le> 32768 * m\<close> by simp
      with that(1) show ?thesis by (auto simp: dyn_top_def ensure_page_def mark_page_def split: option.splits)
    qed
  qed
  ultimately show ?case by blast
next
  case (3 b i)
  then show ?case by (rule dyn_index_of_true)
next
  case (4 b i)
  then show ?case by (rule dyn_last_index_of_true)
next
  case (5 b k)
  then obtain p where p: "im_get (db_pages b) (of_nat (k div 32768)) = Some p" "k < 2 ^ 64"
    by (auto simp: dyn_bits_def split: option.splits)
  have "unat (of_nat (k div 32768) :: u64) = k div 32768"
    using p(2) by (intro unat_of_nat64) (simp add: less_mult_imp_div_less)
  then show ?case using dyn_wfD(3) [OF 5(1) p(1)] by (simp add: dyn_top_def word_le_nat_alt)
qed

end
