(* ===== verification/Bitfield_Storage.thy ===== *)
theory Bitfield_Storage
  imports Bitfield_Spec Storage
begin

text \<open>
  The bitfield on its store: the file is the sequence of its pages, and a page that is not dirty
  has the bits that the file has.
\<close>

definition page_bits :: "fixed_bitfield list \<Rightarrow> nat \<Rightarrow> bool" where
  "page_bits ps k \<longleftrightarrow> k div 32768 < length ps \<and> fixed_bits (ps ! (k div 32768)) (k mod 32768)"

definition page_file :: "fixed_bitfield list \<Rightarrow> bytes" where
  "page_file ps = concat (map fixed_to_bytes ps)"

definition clean :: "dynamic_bitfield \<Rightarrow> u64 \<Rightarrow> bool" where
  "clean b i \<longleftrightarrow> i \<notin> set (db_unflushed b)"

text \<open>\<open>len\<close> bounds the indices, and so the pages that are dirty or stored.\<close>

definition bits_stored :: "dynamic_bitfield \<Rightarrow> fixed_bitfield list \<Rightarrow> nat \<Rightarrow> bool" where
  "bits_stored b ps len \<longleftrightarrow> list_all fixed_wf ps \<and> length ps \<le> 2 ^ 42 \<and>
     32768 * length ps < len + 32768 \<and> (\<forall>i\<in>set (db_unflushed b). 32768 * unat i < len) \<and>
     (\<forall>k<2 ^ 64. clean b (of_nat (k div 32768)) \<longrightarrow> (dyn_bits b k \<longleftrightarrow> page_bits ps k))"

section \<open>Writing pages\<close>

definition put_page :: "fixed_bitfield list \<Rightarrow> nat \<Rightarrow> fixed_bitfield \<Rightarrow> fixed_bitfield list" where
  "put_page ps i p = (if i < length ps then ps[i := p] else ps @ replicate (i - length ps) fixed_new @ [p])"

lemma length_put_page: "length (put_page ps i p) = max (length ps) (Suc i)"
  by (auto simp: put_page_def)

lemma length_page_file: "list_all fixed_wf ps \<Longrightarrow> length (page_file ps) = 4096 * length ps"
  by (induction ps) (auto simp: page_file_def fixed_to_bytes_length fixed_consts)

lemma fixed_new_wf: "fixed_wf fixed_new" "\<not> fixed_bits fixed_new k"
  by (simp_all add: fixed_wf_def fixed_new_def fixed_bits_def word_bits_def fixed_consts)

lemma put_page_wf: "list_all fixed_wf ps \<Longrightarrow> fixed_wf p \<Longrightarrow> list_all fixed_wf (put_page ps i p)"
  by (auto simp: put_page_def list_all_iff fixed_new_wf dest: subsetD [OF set_update_subset_insert])

lemma page_bits_put:
  assumes "fixed_wf p"
  shows "page_bits (put_page ps i p) k = (if k div 32768 = i then fixed_bits p (k mod 32768) else page_bits ps k)"
  using fixed_new_wf(2)
  by (auto simp: page_bits_def put_page_def nth_append nth_list_update)

lemma fixed_new_bytes: "fixed_to_bytes fixed_new = replicate 4096 0"
proof -
  have "u32_to_le_bytes 0 = replicate 4 0" by (simp add: u32_to_le_bytes_def numeral_eq_Suc)
  then have "concat (map u32_to_le_bytes (replicate n 0)) = replicate (4 * n) 0" for n
    by (induction n) (simp_all add: replicate_add [symmetric])
  then show ?thesis by (simp add: fixed_to_bytes_def fixed_new_def fixed_consts)
qed

lemma page_file_put:
  assumes "list_all fixed_wf ps" "fixed_wf p"
  shows "file_write (page_file ps) (4096 * i) (fixed_to_bytes p) = page_file (put_page ps i p)"
proof -
  have len: "length (page_file ps) = 4096 * length ps" "length (fixed_to_bytes p) = 4096"
    using length_page_file [OF assms(1)] fixed_to_bytes_length [OF assms(2)] by (simp_all add: fixed_consts)
  then have ne: "fixed_to_bytes p \<noteq> []" by auto
  show ?thesis
  proof (cases "i < length ps")
    case True
    have "page_file ps = page_file (take i ps) @ fixed_to_bytes (ps ! i) @ page_file (drop (Suc i) ps)"
      using id_take_nth_drop [OF True] by (metis concat.simps(2) concat_append list.simps(9) map_append page_file_def)
    moreover have "page_file (ps[i := p]) = page_file (take i ps) @ fixed_to_bytes p @ page_file (drop (Suc i) ps)"
      using True by (simp add: upd_conv_take_nth_drop page_file_def)
    moreover have "length (page_file (take i ps)) = 4096 * i" "length (fixed_to_bytes (ps ! i)) = 4096"
      using assms(1) True fixed_to_bytes_length [of "ps ! i"] length_page_file [of "take i ps"]
      by (simp_all add: list_all_length fixed_consts)
    moreover have "max (length (page_file ps)) (4096 * i + 4096) = length (page_file ps)"
      using True len(1) by simp
    ultimately show ?thesis
      using True len(2) ne by (simp add: file_write_def put_page_def file_truncate_def put_def)
  next
    case False
    have zeros: "page_file (replicate n fixed_new) = replicate (4096 * n) 0" for n
      by (induction n) (simp_all add: page_file_def fixed_new_bytes replicate_add [symmetric])
    have "page_file (put_page ps i p) = page_file ps @ page_file (replicate (i - length ps) fixed_new) @ fixed_to_bytes p"
      using False by (simp add: put_page_def page_file_def)
    moreover have "file_truncate (page_file ps) (max (length (page_file ps)) (4096 * i + 4096)) =
        page_file ps @ replicate (4096 * (i - length ps)) 0 @ replicate 4096 0"
      using False len(1) by (simp add: file_truncate_def replicate_add [symmetric] diff_mult_distrib2)
    ultimately show ?thesis
      using ne len False unfolding zeros by (simp add: file_write_def put_def)
  qed
qed

section \<open>Changing and flushing the bitfield\<close>

text \<open>A round of \<open>set_range\<close> makes at most its own page dirty, and if it leaves that page clean, it
  has not changed it.\<close>

lemma mark_page_clean:
  assumes wf: "dyn_wf b" and i: "unat i < 2 ^ 49" and p: "im_get (db_pages (ensure_page i b)) i = Some p"
    and set: "fixed_set_range p rs re v = Ok (p', c)" "unat rs + unat re \<le> 32768"
  defines "b' \<equiv> mark_page i p' c (ensure_page i b)"
  shows "dyn_wf b'" "set (db_unflushed b) \<subseteq> set (db_unflushed b')" "set (db_unflushed b') \<subseteq> insert i (set (db_unflushed b))"
    and "k < 2 ^ 64 \<Longrightarrow> clean b' (of_nat (k div 32768)) \<Longrightarrow> dyn_bits b' k = dyn_bits b k"
proof -
  note ens = ensure_page_wf [OF wf i]
  have range: "unat rs + unat re \<le> FIXED_BITFIELD_BITS_LENGTH" using set(2) by (simp add: fixed_consts)
  have p': "fixed_wf p'" "fb_dirty p' = fb_dirty p" "c \<longleftrightarrow> fixed_bits p' \<noteq> fixed_bits p"
    using fixed.set_range_bits [OF dyn_wfD(1) [OF ens(1) p] range, of v] set(1)
      fixed.page_set_range_flag [OF dyn_wfD(1) [OF ens(1) p] range set(1)] by auto
  have unflushed: "db_unflushed (ensure_page i b) = db_unflushed b" by (simp add: ensure_page_def split: option.splits)
  show "dyn_wf b'" unfolding b'_def using mark_page_spec(1) [OF ens(1) p p'(1,2)] .
  show "set (db_unflushed b) \<subseteq> set (db_unflushed b')" "set (db_unflushed b') \<subseteq> insert i (set (db_unflushed b))"
    by (auto simp: b'_def mark_page_def unflushed)
  show "dyn_bits b' k = dyn_bits b k" if k: "k < 2 ^ 64" and clean: "clean b' (of_nat (k div 32768))"
  proof (cases "k div 32768 = unat i")
    case True
    then have "i \<notin> set (db_unflushed b')" using clean by (simp add: clean_def)
    moreover have "i \<in> set (db_unflushed b')" if c
    proof (cases "fb_dirty p'")
      case True
      then have "i \<in> set (db_unflushed (ensure_page i b))" using p p'(2) ens(1) unfolding dyn_wf_def by blast
      then show ?thesis by (simp add: b'_def mark_page_def)
    next
      case False
      with that show ?thesis by (simp add: b'_def mark_page_def)
    qed
    ultimately have "fixed_bits p' = fixed_bits p" using p'(3) by blast
    then show ?thesis
      using True mark_page_spec(2) [OF ens(1) p p'(1,2) k] dyn_bits_page [OF ens(1) p k] ens(2) by (simp add: b'_def)
  next
    case False
    then show ?thesis using mark_page_spec(2) [OF ens(1) p p'(1,2) k] ens(2) by (simp add: b'_def)
  qed
qed

lemma bits_stored_mono: "bits_stored b ps m \<Longrightarrow> m \<le> n \<Longrightarrow> bits_stored b ps n"
  by (auto simp: bits_stored_def)

lemma bits_stored_set_range:
  assumes st: "bits_stored b ps m" and wf: "dyn_wf b" and set: "dyn_set_range b start len v = Ok b'"
    and n: "unat start + unat len \<le> n" "m \<le> n" "n < 2 ^ 64"
  shows "bits_stored b' ps n"
proof -
  have len: "unat start + unat len < 2 ^ 64" using n by simp
  have "dyn_wf b' \<and> bits_stored b' ps n"
  proof (rule dyn_set_range_invariant [where P = "\<lambda>b. dyn_wf b \<and> bits_stored b ps n", OF set len])
    show "dyn_wf b \<and> bits_stored b ps n" using wf bits_stored_mono [OF st n(2)] by simp
    fix b i p rs re p' c
    assume b: "dyn_wf b \<and> bits_stored b ps n" and round: "unat i < 2 ^ 49" "im_get (db_pages (ensure_page i b)) i = Some p"
      "fixed_set_range p rs re v = Ok (p', c)" "unat rs + unat re \<le> 32768" "0 < unat re"
      "32768 * unat i + unat rs + unat re \<le> unat start + unat len"
    let ?b = "mark_page i p' c (ensure_page i b)"
    note mark = mark_page_clean [OF _ round(1-4)]
    have "32768 * unat u < n" if "u \<in> set (db_unflushed ?b)" for u
      using that mark(3) b round(5,6) n(1) by (auto simp: bits_stored_def)
    moreover have "dyn_bits ?b k = page_bits ps k" if "k < 2 ^ 64" "clean ?b (of_nat (k div 32768))" for k
    proof -
      have "clean b (of_nat (k div 32768))" using that(2) mark(2) b by (auto simp: clean_def)
      with b that(1) have "dyn_bits b k = page_bits ps k" by (simp add: bits_stored_def)
      then show ?thesis using mark(4) [OF _ that] b by simp
    qed
    ultimately show "dyn_wf ?b \<and> bits_stored ?b ps n" using b mark(1) by (simp add: bits_stored_def)
  qed
  then show ?thesis ..
qed

text \<open>The pages that a flush writes, one after the other.\<close>

definition put_pages :: "u64 list \<Rightarrow> fixed_bitfield intmap \<Rightarrow> fixed_bitfield list \<Rightarrow> fixed_bitfield list" where
  "put_pages us pages ps = fold (\<lambda>i ps. put_page ps (unat i) (the (im_get pages i))) us ps"

lemma put_pages_spec:
  assumes "list_all fixed_wf ps" "length ps \<le> n" "distinct us"
    and "\<forall>i\<in>set us. fixed_wf (the (im_get pages i)) \<and> unat i < n"
  shows "list_all fixed_wf (put_pages us pages ps) \<and> length (put_pages us pages ps) \<le> n \<and>
    (\<forall>k. page_bits (put_pages us pages ps) k =
      (if \<exists>i\<in>set us. k div 32768 = unat i then fixed_bits (the (im_get pages (of_nat (k div 32768)))) (k mod 32768)
       else page_bits ps k))"
  using assms
proof (induction us arbitrary: ps)
  case Nil
  then show ?case by (simp add: put_pages_def)
next
  case (Cons i us)
  let ?p = "the (im_get pages i)"
  have step: "put_pages (i # us) pages ps = put_pages us pages (put_page ps (unat i) ?p)" by (simp add: put_pages_def)
  have "unat j \<noteq> unat i" if "j \<in> set us" for j using that Cons.prems(3) by (metis distinct.simps(2) word_eq_iff_unat)
  moreover have "list_all fixed_wf (put_page ps (unat i) ?p)" "length (put_page ps (unat i) ?p) \<le> n"
    using Cons.prems by (simp_all add: put_page_wf length_put_page)
  ultimately show ?case
    using Cons.IH [of "put_page ps (unat i) ?p"] Cons.prems(3,4) unfolding step
    by (auto simp: page_bits_put)
qed

context random_access_laws
begin

lemma flush_pages:
  assumes "list_all fixed_wf ps" "length ps \<le> 2 ^ 42" "distinct us" "stored content s Bitfield = page_file ps"
    and "\<forall>i\<in>set us. fixed_wf (the (im_get pages i)) \<and> unat i < 2 ^ 42"
  shows "\<exists>s'. flush_infos ra s (map (\<lambda>i. si_new_content Bitfield (i * 4096) (fixed_to_bytes (the (im_get pages i)))) us) = Ok s' \<and>
    stored content s' Bitfield = page_file (put_pages us pages ps) \<and>
    (\<forall>st. st \<noteq> Bitfield \<longrightarrow> stored content s' st = stored content s st)"
  using assms
proof (induction us arbitrary: ps s)
  case Nil
  then show ?case by (simp add: put_pages_def)
next
  case (Cons i us)
  let ?p = "the (im_get pages i)"
  have i: "fixed_wf ?p" "unat i < 2 ^ 42" using Cons.prems(5) by simp_all
  then have off: "unat (i * 4096) = 4096 * unat i" by (subst unat_mult_lem [THEN iffD1]) auto
  have len: "length (fixed_to_bytes ?p) = 4096" using i(1) by (simp add: fixed_to_bytes_length fixed_consts)
  have "unat (i * 4096) + length (fixed_to_bytes ?p) \<le> MAX_FILE" using i(2) off len by (simp add: MAX_FILE_def)
  from flush_content [OF this, of s Bitfield] obtain s1 where s1:
    "flush_one ra s (si_new_content Bitfield (i * 4096) (fixed_to_bytes ?p)) = Ok s1"
    "stored content s1 Bitfield = page_file (put_page ps (unat i) ?p)"
    "\<forall>st. st \<noteq> Bitfield \<longrightarrow> stored content s1 st = stored content s st"
    using page_file_put [OF Cons.prems(1) i(1)] Cons.prems(4) by (auto simp: off)
  have "list_all fixed_wf (put_page ps (unat i) ?p)" "length (put_page ps (unat i) ?p) \<le> 2 ^ 42"
    using Cons.prems(1,2) i by (simp_all add: put_page_wf length_put_page)
  from Cons.IH [OF this _ s1(2)] Cons.prems(3,5) obtain s' where
    "flush_infos ra s1 (map (\<lambda>i. si_new_content Bitfield (i * 4096) (fixed_to_bytes (the (im_get pages i)))) us) = Ok s'"
    "stored content s' Bitfield = page_file (put_pages us pages (put_page ps (unat i) ?p))"
    "\<forall>st. st \<noteq> Bitfield \<longrightarrow> stored content s' st = stored content s1 st" by auto
  with s1 show ?case by (auto simp: put_pages_def)
qed

lemma flush_bits:
  assumes wf: "dyn_wf b" "dyn_top b \<le> 32768 * 2 ^ 42" and st: "bits_stored b ps len" "stored content s Bitfield = page_file ps"
  shows "\<exists>b' infos s' ps'. dyn_flush b = Ok (b', infos) \<and> dyn_wf b' \<and> dyn_bits b' = dyn_bits b \<and> dyn_top b' = dyn_top b \<and>
    flush_infos ra s infos = Ok s' \<and> stored content s' Bitfield = page_file ps' \<and> bits_stored b' ps' len \<and>
    page_bits ps' = dyn_bits b \<and> (\<forall>st. st \<noteq> Bitfield \<longrightarrow> stored content s' st = stored content s st)"
proof -
  let ?us = "db_unflushed b" and ?pages = "db_pages b"
  let ?ps = "put_pages ?us ?pages ps"
  obtain b' where b': "dyn_flush b = Ok (b', map (\<lambda>i. si_new_content Bitfield (i * 4096)
      (fixed_to_bytes (the (im_get ?pages i)))) ?us)" "dyn_wf b'" "dyn_bits b' = dyn_bits b" "dyn_top b' = dyn_top b"
    "db_unflushed b' = []"
    using dyn_flush_spec [OF wf(1)] by (auto simp: dyn_flush_def bindR_eq_Ok dyn_top_def)
  have dirty: "\<exists>p. im_get ?pages i = Some p \<and> fixed_wf p \<and> unat i < 2 ^ 42" if i: "i \<in> set ?us" for i
  proof -
    obtain p where p: "im_get ?pages i = Some p" using wf(1) i unfolding dyn_wf_def by blast
    have "unat i \<le> unat (db_biggest_page_index b)" using dyn_wfD(3) [OF wf(1) p] by (simp add: word_le_nat_alt)
    with p dyn_wfD(1) [OF wf(1) p] wf(2) show ?thesis by (simp add: dyn_top_def)
  qed
  then have us: "\<forall>i\<in>set ?us. fixed_wf (the (im_get ?pages i)) \<and> unat i < 2 ^ 42" by force
  have ps: "list_all fixed_wf ps" "length ps \<le> 2 ^ 42" "distinct ?us"
    using st(1) wf(1) by (simp_all add: bits_stored_def dyn_wf_def)
  note new = put_pages_spec [OF ps us]
  have few: "32768 * length ?ps < len + 32768"
  proof -
    have "length ps \<le> (len + 32767) div 32768" "\<forall>i\<in>set ?us. fixed_wf (the (im_get ?pages i)) \<and> unat i < (len + 32767) div 32768"
      using st(1) us by (auto simp: bits_stored_def less_eq_div_iff_mult_less_eq Suc_le_eq [symmetric])
    from put_pages_spec [OF ps(1) this(1) ps(3) this(2)] show ?thesis by (simp add: less_eq_div_iff_mult_less_eq)
  qed
  have bits: "page_bits ?ps k = dyn_bits b k" for k
  proof (cases "k < 2 ^ 64")
    case True
    then have key: "unat (of_nat (k div 32768) :: u64) = k div 32768" by (intro unat_of_nat64) simp
    show ?thesis
    proof (cases "\<exists>i\<in>set ?us. k div 32768 = unat i")
      case True
      then obtain i where i: "i \<in> set ?us" "k div 32768 = unat i" by blast
      then have "of_nat (k div 32768) = i" using key by (simp add: word_eq_iff_unat)
      with i dirty [OF i(1)] \<open>k < 2 ^ 64\<close> new show ?thesis by (auto simp: dyn_bits_def)
    next
      case False
      then have "clean b (of_nat (k div 32768))" using key by (metis clean_def)
      with st(1) \<open>k < 2 ^ 64\<close> False new show ?thesis by (simp add: bits_stored_def)
    qed
  next
    case False
    then have "\<not> k div 32768 < 2 ^ 42" by simp
    with new dyn_bits_bound [of b k] False show ?thesis by (auto simp: page_bits_def)
  qed
  obtain s' where s': "flush_infos ra s (map (\<lambda>i. si_new_content Bitfield (i * 4096)
      (fixed_to_bytes (the (im_get ?pages i)))) ?us) = Ok s'"
    "stored content s' Bitfield = page_file ?ps" "\<forall>st. st \<noteq> Bitfield \<longrightarrow> stored content s' st = stored content s st"
    using flush_pages [OF ps st(2) us] by blast
  have "bits_stored b' ?ps len" using new bits b'(3,5) few by (simp add: bits_stored_def)
  with b' s' bits show ?thesis by (intro exI [of _ b'] exI [of _ s'] exI [of _ ?ps]) auto
qed

end

end
