(* ===== verification/Core_Invariant.thy ===== *)
theory Core_Invariant
  imports Core Tree_Storage Bitfield_Storage
begin

text \<open>
  The state of an author's core, related to the log it stands for: the list \<open>bs\<close> of all blocks
  ever appended and the set \<open>have\<close> of the indices whose blocks are still present.
\<close>

section \<open>The parts of the invariant\<close>

text \<open>The signature over the tree of \<open>bs\<close>, and the header that a core with these blocks has.\<close>

definition tree_hash :: "'it libs \<Rightarrow> wire_format \<Rightarrow> bytes list \<Rightarrow> bytes" where
  "tree_hash L w bs = cr_blake2b (lib_cr L) (root_input w (merkle_roots L w bs))"

definition tree_signature :: "'it libs \<Rightarrow> wire_format \<Rightarrow> bytes \<Rightarrow> bytes list \<Rightarrow> bytes" where
  "tree_signature L w sk bs =
     cr_sign (lib_cr L) sk (TREE @ tree_hash L w bs @ w_u64 w (of_nat (length bs)) @ w_u64 w 0)"

definition header_of ::
  "'it libs \<Rightarrow> wire_format \<Rightarrow> bytes \<Rightarrow> partial_keypair \<Rightarrow> bytes list \<Rightarrow> nat \<Rightarrow> header" where
  "header_of L w sk kp bs c =
     \<lparr>h_key = kp_public kp, h_manifest = default_signer_manifest (kp_public kp), h_key_pair = kp,
      h_user_data = [],
      h_tree = \<lparr>ht_fork = 0, ht_length = of_nat (length bs),
        ht_root_hash = (if bs = [] then [] else tree_hash L w bs),
        ht_signature = (if bs = [] then [] else tree_signature L w sk bs)\<rparr>,
      h_hints = \<lparr>hh_reorgs = [], hh_contiguous_length = of_nat c\<rparr>\<rparr>"

definition author_keys :: "'it libs \<Rightarrow> bytes \<Rightarrow> partial_keypair \<Rightarrow> bool" where
  "author_keys L sk kp \<longleftrightarrow> length sk = 32 \<and> kp_public kp = cr_verifying_key (lib_cr L) sk \<and>
     (kp_secret kp = None \<or> kp_secret kp = Some sk)"

definition contiguous_at :: "nat set \<Rightarrow> nat \<Rightarrow> bool" where
  "contiguous_at have c \<longleftrightarrow> {..<c} \<subseteq> have \<and> c \<notin> have"

definition blocks_held :: "bytes list \<Rightarrow> nat set \<Rightarrow> bytes \<Rightarrow> bool" where
  "blocks_held bs have f \<longleftrightarrow> (\<forall>i<length bs. i \<in> have \<longrightarrow> holds_at f (byte_size (take i bs)) (bs ! i))"

definition bitfield_is :: "dynamic_bitfield \<Rightarrow> nat set \<Rightarrow> bool" where
  "bitfield_is b have \<longleftrightarrow> dyn_wf b \<and> dyn_top b \<le> 32768 * 2 ^ 42 \<and> (\<forall>k. dyn_bits b k \<longleftrightarrow> k \<in> have)"

text \<open>The sizes that a core stays within: positions of nodes and of bytes fit their stores.\<close>

definition core_small :: "bytes list \<Rightarrow> bool" where
  "core_small bs \<longleftrightarrow> length bs \<le> MAX_BLOCKS \<and> byte_size bs \<le> 2 ^ 62"

definition nonblank :: "'it libs \<Rightarrow> wire_format \<Rightarrow> bytes list \<Rightarrow> bool" where
  "nonblank L w bs \<longleftrightarrow> (\<forall>p. in_tree (length bs) p \<longrightarrow> \<not> n_blank (merkle_node L w bs p))"

text \<open>The entries that appending and clearing write to the log, and the logs that lead from one state
  to another.\<close>

definition append_entry :: "'it libs \<Rightarrow> wire_format \<Rightarrow> bytes \<Rightarrow> bytes list \<Rightarrow> bytes list \<Rightarrow> entry" where
  "append_entry L w sk bs cs =
     \<lparr>e_user_data = [],
      e_tree_nodes = map (merkle_node L w (bs @ cs)) (new_positions (length bs) (length (bs @ cs))),
      e_tree_upgrade = Some \<lparr>etu_fork = 0, etu_ancestors = of_nat (length bs),
        etu_length = of_nat (length (bs @ cs)), etu_signature = tree_signature L w sk (bs @ cs)\<rparr>,
      e_bitfield = Some \<lparr>bu_drop = False, bu_start = of_nat (length bs), bu_length = of_nat (length cs)\<rparr>\<rparr>"

definition clear_entry :: "nat \<Rightarrow> nat \<Rightarrow> entry" where
  "clear_entry s e =
     \<lparr>e_user_data = [], e_tree_nodes = [], e_tree_upgrade = None,
      e_bitfield = Some \<lparr>bu_drop = True, bu_start = of_nat s, bu_length = of_nat (e - s)\<rparr>\<rparr>"

inductive log_path ::
  "'it libs \<Rightarrow> wire_format \<Rightarrow> bytes \<Rightarrow> bytes list \<Rightarrow> nat set \<Rightarrow> entry list \<Rightarrow> bytes list \<Rightarrow> nat set \<Rightarrow> bool"
  for L w sk bs0 have0 where
  start: "log_path L w sk bs0 have0 [] bs0 have0"
| append: "log_path L w sk bs0 have0 es bs have \<Longrightarrow> cs \<noteq> [] \<Longrightarrow>
    log_path L w sk bs0 have0 (es @ [append_entry L w sk bs cs]) (bs @ cs) (have \<union> {length bs..<length (bs @ cs)})"
| clear: "log_path L w sk bs0 have0 es bs have \<Longrightarrow> s < e \<Longrightarrow> e \<le> length bs \<Longrightarrow>
    log_path L w sk bs0 have0 (es @ [clear_entry s e]) bs (have - {s..<e})"

definition tree_stored :: "'it libs \<Rightarrow> wire_format \<Rightarrow> bytes list \<Rightarrow> bytes \<Rightarrow> bool" where
  "tree_stored L w bs f \<longleftrightarrow> (\<forall>p. in_tree (length bs) p \<longrightarrow>
     holds_at f (40 * tree_index (fst p) (snd p)) (node_bytes w (merkle_node L w bs p)))"

text \<open>What the memory of a core and its data store show of the log.\<close>

definition core_view ::
  "'it libs \<Rightarrow> wire_format \<Rightarrow> ('d \<Rightarrow> bytes) \<Rightarrow> bytes \<Rightarrow> 'd hypercore \<Rightarrow> bytes list \<Rightarrow> nat set \<Rightarrow> bool" where
  "core_view L w content sk c bs have \<longleftrightarrow>
     core_small bs \<and> have \<subseteq> {..<length bs} \<and> author_keys L sk (hc_key_pair c) \<and>
     tree_held L w bs (hc_tree c) (stored content (hc_storage c) Tree) \<and> mt_fork (hc_tree c) = 0 \<and>
     mt_signature (hc_tree c) = (if bs = [] then None else Some (tree_signature L w sk bs)) \<and>
     bitfield_is (hc_bitfield c) have \<and>
     (\<exists>ps. bits_stored (hc_bitfield c) ps (length bs) \<and> stored content (hc_storage c) Bitfield = page_file ps) \<and>
     blocks_held bs have (stored content (hc_storage c) Data) \<and>
     (\<exists>n. hc_header c = header_of L w sk (hc_key_pair c) bs n)"

text \<open>The same for a core that knows only the nodes at the positions \<open>K\<close> of its tree.\<close>

definition core_known ::
  "'it libs \<Rightarrow> wire_format \<Rightarrow> ('d \<Rightarrow> bytes) \<Rightarrow> bytes \<Rightarrow> 'd hypercore \<Rightarrow> bytes list \<Rightarrow> (nat \<times> nat) set \<Rightarrow> nat set \<Rightarrow> bool" where
  "core_known L w content sk c bs K have \<longleftrightarrow>
     core_small bs \<and> have \<subseteq> {..<length bs} \<and> author_keys L sk (hc_key_pair c) \<and>
     tree_known L w bs K (hc_tree c) (stored content (hc_storage c) Tree) \<and> mt_fork (hc_tree c) = 0 \<and>
     mt_signature (hc_tree c) = (if bs = [] then None else Some (tree_signature L w sk bs)) \<and>
     bitfield_is (hc_bitfield c) have \<and>
     (\<exists>ps. bits_stored (hc_bitfield c) ps (length bs) \<and> stored content (hc_storage c) Bitfield = page_file ps) \<and>
     blocks_held bs have (stored content (hc_storage c) Data) \<and>
     (\<exists>n. hc_header c = header_of L w sk (hc_key_pair c) bs n)"

lemma core_view_known: "core_view L w content sk c bs have \<longleftrightarrow> core_known L w content sk c bs {p. in_tree (length bs) p} have"
  by (simp add: core_view_def core_known_def tree_held_known)

definition hint_ok :: "'d hypercore \<Rightarrow> nat set \<Rightarrow> bool" where
  "hint_ok c have \<longleftrightarrow> (\<exists>n. contiguous_at have n \<and> hh_contiguous_length (h_hints (hc_header c)) = of_nat n)"

text \<open>What the stores alone say: a flushed state, and the entries that lead from it to the present
  one.  A core that has just been opened does not know the length of those entries, but flushes at
  its first change.\<close>

definition durable ::
  "'it libs \<Rightarrow> wire_format \<Rightarrow> ('d \<Rightarrow> bytes) \<Rightarrow> bytes \<Rightarrow> 'd hypercore \<Rightarrow> bytes list \<Rightarrow> nat set \<Rightarrow> bool" where
  "durable L w content sk c bs have \<longleftrightarrow> (\<exists>es bs0 have0 n ps.
     let h = header_of L w sk (hc_key_pair c) bs0 n
     in oplog_image L w (stored content (hc_storage c) Oplog) (op_header_bits (hc_oplog c))
          (get_current_header_bit (hc_oplog c)) h es \<and>
        (hc_skip_flush_count c = 0 \<and> op_entries_byte_length (hc_oplog c) = 0 \<or>
          oplog_inv L w content (hc_storage c) (hc_oplog c) h es) \<and>
        contiguous_at have0 n \<and> have0 \<subseteq> {..<length bs0} \<and>
        tree_stored L w bs0 (stored content (hc_storage c) Tree) \<and>
        list_all fixed_wf ps \<and> 32768 * length ps < length bs0 + 32768 \<and>
        stored content (hc_storage c) Bitfield = page_file ps \<and> (\<forall>k. page_bits ps k \<longleftrightarrow> k \<in> have0) \<and>
        log_path L w sk bs0 have0 es bs have)"

text \<open>The state within an operation, and the one between operations, when the log has been flushed
  if it was long.\<close>

definition core_state ::
  "'it libs \<Rightarrow> wire_format \<Rightarrow> ('d \<Rightarrow> bytes) \<Rightarrow> bytes \<Rightarrow> 'd hypercore \<Rightarrow> bytes list \<Rightarrow> nat set \<Rightarrow> bool" where
  "core_state L w content sk c bs have \<longleftrightarrow>
     core_view L w content sk c bs have \<and> hint_ok c have \<and> oplog_slots L w content (hc_storage c) (hc_oplog c) \<and>
     (hc_skip_flush_count c = 0 \<or> durable L w content sk c bs have)"

definition core_inv ::
  "'it libs \<Rightarrow> wire_format \<Rightarrow> ('d \<Rightarrow> bytes) \<Rightarrow> bytes \<Rightarrow> 'd hypercore \<Rightarrow> bytes list \<Rightarrow> nat set \<Rightarrow> bool" where
  "core_inv L w content sk c bs have \<longleftrightarrow>
     core_view L w content sk c bs have \<and> hint_ok c have \<and> durable L w content sk c bs have \<and>
     op_entries_byte_length (hc_oplog c) < MAX_OPLOG_ENTRIES_BYTE_SIZE"

section \<open>Composing operations\<close>

text \<open>Evaluating a sequence of operations whose outcomes are known.\<close>

lemma readC_simp [simp]: "readC f c = (f c, c)"
  by (simp add: readC_def)

lemmas run_simps = bindC_def stepC_def

section \<open>Sizes of headers and entries\<close>

context libs_laws
begin

lemma author_key_pair: "author_keys L sk kp \<Longrightarrow> key_pair_ok L kp"
  by (auto simp: author_keys_def key_pair_ok_def crypt.length_verifying_key crypt.is_verifying_key)

lemma header_of_fits:
  assumes "author_keys L sk kp"
  shows "header_fits L w (header_of L w sk kp bs c)"
proof -
  have kp: "key_pair_ok L kp" using author_key_pair [OF assms] .
  have hash: "length (tree_hash L w bs) = 32" and sig: "length (tree_signature L w sk bs) = 64"
    by (simp_all add: tree_hash_def tree_signature_def crypt.length_blake2b crypt.length_sign)
  have "header_ok L (header_of L w sk kp bs c)"
    using kp hash sig by (simp add: header_ok_def header_of_def key_pair_ok_def manifest_ok_def manifest_signer_ok_def
      default_signer_manifest_def DEFAULT_NAMESPACE_def strings_ok_def header_tree_ok_def Let_def)
  moreover have "length (wire_key_pair w kp) \<le> 98"
    using key_pair_lengths [OF kp] by (auto simp: wire_key_pair_def cenc.w_bytes_Nil split: option.splits)
  moreover have "length (wire_header_tree w (h_tree (header_of L w sk kp bs c))) \<le> 18 + 33 + 65"
    using cenc.length_w_uint [of 0] cenc.length_w_uint [of "of_nat (length bs)"] hash sig
      cenc.length_w_bytes [of "tree_hash L w bs"] cenc.length_w_bytes [of "tree_signature L w sk bs"]
    by (auto simp: wire_header_tree_def header_of_def cenc.w_bytes_Nil)
  moreover have "length (wire_header_hints w (h_hints (header_of L w sk kp bs c))) \<le> 10"
    using cenc.length_w_uint [of "of_nat c"] by (simp add: wire_header_hints_def header_of_def cenc.w_strings_Nil)
  moreover have "length (wire_manifest (h_manifest (header_of L w sk kp bs c))) = 68"
    using kp by (simp add: wire_manifest_def wire_manifest_signer_def header_of_def default_signer_manifest_def
        DEFAULT_NAMESPACE_def key_pair_ok_def Let_def)
  moreover have "length (h_key (header_of L w sk kp bs c)) = 32" "h_key_pair (header_of L w sk kp bs c) = kp"
    "h_user_data (header_of L w sk kp bs c) = []"
    using kp by (simp_all add: header_of_def key_pair_ok_def)
  ultimately show ?thesis
    by (simp add: header_fits_def wire_header_def HEADER_SIZE_def cenc.w_strings_Nil)
qed

lemma merkle_node_ok: "node_ok L (merkle_node L w bs p)"
  by (cases p) (simp add: node_ok_def length_merkle_hash merkle_node_def node_new_def)

lemma length_wire_nodes: 
  assumes "\<forall>n\<in>set ns. length (n_hash n) = 32"
  shows "length (wire_nodes w ns) \<le> 9 + 50 * length ns"
proof -
  have "length (concat (map (wire_node w) ns)) \<le> 50 * length ns"
    using assms
  proof (induction ns)
    case (Cons n ns)
    then show ?case
      using cenc.length_w_uint [of "n_index n"] cenc.length_w_uint [of "n_length n"] by (simp add: wire_node_def)
  qed simp
  then show ?thesis using cenc.length_w_usize [of "length ns"] by (simp add: wire_nodes_def)
qed

lemma length_completed_at: "0 < n \<Longrightarrow> n \<le> MAX_BLOCKS \<Longrightarrow> length (completed_at n) \<le> 57"
proof -
  assume n: "0 < n" "n \<le> MAX_BLOCKS"
  have "2 ^ trailing_zeros n \<le> n" using trailing_zeros_dvd [OF n(1) order_refl] n(1) by (rule dvd_imp_le)
  then have "(2 :: nat) ^ trailing_zeros n \<le> 2 ^ 56" using n(2) by (simp add: MAX_BLOCKS_def)
  then have "trailing_zeros n \<le> 56" using power_le_imp_le_exp [of "2 :: nat" _ 56] by simp
  then show ?thesis by (simp add: completed_at_def)
qed

lemma length_new_positions: "n \<le> m \<Longrightarrow> m \<le> MAX_BLOCKS \<Longrightarrow> length (new_positions n m) \<le> 57 * (m - n)"
proof (induction m)
  case (Suc m)
  show ?case
  proof (cases "n \<le> m")
    case True
    then show ?thesis using Suc length_completed_at [of "Suc m"] by (simp add: new_positions_Suc)
  next
    case False
    then show ?thesis using Suc.prems by (simp add: new_positions_def)
  qed
qed (simp add: new_positions_def)

end

section \<open>Flushing\<close>

definition flushable :: "store \<Rightarrow> store_info \<Rightarrow> bool" where
  "flushable st info \<longleftrightarrow>
     (\<exists>off data. info = si_new_content st off data \<and> unat off + length data \<le> MAX_FILE) \<or>
     (\<exists>n. info = si_new_truncate st n \<and> unat n \<le> MAX_FILE)"

lemma flushableI [intro, simp]:
  "unat off + length data \<le> MAX_FILE \<Longrightarrow> flushable st (si_new_content st off data)"
  "unat n \<le> MAX_FILE \<Longrightarrow> flushable st (si_new_truncate st n)"
  by (auto simp: flushable_def)

context device_laws
begin

lemma flush_ok:
  assumes "\<forall>info\<in>set infos. flushable st info"
  shows "\<exists>s'. flush_infos ra s infos = Ok s' \<and> (\<forall>st'. st' \<noteq> st \<longrightarrow> stored content s' st' = stored content s st')"
  using assms
proof (induction infos arbitrary: s)
  case Nil
  then show ?case by simp
next
  case (Cons info infos)
  have "\<exists>s1. flush_one ra s info = Ok s1 \<and> (\<forall>st'. st' \<noteq> st \<longrightarrow> stored content s1 st' = stored content s st')"
    using Cons.prems flush_content [where s = s and st = st] flush_truncate [where s = s and st = st]
    unfolding flushable_def list.set by (metis insertI1)
  then obtain s1 where s1: "flush_one ra s info = Ok s1" "\<forall>st'. st' \<noteq> st \<longrightarrow> stored content s1 st' = stored content s st'"
    by blast
  obtain s' where "flush_infos ra s1 infos = Ok s'" "\<forall>st'. st' \<noteq> st \<longrightarrow> stored content s' st' = stored content s1 st'"
    using Cons.IH [of s1] Cons.prems by auto
  with s1 show ?case by (intro exI [of _ s']) auto
qed

lemma header_infos_flushable:
  assumes "header_fits L w h"
  shows "\<exists>infos. insert_header L h 0 bits clear = Ok (next_bits bits, infos) \<and> (\<forall>info\<in>set infos. flushable Oplog info)"
proof -
  have off: "slot_offset (newest_slot (next_bits bits)) \<le> 4096" by (simp add: newest_slot_def HEADER_SIZE_def)
  then have "unat (of_nat (slot_offset (newest_slot (next_bits bits))) :: u64) = slot_offset (newest_slot (next_bits bits))"
    by (intro unat_of_nat64) simp
  then show ?thesis
    using insert_header_eq [OF assms, of 0 bits clear] assms off
    by (simp add: MAX_FILE_def length_framed header_fits_def HEADER_SIZE_def)
qed

lemma flush_oplog_ok:
  assumes "oplog_slots L w content s o'" "header_fits L w h'"
  shows "\<exists>o1 infos s'. oplog_flush L o' h' clear = Ok (o1, infos) \<and> flush_infos ra s infos = Ok s' \<and>
    oplog_inv L w content s' o1 h' [] \<and> op_entries_byte_length o1 = 0 \<and>
    (\<forall>st. st \<noteq> Oplog \<longrightarrow> stored content s' st = stored content s st)"
proof -
  note ins = header_infos_flushable [OF assms(2), where clear = clear]
  obtain o1 infos where fl: "oplog_flush L o' h' clear = Ok (o1, infos)" "\<forall>info\<in>set infos. flushable Oplog info"
    "op_entries_byte_length o1 = 0"
  proof (cases clear)
    case False
    then show thesis
      using ins [of "op_header_bits o'"] that by (auto simp: oplog_flush_def)
  next
    case True
    obtain i1 i2 where "insert_header L h' 0 (op_header_bits o') clear = Ok (next_bits (op_header_bits o'), i1)"
      "insert_header L h' 0 (next_bits (op_header_bits o')) clear = Ok (next_bits (next_bits (op_header_bits o')), i2)"
      "\<forall>info\<in>set (take 1 i1 @ i2). flushable Oplog info"
      using ins [of "op_header_bits o'"] ins [of "next_bits (op_header_bits o')"] by (auto dest: in_set_takeD)
    with True that show thesis by (simp add: oplog_flush_def)
  qed
  obtain s' where "flush_infos ra s infos = Ok s'" "\<forall>st. st \<noteq> Oplog \<longrightarrow> stored content s' st = stored content s st"
    using flush_ok [OF fl(2)] by blast
  with fl inv_flush [OF assms fl(1)] show ?thesis by blast
qed

text \<open>Only the contents of the stores matter.\<close>

lemma oplog_slots_cong:
  "stored content s' Oplog = stored content s Oplog \<Longrightarrow> oplog_slots L w content s' = oplog_slots L w content s"
  by (simp add: oplog_slots_def fun_eq_iff)

lemma held_stored: "tree_held L w bs t f \<Longrightarrow> mt_unflushed t = [] \<Longrightarrow> tree_stored L w bs f"
  by (simp add: tree_held_def tree_stored_def)

text \<open>Flushing writes the bits, the nodes and the header, and starts a new log.\<close>

lemma core_flush_known:
  assumes view: "core_known L w content sk c bs K have" and hint: "hint_ok c have"
    and slots: "oplog_slots L w content (hc_storage c) (hc_oplog c)"
  obtains c' ps where "flush_bitfield_and_tree_and_oplog L ra clear c = (Ok (), c')" "core_known L w content sk c' bs K have"
    "hint_ok c' have" "oplog_inv L w content (hc_storage c') (hc_oplog c') (hc_header c) []" "op_entries_byte_length (hc_oplog c') = 0"
    "mt_unflushed (hc_tree c') = []" "bits_stored (hc_bitfield c') ps (length bs)" "stored content (hc_storage c') Bitfield = page_file ps"
    "\<forall>k. page_bits ps k \<longleftrightarrow> k \<in> have" "hc_key_pair c' = hc_key_pair c" "hc_header c' = hc_header c" "hc_events c' = hc_events c"
    "stored content (hc_storage c') Data = stored content (hc_storage c) Data"
    "tree_gaps K (hc_tree c) (stored content (hc_storage c) Tree) \<longrightarrow> tree_gaps K (hc_tree c') (stored content (hc_storage c') Tree)"
proof -
  note view' = view [unfolded core_known_def bitfield_is_def]
  obtain b1 i1 s1 ps1 where 1: "dyn_flush (hc_bitfield c) = Ok (b1, i1)" "bitfield_is b1 have"
    "flush_infos ra (hc_storage c) i1 = Ok s1" "stored content s1 Bitfield = page_file ps1" "bits_stored b1 ps1 (length bs)"
    "\<forall>k. page_bits ps1 k \<longleftrightarrow> k \<in> have"
    "\<forall>st. st \<noteq> Bitfield \<longrightarrow> stored content s1 st = stored content (hc_storage c) st"
    using view' flush_bits [of "hc_bitfield c" _ "length bs" "hc_storage c"] unfolding bitfield_is_def by metis
  let ?t = "(hc_tree c)\<lparr>mt_unflushed := []\<rparr>"
  have "tree_known L w bs K (hc_tree c) (stored content s1 Tree)" using view' 1(7) by simp
  from known_flush [OF this] obtain i2 s2 where 2: "mt_flush L (hc_tree c) = Ok (?t, i2)" "flush_infos ra s1 i2 = Ok s2"
    "tree_known L w bs K ?t (stored content s2 Tree)" "\<forall>st. st \<noteq> Tree \<longrightarrow> stored content s2 st = stored content s1 st"
    "tree_gaps K (hc_tree c) (stored content s1 Tree) \<longrightarrow> tree_gaps K ?t (stored content s2 Tree)"
    by blast
  have "oplog_slots L w content s2 (hc_oplog c)"
    using slots 1(7) 2(4) oplog_slots_cong [of s2 "hc_storage c"] by simp
  moreover have "header_fits L w (hc_header c)"
    using view' header_of_fits by auto
  ultimately obtain o3 i3 s3 where 3: "oplog_flush L (hc_oplog c) (hc_header c) clear = Ok (o3, i3)"
    "flush_infos ra s2 i3 = Ok s3" "oplog_inv L w content s3 o3 (hc_header c) []" "op_entries_byte_length o3 = 0"
    "\<forall>st. st \<noteq> Oplog \<longrightarrow> stored content s3 st = stored content s2 st"
    using flush_oplog_ok [of s2 "hc_oplog c" "hc_header c" clear] by blast
  let ?c = "c\<lparr>hc_bitfield := b1, hc_tree := ?t, hc_oplog := o3, hc_storage := s3\<rparr>"
  have run: "flush_bitfield_and_tree_and_oplog L ra clear c = (Ok (), ?c)"
    using 1 2 3 by (simp add: flush_bitfield_and_tree_and_oplog_def core_flush_infos_def run_simps)
  have "core_known L w content sk ?c bs K have"
    using view 1 2 3 unfolding core_known_def by auto
  then show thesis
    by (rule that [OF run]) (use 1 2 3 hint in \<open>simp_all add: hint_ok_def\<close>)
qed

lemma core_flush_ok:
  assumes view: "core_view L w content sk c bs have" and hint: "hint_ok c have"
    and slots: "oplog_slots L w content (hc_storage c) (hc_oplog c)"
  shows "\<exists>c'. flush_bitfield_and_tree_and_oplog L ra clear c = (Ok (), c') \<and> core_inv L w content sk c' bs have \<and>
    hc_key_pair c' = hc_key_pair c \<and> hc_header c' = hc_header c \<and> hc_events c' = hc_events c \<and>
    stored content (hc_storage c') Data = stored content (hc_storage c) Data"
proof -
  obtain c' ps where c': "flush_bitfield_and_tree_and_oplog L ra clear c = (Ok (), c')" "core_view L w content sk c' bs have"
    "hint_ok c' have" "oplog_inv L w content (hc_storage c') (hc_oplog c') (hc_header c) []" "op_entries_byte_length (hc_oplog c') = 0"
    "mt_unflushed (hc_tree c') = []" "bits_stored (hc_bitfield c') ps (length bs)" "stored content (hc_storage c') Bitfield = page_file ps"
    "\<forall>k. page_bits ps k \<longleftrightarrow> k \<in> have" "hc_key_pair c' = hc_key_pair c" "hc_header c' = hc_header c" "hc_events c' = hc_events c"
    "stored content (hc_storage c') Data = stored content (hc_storage c) Data"
    using core_flush_known [OF view [unfolded core_view_known] hint slots, of clear, folded core_view_known] by metis
  note view' = c'(2) [unfolded core_view_def]
  obtain n where n: "contiguous_at have n" "hc_header c = header_of L w sk (hc_key_pair c') bs n"
    using view' c'(3,11) unfolding hint_ok_def header_of_def by auto
  have "tree_stored L w bs (stored content (hc_storage c') Tree)" using view' held_stored [OF _ c'(6)] by blast
  then have "durable L w content sk c' bs have"
    using c'(4,7,8,9) n view' log_path.start [of L w sk bs "have"] unfolding durable_def Let_def
    by (intro exI [of _ "[]"] exI [of _ bs] exI [of _ "have"] exI [of _ n] exI [of _ ps]) (simp add: oplog_inv_def bits_stored_def)
  with c' show ?thesis by (intro exI [of _ c']) (simp add: core_inv_def MAX_OPLOG_ENTRIES_BYTE_SIZE_def)
qed

lemma core_inv_state: "core_inv L w content sk c bs have \<Longrightarrow> core_state L w content sk c bs have"
  using image_oplog_slots by (fastforce simp: core_inv_def core_state_def durable_def Let_def)

text \<open>A change of the count that does not touch the log.\<close>

lemma durable_skip:
  "durable L w content sk c bs have \<Longrightarrow> hc_skip_flush_count c \<noteq> 0 \<Longrightarrow>
    durable L w content sk (c\<lparr>hc_skip_flush_count := n\<rparr>) bs have"
  unfolding durable_def Let_def by simp blast

lemma maybe_flush_ok:
  assumes "core_state L w content sk c bs have"
  shows "\<exists>c'. maybe_flush L ra c = (Ok (), c') \<and> core_inv L w content sk c' bs have \<and>
    hc_key_pair c' = hc_key_pair c \<and> hc_events c' = hc_events c \<and>
    stored content (hc_storage c') Data = stored content (hc_storage c) Data"
proof (cases "hc_skip_flush_count c = 0 \<or> op_entries_byte_length (hc_oplog c) \<ge> MAX_OPLOG_ENTRIES_BYTE_SIZE")
  case True
  let ?c = "c\<lparr>hc_skip_flush_count := 3\<rparr>"
  have "core_view L w content sk ?c bs have" "hint_ok ?c have" "oplog_slots L w content (hc_storage ?c) (hc_oplog ?c)"
    using assms by (simp_all add: core_state_def core_view_def hint_ok_def)
  moreover have "should_flush_bitfield_and_tree_and_oplog c = (Ok True, ?c)"
    using True by (simp add: should_flush_bitfield_and_tree_and_oplog_def run_simps)
  ultimately show ?thesis
    using core_flush_ok [of sk ?c bs "have" False] by (auto simp: maybe_flush_def run_simps)
next
  case False
  let ?c = "c\<lparr>hc_skip_flush_count := hc_skip_flush_count c - 1\<rparr>"
  have "core_view L w content sk ?c bs have" "hint_ok ?c have" "durable L w content sk ?c bs have"
    using assms False by (simp_all add: core_state_def core_view_def hint_ok_def durable_skip)
  moreover have "should_flush_bitfield_and_tree_and_oplog c = (Ok False, ?c)"
    using False by (simp add: should_flush_bitfield_and_tree_and_oplog_def run_simps)
  ultimately show ?thesis using False by (simp add: maybe_flush_def run_simps core_inv_def not_le)
qed

end

end
