(* ===== verification/Core_Append.thy ===== *)
theory Core_Append
  imports Core_Invariant
begin

text \<open>Appending blocks to an author's core.\<close>

section \<open>The contiguous length\<close>

lemma contiguous_loop_spec:
  assumes "bitfield_is b have" "dyn_top b - unat c < fuel" "unat c < 2 ^ 63"
  shows "\<exists>n. contiguous_loop fuel b c = Ok (of_nat n) \<and> unat c \<le> n \<and> {unat c..<n} \<subseteq> have \<and> n \<notin> have"
  using assms(2,3)
proof (induction fuel arbitrary: c)
  case (Suc fuel)
  have wf: "dyn_wf b" and top: "dyn_top b \<le> 32768 * 2 ^ 42" and bits: "\<And>k. dyn_bits b k \<longleftrightarrow> k \<in> have"
    using assms(1) by (auto simp: bitfield_is_def)
  show ?case
  proof (cases "unat c \<in> have")
    case True
    then have lt: "unat c < dyn_top b" using dyn.top_law [OF wf] bits by blast
    then have c1: "unat (c + 1) = unat c + 1" using top by (simp add: unat_add_small)
    have "dyn_top b - unat (c + 1) < fuel" using Suc.prems(1) lt c1 by linarith
    moreover have "unat (c + 1) < 2 ^ 63" using lt c1 top by simp
    ultimately obtain n where n: "contiguous_loop fuel b (c + 1) = Ok (of_nat n)" "unat c + 1 \<le> n"
      "{unat c + 1..<n} \<subseteq> have" "n \<notin> have"
      using Suc.IH [of "c + 1"] unfolding c1 by auto
    have "{unat c..<n} = insert (unat c) {unat c + 1..<n}" using n(2) by auto
    with n True show ?thesis
      by (intro exI [of _ n]) (auto simp: dyn_get_bits [OF wf] bits)
  next
    case False
    then show ?thesis
      by (intro exI [of _ "unat c"]) (auto simp: dyn_get_bits [OF wf] bits)
  qed
qed simp

lemma update_contiguous_set:
  assumes bits: "bitfield_is b (have \<union> {s..<e})" and n: "contiguous_at have n" "hh_contiguous_length (h_hints h) = of_nat n"
    and small: "n < 2 ^ 63" "e < 2 ^ 63" "s \<le> e"
  shows "\<exists>n'. update_contiguous_length h b \<lparr>bu_drop = False, bu_start = of_nat s, bu_length = of_nat (e - s)\<rparr> =
      Ok (h\<lparr>h_hints := (h_hints h)\<lparr>hh_contiguous_length := of_nat n'\<rparr>\<rparr>) \<and> contiguous_at (have \<union> {s..<e}) n'"
proof -
  have nat: "unat (of_nat n :: u64) = n" "unat (of_nat s :: u64) = s" "unat (of_nat e :: u64) = e"
    using small by (simp_all add: unat_of_nat64)
  have e: "of_nat s + of_nat (e - s) = (of_nat e :: u64)" using small(3) by (simp add: of_nat_diff)
  have same: "h\<lparr>h_hints := (h_hints h)\<lparr>hh_contiguous_length := of_nat n\<rparr>\<rparr> = h" using n(2) by simp
  let ?new = "\<lambda>n'. h\<lparr>h_hints := (h_hints h)\<lparr>hh_contiguous_length := of_nat n'\<rparr>\<rparr>"
  show ?thesis
  proof (cases "s \<le> n \<and> n \<le> e")
    case True
    have "dyn_top b - unat (of_nat e :: u64) < contiguous_fuel b"
      by (simp add: contiguous_fuel_def dyn_top_def)
    from contiguous_loop_spec [OF bits this] nat(3) small(2) obtain n' where n':
      "contiguous_loop (contiguous_fuel b) b (of_nat e) = Ok (of_nat n')" "e \<le> n'"
      "{e..<n'} \<subseteq> have \<union> {s..<e}" "n' \<notin> have \<union> {s..<e}"
      by auto
    have "{..<n'} \<subseteq> {..<n} \<union> {n..<e} \<union> {e..<n'}" by auto
    moreover have "{n..<e} \<subseteq> {s..<e}" using True by auto
    ultimately have "contiguous_at (have \<union> {s..<e}) n'"
      using n(1) n'(3,4) unfolding contiguous_at_def by blast
    moreover have "update_contiguous_length h b \<lparr>bu_drop = False, bu_start = of_nat s, bu_length = of_nat (e - s)\<rparr> = Ok (?new n')"
      using True n'(1) nat n(2) same e
      by (auto simp: update_contiguous_length_def Let_def word_le_nat_alt)
    ultimately show ?thesis by blast
  next
    case False
    then have "contiguous_at (have \<union> {s..<e}) n" using n(1) by (auto simp: contiguous_at_def)
    moreover have "update_contiguous_length h b \<lparr>bu_drop = False, bu_start = of_nat s, bu_length = of_nat (e - s)\<rparr> = Ok (?new n)"
      using False nat n(2) same e by (auto simp: update_contiguous_length_def Let_def word_le_nat_alt)
    ultimately show ?thesis by blast
  qed
qed

lemma bitfield_is_set:
  assumes "bitfield_is b have" "s \<le> e" "e \<le> MAX_BLOCKS"
  shows "\<exists>b'. dyn_set_range b (of_nat s) (of_nat (e - s)) v = Ok b' \<and>
    bitfield_is b' (if v then have \<union> {s..<e} else have - {s..<e})"
proof -
  have nat: "unat (of_nat s :: u64) = s" "unat (of_nat (e - s) :: u64) = e - s"
    using assms(2,3) by (simp_all add: unat_of_nat64 MAX_BLOCKS_def del: of_nat_diff)
  have wf: "dyn_wf b" using assms(1) by (simp add: bitfield_is_def)
  have "unat (of_nat s :: u64) + unat (of_nat (e - s) :: u64) < 2 ^ 64"
    using assms(2,3) nat by (simp add: MAX_BLOCKS_def del: of_nat_diff)
  from dyn.set_range_law [OF wf this, of v] obtain b' where
    "dyn_set_range b (of_nat s) (of_nat (e - s)) v = Ok b'" "dyn_wf b'"
    "dyn_bits b' = (\<lambda>k. if s \<le> k \<and> k < s + (e - s) then v else dyn_bits b k)"
    "\<forall>m. dyn_top b \<le> 32768 * m \<longrightarrow> s + (e - s) \<le> 32768 * m \<longrightarrow> dyn_top b' \<le> 32768 * m"
    unfolding nat by blast
  then show ?thesis
    using assms unfolding bitfield_is_def MAX_BLOCKS_def
    by (intro exI [of _ b']) (auto dest: spec [where x = "2 ^ 42"])
qed

section \<open>The changeset of a batch\<close>

definition batch_changeset :: "'it libs \<Rightarrow> wire_format \<Rightarrow> bytes \<Rightarrow> bytes list \<Rightarrow> bytes list \<Rightarrow> merkle_tree \<Rightarrow> changeset" where
  "batch_changeset L w sk bs cs t = (mt_changeset t)\<lparr>cg_upgraded := True, cg_length := of_nat (length (bs @ cs)),
     cg_byte_length := of_nat (byte_size (bs @ cs)), cg_roots := merkle_roots L w (bs @ cs),
     cg_nodes := map (merkle_node L w (bs @ cs)) (new_positions (length bs) (length (bs @ cs))), cg_batch_length := of_nat (length cs),
     cg_hash := Some (tree_hash L w (bs @ cs)), cg_signature := Some (tree_signature L w sk (bs @ cs))\<rparr>"

text \<open>Batches up to this size give entries whose length fits a leader.\<close>

definition MAX_BATCH :: nat where "MAX_BATCH = 2 ^ 18"

context libs_laws
begin

lemma nodes_entry_fits:
  assumes nodes: "length ps \<le> 57 * MAX_BATCH" and up: "\<forall>u. upgrade = Some u \<longrightarrow> length (etu_signature u) = 64"
  shows "entry_fits L w \<lparr>e_user_data = [], e_tree_nodes = map (merkle_node L w bs) ps, e_tree_upgrade = upgrade, e_bitfield = bu\<rparr>"
proof -
  let ?ns = "map (merkle_node L w bs) ps"
  let ?e = "\<lparr>e_user_data = [], e_tree_nodes = ?ns, e_tree_upgrade = upgrade, e_bitfield = bu\<rparr>"
  have ok: "entry_ok L ?e"
    using nodes up merkle_node_ok by (auto simp: entry_ok_def nodes_ok_def list_all_iff MAX_BATCH_def split: option.split)
  have "\<forall>n\<in>set ?ns. length (n_hash n) = 32" using merkle_node_ok by (auto simp: node_ok_def)
  from length_wire_nodes [OF this] have wn: "length (wire_nodes w ?ns) \<le> 9 + 50 * length ps" by simp
  have wu: "length (wire_tree_upgrade w u) \<le> 92" if "upgrade = Some u" for u
    using up that cenc.length_w_uint [of "etu_fork u"] cenc.length_w_uint [of "etu_ancestors u"] cenc.length_w_uint [of "etu_length u"]
      cenc.length_w_bytes [of "etu_signature u"] by (simp add: wire_tree_upgrade_def)
  have wb: "length (wire_bitfield_update w b) \<le> 19" for b
    using cenc.length_w_uint [of "bu_start b"] cenc.length_w_uint [of "bu_length b"] by (simp add: wire_bitfield_update_def)
  have "length (wire_entry w ?e) \<le> 1 + (9 + 50 * length ps) + 92 + 19"
    using wn wu wb [of "the bu"] by (cases upgrade; cases bu) (fastforce simp: wire_entry_def)+
  with ok nodes show ?thesis by (simp add: entry_fits_def MAX_BATCH_def)
qed

lemma append_entry_fits:
  assumes "length (bs @ cs) \<le> MAX_BLOCKS" "length cs \<le> MAX_BATCH"
  shows "entry_fits L w (append_entry L w sk bs cs)"
  unfolding append_entry_def
  by (rule nodes_entry_fits)
    (use assms length_new_positions [of "length bs" "length (bs @ cs)"] in \<open>simp_all add: tree_signature_def crypt.length_sign\<close>)

lemma append_all_eq:
  assumes "cg_roots cg = merkle_roots L w bs" "cg_length cg = of_nat (length bs)" "length (bs @ cs) \<le> MAX_BLOCKS"
  shows "append_all L cg cs n = Ok (cg\<lparr>
    cg_upgraded := cg_upgraded cg \<or> cs \<noteq> [], cg_length := of_nat (length (bs @ cs)),
    cg_byte_length := cg_byte_length cg + of_nat (byte_size cs), cg_roots := merkle_roots L w (bs @ cs),
    cg_nodes := cg_nodes cg @ map (merkle_node L w (bs @ cs)) (new_positions (length bs) (length (bs @ cs))),
    cg_batch_length := cg_batch_length cg + of_nat (length cs)\<rparr>, n + byte_size cs)"
  using assms
proof (induction cs arbitrary: cg bs n)
  case Nil
  then show ?case by (simp add: byte_size_def new_positions_def)
next
  case (Cons d cs)
  let ?cg = "cg\<lparr>cg_upgraded := True, cg_length := of_nat (length (bs @ [d])),
     cg_byte_length := cg_byte_length cg + of_nat (length d), cg_roots := merkle_roots L w (bs @ [d]),
     cg_nodes := cg_nodes cg @ map (merkle_node L w (bs @ [d])) (completed_at (length (bs @ [d]))),
     cg_batch_length := cg_batch_length cg + 1\<rparr>"
  have step: "changeset_append L cg d = Ok (?cg, length d)"
    using append_merkle [OF Cons.prems(1,2), of d] Cons.prems(3) by (simp add: MAX_BLOCKS_def)
  have nodes: "map (merkle_node L w (bs @ [d])) (completed_at (length (bs @ [d]))) @
      map (merkle_node L w ((bs @ [d]) @ cs)) (new_positions (length (bs @ [d])) (length ((bs @ [d]) @ cs))) =
    map (merkle_node L w (bs @ d # cs)) (new_positions (length bs) (length (bs @ d # cs)))"
  proof -
    have "merkle_node L w (bs @ [d]) p = merkle_node L w (bs @ d # cs) p" if "p \<in> set (completed_at (length (bs @ [d])))" for p
      using that merkle_node_extend [of "bs @ [d]" p L w cs] by (simp add: completed_at_iff in_tree_def)
    moreover have "new_positions (length bs) (length (bs @ d # cs)) =
        completed_at (length (bs @ [d])) @ new_positions (length (bs @ [d])) (length (bs @ d # cs))"
      by (simp add: new_positions_def upt_conv_Cons del: upt_Suc)
    ultimately show ?thesis by simp
  qed
  have "append_all L ?cg cs (n + length d) = Ok (?cg\<lparr>
      cg_upgraded := cg_upgraded ?cg \<or> cs \<noteq> [], cg_length := of_nat (length ((bs @ [d]) @ cs)),
      cg_byte_length := cg_byte_length ?cg + of_nat (byte_size cs), cg_roots := merkle_roots L w ((bs @ [d]) @ cs),
      cg_nodes := cg_nodes ?cg @ map (merkle_node L w ((bs @ [d]) @ cs)) (new_positions (length (bs @ [d])) (length ((bs @ [d]) @ cs))),
      cg_batch_length := cg_batch_length ?cg + of_nat (length cs)\<rparr>, n + length d + byte_size cs)"
    using Cons.prems by (intro Cons.IH) simp_all
  with step nodes show ?case
    by (simp add: byte_size_def add.assoc)
qed

lemma hash_and_sign_eq:
  assumes "cg_roots cg = merkle_roots L w bs" "cg_length cg = of_nat (length bs)" "cg_fork cg = 0"
  shows "hash_and_sign L cg sk = Ok (cg\<lparr>cg_hash := Some (tree_hash L w bs), cg_signature := Some (tree_signature L w sk bs)\<rparr>)"
proof -
  have hash: "changeset_hash L cg = Ok (tree_hash L w bs)"
    using assms(1) by (simp add: changeset_hash_def hash_tree_eq tree_hash_def)
  have "length (tree_hash L w bs) = 32" by (simp add: tree_hash_def crypt.length_blake2b)
  with hash assms show ?thesis
    by (simp add: hash_and_sign_def changeset_signable_def signable_tree_eq sign_def tree_signature_def)
qed

end

section \<open>The blocks on the data store\<close>

lemma length_concat: "length (concat cs) = byte_size cs"
  by (simp add: byte_size_def length_concat)

lemma byte_size_append [simp]: "byte_size (bs @ cs) = byte_size bs + byte_size cs"
  by (simp add: byte_size_def)

lemma byte_size_take_nth: "i < length bs \<Longrightarrow> byte_size (take i bs) + length (bs ! i) \<le> byte_size bs"
  using id_take_nth_drop [of i bs] by (metis byte_size_append byte_size_def le_add1 list.map(2) add.assoc sum_list.Cons)

lemma blocks_held_append:
  assumes held: "blocks_held bs have f" and ne: "concat cs \<noteq> [] \<or> byte_size bs \<le> length f"
  shows "blocks_held (bs @ cs) (have \<union> {length bs..<length (bs @ cs)}) (file_write f (byte_size bs) (concat cs))"
  unfolding blocks_held_def
proof (intro allI impI)
  fix i assume i: "i < length (bs @ cs)" "i \<in> have \<union> {length bs..<length (bs @ cs)}"
  let ?f = "file_write f (byte_size bs) (concat cs)"
  show "holds_at ?f (byte_size (take i (bs @ cs))) ((bs @ cs) ! i)"
  proof (cases "i < length bs")
    case True
    then have "holds_at f (byte_size (take i bs)) (bs ! i)" using held i(2) by (simp add: blocks_held_def)
    then have "holds_at ?f (byte_size (take i bs)) (bs ! i)"
      using byte_size_take_nth [OF True] by (intro holds_at_file_write_other) auto
    with True show ?thesis by (simp add: nth_append)
  next
    case False
    define j where "j = i - length bs"
    have j: "i = length bs + j" "j < length cs" using False i(1) by (simp_all add: j_def)
    have "holds_at ?f (byte_size bs) (concat cs)"
    proof (cases "concat cs = []")
      case True
      then show ?thesis using ne unfolding True by (simp add: holds_at_Nil file_write_def)
    next
      case False
      then show ?thesis by (rule holds_at_file_write)
    qed
    moreover have "concat cs = concat (take j cs) @ cs ! j @ concat (drop (Suc j) cs)"
      using id_take_nth_drop [OF j(2)] by (metis concat.simps(2) concat_append)
    ultimately have "holds_at ?f (byte_size bs + byte_size (take j cs)) (cs ! j)"
      by (metis holds_at_append length_concat)
    with j show ?thesis by (simp add: nth_append)
  qed
qed

section \<open>Appending\<close>

context device_laws
begin

lemma log_entry_ok:
  assumes slots: "oplog_slots L w content s o'" and fits: "entry_fits L w e"
    and short: "op_entries_byte_length o' < MAX_OPLOG_ENTRIES_BYTE_SIZE"
  shows "\<exists>o1 infos s'. append_entries L o' [e] atomic = Ok (o1, infos) \<and> flush_infos ra s infos = Ok s' \<and>
    oplog_slots L w content s' o1 \<and> (\<forall>h es. oplog_inv L w content s o' h es \<longrightarrow> oplog_inv L w content s' o1 h (es @ [e])) \<and>
    (\<forall>st. st \<noteq> Oplog \<longrightarrow> stored content s' st = stored content s st)"
proof -
  let ?f = "stored content s Oplog" and ?x = "framed L w (get_current_header_bit o') False (wire_entry w e)"
  let ?off = "8192 + op_entries_byte_length o'"
  let ?o = "o'\<lparr>op_entries_length := op_entries_length o' + 1,
    op_entries_byte_length := op_entries_byte_length o' + of_nat (8 + length (wire_entry w e))\<rparr>"
  have size: "length (wire_entry w e) < 2 ^ 30" using fits by (simp add: entry_fits_def)
  have off: "unat ?off = 8192 + unat (op_entries_byte_length o')" "unat (op_entries_byte_length o') < 65536"
    using short by (simp_all add: MAX_OPLOG_ENTRIES_BYTE_SIZE_def word_less_nat_alt unat_add_small)
  have app: "append_entries L o' [e] atomic = Ok (?o, [si_new_content Oplog ?off ?x])"
    using append_entry_eq [OF fits, of o' atomic] by simp
  have "unat ?off + length ?x \<le> MAX_FILE" using off size by (simp add: length_framed MAX_FILE_def)
  from flush_content [OF this, of s Oplog] obtain s' where s': "flush_infos ra s [si_new_content Oplog ?off ?x] = Ok s'"
    "stored content s' Oplog = file_write ?f (unat ?off) ?x" "\<forall>st. st \<noteq> Oplog \<longrightarrow> stored content s' st = stored content s st"
    by auto
  have "oplog_slots L w content s' ?o" using slots_write [OF slots _ s'(2)] off(1) by simp
  moreover have "oplog_inv L w content s' ?o h (es @ [e])" if inv: "oplog_inv L w content s o' h es" for h es
  proof -
    have len: "op_entries_byte_length o' = of_nat (length ?f - 8192)" using inv by (simp add: oplog_inv_def)
    have "length ?f \<le> 2 ^ 63" using small [of "get_random_access s Oplog"] by (simp add: MAX_FILE_def)
    then have "unat (op_entries_byte_length o') = length ?f - 8192" unfolding len by (intro unat_of_nat64) simp
    with off(2) size have "length ?f + 8 + length (wire_entry w e) \<le> MAX_FILE" by (simp add: MAX_FILE_def)
    from inv_append [OF inv fits this app s'(1)] show ?thesis .
  qed
  ultimately show ?thesis using app s' by blast
qed

text \<open>An entry in the log takes the durable state along.\<close>

lemma durable_log:
  assumes dur: "hc_skip_flush_count c = 0 \<or> durable L w content sk c bs have"
    and path: "\<And>bs0 have0 es. log_path L w sk bs0 have0 es bs have \<Longrightarrow> log_path L w sk bs0 have0 (es @ [e]) bs' have'"
    and c': "hc_key_pair c' = hc_key_pair c" "hc_skip_flush_count c' = hc_skip_flush_count c"
      "\<And>h es. oplog_inv L w content (hc_storage c) (hc_oplog c) h es \<Longrightarrow>
        oplog_inv L w content (hc_storage c') (hc_oplog c') h (es @ [e])"
      "\<And>st. st = Tree \<or> st = Bitfield \<Longrightarrow> stored content (hc_storage c') st = stored content (hc_storage c) st"
  shows "hc_skip_flush_count c' = 0 \<or> durable L w content sk c' bs' have'"
proof (cases "hc_skip_flush_count c = 0")
  case False
  then obtain es bs0 have0 n ps where d: "oplog_inv L w content (hc_storage c) (hc_oplog c) (header_of L w sk (hc_key_pair c) bs0 n) es"
    "contiguous_at have0 n" "have0 \<subseteq> {..<length bs0}" "tree_stored L w bs0 (stored content (hc_storage c) Tree)"
    "list_all fixed_wf ps" "stored content (hc_storage c) Bitfield = page_file ps" "\<forall>k. page_bits ps k \<longleftrightarrow> k \<in> have0"
    "log_path L w sk bs0 have0 es bs have" "32768 * length ps < length bs0 + 32768"
    using dur unfolding durable_def Let_def by blast
  have "oplog_inv L w content (hc_storage c') (hc_oplog c') (header_of L w sk (hc_key_pair c) bs0 n) (es @ [e])"
    using c'(3) d(1) by blast
  then have "durable L w content sk c' bs' have'"
    using d(2-7,9) c'(1,4) path [OF d(8)] unfolding durable_def Let_def
    by (intro exI [of _ "es @ [e]"] exI [of _ bs0] exI [of _ have0] exI [of _ n] exI [of _ ps]) (simp add: oplog_inv_def)
  then show ?thesis ..
qed (simp add: c'(2))

section \<open>A batch\<close>

text \<open>A changeset reaches the log and the header.\<close>

lemma log_changeset_ok:
  assumes "update_header_with_changeset cg bu (hc_header c) = Ok (h, e)" "entry_fits L w e"
    and "oplog_slots L w content (hc_storage c) (hc_oplog c)" "op_entries_byte_length (hc_oplog c) < MAX_OPLOG_ENTRIES_BYTE_SIZE"
  obtains o1 s1 where "log_changeset L ra cg bu c = (Ok (), c\<lparr>hc_oplog := o1, hc_storage := s1, hc_header := h\<rparr>)"
    "oplog_slots L w content s1 o1"
    "\<forall>h es. oplog_inv L w content (hc_storage c) (hc_oplog c) h es \<longrightarrow> oplog_inv L w content s1 o1 h (es @ [e])"
    "\<forall>st. st \<noteq> Oplog \<longrightarrow> stored content s1 st = stored content (hc_storage c) st"
proof -
  from log_entry_ok [OF assms(3,2,4), of False] obtain o1 infos s1 where 1:
    "append_entries L (hc_oplog c) [e] False = Ok (o1, infos)"
    "flush_infos ra (hc_storage c) infos = Ok s1" "oplog_slots L w content s1 o1"
    "\<forall>h es. oplog_inv L w content (hc_storage c) (hc_oplog c) h es \<longrightarrow> oplog_inv L w content s1 o1 h (es @ [e])"
    "\<forall>st. st \<noteq> Oplog \<longrightarrow> stored content s1 st = stored content (hc_storage c) st" by blast
  have "log_changeset L ra cg bu c = (Ok (), c\<lparr>hc_oplog := o1, hc_storage := s1, hc_header := h\<rparr>)"
    using 1 assms(1) by (simp add: log_changeset_def append_changeset_def core_flush_infos_def run_simps)
  then show thesis using that 1(3-5) by blast
qed

lemma log_append_ok:
  assumes cs: "length cs \<le> MAX_BATCH" "core_small (bs @ cs)"
    and log: "oplog_slots L w content (hc_storage c) (hc_oplog c)"
      "op_entries_byte_length (hc_oplog c) < MAX_OPLOG_ENTRIES_BYTE_SIZE"
    and cg: "cg_upgraded cg" "cg_hash cg = Some (tree_hash L w (bs @ cs))"
      "cg_signature cg = Some (tree_signature L w sk (bs @ cs))" "cg_length cg = of_nat (length (bs @ cs))"
      "cg_nodes cg = map (merkle_node L w (bs @ cs)) (new_positions (length bs) (length (bs @ cs)))"
      "cg_fork cg = 0" "cg_ancestors cg = of_nat (length bs)"
    and bu: "bu = \<lparr>bu_drop = False, bu_start = of_nat (length bs), bu_length = of_nat (length cs)\<rparr>"
  shows "\<exists>o1 s1. log_changeset L ra cg (Some bu) c =
      (Ok (), c\<lparr>hc_oplog := o1, hc_storage := s1, hc_header := (hc_header c)\<lparr>h_tree := (h_tree (hc_header c))\<lparr>
        ht_root_hash := tree_hash L w (bs @ cs), ht_signature := tree_signature L w sk (bs @ cs),
        ht_length := of_nat (length (bs @ cs))\<rparr>\<rparr>\<rparr>) \<and>
    oplog_slots L w content s1 o1 \<and>
    (\<forall>h es. oplog_inv L w content (hc_storage c) (hc_oplog c) h es \<longrightarrow>
      oplog_inv L w content s1 o1 h (es @ [append_entry L w sk bs cs])) \<and>
    (\<forall>st. st \<noteq> Oplog \<longrightarrow> stored content s1 st = stored content (hc_storage c) st)"
proof -
  let ?h = "(hc_header c)\<lparr>h_tree := (h_tree (hc_header c))\<lparr>ht_root_hash := tree_hash L w (bs @ cs),
      ht_signature := tree_signature L w sk (bs @ cs), ht_length := of_nat (length (bs @ cs))\<rparr>\<rparr>"
  have fits: "entry_fits L w (append_entry L w sk bs cs)"
    using append_entry_fits [of bs cs sk] cs by (simp add: core_small_def)
  have upd: "update_header_with_changeset cg (Some bu) (hc_header c) = Ok (?h, append_entry L w sk bs cs)"
    using cg bu by (simp add: update_header_with_changeset_def append_entry_def)
  obtain o1 s1 where "log_changeset L ra cg (Some bu) c = (Ok (), c\<lparr>hc_oplog := o1, hc_storage := s1, hc_header := ?h\<rparr>)"
    "oplog_slots L w content s1 o1"
    "\<forall>h es. oplog_inv L w content (hc_storage c) (hc_oplog c) h es \<longrightarrow> oplog_inv L w content s1 o1 h (es @ [append_entry L w sk bs cs])"
    "\<forall>st. st \<noteq> Oplog \<longrightarrow> stored content s1 st = stored content (hc_storage c) st"
    by (rule log_changeset_ok [OF upd fits log])
  then show ?thesis by (intro exI [of _ o1] exI [of _ s1]) simp
qed

text \<open>The changeset of a batch.\<close>

lemma batch_changeset_fields:
  fixes cs :: "bytes list" and sk :: bytes
  assumes "tree_of L w bs t" "mt_fork t = 0"
  defines "cg \<equiv> batch_changeset L w sk bs cs t"
  shows "cg_upgraded cg" "cg_hash cg = Some (tree_hash L w (bs @ cs))" "cg_signature cg = Some (tree_signature L w sk (bs @ cs))"
    "cg_length cg = of_nat (length (bs @ cs))" "cg_nodes cg = map (merkle_node L w (bs @ cs)) (new_positions (length bs) (length (bs @ cs)))"
    "cg_fork cg = 0" "cg_ancestors cg = of_nat (length bs)" "cg_roots cg = merkle_roots L w (bs @ cs)"
    "cg_byte_length cg = of_nat (byte_size (bs @ cs))" "cg_original_tree_length cg = mt_length t"
    "cg_original_tree_fork cg = mt_fork t" "cg_batch_length cg = of_nat (length cs)"
  using assms(1,2) by (simp_all add: cg_def batch_changeset_def mt_changeset_def changeset_new_def tree_of_def)

lemma batch_changeset_built:
  fixes sk :: bytes
  assumes t: "tree_of L w bs t" "mt_fork t = 0" and cs: "cs \<noteq> []" "length (bs @ cs) \<le> MAX_BLOCKS"
  defines "cg \<equiv> batch_changeset L w sk bs cs t"
  shows "append_all L (mt_changeset t) cs 0 = Ok (cg\<lparr>cg_hash := None, cg_signature := None\<rparr>, byte_size cs)"
    "hash_and_sign L (cg\<lparr>cg_hash := None, cg_signature := None\<rparr>) sk = Ok cg"
proof -
  have "cg_roots (mt_changeset t) = merkle_roots L w bs" "cg_length (mt_changeset t) = of_nat (length bs)"
    using t(1) by (simp_all add: mt_changeset_def changeset_new_def tree_of_def)
  from append_all_eq [OF this cs(2), of 0] t cs(1)
  show "append_all L (mt_changeset t) cs 0 = Ok (cg\<lparr>cg_hash := None, cg_signature := None\<rparr>, byte_size cs)"
    by (simp add: cg_def batch_changeset_def mt_changeset_def changeset_new_def tree_of_def byte_size_def)
  show "hash_and_sign L (cg\<lparr>cg_hash := None, cg_signature := None\<rparr>) sk = Ok cg"
    using hash_and_sign_eq [of "cg\<lparr>cg_hash := None, cg_signature := None\<rparr>" "bs @ cs" sk] batch_changeset_fields [OF t, of sk cs]
    by (simp add: cg_def batch_changeset_def)
qed

text \<open>The blocks reach the data store.\<close>

lemma append_data_ok:
  assumes "core_small (bs @ cs)" "byte_length = of_nat (byte_size bs)"
  shows "\<exists>s1. flush_infos ra s [append_batch cs (byte_size cs) byte_length] = Ok s1 \<and>
    stored content s1 Data = file_write (stored content s Data) (byte_size bs) (concat cs) \<and>
    (\<forall>st. st \<noteq> Data \<longrightarrow> stored content s1 st = stored content s st)"
proof -
  have size: "byte_size bs + byte_size cs \<le> 2 ^ 62" using assms(1) by (simp add: core_small_def)
  have off: "unat (of_nat (byte_size bs) :: u64) = byte_size bs" using size by (intro unat_of_nat64) simp
  have "unat (of_nat (byte_size bs) :: u64) + length (concat cs) \<le> MAX_FILE"
    unfolding off length_concat using size by (simp add: MAX_FILE_def)
  from flush_content [OF this, of s Data] show ?thesis unfolding off by (auto simp: append_batch_def assms(2))
qed

text \<open>The bits of new blocks, and the contiguous length.\<close>

lemma new_bits_ok:
  assumes b: "bitfield_is b have" "bits_stored b ps m" and n: "contiguous_at have n" "hh_contiguous_length (h_hints h) = of_nat n"
    and small: "have \<subseteq> {..<m}" "m \<le> len" "s \<le> e" "e \<le> len" "len \<le> MAX_BLOCKS"
  shows "\<exists>b' n'. dyn_set_range b (of_nat s) (of_nat (e - s)) True = Ok b' \<and> bitfield_is b' (have \<union> {s..<e}) \<and> bits_stored b' ps len \<and>
    update_contiguous_length h b' \<lparr>bu_drop = False, bu_start = of_nat s, bu_length = of_nat (e - s)\<rparr> =
      Ok (h\<lparr>h_hints := (h_hints h)\<lparr>hh_contiguous_length := of_nat n'\<rparr>\<rparr>) \<and> contiguous_at (have \<union> {s..<e}) n'"
proof -
  obtain b' where b': "dyn_set_range b (of_nat s) (of_nat (e - s)) True = Ok b'" "bitfield_is b' (have \<union> {s..<e})"
    using bitfield_is_set [OF b(1) small(3), of True] small(4,5) by auto
  have stored: "bits_stored b' ps len"
    using b(1) small by (intro bits_stored_set_range [OF b(2) _ b'(1)]) (simp_all add: bitfield_is_def unat_of_nat64 MAX_BLOCKS_def del: of_nat_diff)
  have "n \<le> m"
  proof (rule ccontr)
    assume "\<not> n \<le> m"
    then have "m \<in> {..<n}" by simp
    with n(1) small(1) show False unfolding contiguous_at_def by blast
  qed
  then obtain n' where "update_contiguous_length h b' \<lparr>bu_drop = False, bu_start = of_nat s, bu_length = of_nat (e - s)\<rparr> =
      Ok (h\<lparr>h_hints := (h_hints h)\<lparr>hh_contiguous_length := of_nat n'\<rparr>\<rparr>)" "contiguous_at (have \<union> {s..<e}) n'"
    using update_contiguous_set [OF b'(2) n(1), of h] n(2) small(2-5) by (auto simp: MAX_BLOCKS_def)
  with b' stored show ?thesis by blast
qed

lemma core_append_ok:
  assumes inv: "core_inv L w content sk c bs have" and sk: "kp_secret (hc_key_pair c) = Some sk"
    and cs: "cs \<noteq> []" "length cs \<le> MAX_BATCH" "core_small (bs @ cs)" "nonblank L w (bs @ cs)"
    and gap: "concat cs \<noteq> [] \<or> byte_size bs \<le> length (stored content (hc_storage c) Data)"
  shows "\<exists>c'. core_append_batch L ra cs c =
      (Ok \<lparr>ao_length = of_nat (length (bs @ cs)), ao_byte_length = of_nat (byte_size (bs @ cs))\<rparr>, c') \<and>
    core_inv L w content sk c' (bs @ cs) (have \<union> {length bs..<length (bs @ cs)}) \<and> hc_key_pair c' = hc_key_pair c \<and>
    ev_sent (hc_events c') = ev_sent (hc_events c) @
      [DataUpgrade, Have \<lparr>hv_start = of_nat (length bs), hv_length = of_nat (length cs), hv_drop = False\<rparr>]"
proof -
  let ?bs = "bs @ cs" and ?have = "have \<union> {length bs..<length (bs @ cs)}"
  let ?bu = "\<lparr>bu_drop = False, bu_start = of_nat (length bs), bu_length = of_nat (length cs)\<rparr>"
  have state: "core_state L w content sk c bs have" using core_inv_state [OF inv] .
  have view: "core_view L w content sk c bs have" and log: "oplog_slots L w content (hc_storage c) (hc_oplog c)"
    "op_entries_byte_length (hc_oplog c) < MAX_OPLOG_ENTRIES_BYTE_SIZE"
    using state inv by (simp_all add: core_state_def core_inv_def)
  obtain n0 ps where v: "have \<subseteq> {..<length bs}" "author_keys L sk (hc_key_pair c)"
    "tree_held L w bs (hc_tree c) (stored content (hc_storage c) Tree)" "mt_fork (hc_tree c) = 0" "bitfield_is (hc_bitfield c) have"
    "bits_stored (hc_bitfield c) ps (length bs)" "stored content (hc_storage c) Bitfield = page_file ps"
    "blocks_held bs have (stored content (hc_storage c) Data)" "hc_header c = header_of L w sk (hc_key_pair c) bs n0"
    using view unfolding core_view_def by blast
  obtain n where n: "contiguous_at have n" "hh_contiguous_length (h_hints (hc_header c)) = of_nat n"
    using inv by (auto simp: core_inv_def hint_ok_def)
  have t: "mt_roots (hc_tree c) = merkle_roots L w bs" "mt_length (hc_tree c) = of_nat (length bs)"
    "mt_byte_length (hc_tree c) = of_nat (byte_size bs)"
    using v(3) by (simp_all add: tree_held_def tree_of_def)
  have tf: "tree_of L w bs (hc_tree c)" using v(3) by (simp add: tree_held_def)
  have size: "length (bs @ cs) \<le> MAX_BLOCKS" "length bs + length cs \<le> MAX_BLOCKS" using cs(3) by (simp_all add: core_small_def)
  define cg where "cg = batch_changeset L w sk bs cs (hc_tree c)"
  note cg = batch_changeset_fields [OF tf v(4), of sk cs, folded cg_def]
  note built = batch_changeset_built [OF tf v(4) cs(1) size(1), of sk, folded cg_def]
  obtain s1 where s1: "flush_infos ra (hc_storage c) [append_batch cs (byte_size cs) (mt_byte_length (hc_tree c))] = Ok s1"
    "stored content s1 Data = file_write (stored content (hc_storage c) Data) (byte_size bs) (concat cs)"
    "\<forall>st. st \<noteq> Data \<longrightarrow> stored content s1 st = stored content (hc_storage c) st"
    using append_data_ok [OF cs(3) t(3)] by blast
  let ?c1 = "c\<lparr>hc_storage := s1\<rparr>"
  let ?h2 = "(hc_header c)\<lparr>h_tree := (h_tree (hc_header c))\<lparr>
        ht_root_hash := tree_hash L w ?bs, ht_signature := tree_signature L w sk ?bs, ht_length := of_nat (length ?bs)\<rparr>\<rparr>"
  have slots1: "oplog_slots L w content (hc_storage ?c1) (hc_oplog ?c1)"
    using log(1) s1(3) oplog_slots_cong [of s1 "hc_storage c"] by simp
  from log_append_ok [OF cs(2,3) slots1 _ cg(1-7) refl] log(2)
  obtain o2 s2 where 2: "log_changeset L ra cg (Some ?bu) ?c1 = (Ok (), ?c1\<lparr>hc_oplog := o2, hc_storage := s2, hc_header := ?h2\<rparr>)"
    "oplog_slots L w content s2 o2"
    "\<And>h es. oplog_inv L w content s1 (hc_oplog c) h es \<Longrightarrow> oplog_inv L w content s2 o2 h (es @ [append_entry L w sk bs cs])"
    "\<forall>st. st \<noteq> Oplog \<longrightarrow> stored content s2 st = stored content s1 st"
    by auto
  let ?c2 = "?c1\<lparr>hc_oplog := o2, hc_storage := s2, hc_header := ?h2\<rparr>"
  have hint2: "hh_contiguous_length (h_hints ?h2) = of_nat n" using n(2) by simp
  obtain b3 n' where b3: "dyn_set_range (hc_bitfield c) (of_nat (length bs)) (of_nat (length cs)) True = Ok b3" "bitfield_is b3 ?have"
    and stored3: "bits_stored b3 ps (length ?bs)"
    and n': "update_contiguous_length ?h2 b3 ?bu = Ok (?h2\<lparr>h_hints := (h_hints ?h2)\<lparr>hh_contiguous_length := of_nat n'\<rparr>\<rparr>)" "contiguous_at ?have n'"
    using new_bits_ok [OF v(5,6) n(1) hint2 v(1), of "length ?bs" "length bs" "length ?bs"] size by auto
  let ?h3 = "?h2\<lparr>h_hints := (h_hints ?h2)\<lparr>hh_contiguous_length := of_nat n'\<rparr>\<rparr>"
  have h3: "?h3 = header_of L w sk (hc_key_pair c) ?bs n'"
    using cs(1) unfolding v(9) header_of_def by simp
  obtain t3 where t3: "mt_commit L (hc_tree c) cg = Ok t3" "tree_held L w ?bs t3 (stored content s2 Tree)" "mt_fork t3 = 0"
    "mt_signature t3 = Some (tree_signature L w sk ?bs)"
    using held_commit [OF v(3) _ _ cg(1,8,4,9,5,10,11)] cg(3,6,7) cs(4) size(2) t(2) s1(3) 2(4)
    by (auto simp: nonblank_def)
  let ?c3 = "?c2\<lparr>hc_bitfield := b3, hc_header := ?h3, hc_tree := t3\<rparr>"
  have "core_view L w content sk ?c3 ?bs ?have"
    unfolding core_view_def using cs(1,3) v(1,2,7) t3(2-4) b3(2) stored3 h3 s1(2,3) 2(4)
      blocks_held_append [OF v(8) gap] by auto
  moreover have "hint_ok ?c3 ?have" using n'(2) by (auto simp: hint_ok_def)
  moreover have "hc_skip_flush_count ?c3 = 0 \<or> durable L w content sk ?c3 ?bs ?have"
  proof (rule durable_log [of c sk bs "have" "append_entry L w sk bs cs"])
    show "oplog_inv L w content (hc_storage ?c3) (hc_oplog ?c3) h (es @ [append_entry L w sk bs cs])"
      if "oplog_inv L w content (hc_storage c) (hc_oplog c) h es" for h es
      using that 2(3) [of h es] s1(3) by (simp add: oplog_inv_def)
  qed (use state s1(3) 2(4) log_path.append [OF _ cs(1)] in \<open>auto simp: core_state_def\<close>)
  ultimately have "core_state L w content sk ?c3 ?bs ?have" using 2(2) by (simp add: core_state_def)
  from maybe_flush_ok [OF this] obtain c4 where c4: "maybe_flush L ra ?c3 = (Ok (), c4)" "core_inv L w content sk c4 ?bs ?have"
    "hc_key_pair c4 = hc_key_pair c" "hc_events c4 = hc_events c" by auto
  have upd: "update_bitfield ?bu ?c2 = (Ok (), ?c2\<lparr>hc_bitfield := b3, hc_header := ?h3\<rparr>)"
    using b3(1) n'(1) by (simp add: update_bitfield_def dyn_update_def run_simps)
  let ?ev = "events_send (events_send (hc_events c) DataUpgrade) (Have (have_from ?bu))"
  let ?c5 = "c4\<lparr>hc_events := ?ev\<rparr>"
  have inv5: "core_inv L w content sk ?c5 ?bs ?have"
    using c4(2) by (simp add: core_inv_def core_view_def hint_ok_def durable_def)
  have len: "mt_length (hc_tree c4) = of_nat (length ?bs)" "mt_byte_length (hc_tree c4) = of_nat (byte_size ?bs)"
    using c4(2) by (simp_all add: core_inv_def core_view_def tree_held_def tree_of_def)
  have "core_append_batch L ra cs c =
      (Ok \<lparr>ao_length = of_nat (length ?bs), ao_byte_length = of_nat (byte_size ?bs)\<rparr>, ?c5)"
    using sk cs(1) built s1(1) 2(1) upd t3(1) c4(1,4) len cg(7,12)
    by (simp add: core_append_batch_def core_flush_infos_def core_commit_def core_send_def run_simps Let_def)
  with inv5 c4(3,4) show ?thesis
    by (intro exI [of _ ?c5]) (simp add: events_send_def have_from_def)
qed

end

end
