(* ===== verification/Core_Read.thy ===== *)
theory Core_Read
  imports Core_Append
begin

text \<open>Reading from an author's core: byte ranges through the store, \<open>get\<close>, \<open>has\<close> and \<open>info\<close>.\<close>

section \<open>Byte ranges\<close>

lemma to_read_again: "set qs \<subseteq> set ps \<Longrightarrow> to_read t ps qs = []"
  by (auto simp: to_read_def filter_empty_conv)

lemma to_read_rest: "set (to_read t (to_read t ps qs) qs) \<subseteq> set ps"
  by (auto simp: to_read_def)

lemma to_read_mem: "p \<in> set (to_read t ps qs) \<Longrightarrow> p \<in> set qs \<and> im_get (mt_unflushed t) (pos_index p) = None"
  by (simp add: to_read_def)

context device_laws
begin

lemma read_path_in_tree: "i < n \<Longrightarrow> set ((0, i) # offset_path n i) \<subseteq> {p. in_tree n p}"
  using in_tree_offset_path [of i n] by (auto simp: in_tree_def)

text \<open>Whatever has been read before, two rounds of reading are enough.\<close>

lemma core_byte_range_known:
  assumes held: "tree_known L w bs K (hc_tree c) (stored content (hc_storage c) Tree)"
    and ps: "\<forall>p\<in>set ps. in_tree (length bs) p" and infos: "infos_of L w bs infos ps" and i: "i < length bs"
    and K: "set ((0, i) # offset_path (length bs) i) \<subseteq> K"
  shows "core_byte_range L ra c (of_nat i) infos =
    Ok \<lparr>nbr_index = of_nat (byte_size (take i bs)), nbr_length = of_nat (length (bs ! i))\<rparr>"
proof -
  let ?t = "hc_tree c" and ?path = "(0, i) # offset_path (length bs) i"
  let ?r = "\<lparr>nbr_index = of_nat (byte_size (take i bs)), nbr_length = of_nat (length (bs ! i)) :: u64\<rparr>"
  define q1 where "q1 = to_read ?t ps ?path"
  define q2 where "q2 = to_read ?t q1 ?path"
  have path: "\<forall>p\<in>set ?path. in_tree (length bs) p"
    using i in_tree_offset_path [OF i] by (auto simp: in_tree_def)
  have q: "\<forall>p\<in>set q1. p \<in> K \<and> im_get (mt_unflushed ?t) (pos_index p) = None"
    "\<forall>p\<in>set q2. p \<in> K \<and> im_get (mt_unflushed ?t) (pos_index p) = None"
    using K to_read_mem unfolding q1_def q2_def by blast+
  have tree: "\<forall>p\<in>set (q1 @ q2). in_tree (length bs) p" using path to_read_mem unfolding q1_def q2_def by fastforce
  have ask: "byte_range L ?t (of_nat i) (Some (map (node_info L w bs) qs)) =
      Ok (if to_read ?t qs ?path = [] then Inr ?r else Inl (map instr_of (to_read ?t qs ?path)))"
    if "\<forall>p\<in>set qs. in_tree (length bs) p" for qs
  proof -
    have "infos_of L w bs (Some (map (node_info L w bs) qs)) qs" by (simp add: infos_of_def)
    from known_byte_range [OF held that this i] show ?thesis by (simp only: Let_def)
  qed
  have last: "to_read ?t (q1 @ q2) ?path = []"
    by (auto simp: to_read_def filter_empty_conv q2_def)
  have first: "byte_range L ?t (of_nat i) infos = Ok (if q1 = [] then Inr ?r else Inl (map instr_of q1))"
    using known_byte_range [OF held ps infos i] by (simp only: Let_def q1_def)
  have second: "byte_range L ?t (of_nat i) (Some (map (node_info L w bs) q1)) = Ok (if q2 = [] then Inr ?r else Inl (map instr_of q2))"
    unfolding q2_def by (rule ask) (use tree in simp)
  have third: "byte_range L ?t (of_nat i) (Some (map (node_info L w bs) q1 @ map (node_info L w bs) q2)) = Ok (Inr ?r)"
    unfolding map_append [symmetric] by (subst ask [OF tree]) (simp only: last simp_thms if_True)
  obtain fuel where fuel: "lib_fuel L = Suc (Suc fuel)" using enough_fuel that [of "lib_fuel L - 2"] by simp
  show ?thesis
    using first second read_known_nodes [OF held q(1)] read_known_nodes [OF held q(2)] third
    by (simp add: core_byte_range_def fuel)
qed

lemma core_byte_range_ok:
  assumes held: "tree_held L w bs (hc_tree c) (stored content (hc_storage c) Tree)"
    and ps: "\<forall>p\<in>set ps. in_tree (length bs) p" and infos: "infos_of L w bs infos ps" and i: "i < length bs"
  shows "core_byte_range L ra c (of_nat i) infos =
    Ok \<lparr>nbr_index = of_nat (byte_size (take i bs)), nbr_length = of_nat (length (bs ! i))\<rparr>"
  by (rule core_byte_range_known [OF held_known [OF held] ps infos i read_path_in_tree [OF i]])

section \<open>Blocks\<close>

lemma core_known_bits: "core_known L w content sk c bs K have \<Longrightarrow> dyn_get (hc_bitfield c) i = Ok (unat i \<in> have)"
  using dyn_get_bits [of "hc_bitfield c"] by (simp add: core_known_def bitfield_is_def)

lemma core_view_bits: "core_view L w content sk c bs have \<Longrightarrow> dyn_get (hc_bitfield c) i = Ok (unat i \<in> have)"
  by (simp only: core_view_known core_known_bits)

lemma core_get_known:
  assumes view: "core_known L w content sk c bs K have" and i: "unat i \<in> have"
    and K: "set ((0, unat i) # offset_path (length bs) (unat i)) \<subseteq> K"
  shows "core_get L ra i c = (Ok (Some (bs ! unat i)), c)"
proof -
  let ?i = "unat i"
  have held: "tree_known L w bs K (hc_tree c) (stored content (hc_storage c) Tree)" and lt: "?i < length bs"
    and block: "holds_at (stored content (hc_storage c) Data) (byte_size (take ?i bs)) (bs ! ?i)"
    and size: "byte_size bs \<le> 2 ^ 62"
    using view i by (auto simp: core_known_def blocks_held_def core_small_def)
  have range: "core_byte_range L ra c i None =
      Ok \<lparr>nbr_index = of_nat (byte_size (take ?i bs)), nbr_length = of_nat (length (bs ! ?i))\<rparr>"
    using core_byte_range_known [OF held, of "[]" None ?i] lt K by (simp add: infos_of_def)
  have nat: "unat (of_nat (byte_size (take ?i bs)) :: u64) = byte_size (take ?i bs)"
    "unat (of_nat (length (bs ! ?i)) :: u64) = length (bs ! ?i)"
    using byte_size_take_nth [OF lt] size by (auto intro!: unat_of_nat64)
  have "read_one ra (hc_storage c) (sii_new_content Data (of_nat (byte_size (take ?i bs))) (of_nat (length (bs ! ?i)))) =
      Ok (si_new_content Data (of_nat (byte_size (take ?i bs))) (bs ! ?i))"
    using read_content(1) [of "of_nat (byte_size (take ?i bs))" "of_nat (length (bs ! ?i))" "hc_storage c" Data] block
    by (simp add: nat holds_at_def)
  then show ?thesis
    using range i core_known_bits [OF view, of i]
    by (simp add: core_get_def run_simps block_read_def read_info_def si_new_content_def)
qed

lemma core_get_present:
  assumes view: "core_view L w content sk c bs have" and i: "unat i \<in> have"
  shows "core_get L ra i c = (Ok (Some (bs ! unat i)), c)"
proof -
  have lt: "unat i < length bs" using view i by (auto simp: core_view_def)
  show ?thesis by (rule core_get_known [OF view [unfolded core_view_known] i read_path_in_tree [OF lt]])
qed

lemma core_get_absent:
  assumes view: "core_view L w content sk c bs have" and i: "unat i \<notin> have"
  shows "core_get L ra i c = (Ok None, c\<lparr>hc_events := send_on_get (hc_events c) i\<rparr>)"
  using i core_view_bits [OF view, of i] by (simp add: core_get_def run_simps)

lemma core_info_eq:
  assumes "core_inv L w content sk c bs have"
  shows "\<exists>n. contiguous_at have n \<and> core_info c = \<lparr>ci_length = of_nat (length bs), ci_byte_length = of_nat (byte_size bs),
    ci_contiguous_length = of_nat n, ci_fork = 0, ci_writeable = (kp_secret (hc_key_pair c) = Some sk)\<rparr>"
  using assms by (auto simp: core_inv_def core_view_def hint_ok_def core_info_def tree_held_def tree_of_def author_keys_def)

end

end
