(* ===== verification/Core_Clear.thy ===== *)
theory Core_Clear
  imports Core_Read
begin

text \<open>Clearing blocks of an author's core, and giving up the right to write.\<close>

section \<open>The hole\<close>

lemma byte_size_take_Suc: "i < length bs \<Longrightarrow> byte_size (take (Suc i) bs) = byte_size (take i bs) + length (bs ! i)"
  by (simp add: take_Suc_conv_app_nth byte_size_def)

lemma byte_size_take_mono: "i \<le> j \<Longrightarrow> byte_size (take i bs) \<le> byte_size (take j bs)"
proof -
  assume "i \<le> j"
  then have "take j bs = take i bs @ take (j - i) (drop i bs)" by (metis le_add_diff_inverse take_add)
  then show ?thesis by (simp add: byte_size_def)
qed

text \<open>The positions between \<open>a\<close> and \<open>z\<close> are the widest range around \<open>s\<close> to \<open>e\<close> that holds no block.\<close>

definition hole_at :: "nat set \<Rightarrow> nat \<Rightarrow> nat \<Rightarrow> nat \<Rightarrow> nat \<Rightarrow> nat \<Rightarrow> bool" where
  "hole_at have len s e a z \<longleftrightarrow> a \<le> s \<and> e \<le> z \<and> z \<le> len \<and> have \<inter> {a..<z} = {} \<and> (a = 0 \<or> a - 1 \<in> have)"

lemma stepC_Ok: "f c = Ok (x, c') \<Longrightarrow> stepC f c = (Ok x, c')"
  by (simp add: stepC_def)

lemma contiguous_unique: "contiguous_at have n \<Longrightarrow> contiguous_at have m \<Longrightarrow> n = m"
  unfolding contiguous_at_def by (metis lessThan_iff linorder_neqE_nat subsetD)

lemma contiguous_clear:
  assumes "contiguous_at have n" "s < e"
  shows "contiguous_at (have - {s..<e}) (if s < n then s else n)"
  using assms by (auto simp: contiguous_at_def)

context device_laws
begin

lemma hole_found:
  assumes b: "bitfield_is b have" and cl: "have \<inter> {s..<e} = {}" and "have": "have \<subseteq> {..<len}"
    and r: "s < e" "e \<le> len" "len \<le> MAX_BLOCKS"
  obtains a z l u where "hole_at have len s e a z" "dyn_last_index_of b True (of_nat s) = Ok l" "dyn_index_of b True (of_nat e) = Ok u"
    "(case l of Some i \<Rightarrow> i + 1 | None \<Rightarrow> 0) = of_nat a" "(case u of Some i \<Rightarrow> i | None \<Rightarrow> of_nat len) = of_nat z"
proof -
  have wf: "dyn_wf b" and bits: "\<And>k. dyn_bits b k \<longleftrightarrow> k \<in> have" using b by (simp_all add: bitfield_is_def)
  have nat: "unat (of_nat s :: u64) = s" "unat (of_nat e :: u64) = e"
    using r by (simp_all add: unat_of_nat64 MAX_BLOCKS_def)
  obtain l u where lu: "dyn_last_index_of b True (of_nat s) = Ok l" "dyn_index_of b True (of_nat e) = Ok u"
    using dyn.last_law [OF wf, of "of_nat s"] dyn.first_law [OF wf, of "of_nat e"] by blast
  have clear: "\<not> dyn_bits b k" if "unat (of_nat s :: u64) \<le> k" "k < unat (of_nat e :: u64)" for k
    using that cl unfolding nat bits by auto
  have lt: "unat (of_nat s :: u64) < unat (of_nat e :: u64)" using r(1) unfolding nat .
  note hole = dyn.hole [OF wf clear lt lu, unfolded nat bits]
  define a where "a = (case l of Some i \<Rightarrow> unat i + 1 | None \<Rightarrow> 0)"
  define z where "z = (case u of Some i \<Rightarrow> unat i | None \<Rightarrow> len)"
  have "hole_at have len s e a z"
    using hole r "have" unfolding hole_at_def a_def z_def
    by (auto split: option.splits)
  moreover have "(case l of Some i \<Rightarrow> i + 1 | None \<Rightarrow> 0) = (of_nat a :: u64)" "(case u of Some i \<Rightarrow> i | None \<Rightarrow> of_nat len) = (of_nat z :: u64)"
    by (auto simp: a_def z_def split: option.splits)
  ultimately show thesis using that lu by blast
qed

lemma clear_range_ok:
  assumes held: "tree_held L w bs (hc_tree c) (stored content (hc_storage c) Tree)"
    and b: "bitfield_is (hc_bitfield c) have" and cl: "have \<inter> {s..<e} = {}" and "have": "have \<subseteq> {..<length bs}"
    and r: "s < e" "e \<le> length bs" and size: "byte_size bs \<le> 2 ^ 62"
  obtains a z where "hole_at have (length bs) s e a z"
    "clear_range L ra c (of_nat s) (of_nat e) =
      Ok (of_nat (byte_size (take a bs)), of_nat (byte_size (take z bs) - byte_size (take a bs)))"
proof -
  have small: "length bs \<le> MAX_BLOCKS" and len: "mt_length (hc_tree c) = of_nat (length bs)"
    using held by (simp_all add: tree_held_def tree_of_def)
  obtain a z l u where h: "hole_at have (length bs) s e a z" "dyn_last_index_of (hc_bitfield c) True (of_nat s) = Ok l"
    "dyn_index_of (hc_bitfield c) True (of_nat e) = Ok u" "(case l of Some i \<Rightarrow> i + 1 | None \<Rightarrow> 0) = of_nat a"
    "(case u of Some i \<Rightarrow> i | None \<Rightarrow> of_nat (length bs)) = of_nat z"
    using hole_found [OF b cl "have" r small] by blast
  have a: "a < length bs" and z: "0 < z" "z \<le> length bs" "a \<le> z" using h(1) r by (simp_all add: hole_at_def)
  let ?path = "offset_path (length bs) a"
  let ?off = "of_nat (byte_size (take a bs)) :: u64"
  define qs where "qs = to_read (hc_tree c) [] ?path"
  have qs: "\<forall>p\<in>set qs. in_tree (length bs) p \<and> im_get (mt_unflushed (hc_tree c)) (pos_index p) = None"
    using in_tree_offset_path [OF a] to_read_mem unfolding qs_def by blast
  have ask: "byte_offset L (hc_tree c) (of_nat a) None = Ok (if qs = [] then Inr ?off else Inl (map instr_of qs))"
    using held_byte_offset [OF held, of "[]" None a] a by (simp only: qs_def Let_def infos_of_def option.case simp_thms list.set ball_empty)
  have again: "byte_offset L (hc_tree c) (of_nat a) (Some (map (node_info L w bs) qs)) = Ok (Inr ?off)"
  proof -
    have "\<forall>p\<in>set qs. in_tree (length bs) p" "infos_of L w bs (Some (map (node_info L w bs) qs)) qs"
      using qs by (auto simp: infos_of_def)
    from held_byte_offset [OF held this a] have "byte_offset L (hc_tree c) (of_nat a) (Some (map (node_info L w bs) qs)) =
        Ok (if to_read (hc_tree c) qs ?path = [] then Inr ?off else Inl (map instr_of (to_read (hc_tree c) qs ?path)))"
      by (simp only: Let_def)
    moreover have "to_read (hc_tree c) qs ?path = []" by (auto simp: qs_def to_read_def filter_empty_conv)
    ultimately show ?thesis by (simp only: if_True simp_thms)
  qed
  have range: "core_byte_range L ra c (of_nat z - 1) (Some (map (node_info L w bs) ps)) =
      Ok \<lparr>nbr_index = of_nat (byte_size (take (z - 1) bs)), nbr_length = of_nat (length (bs ! (z - 1)))\<rparr>"
    if "\<forall>p\<in>set ps. in_tree (length bs) p" for ps
  proof -
    have "of_nat z - 1 = (of_nat (z - 1) :: u64)" using z(1) by simp
    then show ?thesis
      using core_byte_range_ok [OF held that, of "Some (map (node_info L w bs) ps)" "z - 1"] z by (simp add: infos_of_def)
  qed
  have sum: "byte_size (take (z - 1) bs) + length (bs ! (z - 1)) = byte_size (take z bs)"
    using byte_size_take_Suc [of "z - 1" bs] z by simp
  then have "of_nat (byte_size (take (z - 1) bs)) + of_nat (length (bs ! (z - 1))) - ?off =
      of_nat (byte_size (take z bs) - byte_size (take a bs))"
    using byte_size_take_mono [OF z(3), of bs] by (metis of_nat_add of_nat_diff)
  then have "clear_range L ra c (of_nat s) (of_nat e) = Ok (?off, of_nat (byte_size (take z bs) - byte_size (take a bs)))"
    using h(2-4) h(5) [folded len] ask again range [of "[]"] range [of qs] qs read_stored_nodes [OF held qs]
    by (cases "qs = []") (auto simp: clear_range_def Let_def)
  with h(1) that show thesis by blast
qed

text \<open>Deleting the bytes of the hole keeps every block outside of it.\<close>

lemma flush_hole:
  assumes held: "blocks_held bs have (stored content s Data)" and hole: "hole_at have (length bs) st e a z"
    and ne: "\<forall>i\<in>have. bs ! i \<noteq> []" and size: "byte_size bs \<le> 2 ^ 62" and "have": "have \<subseteq> {..<length bs}" and st: "st < e"
  obtains s' where "flush_infos ra s [block_clear (of_nat (byte_size (take a bs)))
      (of_nat (byte_size (take z bs) - byte_size (take a bs)))] = Ok s'"
    "blocks_held bs have (stored content s' Data)" "\<And>st. st \<noteq> Data \<Longrightarrow> stored content s' st = stored content s st"
proof -
  let ?f = "stored content s Data"
  have a: "a \<le> z" "z \<le> length bs" using hole st by (simp_all add: hole_at_def)
  let ?off = "byte_size (take a bs)" and ?n = "byte_size (take z bs) - byte_size (take a bs)"
  have sz: "byte_size (take z bs) \<le> 2 ^ 62" "?off \<le> byte_size (take z bs)"
    using size byte_size_take_mono [of z "length bs" bs] byte_size_take_mono [OF a(1), of bs] a(2) by simp_all
  have nat: "unat (of_nat ?off :: u64) = ?off" "unat (of_nat ?n :: u64) = ?n"
    using sz by (simp_all add: unat_of_nat64 del: of_nat_diff)
  have "?off \<le> length ?f"
  proof (cases "a = 0")
    case False
    then have "a - 1 \<in> have" "a - 1 < length bs" using hole a by (auto simp: hole_at_def)
    then have "holds_at ?f (byte_size (take (a - 1) bs)) (bs ! (a - 1))" using held by (simp add: blocks_held_def)
    then show ?thesis using byte_size_take_Suc [of "a - 1" bs] False \<open>a - 1 < length bs\<close> by (simp add: holds_at_def)
  qed (simp add: byte_size_def)
  then obtain d' where d': "ra_del ra (of_nat ?off) (of_nat ?n) (get_random_access s Data) = Ok d'"
    "\<And>k. k < length ?f \<Longrightarrow> k < ?off \<or> ?off + ?n \<le> k \<Longrightarrow> k < length (content d') \<and> content d' ! k = ?f ! k"
    using del_law [of "of_nat ?off" "get_random_access s Data" "of_nat ?n"] nat by auto
  let ?s = "set_random_access s Data d'"
  have "flush_infos ra s [block_clear (of_nat ?off) (of_nat ?n)] = Ok ?s"
    using d'(1) by (simp add: block_clear_def flush_one_def si_new_delete_def)
  moreover have "blocks_held bs have (stored content ?s Data)"
    unfolding blocks_held_def
  proof (intro allI impI)
    fix i assume i: "i < length bs" "i \<in> have"
    let ?p = "byte_size (take i bs)" and ?x = "bs ! i"
    have x: "holds_at ?f ?p ?x" "?x \<noteq> []" using held i ne by (simp_all add: blocks_held_def)
    have out: "?p + length ?x \<le> ?off \<or> ?off + ?n \<le> ?p"
    proof (cases "i < a")
      case True
      then show ?thesis using byte_size_take_mono [of "Suc i" a bs] byte_size_take_Suc [OF i(1)] by simp
    next
      case False
      then have "z \<le> i" using hole i(2) by (auto simp: hole_at_def)
      then show ?thesis using byte_size_take_mono [of z i bs] sz(2) by simp
    qed
    have keep: "k < length (content d') \<and> content d' ! k = ?f ! k" if "?p \<le> k" "k < ?p + length ?x" for k
      using d'(2) [of k] that x(1) out by (auto simp: holds_at_def)
    have "?p + length ?x \<le> length (content d')" using keep [of "?p + length ?x - 1"] x(2) by (cases ?x) auto
    moreover have "slice (content d') ?p (length ?x) = slice ?f ?p (length ?x)"
    proof -
      have "?p + length ?x \<le> length ?f" using x(1) by (simp add: holds_at_def)
      with keep calculation show ?thesis by (intro nth_equalityI) (auto simp: slice_def)
    qed
    ultimately show "holds_at (stored content ?s Data) ?p ?x" using x(1) by (simp add: holds_at_def)
  qed
  moreover have "stored content ?s st = stored content s st" if "st \<noteq> Data" for st using that by simp
  ultimately show thesis using that by blast
qed

section \<open>Clearing\<close>

lemma clear_entry_fits: "entry_fits L w (clear_entry s e)"
  using cenc.length_w_uint [of "of_nat s"] cenc.length_w_uint [of "of_nat (e - s)"]
  by (simp add: entry_fits_def entry_ok_def nodes_ok_def clear_entry_def wire_entry_def wire_bitfield_update_def)

lemma core_clear_ok:
  assumes inv: "core_inv L w content sk c bs have" and r: "s < e" "e \<le> length bs"
    and ne: "\<forall>i\<in>have - {s..<e}. bs ! i \<noteq> []"
  shows "\<exists>c'. core_clear L ra (of_nat s) (of_nat e) c = (Ok (), c') \<and> core_inv L w content sk c' bs (have - {s..<e}) \<and>
    hc_key_pair c' = hc_key_pair c \<and> hc_events c' = hc_events c"
proof -
  let ?have = "have - {s..<e}"
  have state: "core_state L w content sk c bs have" using core_inv_state [OF inv] .
  have view: "core_view L w content sk c bs have" and log: "oplog_slots L w content (hc_storage c) (hc_oplog c)"
    "op_entries_byte_length (hc_oplog c) < MAX_OPLOG_ENTRIES_BYTE_SIZE"
    using state inv by (simp_all add: core_state_def core_inv_def)
  obtain n0 ps where v: "have \<subseteq> {..<length bs}" "tree_held L w bs (hc_tree c) (stored content (hc_storage c) Tree)"
    "bitfield_is (hc_bitfield c) have" "bits_stored (hc_bitfield c) ps (length bs)" "stored content (hc_storage c) Bitfield = page_file ps"
    "blocks_held bs have (stored content (hc_storage c) Data)" "hc_header c = header_of L w sk (hc_key_pair c) bs n0"
    "byte_size bs \<le> 2 ^ 62" "length bs \<le> MAX_BLOCKS"
    using view unfolding core_view_def core_small_def by blast
  obtain n where n: "contiguous_at have n" "hh_contiguous_length (h_hints (hc_header c)) = of_nat n"
    using inv by (auto simp: core_inv_def hint_ok_def)
  have nat: "unat (of_nat s :: u64) = s" "unat (of_nat e :: u64) = e" "unat (of_nat n :: u64) = n"
    "of_nat e - of_nat s = (of_nat (e - s) :: u64)"
  proof -
    have "n \<le> length bs" using n(1) v(1) unfolding contiguous_at_def by (metis lessThan_subset_iff subset_trans)
    then show "unat (of_nat s :: u64) = s" "unat (of_nat e :: u64) = e" "unat (of_nat n :: u64) = n"
      "of_nat e - of_nat s = (of_nat (e - s) :: u64)"
      using r v(9) by (simp_all add: unat_of_nat64 MAX_BLOCKS_def)
  qed
  obtain o1 infos s1 where 1: "oplog_clear L (hc_oplog c) (of_nat s) (of_nat e) = Ok (o1, infos)"
    "flush_infos ra (hc_storage c) infos = Ok s1" "oplog_slots L w content s1 o1"
    "\<And>h es. oplog_inv L w content (hc_storage c) (hc_oplog c) h es \<Longrightarrow> oplog_inv L w content s1 o1 h (es @ [clear_entry s e])"
    "\<forall>st. st \<noteq> Oplog \<longrightarrow> stored content s1 st = stored content (hc_storage c) st"
    using log_entry_ok [OF log(1) clear_entry_fits log(2), of s e False]
    unfolding oplog_clear_def clear_entry_def nat(4) by blast
  obtain b2 where b2: "dyn_set_range (hc_bitfield c) (of_nat s) (of_nat (e - s)) False = Ok b2" "bitfield_is b2 ?have"
    using bitfield_is_set [OF v(3), of s e False] r v(9) by auto
  have stored2: "bits_stored b2 ps (length bs)"
    using v(3,9) r by (intro bits_stored_set_range [OF v(4) _ b2(1)])
      (simp_all add: bitfield_is_def unat_of_nat64 MAX_BLOCKS_def del: of_nat_diff)
  define n' where "n' = (if s < n then s else n)"
  let ?h = "(hc_header c)\<lparr>h_hints := (h_hints (hc_header c))\<lparr>hh_contiguous_length := of_nat n'\<rparr>\<rparr>"
  let ?c2 = "c\<lparr>hc_oplog := o1, hc_storage := s1, hc_bitfield := b2, hc_header := ?h\<rparr>"
  have hint: "modifyC (\<lambda>c. if of_nat s < hh_contiguous_length (h_hints (hc_header c))
      then c\<lparr>hc_header := (hc_header c)\<lparr>h_hints := (h_hints (hc_header c))\<lparr>hh_contiguous_length := of_nat s\<rparr>\<rparr>\<rparr>
      else c) (c\<lparr>hc_oplog := o1, hc_storage := s1, hc_bitfield := b2\<rparr>) = (Ok (), ?c2)"
    using n(2) nat by (auto simp: n'_def word_less_nat_alt stepC_def)
  have "tree_held L w bs (hc_tree ?c2) (stored content (hc_storage ?c2) Tree)" "bitfield_is (hc_bitfield ?c2) ?have"
    "?have \<inter> {s..<e} = {}" "?have \<subseteq> {..<length bs}"
    using v(1,2) 1(5) b2(2) by auto
  from clear_range_ok [OF this r v(8)] obtain a z where hole: "hole_at ?have (length bs) s e a z"
    "clear_range L ra ?c2 (of_nat s) (of_nat e) =
      Ok (of_nat (byte_size (take a bs)), of_nat (byte_size (take z bs) - byte_size (take a bs)))" by blast
  have "blocks_held bs ?have (stored content s1 Data)" using v(6) 1(5) by (simp add: blocks_held_def)
  from flush_hole [OF this hole(1) ne v(8) _ r(1)] v(1) obtain s3 where s3:
    "flush_infos ra s1 [block_clear (of_nat (byte_size (take a bs))) (of_nat (byte_size (take z bs) - byte_size (take a bs)))] = Ok s3"
    "blocks_held bs ?have (stored content s3 Data)" "\<And>st. st \<noteq> Data \<Longrightarrow> stored content s3 st = stored content s1 st"
    by blast
  let ?c3 = "?c2\<lparr>hc_storage := s3\<rparr>"
  have "core_view L w content sk ?c3 bs ?have"
  proof -
    have "?h = header_of L w sk (hc_key_pair c) bs n'" unfolding v(7) by (simp add: header_of_def)
    with view s3(2,3) 1(5) b2(2) stored2 v(1,5) show ?thesis unfolding core_view_def by auto
  qed
  moreover have "hint_ok ?c3 ?have" using contiguous_clear [OF n(1) r(1)] by (auto simp: hint_ok_def n'_def)
  moreover have "oplog_slots L w content (hc_storage ?c3) (hc_oplog ?c3)"
    using 1(3) s3(3) oplog_slots_cong [of s3 s1] by simp
  moreover have "hc_skip_flush_count ?c3 = 0 \<or> durable L w content sk ?c3 bs ?have"
  proof (rule durable_log [of c sk bs "have" "clear_entry s e"])
    show "oplog_inv L w content (hc_storage ?c3) (hc_oplog ?c3) h (es @ [clear_entry s e])"
      if "oplog_inv L w content (hc_storage c) (hc_oplog c) h es" for h es
      using 1(4) [OF that] s3(3) by (simp add: oplog_inv_def)
  qed (use state s3(3) 1(5) log_path.clear [OF _ r] in \<open>auto simp: core_state_def\<close>)
  ultimately have "core_state L w content sk ?c3 bs ?have" by (simp add: core_state_def)
  from maybe_flush_ok [OF this] obtain c4 where c4: "maybe_flush L ra ?c3 = (Ok (), c4)" "core_inv L w content sk c4 bs ?have"
    "hc_key_pair c4 = hc_key_pair c" "hc_events c4 = hc_events c" by auto
  have "\<not> of_nat s \<ge> (of_nat e :: u64)" using r(1) nat by (simp add: word_le_nat_alt)
  then have "core_clear L ra (of_nat s) (of_nat e) c = (Ok (), c4)"
    using 1(1,2) b2(1) hint hole(2) s3(1) c4(1)
    by (simp add: core_clear_def core_flush_infos_def bindC_def nat(4) stepC_Ok)
  with c4 show ?thesis by blast
qed

section \<open>Giving up the secret key\<close>

lemma core_flush_scrubs:
  assumes "flush_bitfield_and_tree_and_oplog L ra True c = (Ok (), c')" "header_fits L w (hc_header c)"
  shows "stored content (hc_storage c') Oplog = header_slots L w (op_header_bits (hc_oplog c')) (hc_header c')"
proof -
  obtain b1 i1 t1 i2 o3 i3 s1 s2 s3 where "dyn_flush (hc_bitfield c) = Ok (b1, i1)" "mt_flush L (hc_tree c) = Ok (t1, i2)"
    and flush: "oplog_flush L (hc_oplog c) (hc_header c) True = Ok (o3, i3)" "flush_infos ra s2 i3 = Ok s3"
      "c' = c\<lparr>hc_bitfield := b1, hc_tree := t1, hc_oplog := o3, hc_storage := s3\<rparr>"
    using assms(1) by (auto simp: flush_bitfield_and_tree_and_oplog_def core_flush_infos_def run_simps bindR_eq_Ok split: result.splits prod.splits)
  from flush_scrubs [OF assms(2) flush(1,2)] show ?thesis unfolding flush(3) by simp
qed

lemma make_read_only_ok:
  assumes inv: "core_inv L w content sk c bs have"
  shows "\<exists>c'. make_read_only L ra c = (Ok (kp_secret (hc_key_pair c) \<noteq> None), c') \<and> core_inv L w content sk c' bs have \<and>
    kp_secret (hc_key_pair c') = None \<and> hc_events c' = hc_events c \<and>
    (kp_secret (hc_key_pair c) \<noteq> None \<longrightarrow>
      stored content (hc_storage c') Oplog = header_slots L w (op_header_bits (hc_oplog c')) (hc_header c'))"
proof (cases "kp_secret (hc_key_pair c)")
  case None
  then show ?thesis using inv by (simp add: make_read_only_def run_simps)
next
  case (Some k)
  let ?c = "c\<lparr>hc_key_pair := (hc_key_pair c)\<lparr>kp_secret := None\<rparr>,
    hc_header := (hc_header c)\<lparr>h_key_pair := (h_key_pair (hc_header c))\<lparr>kp_secret := None\<rparr>\<rparr>\<rparr>"
  have view: "core_view L w content sk ?c bs have" and "hint_ok ?c have" "oplog_slots L w content (hc_storage ?c) (hc_oplog ?c)"
    using core_inv_state [OF inv]
    by (auto simp: core_state_def core_view_def hint_ok_def author_keys_def header_of_def)
  from core_flush_ok [OF this, of True] obtain c' where c': "flush_bitfield_and_tree_and_oplog L ra True ?c = (Ok (), c')"
    "core_inv L w content sk c' bs have" "hc_key_pair c' = hc_key_pair ?c" "hc_events c' = hc_events c" by auto
  have "header_fits L w (hc_header ?c)" using view header_of_fits unfolding core_view_def by auto
  from core_flush_scrubs [OF c'(1) this] c' Some show ?thesis by (auto simp: make_read_only_def run_simps)
qed

end

end
