(* ===== verification/Core_Reopen.thy ===== *)
theory Core_Reopen
  imports Core_Open Core_Clear
begin

text \<open>
  \<open>Hypercore::new\<close> on the stores of a core: the last flushed state is read back and the entries of
  the log are replayed on it.
\<close>

section \<open>The tree\<close>

context libs_laws
begin

lemma root_indices:
  assumes "n \<le> MAX_BLOCKS"
  shows "get_root_indices L (of_nat n) = map pos_index (root_positions n)"
proof -
  have h: "unat (of_nat n * 2 :: u64) = 2 * n"
    using assms unat_of_nat64 [of "2 * n"] by (simp add: MAX_BLOCKS_def mult.commute)
  have "map unat (get_root_indices L (of_nat n)) = map unat (map pos_index (root_positions n))"
  proof -
    have "unat (pos_index p) = tree_index (fst p) (snd p)" if "p \<in> set (root_positions n)" for p
      using that rchain_positions [OF rchain_root_positions, of "fst p" "snd p" n] assms
      by (intro pos_index_nat(1) [of n]) (simp_all add: in_tree_def)
    then show ?thesis
      using flat.full_roots [OF h] assms by (simp add: get_root_indices_def MAX_BLOCKS_def case_prod_unfold)
  qed
  then show ?thesis by (rule map_injective) (simp add: inj_def word_eq_iff_unat)
qed

lemma roots_in_tree: "p \<in> set (root_positions n) \<Longrightarrow> in_tree n p"
  using rchain_positions [OF rchain_root_positions, of "fst p" "snd p" n] by (simp add: in_tree_def)

lemma mt_open_loop_eq:
  assumes "length bs \<le> MAX_BLOCKS" "fchain m (length bs) ps"
  shows "mt_open_loop L (map (node_info L w bs) (qs @ ps)) (map pos_index ps) (length qs)
      (roots, byte_length, of_nat (2 * m)) =
    Ok (roots @ map (merkle_node L w bs) ps,
      byte_length + of_nat (\<Sum>p \<leftarrow> ps. subtree_size bs (fst p) (snd p)), of_nat (2 * length bs))"
  using assms(2)
proof (induction ps arbitrary: m qs roots byte_length)
  case Nil
  then show ?case by simp
next
  case (Cons p ps)
  obtain d off where p: "p = (d, off)" by (cases p)
  have m: "m = off * 2 ^ d" "fchain ((off + 1) * 2 ^ d) (length bs) ps" using Cons.prems by (simp_all add: p)
  have tree: "in_tree (length bs) p" using fchain_le [OF m(2)] by (simp add: p in_tree_def)
  have head: "of_nat (2 * m) + 2 * ((n_index (merkle_node L w bs p) - of_nat (2 * m)) + 1) = (of_nat (2 * ((off + 1) * 2 ^ d)) :: u64)"
    using head_step [of d off "of_nat (2 * m)"] in_tree_index(2) [OF tree assms(1)] m(1) by (simp add: p pos_index_def)
  have info: "index_at (map (node_info L w bs) (qs @ p # ps)) (length qs) = Ok (node_info L w bs p)"
    by (simp add: index_at_def nth_append)
  have node: "index_from_info (node_info L w bs p) = pos_index p" "si_data (node_info L w bs p) = Some (node_bytes w (merkle_node L w bs p))"
    "n_length (merkle_node L w bs p) = of_nat (subtree_size bs (fst p) (snd p))"
    using index_from_node_info [OF tree assms(1)] by (simp_all add: node_info_def si_new_content_def p)
  let ?infos = "map (node_info L w bs) (qs @ p # ps)"
  have "mt_open_loop L ?infos (map pos_index (p # ps)) (length qs) (roots, byte_length, of_nat (2 * m)) =
      mt_open_loop L ?infos (map pos_index ps) (Suc (length qs)) (roots @ [merkle_node L w bs p],
        byte_length + of_nat (subtree_size bs (fst p) (snd p)), of_nat (2 * ((off + 1) * 2 ^ d)))"
    by (simp only: list.map(2) mt_open_loop.simps info bindR.simps node expect.simps head if_False simp_thms
        stored_node_read [OF tree assms(1)])
  then show ?case
    using Cons.IH [OF m(2), of "qs @ [p]" "roots @ [merkle_node L w bs p]"] by (simp add: add.assoc)
qed

end

context device_laws
begin

text \<open>Opening the tree of a stored header.\<close>

lemma open_tree_known:
  assumes st: "\<forall>p\<in>K. in_tree (length bs) p \<and> holds_at (stored content s Tree) (40 * tree_index (fst p) (snd p)) (node_bytes w (merkle_node L w bs p))"
    and roots: "set (root_positions (length bs)) \<subseteq> K" and small: "core_small bs" and nb: "nonblank L w bs"
  shows "\<exists>t. open_tree L ra s (h_tree (header_of L w sk kp bs n)) = Ok t \<and> tree_known L w bs K t (stored content s Tree) \<and>
    mt_fork t = 0 \<and> mt_signature t = (if bs = [] then None else Some (tree_signature L w sk bs)) \<and> mt_unflushed t = []"
proof -
  let ?ht = "h_tree (header_of L w sk kp bs n)" and ?ps = "root_positions (length bs)"
  let ?sig = "if bs = [] then None else Some (tree_signature L w sk bs)"
  define t where "t = \<lparr>mt_roots = merkle_roots L w bs, mt_length = of_nat (length bs), mt_byte_length = of_nat (byte_size bs),
    mt_fork = 0, mt_signature = ?sig, mt_unflushed = [], mt_truncated = False, mt_truncate_to = 0\<rparr>"
  have len: "length bs \<le> MAX_BLOCKS" using small by (simp add: core_small_def)
  have known: "tree_known L w bs K t (stored content s Tree)"
    using st len nb by (simp add: tree_known_def nonblank_def t_def tree_of_def MAX_BLOCKS_def im_wf_def im_keys_def im_get_def)
  have indices: "get_root_indices L (ht_length ?ht) = map pos_index ?ps" using root_indices [OF len] by (simp add: header_of_def)
  have ask: "mt_open L ?ht None = Ok (Inl (map instr_of ?ps))"
    unfolding mt_open_def option.case indices by (simp add: instr_of_def NODE_SIZE_def)
  have "read_infos ra s (map instr_of ?ps) = Ok (map (node_info L w bs) ?ps)"
    using roots by (intro read_known_nodes [OF known]) (auto simp: t_def im_get_def)
  moreover have "mt_open L ?ht (Some (map (node_info L w bs) ?ps)) = Ok (Inr t)"
  proof -
    have size: "(\<Sum>p \<leftarrow> ?ps. subtree_size bs (fst p) (snd p)) = byte_size bs"
      using fchain_size [OF fchain_roots order_refl] by (simp add: slice_def)
    have loop: "mt_open_loop L (map (node_info L w bs) ?ps) (map pos_index ?ps) 0 ([], 0, 0) =
        Ok (merkle_roots L w bs, of_nat (byte_size bs), of_nat (2 * length bs))"
      using mt_open_loop_eq [OF len fchain_roots, of "[]" "[]" 0] unfolding size by (simp add: merkle_roots_def)
    have "unat (of_nat (2 * length bs) :: u64) = 2 * length bs"
      using len by (intro unat_of_nat64) (simp add: MAX_BLOCKS_def)
    then have half: "(if of_nat (2 * length bs) > (0 :: u64) then of_nat (2 * length bs) div 2 else of_nat (2 * length bs)) = (of_nat (length bs) :: u64)"
      using len unat_of_nat64 [of "length bs"]
      by (auto simp del: of_nat_mult simp: word_eq_iff_unat unat_div word_less_nat_alt MAX_BLOCKS_def)
    have sig: "(if length (ht_signature ?ht) > 0 then
          (case signature_try_from (ht_signature ?ht) of None \<Rightarrow> Err InvalidSignature | Some sig \<Rightarrow> Ok (Some sig))
        else Ok None) = (Ok ?sig :: bytes option hres)"
    proof -
      have "length (tree_signature L w sk bs) = 64" by (simp add: tree_signature_def crypt.length_sign)
      then show ?thesis by (auto simp: header_of_def signature_try_from_def SIGNATURE_LENGTH_def)
    qed
    show ?thesis
      unfolding mt_open_def option.case indices loop bindR.simps prod.case half Let_def sig
      by (simp add: t_def header_of_def)
  qed
  ultimately have "open_tree L ra s ?ht = Ok t" using ask by (simp add: open_tree_def)
  with known show ?thesis by (auto simp: t_def)
qed

lemma open_tree_ok:
  assumes "tree_stored L w bs (stored content s Tree)" "core_small bs" "nonblank L w bs"
  shows "\<exists>t. open_tree L ra s (h_tree (header_of L w sk kp bs n)) = Ok t \<and> tree_held L w bs t (stored content s Tree) \<and>
    mt_fork t = 0 \<and> mt_signature t = (if bs = [] then None else Some (tree_signature L w sk bs))"
  using open_tree_known [of "{p. in_tree (length bs) p}" bs s sk kp n] assms roots_in_tree
  unfolding tree_held_known tree_stored_def by blast

section \<open>The bitfield\<close>

lemma read_size:
  "read_one ra s (sii_new_size st 0) = Ok (si_new_size st 0 (of_nat (length (stored content s st))))"
  by (simp add: read_one_def sii_new_size_def len_law)

text \<open>One page of which only the first quarter has bits set is read back as it was.\<close>

lemma open_bitfield_ok:
  assumes f: "stored content s Bitfield = page_file ps" "list_all fixed_wf ps" "length ps \<le> 1" "32768 * length ps < len + 32768"
    and bits: "\<forall>k. page_bits ps k \<longleftrightarrow> k \<in> have" "have \<subseteq> {..<8192}"
  shows "\<exists>b. open_bitfield ra s = Ok b \<and> bitfield_is b have \<and> bits_stored b ps len"
proof -
  have len: "length (page_file ps) = 4096 * length ps" using length_page_file [OF f(2)] .
  consider "ps = []" | p where "ps = [p]" using f(3) by (cases ps) auto
  then obtain b where b: "dyn_open (Some (si_new_content Bitfield 0 (page_file ps))) = Ok (Inr b)" "dyn_wf b" "db_unflushed b = []"
    "dyn_top b \<le> 32768 * 4" "\<forall>k. dyn_bits b k \<longleftrightarrow> k \<in> have"
  proof cases
    case 1
    have "\<not> dyn_bits empty_bitfield k" "k \<notin> have" for k using empty_bitfield_wf(2) bits(1) 1 by (auto simp: page_bits_def)
    with 1 empty_bitfield_wf(1) that [of empty_bitfield] show thesis
      by (simp add: page_file_def dyn_open_def si_new_content_def empty_bitfield_def dyn_top_def)
  next
    case 2
    have p: "fixed_wf p" "page_file ps = fixed_to_bytes p" using f(2) 2 by (simp_all add: page_file_def)
    have bit: "k \<in> have \<longleftrightarrow> k < 32768 \<and> fixed_bits p k" for k
    proof -
      have "page_bits [p] k \<longleftrightarrow> k < 32768 \<and> fixed_bits p k"
        by (cases "k < 32768") (simp_all add: page_bits_def div_eq_0_iff)
      with bits(1) 2 show ?thesis by simp
    qed
    obtain b where b: "dyn_open (Some (si_new_content Bitfield 0 (fixed_to_bytes p))) = Ok (Inr b)" "dyn_wf b"
      "db_biggest_page_index b = 3" "db_unflushed b = []"
      "\<forall>k. dyn_bits b k \<longleftrightarrow> k < 131072 \<and> 8192 * (k div 32768) \<le> k mod 32768 \<and> fixed_bits p (k mod 32768)"
      using dyn_open_one_page [OF p(1)] by blast
    have "dyn_bits b k \<longleftrightarrow> k \<in> have" for k
    proof
      assume k: "dyn_bits b k"
      then have "k mod 32768 \<in> have" using b(5) bit by simp
      then have "k mod 32768 < 8192" using bits(2) by auto
      moreover have "8192 * (k div 32768) \<le> k mod 32768" using k b(5) by blast
      ultimately have "k div 32768 = 0" by linarith
      with \<open>k mod 32768 \<in> have\<close> show "k \<in> have" by (simp add: div_eq_0_iff)
    next
      assume "k \<in> have"
      then show "dyn_bits b k" using b(5) bit [of k] by simp
    qed
    with b p(2) that show thesis by (simp add: dyn_top_def)
  qed
  let ?n = "of_nat (length (page_file ps)) :: u64"
  have n: "unat ?n = length (page_file ps)" using f(3) len by (intro unat_of_nat64) simp
  have whole: "?n - (?n AND 3) = ?n"
  proof -
    have "unat (?n AND 3) = 0" using unat_and_mask [of 2 ?n] n len by simp
    then have "?n AND 3 = 0" by (simp add: word_eq_iff_unat)
    then show ?thesis by simp
  qed
  have "read_one ra s (sii_new_content Bitfield 0 ?n) = Ok (si_new_content Bitfield 0 (page_file ps))"
    using read_content(1) [of 0 ?n s Bitfield] f(1) n by (simp add: slice_def)
  moreover have "dyn_open (Some (si_new_size Bitfield 0 ?n)) = Ok (Inl (sii_new_content Bitfield 0 ?n))"
    using whole by (simp add: dyn_open_def si_new_size_def)
  ultimately have "open_bitfield ra s = Ok b"
    using b(1) read_size [of s Bitfield] f(1)
    by (simp add: open_bitfield_def dyn_open_def [of None] read_info_def)
  moreover have "bitfield_is b have" using b by (simp add: bitfield_is_def)
  moreover have "bits_stored b ps len" using b bits(1) f(2-4) by (simp add: bits_stored_def)
  ultimately show ?thesis by blast
qed

end

section \<open>Replaying an upgrade\<close>

text \<open>The roots that \<open>truncate\<close> has to look up: those from the first that is not in its place.\<close>

fun asked :: "nat \<Rightarrow> node list \<Rightarrow> (nat \<times> nat) list \<Rightarrow> (nat \<times> nat) list" where
  "asked i roots [] = []"
| "asked i roots (p # ps) =
     (if i < length roots \<and> n_index (roots ! i) = pos_index p then asked (Suc i) roots ps else p # ps)"

lemma asked_beyond: "length roots \<le> i \<Longrightarrow> asked i roots ps = ps"
  by (cases ps) auto

lemma asked_subset: "set (asked i roots ps) \<subseteq> set ps"
  by (induction i roots ps rule: asked.induct) auto

lemma truncate_loop_eq:
  assumes "\<forall>p\<in>set ps. required_node t (pos_index p) nodes = Ok (if A p then Inr (N p) else Inl (instr_of p))"
    and "\<forall>j p. i \<le> j \<and> j < length roots \<and> p \<in> set ps \<and> n_index (roots ! j) = pos_index p \<longrightarrow> roots ! j = N p"
  shows "\<exists>roots'. truncate_loop t nodes (map pos_index ps) i roots instrs =
      Ok (roots', instrs @ map instr_of (filter (\<lambda>p. \<not> A p) (asked i roots ps))) \<and>
    (filter (\<lambda>p. \<not> A p) (asked i roots ps) = [] \<and> i \<le> length roots \<longrightarrow> take (i + length ps) roots' = take i roots @ map N ps)"
  using assms
proof (induction ps arbitrary: i roots instrs)
  case Nil
  then show ?case by simp
next
  case (Cons p ps)
  consider "i < length roots" "n_index (roots ! i) = pos_index p" | "\<not> (i < length roots \<and> n_index (roots ! i) = pos_index p)"
    by blast
  then show ?case
  proof cases
    case 1
    then have "roots ! i = N p" using Cons.prems(2) [rule_format, of i p] by simp
    moreover have "\<forall>j q. Suc i \<le> j \<and> j < length roots \<and> q \<in> set ps \<and> n_index (roots ! j) = pos_index q \<longrightarrow> roots ! j = N q"
      using Cons.prems(2) by simp
    ultimately show ?thesis
      using 1 Cons.IH [of "Suc i" roots instrs] Cons.prems(1) by (fastforce simp: take_Suc_conv_app_nth)
  next
    case 2
    define r1 where "r1 = (if A p then take i roots @ [N p] else take i roots)"
    define i1 where "i1 = (if A p then instrs else instrs @ [instr_of p])"
    have len: "length r1 \<le> Suc i" by (auto simp: r1_def min_def)
    have "truncate_loop t nodes (map pos_index (p # ps)) i roots instrs = truncate_loop t nodes (map pos_index ps) (Suc i) r1 i1"
      using 2 Cons.prems(1) by (auto simp: r1_def i1_def)
    moreover have "\<forall>j q. Suc i \<le> j \<and> j < length r1 \<and> q \<in> set ps \<and> n_index (r1 ! j) = pos_index q \<longrightarrow> r1 ! j = N q"
      using len by auto
    moreover have "asked (Suc i) r1 ps = ps" using asked_beyond [OF len] .
    moreover have "asked i roots (p # ps) = p # ps" using 2 by auto
    ultimately show ?thesis
      using Cons.IH [of "Suc i" r1 i1] Cons.prems(1) by (auto simp: r1_def i1_def)
  qed
qed

lemma required_node_cong:
  "mt_unflushed t' = mt_unflushed t \<Longrightarrow> mt_truncated t' = mt_truncated t \<Longrightarrow> mt_truncate_to t' = mt_truncate_to t \<Longrightarrow>
    required_node t' = required_node t"
  by (simp add: required_node_def mt_node_def fun_eq_iff cong: option.case_cong)

lemma fold_lengths: "fold (\<lambda>n acc. acc + n_length n) ns x = x + (\<Sum>n \<leftarrow> ns. n_length n)"
  by (induction ns arbitrary: x) (simp_all add: add.assoc)

lemma sum_list_of_nat: "(\<Sum>x \<leftarrow> xs. of_nat (f x)) = (of_nat (\<Sum>x \<leftarrow> xs. f x) :: u64)"
  by (induction xs) simp_all

lemma fold_add_node: "fold (\<lambda>n t. add_node t n) ns t =
    t\<lparr>mt_unflushed := fold (\<lambda>n m. im_insert (n_index n) n m) ns (mt_unflushed t)\<rparr>"
  by (induction ns arbitrary: t) (simp_all add: add_node_def)

text \<open>The part of an entry that describes the growth of the log.\<close>

definition upgrade_of :: "'it libs \<Rightarrow> wire_format \<Rightarrow> bytes \<Rightarrow> bytes list \<Rightarrow> bytes list \<Rightarrow> entry_tree_upgrade" where
  "upgrade_of L w sk bs cs = \<lparr>etu_fork = 0, etu_ancestors = of_nat (length bs), etu_length = of_nat (length (bs @ cs)),
     etu_signature = tree_signature L w sk (bs @ cs)\<rparr>"

lemma append_entry_fields:
  "append_entry L w sk bs cs = \<lparr>e_user_data = [],
     e_tree_nodes = map (merkle_node L w (bs @ cs)) (new_positions (length bs) (length (bs @ cs))),
     e_tree_upgrade = Some (upgrade_of L w sk bs cs),
     e_bitfield = Some \<lparr>bu_drop = False, bu_start = of_nat (length bs), bu_length = of_nat (length cs)\<rparr>\<rparr>"
  by (simp add: append_entry_def upgrade_of_def)

context libs_laws
begin

lemma merkle_roots_size: "(\<Sum>n \<leftarrow> merkle_roots L w bs. n_length n) = of_nat (byte_size bs)"
proof -
  have "n_length (merkle_node L w bs p) = of_nat (subtree_size bs (fst p) (snd p))" for p by (cases p) simp
  then have "(\<Sum>n \<leftarrow> merkle_roots L w bs. n_length n) = of_nat (\<Sum>p \<leftarrow> root_positions (length bs). subtree_size bs (fst p) (snd p))"
    by (simp add: merkle_roots_def comp_def sum_list_of_nat)
  then show ?thesis using fchain_size [OF fchain_roots order_refl, of bs] by (simp add: slice_def)
qed

text \<open>Truncating a tree that has nodes of \<open>bs @ cs\<close>, the new ones at \<open>ns\<close>, to that length.\<close>

lemma truncate_grown:
  assumes known: "tree_known L w bs K t f" and small: "length (bs @ cs) \<le> MAX_BLOCKS"
    and nb: "\<forall>p. in_tree (length (bs @ cs)) p \<longrightarrow> \<not> n_blank (merkle_node L w (bs @ cs) p)"
    and ns: "\<forall>p\<in>set ns. in_tree (length (bs @ cs)) p"
    and ps: "\<forall>p\<in>set ps. in_tree (length (bs @ cs)) p" and infos: "infos_of L w (bs @ cs) infos ps"
  defines "t1 \<equiv> fold (\<lambda>n t. add_node t n) (map (merkle_node L w (bs @ cs)) ns) t"
  defines "qs \<equiv> to_read t1 ps (asked 0 (merkle_roots L w bs) (root_positions (length (bs @ cs))))"
  shows "mt_truncate L t1 (of_nat (length (bs @ cs))) 0 infos =
    Ok (if qs = [] then Inr ((mt_changeset t1)\<lparr>cg_roots := merkle_roots L w (bs @ cs), cg_fork := 0,
          cg_length := of_nat (length (bs @ cs)), cg_ancestors := of_nat (length (bs @ cs)),
          cg_byte_length := of_nat (byte_size (bs @ cs)), cg_upgraded := True\<rparr>)
        else Inl (map instr_of qs))"
proof -
  let ?bs = "bs @ cs" and ?roots = "root_positions (length (bs @ cs))"
  let ?t = "grown_tree L w (bs @ cs) ns 0 None t"
  let ?A = "\<lambda>p. im_get (mt_unflushed t1) (pos_index p) \<noteq> None \<or> p \<in> set ps"
  have t1: "mt_unflushed t1 = mt_unflushed ?t" "mt_truncated t1 = mt_truncated ?t" "mt_truncate_to t1 = mt_truncate_to ?t"
    "mt_roots t1 = merkle_roots L w bs"
    using known by (simp_all add: t1_def fold_add_node grown_tree_def tree_known_def tree_of_def)
  obtain m where m: "infos_to_nodes L infos = Ok m" "\<And>p. in_tree (length ?bs) p \<Longrightarrow> im_get m (pos_index p) =
      (if p \<in> set ps then Some (Some (merkle_node L w ?bs p)) else None)"
  proof (cases infos)
    case None
    with infos that [of "[]"] show ?thesis by (simp add: infos_of_def infos_to_nodes_def im_get_def)
  next
    case Some
    with infos that infos_to_nodes_eq [OF ps small] show ?thesis by (auto simp: infos_of_def)
  qed
  have req: "\<forall>p\<in>set ?roots. required_node t1 (pos_index p) m = Ok (if ?A p then Inr (merkle_node L w ?bs p) else Inl (instr_of p))"
    using known_required_node [OF known_grow [OF known small nb ns, of 0 None] roots_in_tree m(2) [OF roots_in_tree]]
    unfolding required_node_cong [OF t1(1-3)] t1(1) by blast
  have old: "\<forall>j p. 0 \<le> j \<and> j < length (merkle_roots L w bs) \<and> p \<in> set ?roots \<and> n_index (merkle_roots L w bs ! j) = pos_index p \<longrightarrow>
      merkle_roots L w bs ! j = merkle_node L w ?bs p"
  proof (intro allI impI)
    fix j p assume a: "0 \<le> j \<and> j < length (merkle_roots L w bs) \<and> p \<in> set ?roots \<and> n_index (merkle_roots L w bs ! j) = pos_index p"
    define q where "q = root_positions (length bs) ! j"
    have q: "merkle_roots L w bs ! j = merkle_node L w bs q" "in_tree (length bs) q"
      using a by (auto simp: merkle_roots_def q_def intro: roots_in_tree nth_mem)
    then have "pos_index q = pos_index p" using a by (cases q) (simp add: pos_index_def)
    then have "q = p" using pos_index_inj [OF in_tree_mono [OF q(2)] roots_in_tree small, of p] a by simp
    with q merkle_node_extend show "merkle_roots L w bs ! j = merkle_node L w ?bs p" by metis
  qed
  obtain r where r: "truncate_loop t1 m (map pos_index ?roots) 0 (merkle_roots L w bs) [] = Ok (r, map instr_of qs)"
    "qs = [] \<longrightarrow> take (length ?roots) r = merkle_roots L w ?bs"
    using truncate_loop_eq [OF req old, of "[]"] by (auto simp: qs_def to_read_def merkle_roots_def)
  have roots: "ft_full_roots (lib_ft L) (of_nat (length ?bs) * 2) = map pos_index ?roots"
    using root_indices [OF small] by (simp only: get_root_indices_def)
  have cg: "cg_roots (mt_changeset t1) = merkle_roots L w bs" using t1(4) by (simp add: mt_changeset_def changeset_new_def)
  show ?thesis
    unfolding mt_truncate_def Let_def roots m(1) bindR.simps cg r(1) prod.case fold_lengths
    using r(2) by (simp add: merkle_roots_size)
qed

end

context device_laws
begin

text \<open>Replaying the upgrade of an entry whose nodes complete the roots.\<close>

lemma replay_upgrade_ok:
  assumes known: "tree_known L w bs K t (stored content s Tree)" and fork: "mt_fork t = 0"
    and small: "length (bs @ cs) \<le> MAX_BLOCKS"
    and nb: "\<forall>p. in_tree (length (bs @ cs)) p \<longrightarrow> \<not> n_blank (merkle_node L w (bs @ cs) p)"
    and ns: "\<forall>p\<in>set ns. in_tree (length (bs @ cs)) p" "set (root_positions (length (bs @ cs))) \<subseteq> K \<union> set ns"
  defines "t1 \<equiv> fold (\<lambda>n t. add_node t n) (map (merkle_node L w (bs @ cs)) ns) t"
  shows "replay_upgrade L ra s (upgrade_of L w sk bs cs) (h, t1) =
    Ok (h\<lparr>h_tree := (h_tree h)\<lparr>ht_root_hash := tree_hash L w (bs @ cs), ht_signature := tree_signature L w sk (bs @ cs),
        ht_length := of_nat (length (bs @ cs))\<rparr>\<rparr>,
      grown_tree L w (bs @ cs) ns 0 (Some (tree_signature L w sk (bs @ cs))) t)"
proof -
  let ?bs = "bs @ cs" and ?sig = "tree_signature L w sk (bs @ cs)"
  define path where "path = asked 0 (merkle_roots L w bs) (root_positions (length ?bs))"
  define qs where "qs = to_read t1 [] path"
  let ?cg = "(mt_changeset t1)\<lparr>cg_roots := merkle_roots L w ?bs, cg_fork := 0,
          cg_length := of_nat (length ?bs), cg_ancestors := of_nat (length ?bs),
          cg_byte_length := of_nat (byte_size ?bs), cg_upgraded := True\<rparr>"
  let ?t = "grown_tree L w (bs @ cs) ns 0 None t"
  note trunc = truncate_grown [OF known small nb ns(1), folded t1_def, folded path_def]
  have t1: "mt_unflushed t1 = mt_unflushed ?t" "mt_length t1 = of_nat (length bs)" "mt_fork t1 = 0"
    using known fork by (simp_all add: t1_def fold_add_node grown_tree_def tree_known_def tree_of_def)
  have qs: "\<forall>p\<in>set qs. p \<in> K \<union> set ns \<and> im_get (mt_unflushed ?t) (pos_index p) = None"
    using asked_subset ns(2) to_read_mem t1(1) unfolding qs_def path_def by (metis subsetD)
  have intree: "\<forall>p\<in>set qs. in_tree (length ?bs) p"
    using asked_subset roots_in_tree to_read_mem unfolding qs_def path_def by (metis subsetD)
  have first: "mt_truncate L t1 (of_nat (length ?bs)) 0 None = Ok (if qs = [] then Inr ?cg else Inl (map instr_of qs))"
    unfolding qs_def by (rule trunc) (simp_all add: infos_of_def)
  have again: "to_read t1 qs path = []" by (auto simp: qs_def to_read_def filter_empty_conv)
  have second: "mt_truncate L t1 (of_nat (length ?bs)) 0 (Some (map (node_info L w ?bs) qs)) = Ok (Inr ?cg)"
    by (subst trunc [of qs]) (use intree again in \<open>auto simp: infos_of_def\<close>)
  have read: "read_infos ra s (map instr_of qs) = Ok (map (node_info L w ?bs) qs)"
    using read_known_nodes [OF known_grow [OF known small nb ns(1), of 0 None] qs] .
  have sig: "signature_try_from ?sig = Some ?sig"
    by (simp add: signature_try_from_def SIGNATURE_LENGTH_def tree_signature_def crypt.length_sign)
  let ?cg2 = "?cg\<lparr>cg_ancestors := of_nat (length bs), cg_hash := Some (tree_hash L w ?bs), cg_signature := Some ?sig\<rparr>"
  have hash: "changeset_hash L (?cg\<lparr>cg_ancestors := of_nat (length bs)\<rparr>) = Ok (tree_hash L w ?bs)"
    by (simp add: changeset_hash_def hash_tree_eq tree_hash_def)
  have commit: "mt_commit L t1 ?cg2 = Ok (grown_tree L w ?bs ns 0 (Some ?sig) t)"
    using t1(2,3) by (simp add: mt_commit_def commitable_def commit_truncation_def mt_changeset_def changeset_new_def
        grown_tree_def t1_def fold_add_node)
  show ?thesis
    using first second read hash commit sig
    by (cases "qs = []") (simp_all add: upgrade_of_def replay_upgrade_def Let_def update_header_with_changeset_def)
qed

end

section \<open>Replaying the log\<close>

lemma log_path_range:
  "log_path L w sk bs0 have0 es bs have \<Longrightarrow> have0 \<subseteq> {..<length bs0} \<Longrightarrow>
    have \<subseteq> {..<length bs} \<and> length bs0 \<le> length bs \<and> take (length bs0) bs = bs0"
  by (induction rule: log_path.induct) force+

lemma core_small_prefix: "core_small (bs @ cs) \<Longrightarrow> core_small bs"
  by (simp add: core_small_def)

lemma nonblank_prefix: "nonblank L w (bs @ cs) \<Longrightarrow> nonblank L w bs"
  unfolding nonblank_def by (metis merkle_node_extend in_tree_mono le_add1 length_append)

lemma replay_entries_append:
  "replay_entries L ra s (xs @ ys) acc = bindR (replay_entries L ra s xs acc) (replay_entries L ra s ys)"
  by (induction xs arbitrary: acc) (simp_all add: bindR_assoc fun_eq_iff cong: bindR_cong)

text \<open>Whatever the bitfield, only the hint of the header changes.\<close>

lemma update_contiguous_any:
  assumes b: "bitfield_is b have" and e: "unat (bu_start bu + bu_length bu) < 2 ^ 63"
  shows "\<exists>n. update_contiguous_length h b bu = Ok (h\<lparr>h_hints := (h_hints h)\<lparr>hh_contiguous_length := of_nat n\<rparr>\<rparr>)"
proof -
  let ?e = "bu_start bu + bu_length bu" and ?c = "hh_contiguous_length (h_hints h)"
  have set: "(if c' \<noteq> ?c then h\<lparr>h_hints := (h_hints h)\<lparr>hh_contiguous_length := c'\<rparr>\<rparr> else h) =
      h\<lparr>h_hints := (h_hints h)\<lparr>hh_contiguous_length := of_nat (unat c')\<rparr>\<rparr>" for c'
    by simp
  obtain c' where "(if bu_drop bu then Ok (if ?c \<le> ?e \<and> ?c > bu_start bu then bu_start bu else ?c)
      else if ?c \<le> ?e \<and> ?c \<ge> bu_start bu then contiguous_loop (contiguous_fuel b) b ?e else Ok ?c) = Ok c'"
  proof (cases "\<not> bu_drop bu \<and> ?c \<le> ?e \<and> ?c \<ge> bu_start bu")
    case True
    have "dyn_top b - unat ?e < contiguous_fuel b" by (simp add: contiguous_fuel_def dyn_top_def)
    from contiguous_loop_spec [OF b this e] True that show thesis by auto
  next
    case False
    with that show thesis by (cases "bu_drop bu") auto
  qed
  then have "update_contiguous_length h b bu = Ok (h\<lparr>h_hints := (h_hints h)\<lparr>hh_contiguous_length := of_nat (unat c')\<rparr>\<rparr>)"
    unfolding update_contiguous_length_def Let_def set [symmetric] by (simp only: bindR.simps)
  then show ?thesis by blast
qed

text \<open>The header, the tree and the bitfield in the course of a replay.\<close>

definition replayed ::
  "'it libs \<Rightarrow> wire_format \<Rightarrow> bytes \<Rightarrow> partial_keypair \<Rightarrow> bytes \<Rightarrow> fixed_bitfield list \<Rightarrow> bytes list \<Rightarrow> nat set \<Rightarrow>
    header \<times> merkle_tree \<times> dynamic_bitfield \<Rightarrow> bool" where
  "replayed L w sk kp f ps bs have acc \<longleftrightarrow>
     (case acc of (h, t, b) \<Rightarrow> tree_held L w bs t f \<and> mt_fork t = 0 \<and>
        mt_signature t = (if bs = [] then None else Some (tree_signature L w sk bs)) \<and>
        bitfield_is b have \<and> bits_stored b ps (length bs) \<and>
        (\<exists>n. h = header_of L w sk kp bs n \<and> (have = {..<length bs} \<longrightarrow> n = length bs)))"

lemma contiguous_full: "contiguous_at {..<m} n \<longleftrightarrow> n = m"
  by (auto simp: contiguous_at_def)

context device_laws
begin

lemma replay_append:
  assumes acc: "replayed L w sk kp (stored content s Tree) ps bs have acc"
    and cs: "cs \<noteq> []" "core_small (bs @ cs)" "nonblank L w (bs @ cs)" and "have": "have \<subseteq> {..<length bs}"
  shows "\<exists>acc'. replay_entry L ra s (append_entry L w sk bs cs) acc = Ok acc' \<and>
    replayed L w sk kp (stored content s Tree) ps (bs @ cs) (have \<union> {length bs..<length (bs @ cs)}) acc'"
proof -
  let ?bs = "bs @ cs" and ?have = "have \<union> {length bs..<length (bs @ cs)}"
  let ?bu = "\<lparr>bu_drop = False, bu_start = of_nat (length bs), bu_length = of_nat (length cs)\<rparr>"
  obtain h t b where a: "acc = (h, t, b)" by (cases acc)
  obtain n where v: "tree_held L w bs t (stored content s Tree)" "mt_fork t = 0" "bitfield_is b have" "bits_stored b ps (length bs)"
    "h = header_of L w sk kp bs n" "have = {..<length bs} \<longrightarrow> n = length bs"
    using acc by (auto simp: replayed_def a)
  have size: "length bs + length cs \<le> MAX_BLOCKS" using cs(2) by (simp add: core_small_def)
  obtain b' where b': "dyn_set_range b (of_nat (length bs)) (of_nat (length cs)) True = Ok b'" "bitfield_is b' ?have"
    using bitfield_is_set [OF v(3), of "length bs" "length ?bs" True] size by auto
  have st: "bits_stored b' ps (length ?bs)"
    using v(3) size by (intro bits_stored_set_range [OF v(4) _ b'(1)])
      (simp_all add: bitfield_is_def unat_of_nat64 MAX_BLOCKS_def)
  obtain n' where n': "update_contiguous_length h b' ?bu = Ok (header_of L w sk kp bs n')" "?have = {..<length ?bs} \<longrightarrow> n' = length ?bs"
  proof (cases "have = {..<length bs}")
    case True
    then have n: "contiguous_at have (length bs)" "hh_contiguous_length (h_hints h) = of_nat (length bs)"
      using v(5,6) by (simp_all add: contiguous_full header_of_def)
    have full: "?have = {..<length ?bs}" using True by auto
    from update_contiguous_set [OF b'(2) n] size obtain n' where
      "update_contiguous_length h b' ?bu = Ok (h\<lparr>h_hints := (h_hints h)\<lparr>hh_contiguous_length := of_nat n'\<rparr>\<rparr>)" "contiguous_at ?have n'"
      by (auto simp: MAX_BLOCKS_def)
    with full v(5) that [of n'] show thesis by (simp add: contiguous_full header_of_def)
  next
    case False
    have "unat (of_nat (length bs) + of_nat (length cs) :: u64) = length bs + length cs"
      using size unat_of_nat64 [of "length bs + length cs"] by (simp add: MAX_BLOCKS_def)
    then obtain n' where "update_contiguous_length h b' ?bu = Ok (h\<lparr>h_hints := (h_hints h)\<lparr>hh_contiguous_length := of_nat n'\<rparr>\<rparr>)"
      using update_contiguous_any [OF b'(2), of ?bu h] size by (auto simp: MAX_BLOCKS_def)
    moreover have "?have \<noteq> {..<length ?bs}"
    proof
      assume full: "?have = {..<length ?bs}"
      have "k \<in> have" if "k < length bs" for k
      proof -
        have "k \<in> ?have" using that unfolding full by simp
        with that show ?thesis by simp
      qed
      with False "have" show False by auto
    qed
    ultimately show thesis using v(5) that [of n'] by (simp add: header_of_def)
  qed
  let ?h = "(header_of L w sk kp bs n')\<lparr>h_tree := (h_tree (header_of L w sk kp bs n'))\<lparr>ht_root_hash := tree_hash L w ?bs,
    ht_signature := tree_signature L w sk ?bs, ht_length := of_nat (length ?bs)\<rparr>\<rparr>"
  let ?t = "extended_tree L w bs cs 0 (Some (tree_signature L w sk ?bs)) t"
  have up: "replay_upgrade L ra s (upgrade_of L w sk bs cs) (header_of L w sk kp bs n',
      fold (\<lambda>n t. add_node t n) (map (merkle_node L w ?bs) (new_positions (length bs) (length ?bs))) t) = Ok (?h, ?t)"
    using cs(3) size roots_in_tree in_tree_mono [of "length bs" _ "length ?bs"]
    by (intro replay_upgrade_ok [OF held_known [OF v(1)] v(2)]) (auto simp: nonblank_def new_positions_iff)
  have "replay_entry L ra s (append_entry L w sk bs cs) acc = Ok (?h, ?t, b')"
    using up b'(1) n'(1) by (simp add: a replay_entry_def append_entry_fields dyn_update_def)
  moreover have "?h = header_of L w sk kp ?bs n'" using cs(1) by (simp add: header_of_def)
  moreover have "tree_held L w ?bs ?t (stored content s Tree)"
    using held_extend [OF v(1)] size cs(3) by (simp add: nonblank_def)
  ultimately show ?thesis
    using b'(2) st n'(2) cs(1) by (auto simp: replayed_def grown_tree_def)
qed

lemma replay_clear:
  assumes acc: "replayed L w sk kp (stored content s Tree) ps bs have acc"
    and r: "st < e" "e \<le> length bs" and small: "core_small bs"
  shows "\<exists>acc'. replay_entry L ra s (clear_entry st e) acc = Ok acc' \<and>
    replayed L w sk kp (stored content s Tree) ps bs (have - {st..<e}) acc'"
proof -
  obtain h t b where a: "acc = (h, t, b)" by (cases acc)
  obtain n where v: "bitfield_is b have" "bits_stored b ps (length bs)" "h = header_of L w sk kp bs n"
    using acc by (auto simp: replayed_def a)
  have size: "length bs \<le> MAX_BLOCKS" using small by (simp add: core_small_def)
  let ?bu = "\<lparr>bu_drop = True, bu_start = of_nat st, bu_length = of_nat (e - st)\<rparr>"
  obtain b' where b': "dyn_set_range b (of_nat st) (of_nat (e - st)) False = Ok b'" "bitfield_is b' (have - {st..<e})"
    using bitfield_is_set [OF v(1), of st e False] r size by auto
  have stored: "bits_stored b' ps (length bs)"
    using v(1) r size by (intro bits_stored_set_range [OF v(2) _ b'(1)])
      (simp_all add: bitfield_is_def unat_of_nat64 MAX_BLOCKS_def del: of_nat_diff)
  have "unat (of_nat st + of_nat (e - st) :: u64) < 2 ^ 63"
  proof -
    have "of_nat st + of_nat (e - st) = (of_nat e :: u64)" using r by (simp add: of_nat_diff)
    then show ?thesis using r size by (simp add: unat_of_nat64 MAX_BLOCKS_def)
  qed
  then obtain n' where n': "update_contiguous_length h b' ?bu = Ok (h\<lparr>h_hints := (h_hints h)\<lparr>hh_contiguous_length := of_nat n'\<rparr>\<rparr>)"
    using update_contiguous_any [OF b'(2), of ?bu h] by auto
  have "replay_entry L ra s (clear_entry st e) acc = Ok (header_of L w sk kp bs n', t, b')"
    using b'(1) n' v(3) by (simp add: a replay_entry_def clear_entry_def dyn_update_def header_of_def del: of_nat_diff)
  moreover have "have - {st..<e} \<noteq> {..<length bs}" using r by force
  ultimately show ?thesis using acc b'(2) stored by (auto simp: replayed_def a)
qed

lemma replay_path:
  assumes "log_path L w sk bs0 have0 es bs have" "core_small bs" "nonblank L w bs" "have0 \<subseteq> {..<length bs0}"
    and "replayed L w sk kp (stored content s Tree) ps bs0 have0 acc"
  shows "\<exists>acc'. replay_entries L ra s es acc = Ok acc' \<and> replayed L w sk kp (stored content s Tree) ps bs have acc'"
  using assms
proof (induction rule: log_path.induct)
  case start
  then show ?case by simp
next
  case (append es bs "have" cs)
  then obtain acc1 where 1: "replay_entries L ra s es acc = Ok acc1" "replayed L w sk kp (stored content s Tree) ps bs have acc1"
    using core_small_prefix nonblank_prefix by blast
  have "have \<subseteq> {..<length bs}" using log_path_range append.hyps(1) append.prems(3) by blast
  from replay_append [OF 1(2) append.hyps(2) append.prems(1,2) this] 1(1) show ?case
    by (auto simp: replay_entries_append)
next
  case (clear es bs "have" st e)
  then obtain acc1 where 1: "replay_entries L ra s es acc = Ok acc1" "replayed L w sk kp (stored content s Tree) ps bs have acc1"
    by blast
  from replay_clear [OF 1(2) clear.hyps(2,3) clear.prems(1)] 1(1) show ?case
    by (auto simp: replay_entries_append)
qed

section \<open>Opening a core\<close>

lemma open_oplog_image:
  assumes "oplog_image L w (stored content s Oplog) bits hb h es"
  shows "open_oplog L ra s kp = Ok
    \<lparr>ooo_oplog = \<lparr>op_header_bits = bits, op_entries_length = 0, op_entries_byte_length = 0\<rparr>,
     ooo_header = h, ooo_infos_to_flush = [], ooo_entries = (if es = [] then None else Some es)\<rparr>"
proof -
  have "length (stored content s Oplog) < MAX_USIZE"
    using small [of "get_random_access s Oplog"] by (simp add: MAX_FILE_def)
  from open_image [OF assms this, of kp] show ?thesis
    by (simp add: open_oplog_def oplog_open_def [of _ _ None] read_info_def read_all)
qed

lemma core_view_nonblank: "core_view L w content sk c bs have \<Longrightarrow> nonblank L w bs"
  by (simp add: core_view_def tree_held_def nonblank_def)

lemma core_reopen_ok:
  assumes inv: "core_inv L w content sk c bs have" and small: "length bs \<le> 8192" and opt: "ho_open opt \<longrightarrow> ho_key_pair opt = None"
  shows "\<exists>c'. core_new L ra generated (hc_storage c) opt = Ok c' \<and> core_view L w content sk c' bs have \<and>
    (have = {..<length bs} \<longrightarrow> core_inv L w content sk c' bs have) \<and>
    hc_storage c' = hc_storage c \<and> hc_key_pair c' = hc_key_pair c \<and> ev_sent (hc_events c') = []"
proof -
  let ?s = "hc_storage c" and ?kp = "hc_key_pair c"
  have view: "core_view L w content sk c bs have" using inv by (simp add: core_inv_def)
  obtain es bs0 have0 n ps where d: "oplog_image L w (stored content ?s Oplog) (op_header_bits (hc_oplog c))
      (get_current_header_bit (hc_oplog c)) (header_of L w sk ?kp bs0 n) es"
    "contiguous_at have0 n" "have0 \<subseteq> {..<length bs0}" "tree_stored L w bs0 (stored content ?s Tree)" "list_all fixed_wf ps"
    "stored content ?s Bitfield = page_file ps" "\<forall>k. page_bits ps k \<longleftrightarrow> k \<in> have0" "log_path L w sk bs0 have0 es bs have"
    "32768 * length ps < length bs0 + 32768"
    using inv unfolding core_inv_def durable_def Let_def by blast
  let ?h0 = "header_of L w sk ?kp bs0 n"
  have bs0: "length bs0 \<le> length bs" "take (length bs0) bs = bs0" using log_path_range [OF d(8,3)] by simp_all
  have bs: "bs = bs0 @ drop (length bs0) bs" using bs0(2) append_take_drop_id [of "length bs0" bs] by simp
  have ok: "core_small bs" "nonblank L w bs" using view core_view_nonblank [OF view] by (simp_all add: core_view_def)
  then have ok0: "core_small bs0" "nonblank L w bs0"
    using core_small_prefix [of bs0 "drop (length bs0) bs"] nonblank_prefix [of L w bs0 "drop (length bs0) bs"] bs by simp_all
  obtain t0 where t0: "open_tree L ra ?s (h_tree ?h0) = Ok t0" "tree_held L w bs0 t0 (stored content ?s Tree)" "mt_fork t0 = 0"
    "mt_signature t0 = (if bs0 = [] then None else Some (tree_signature L w sk bs0))"
    using open_tree_ok [OF d(4) ok0] by blast
  have "have0 \<subseteq> {..<8192}" using d(3) bs0(1) small by force
  then obtain b0 where b0: "open_bitfield ra ?s = Ok b0" "bitfield_is b0 have0" "bits_stored b0 ps (length bs0)"
    using open_bitfield_ok [OF d(6,5) _ d(9,7)] d(9) bs0(1) small by auto
  have "replayed L w sk ?kp (stored content ?s Tree) ps bs0 have0 (?h0, t0, b0)"
    using t0 b0 d(2) contiguous_full unfolding replayed_def by auto
  from replay_path [OF d(8) ok d(3) this] obtain h t b where rep: "replay_entries L ra ?s es (?h0, t0, b0) = Ok (h, t, b)"
    "replayed L w sk ?kp (stored content ?s Tree) ps bs have (h, t, b)" by (metis prod_cases3)
  obtain n' where h: "h = header_of L w sk ?kp bs n'" "have = {..<length bs} \<longrightarrow> n' = length bs"
    using rep(2) by (auto simp: replayed_def)
  let ?o = "\<lparr>op_header_bits = op_header_bits (hc_oplog c), op_entries_length = 0, op_entries_byte_length = 0\<rparr>"
  let ?c = "\<lparr>hc_key_pair = ?kp, hc_storage = ?s, hc_oplog = ?o, hc_tree = t, hc_bitfield = b, hc_skip_flush_count = 0,
    hc_header = h, hc_events = events_new\<rparr>"
  have "core_new L ra generated ?s opt = Ok ?c"
    using opt open_oplog_image [OF d(1)] t0(1) b0(1) rep(1) h(1)
    by (cases "es = []") (auto simp: core_new_def header_of_def split: option.splits)
  moreover have v: "core_view L w content sk ?c bs have"
    using view rep(2) h(1) d(6) by (auto simp: core_view_def replayed_def)
  moreover have "core_inv L w content sk ?c bs have" if "have = {..<length bs}"
  proof -
    have "durable L w content sk ?c bs have"
      unfolding durable_def Let_def using d
      by (intro exI [of _ es] exI [of _ bs0] exI [of _ have0] exI [of _ n] exI [of _ ps])
        (simp add: get_current_header_bit_def)
    moreover have "hint_ok ?c have" using h that by (auto simp: hint_ok_def contiguous_full header_of_def)
    ultimately show ?thesis using v by (simp add: core_inv_def MAX_OPLOG_ENTRIES_BYTE_SIZE_def)
  qed
  ultimately show ?thesis by (intro exI [of _ ?c]) (simp add: events_new_def)
qed

text \<open>A core on empty stores.\<close>

lemma header_new_of: "header_new kp = header_of L w sk kp [] 0"
  by (simp add: header_new_def header_of_def header_tree_new_def Let_def)

lemma core_fresh_ok:
  assumes empty: "\<forall>st. stored content s st = []" and opt: "\<not> ho_open opt"
    and kp: "kp = (case ho_key_pair opt of Some kp \<Rightarrow> kp
      | None \<Rightarrow> \<lparr>kp_public = cr_verifying_key (lib_cr L) generated, kp_secret = Some generated\<rparr>)" "author_keys L sk kp"
  shows "\<exists>c. core_new L ra generated s opt = Ok c \<and> core_inv L w content sk c [] {} \<and> hc_key_pair c = kp \<and> ev_sent (hc_events c) = [] \<and>
    (\<forall>st. st \<noteq> Oplog \<longrightarrow> stored content (hc_storage c) st = [])"
proof -
  have ok: "key_pair_ok L kp" using author_key_pair [OF kp(2)] .
  note fits = header_new_fits [OF ok]
  note fresh = fresh_eq [OF ok fits]
  let ?o = "\<lparr>op_header_bits = (False, False), op_entries_length = 0, op_entries_byte_length = 0\<rparr>"
  let ?h = "header_of L w sk kp [] 0"
  let ?infos = "[si_new_content Oplog 0 (framed L w False False (wire_header w (header_new kp))), si_new_truncate Oplog 8192]"
  have "\<forall>info\<in>set ?infos. flushable Oplog info"
    using fits by (simp add: length_framed header_fits_def HEADER_SIZE_def MAX_FILE_def)
  from flush_ok [OF this, of s] obtain s1 where s1: "flush_infos ra s ?infos = Ok s1"
    "\<forall>st. st \<noteq> Oplog \<longrightarrow> stored content s1 st = []" using empty by auto
  have inv: "oplog_inv L w content s1 ?o ?h []"
  proof -
    have "stored content s Oplog = []" using empty by blast
    from inv_fresh [OF this ok fits fresh] s1(1) show ?thesis unfolding header_new_of [of kp sk] by simp
  qed
  have leader: "validate_leader L p [] = Ok None" for p using validate_leader_end [of "[]" p] by simp
  have open_log: "open_oplog L ra s (Some kp) = Ok
    \<lparr>ooo_oplog = ?o, ooo_header = ?h, ooo_infos_to_flush = ?infos, ooo_entries = None\<rparr>"
    using fresh empty leader header_new_of
    by (simp add: open_oplog_def oplog_open_def read_info_def read_all open_entries_def si_new_content_def)
  have tree: "tree_stored L w [] (stored content s1 Tree)" "core_small []" "nonblank L w []"
    by (simp_all add: tree_stored_def core_small_def nonblank_def in_tree_def byte_size_def)
  from open_tree_ok [OF this, of sk kp 0] obtain t where t: "open_tree L ra s1 (h_tree ?h) = Ok t"
    "tree_held L w [] t (stored content s1 Tree)" "mt_fork t = 0" "mt_signature t = None" by auto
  have "stored content s1 Bitfield = page_file []" using s1(2) by (simp add: page_file_def)
  from open_bitfield_ok [OF this, of 0 "{}"] obtain b where b: "open_bitfield ra s1 = Ok b" "bitfield_is b {}" "bits_stored b [] 0"
    by (auto simp: page_bits_def page_file_def)
  let ?c = "\<lparr>hc_key_pair = kp, hc_storage = s1, hc_oplog = ?o, hc_tree = t, hc_bitfield = b, hc_skip_flush_count = 0,
    hc_header = ?h, hc_events = events_new\<rparr>"
  have "core_new L ra generated s opt = Ok ?c"
    using opt kp(1) open_log s1(1) t(1) b(1) by (simp add: core_new_def header_of_def)
  moreover have "core_view L w content sk ?c [] {}"
    using tree(2) kp(2) t b s1(2) by (auto simp: core_view_def blocks_held_def page_file_def)
  moreover have "durable L w content sk ?c [] {}"
    unfolding durable_def Let_def using inv tree(1) s1(2) log_path.start [of L w sk "[]" "{}"]
    by (intro exI [of _ "[]"] exI [of _ "{}"] exI [of _ 0]) (simp add: oplog_inv_def contiguous_at_def page_bits_def page_file_def)
  moreover have "hint_ok ?c {}" by (auto simp: hint_ok_def contiguous_at_def header_of_def)
  ultimately show ?thesis
    using s1(2) by (intro exI [of _ ?c]) (simp add: core_inv_def MAX_OPLOG_ENTRIES_BYTE_SIZE_def events_new_def)
qed

end

end
