(* ===== verification/Tree_Binding.thy ===== *)
theory Tree_Binding
  imports Core_Reopen
begin

text \<open>
  What the hash of the roots, which the author signs, binds: two logs with the same hash are the
  same, or among the inputs that were hashed for the one and for the other there are two that
  collide.
\<close>

section \<open>The inputs of the hash function\<close>

fun node_input :: "crypto \<Rightarrow> wire_format \<Rightarrow> bytes list \<Rightarrow> nat \<Rightarrow> nat \<Rightarrow> bytes" where
  "node_input cr w bs 0 off = leaf_input w (bs ! off)"
| "node_input cr w bs (Suc d) off =
     parent_input w (of_nat (subtree_size bs (Suc d) off)) (merkle_hash cr w bs d (2 * off)) (merkle_hash cr w bs d (2 * off + 1))"

definition tree_inputs :: "'it libs \<Rightarrow> wire_format \<Rightarrow> bytes list \<Rightarrow> bytes set" where
  "tree_inputs L w bs = insert (root_input w (merkle_roots L w bs))
     {node_input (lib_cr L) w bs d off | d off. in_tree (length bs) (d, off)}"

definition collide :: "'it libs \<Rightarrow> bytes set \<Rightarrow> bytes set \<Rightarrow> bool" where
  "collide L X Y \<longleftrightarrow> (\<exists>x\<in>X. \<exists>y\<in>Y. x \<noteq> y \<and> cr_blake2b (lib_cr L) x = cr_blake2b (lib_cr L) y)"

lemma merkle_hash_input: "merkle_hash cr w bs d off = cr_blake2b cr (node_input cr w bs d off)"
  by (cases d) simp_all

lemma in_tree_children: "in_tree n (Suc d, off) \<Longrightarrow> in_tree n (d, 2 * off) \<and> in_tree n (d, 2 * off + 1)"
proof -
  assume "in_tree n (Suc d, off)"
  then have "(2 * off + 2) * 2 ^ d \<le> n" by (simp add: in_tree_def algebra_simps)
  moreover have "(2 * off + 1) * 2 ^ d \<le> (2 * off + 2) * (2 :: nat) ^ d" by (intro mult_le_mono1) simp
  ultimately show ?thesis by (simp add: in_tree_def)
qed

lemma fchain_end: "fchain m n ps \<Longrightarrow> fchain m n' ps \<Longrightarrow> n = n'"
  by (induction m n ps rule: fchain.induct) auto

lemma fchain_covers: "fchain m n ps \<Longrightarrow> m \<le> i \<Longrightarrow> i < n \<Longrightarrow> \<exists>(d, off)\<in>set ps. off * 2 ^ d \<le> i \<and> i < (off + 1) * 2 ^ d"
proof (induction m n ps rule: fchain.induct)
  case (2 m n d off ps)
  then show ?case by (cases "i < (off + 1) * 2 ^ d") auto
qed simp

context libs_laws
begin

text \<open>Equal hashes of a subtree of both logs mean equal blocks below it.\<close>

lemma subtree_binding:
  assumes "merkle_hash (lib_cr L) w bs d off = merkle_hash (lib_cr L) w cs d off"
    and "in_tree (length bs) (d, off)" "in_tree (length cs) (d, off)" "\<not> collide L (tree_inputs L w bs) (tree_inputs L w cs)"
  shows "\<forall>i. off * 2 ^ d \<le> i \<and> i < (off + 1) * 2 ^ d \<longrightarrow> bs ! i = cs ! i"
  using assms(1-3)
proof (induction d arbitrary: off)
  case (0 off)
  have "leaf_input w (bs ! off) = leaf_input w (cs ! off)"
  proof (rule ccontr)
    assume ne: "leaf_input w (bs ! off) \<noteq> leaf_input w (cs ! off)"
    have "leaf_input w (bs ! off) = node_input (lib_cr L) w bs 0 off" "leaf_input w (cs ! off) = node_input (lib_cr L) w cs 0 off" by simp_all
    then have "leaf_input w (bs ! off) \<in> tree_inputs L w bs" "leaf_input w (cs ! off) \<in> tree_inputs L w cs"
      using 0(2,3) unfolding tree_inputs_def by blast+
    with ne 0(1) assms(4) show False by (auto simp: collide_def)
  qed
  then have "bs ! off = cs ! off" by (rule leaf_input_inject)
  then show ?case by (auto simp: le_less_Suc_eq)
next
  case (Suc d off)
  note ch = in_tree_children [OF Suc.prems(2)] in_tree_children [OF Suc.prems(3)]
  let ?x = "node_input (lib_cr L) w bs (Suc d) off" and ?y = "node_input (lib_cr L) w cs (Suc d) off"
  have "?x = ?y"
  proof (rule ccontr)
    assume ne: "?x \<noteq> ?y"
    have "?x \<in> tree_inputs L w bs" "?y \<in> tree_inputs L w cs" using Suc.prems(2,3) unfolding tree_inputs_def by blast+
    moreover have "cr_blake2b (lib_cr L) ?x = cr_blake2b (lib_cr L) ?y" using Suc.prems(1) unfolding merkle_hash_input .
    ultimately show False using ne assms(4) by (auto simp: collide_def)
  qed
  then have "merkle_hash (lib_cr L) w bs d (2 * off) = merkle_hash (lib_cr L) w cs d (2 * off)"
    "merkle_hash (lib_cr L) w bs d (2 * off + 1) = merkle_hash (lib_cr L) w cs d (2 * off + 1)"
    using parent_input_inject [OF _ trans [OF length_merkle_hash length_merkle_hash [symmetric]]] unfolding node_input.simps by blast+
  then have l: "\<forall>i. 2 * off * 2 ^ d \<le> i \<and> i < (2 * off + 1) * 2 ^ d \<longrightarrow> bs ! i = cs ! i"
    and r: "\<forall>i. (2 * off + 1) * 2 ^ d \<le> i \<and> i < (2 * off + 1 + 1) * 2 ^ d \<longrightarrow> bs ! i = cs ! i"
    using Suc.IH ch by blast+
  show ?case
  proof (intro allI impI)
    fix i assume i: "off * 2 ^ Suc d \<le> i \<and> i < (off + 1) * 2 ^ Suc d"
    show "bs ! i = cs ! i"
    proof (cases "i < (2 * off + 1) * 2 ^ d")
      case True
      with i l show ?thesis by (simp add: algebra_simps)
    next
      case False
      with i r show ?thesis by (simp add: algebra_simps)
    qed
  qed
qed

lemma tree_binding:
  assumes small: "length bs \<le> MAX_BLOCKS" "length cs \<le> MAX_BLOCKS" and hash: "tree_hash L w bs = tree_hash L w cs"
    and safe: "\<not> collide L (tree_inputs L w bs) (tree_inputs L w cs)"
  shows "bs = cs"
proof -
  let ?f = "\<lambda>n :: node. (n_hash n, n_index n, n_length n)"
  have "root_input w (merkle_roots L w bs) = root_input w (merkle_roots L w cs)"
    using hash safe by (auto simp: tree_hash_def tree_inputs_def collide_def)
  moreover have len: "list_all (\<lambda>n. length (n_hash n) = 32) (merkle_roots L w xs)" for xs
    using merkle_node_ok by (auto simp: merkle_roots_def list_all_iff node_ok_def)
  ultimately have roots: "map ?f (merkle_roots L w bs) = map ?f (merkle_roots L w cs)"
    using root_input_inject by blast
  have index: "n_index (merkle_node L w xs p) = pos_index p" for xs p by (cases p) (simp add: pos_index_def)
  have "map (\<lambda>p. unat (pos_index p)) (root_positions (length bs)) = map (\<lambda>p. unat (pos_index p)) (root_positions (length cs))"
  proof -
    have "map (fst \<circ> snd) (map ?f (merkle_roots L w bs)) = map (fst \<circ> snd) (map ?f (merkle_roots L w cs))"
      using roots by simp
    then have "map pos_index (root_positions (length bs)) = map pos_index (root_positions (length cs))"
      by (simp add: merkle_roots_def comp_def index)
    then have "map unat (map pos_index (root_positions (length bs))) = map unat (map pos_index (root_positions (length cs)))" by simp
    then show ?thesis by (simp add: comp_def)
  qed
  moreover have "unat (pos_index p) = tree_index (fst p) (snd p)" if "p \<in> set (root_positions n)" "n \<le> MAX_BLOCKS" for p n
    using pos_index_nat(1) [OF roots_in_tree [OF that(1)] that(2)] .
  ultimately have "map (\<lambda>p. tree_index (fst p) (snd p)) (root_positions (length bs)) =
      map (\<lambda>p. tree_index (fst p) (snd p)) (root_positions (length cs))"
    using small by (simp cong: map_cong)
  then have ps: "root_positions (length bs) = root_positions (length cs)"
    by (rule map_injective) (auto simp: inj_def tree_index_inj prod_eq_iff)
  have n: "length bs = length cs"
    using fchain_end [OF fchain_roots [of "length bs"]] fchain_roots [of "length cs"] unfolding ps by blast
  show ?thesis
  proof (rule nth_equalityI [OF n])
    fix i assume i: "i < length bs"
    then obtain d off where p: "(d, off) \<in> set (root_positions (length bs))" "off * 2 ^ d \<le> i" "i < (off + 1) * 2 ^ d"
      using fchain_covers [OF fchain_roots [of "length bs"], of i] by blast
    have "map (n_hash \<circ> merkle_node L w bs) (root_positions (length bs)) = map (n_hash \<circ> merkle_node L w cs) (root_positions (length bs))"
    proof -
      have "map fst (map ?f (merkle_roots L w bs)) = map fst (map ?f (merkle_roots L w cs))" using roots by simp
      then show ?thesis by (simp add: merkle_roots_def comp_def ps)
    qed
    then have "merkle_hash (lib_cr L) w bs d off = merkle_hash (lib_cr L) w cs d off"
      using p(1) by (auto simp: map_eq_conv)
    from subtree_binding [OF this _ _ safe] p roots_in_tree [OF p(1)] n show "bs ! i = cs ! i" by auto
  qed
qed

end

end
