(* ===== verification/Proof_Soundness.thy ===== *)
theory Proof_Soundness
  imports Tree_Binding Merkle_Proof
begin

text \<open>
  What an accepted proof says, and which proofs are accepted.  A proof for a block is a path of
  siblings from the leaf up to a node that is known; accepting it fixes the block and every node of
  the path, or there is a collision between an input that the check hashed and one of the tree of
  the author.
\<close>

section \<open>Paths\<close>

text \<open>What hashing a node with a sibling takes in.\<close>

definition pair_input :: "wire_format \<Rightarrow> node \<Rightarrow> node \<Rightarrow> bytes" where
  "pair_input w a b =
     (if n_index a \<le> n_index b then parent_input w (n_length a + n_length b) (n_hash a) (n_hash b)
      else parent_input w (n_length b + n_length a) (n_hash b) (n_hash a))"

text \<open>The inputs of a path: a node, then siblings and parents in turn.\<close>

fun path_inputs :: "wire_format \<Rightarrow> node \<Rightarrow> node list \<Rightarrow> bytes list" where
  "path_inputs w cur (n # p # ns) = pair_input w cur n # path_inputs w p ns"
| "path_inputs w cur _ = []"

text \<open>The path of block \<open>i\<close> through the reference tree, from depth \<open>d\<close> on \<open>k\<close> steps up: the siblings,
  and the siblings with the parents.\<close>

definition sibling_positions :: "nat \<Rightarrow> nat \<Rightarrow> nat \<Rightarrow> (nat \<times> nat) list" where
  "sibling_positions i d k = map (\<lambda>j. (j, sibling_offset (i div 2 ^ j))) [d ..< d + k]"

fun path_positions :: "nat \<Rightarrow> nat \<Rightarrow> nat \<Rightarrow> (nat \<times> nat) list" where
  "path_positions i d 0 = []"
| "path_positions i d (Suc k) = (d, sibling_offset (i div 2 ^ d)) # (Suc d, i div 2 ^ Suc d) # path_positions i (Suc d) k"

text \<open>A tree whose answers are nodes of the log \<open>bs\<close>; a replica need not have all of them.\<close>

definition genuine_nodes :: "'it libs \<Rightarrow> wire_format \<Rightarrow> bytes list \<Rightarrow> merkle_tree \<Rightarrow> node_infos \<Rightarrow> bool" where
  "genuine_nodes L w bs t nodes \<longleftrightarrow> (\<forall>index n. required_node t index nodes = Ok (Inr n) \<longrightarrow>
     (\<exists>p. in_tree (length bs) p \<and> index = pos_index p \<and> n = merkle_node L w bs p))"

lemma sibling_lt: "off < 2 * m \<Longrightarrow> sibling_offset off < 2 * m"
  by (auto simp: sibling_offset_def elim!: oddE evenE)

lemma index_pos_ok:
  assumes "i < 2 ^ 63" "d \<le> 62"
  shows "pos_ok d (i div 2 ^ d)" "pos_ok d (sibling_offset (i div 2 ^ d))"
proof -
  obtain k where k: "63 = Suc k + d" using assms(2) by (metis Suc_le_mono add.commute le_Suc_ex eval_nat_numeral(3) add_Suc)
  have pow: "(2 :: nat) ^ Suc k * 2 ^ d = 2 ^ 63" unfolding k power_add ..
  have lt: "i div 2 ^ d < 2 ^ Suc k" using assms(1) pow by (metis less_mult_imp_div_less)
  moreover have "sibling_offset (i div 2 ^ d) < 2 ^ Suc k" using sibling_lt [of "i div 2 ^ d" "2 ^ k"] lt by simp
  moreover have "pos_ok d off" if "off < 2 ^ Suc k" for off
  proof -
    have "(off + 1) * 2 ^ d \<le> 2 ^ Suc k * 2 ^ d" using that by (intro mult_le_mono1) simp
    then show ?thesis using assms(2) unfolding pow pos_ok_def by simp
  qed
  ultimately show "pos_ok d (i div 2 ^ d)" "pos_ok d (sibling_offset (i div 2 ^ d))" by blast+
qed

lemma block_pos_ok:
  assumes "i < 2 ^ 62" "d \<le> 62"
  shows "pos_ok d (i div 2 ^ d)" "pos_ok d (sibling_offset (i div 2 ^ d))"
  using index_pos_ok [of i d] assms by simp_all

lemma div_pow_Suc: "(i :: nat) div 2 ^ d div 2 = i div 2 ^ Suc d"
  by (simp only: power_Suc2 div_mult2_eq)

lemma sibling_parent: "sibling_offset off div 2 = off div 2"
  by (auto simp: sibling_offset_def elim!: oddE evenE)

text \<open>The two children of a position, with a node and its sibling in either order.\<close>

lemma sibling_cases:
  obtains "off = 2 * (off div 2)" "sibling_offset off = 2 * (off div 2) + 1"
  | "off = 2 * (off div 2) + 1" "sibling_offset off = 2 * (off div 2)"
  by (cases "even off") (auto simp: sibling_offset_def elim!: oddE evenE)

lemma in_tree_path:
  assumes "in_tree n (d + k, i div 2 ^ (d + k))"
  shows "in_tree n (d, i div 2 ^ d)"
proof -
  have "i div 2 ^ d div 2 ^ k = i div 2 ^ (d + k)" by (simp only: power_add div_mult2_eq)
  then have "i div 2 ^ d < (i div 2 ^ (d + k) + 1) * 2 ^ k"
    using dividend_less_div_times [of "2 ^ k" "i div 2 ^ d"] by simp
  then have "(i div 2 ^ d + 1) * 2 ^ d \<le> (i div 2 ^ (d + k) + 1) * 2 ^ k * 2 ^ d" by (intro mult_le_mono1) simp
  also have "\<dots> = (i div 2 ^ (d + k) + 1) * 2 ^ (d + k)" by (simp only: power_add ac_simps)
  finally show ?thesis using assms by (simp add: in_tree_def)
qed

lemma subtree_size_leaf: "i < length bs \<Longrightarrow> subtree_size bs 0 i = length (bs ! i)"
  by (simp add: subtree_size_def slice_def take_Suc_conv_app_nth hd_drop_conv_nth take_Suc)

lemma drop_Cons_iff: "drop k xs = y # ys \<longleftrightarrow> k < length xs \<and> xs ! k = y \<and> drop (Suc k) xs = ys"
proof (cases "k < length xs")
  case True
  then show ?thesis using Cons_nth_drop_Suc [OF True] by (metis list.inject)
qed simp

lemma collide_mono: "collide L X Y \<Longrightarrow> X \<subseteq> X' \<Longrightarrow> collide L X' Y"
  by (auto simp: collide_def)

context libs_laws
begin

lemma parent_node_eq:
  "parent_node L index a b =
    Ok (node_new (lib_ft L) index (cr_blake2b (lib_cr L) (pair_input w a b)) (n_length a + n_length b))"
  by (simp add: parent_node_def hash_parent_eq pair_input_def add.commute)

lemma block_node_eq:
  "block_node L index val =
    Ok (node_new (lib_ft L) index (cr_blake2b (lib_cr L) (leaf_input w val)) (of_nat (length val)))"
  by (simp add: block_node_def hash_data_eq)

lemma pos_order:
  assumes "pos_ok d (2 * off)" "pos_ok d (2 * off + 1)"
  shows "pos_index (d, 2 * off) < pos_index (d, 2 * off + 1)"
  using pos_index_unat [OF assms(1)] pos_index_unat [OF assms(2)] tree_index_bound [of d "2 * off"] tree_index_ge [of "2 * off + 1" d]
  by (simp add: word_less_nat_alt)

text \<open>A pair of nodes at sibling positions that hashes to the node above them are the nodes of the
  tree there; their lengths add up to its length.\<close>

lemma pair_binding:
  assumes at: "n_index a = pos_index (d, off)" "n_index b = pos_index (d, sibling_offset off)"
    and ok: "pos_ok d off" "pos_ok d (sibling_offset off)"
    and len: "length (n_hash a) = 32" "length (n_hash b) = 32"
    and hash: "pair_input w a b = node_input (lib_cr L) w bs (Suc d) (off div 2)"
  shows "n_hash a = merkle_hash (lib_cr L) w bs d off" "n_hash b = merkle_hash (lib_cr L) w bs d (sibling_offset off)"
    "n_length a + n_length b = of_nat (subtree_size bs (Suc d) (off div 2))"
proof -
  have "n_hash a = merkle_hash (lib_cr L) w bs d off \<and> n_hash b = merkle_hash (lib_cr L) w bs d (sibling_offset off) \<and>
    n_length a + n_length b = of_nat (subtree_size bs (Suc d) (off div 2))"
  proof (cases rule: sibling_cases [of off])
    case 1
    have "n_index a \<le> n_index b" using pos_order [of d "off div 2"] at ok 1 by simp
    then have "parent_input w (n_length a + n_length b) (n_hash a) (n_hash b) =
        parent_input w (of_nat (subtree_size bs (Suc d) (off div 2)))
          (merkle_hash (lib_cr L) w bs d (2 * (off div 2))) (merkle_hash (lib_cr L) w bs d (2 * (off div 2) + 1))"
      using hash by (simp add: pair_input_def)
    from parent_input_inject [OF this] len(1) length_merkle_hash 1 show ?thesis by simp
  next
    case 2
    have "\<not> n_index a \<le> n_index b" using pos_order [of d "off div 2"] at ok 2 by simp
    then have "parent_input w (n_length b + n_length a) (n_hash b) (n_hash a) =
        parent_input w (of_nat (subtree_size bs (Suc d) (off div 2)))
          (merkle_hash (lib_cr L) w bs d (2 * (off div 2))) (merkle_hash (lib_cr L) w bs d (2 * (off div 2) + 1))"
      using hash by (simp add: pair_input_def)
    from parent_input_inject [OF this] len(2) length_merkle_hash 2 show ?thesis by (simp add: add.commute)
  qed
  then show "n_hash a = merkle_hash (lib_cr L) w bs d off" "n_hash b = merkle_hash (lib_cr L) w bs d (sibling_offset off)"
    "n_length a + n_length b = of_nat (subtree_size bs (Suc d) (off div 2))" by simp_all
qed

lemma pair_genuine:
  assumes "pos_ok d off" "pos_ok d (sibling_offset off)"
  shows "pair_input w (merkle_node L w bs (d, off)) (merkle_node L w bs (d, sibling_offset off)) =
      node_input (lib_cr L) w bs (Suc d) (off div 2)"
    "n_length (merkle_node L w bs (d, off)) + n_length (merkle_node L w bs (d, sibling_offset off)) =
      of_nat (subtree_size bs (Suc d) (off div 2))"
proof -
  have size: "subtree_size bs (Suc d) (off div 2) = subtree_size bs d off + subtree_size bs d (sibling_offset off)"
    using subtree_size_Suc [of bs d "off div 2"] by (cases rule: sibling_cases [of off]) simp_all
  then show "n_length (merkle_node L w bs (d, off)) + n_length (merkle_node L w bs (d, sibling_offset off)) =
      of_nat (subtree_size bs (Suc d) (off div 2))" by simp
  show "pair_input w (merkle_node L w bs (d, off)) (merkle_node L w bs (d, sibling_offset off)) =
      node_input (lib_cr L) w bs (Suc d) (off div 2)"
    using pos_order [of d "off div 2"] assms size
    by (cases rule: sibling_cases [of off]) (auto simp: pair_input_def pos_index_def add.commute)
qed

section \<open>Accepted paths\<close>

lemma merkle_nodeI:
  assumes "node_ok L n" "n_index n = pos_index (d, off)" "n_hash n = merkle_hash (lib_cr L) w bs d off"
    "n_length n = of_nat (subtree_size bs d off)"
  shows "n = merkle_node L w bs (d, off)"
  using assms by (simp add: node_ok_def merkle_node_def pos_index_def)

lemma collide_input:
  assumes "x \<in> X" "in_tree (length bs) (d, off)" "cr_blake2b (lib_cr L) x = merkle_hash (lib_cr L) w bs d off"
    "\<not> collide L X (tree_inputs L w bs)"
  shows "x = node_input (lib_cr L) w bs d off"
proof (rule ccontr)
  assume "x \<noteq> node_input (lib_cr L) w bs d off"
  moreover have "node_input (lib_cr L) w bs d off \<in> tree_inputs L w bs" using assms(2) unfolding tree_inputs_def by blast
  ultimately show False using assms unfolding merkle_hash_input collide_def by blast
qed

lemma shift_node:
  assumes "shift q index = Ok (n, q')"
  shows "n_index n = index" "n \<in> set (nq_nodes q) \<union> set_option (nq_extra q)" "nq_nodes q' = nq_nodes q"
    "set_option (nq_extra q') \<subseteq> set_option (nq_extra q)"
  using assms by (auto simp: shift_def Let_def split: option.splits if_splits)

text \<open>One step of a path: when the parent's hash is the one of the tree, the node and its sibling are
  the ones of the tree.\<close>

lemma path_step:
  assumes at: "n_index cur = pos_index (d, off)" "n_index n = pos_index (d, sibling_offset off)"
    and ok: "pos_ok d off" "pos_ok d (sibling_offset off)" and nodes: "length (n_hash cur) = 32" "node_ok L n"
    and p: "p = node_new (lib_ft L) (pos_index (Suc d, off div 2)) (cr_blake2b (lib_cr L) (pair_input w cur n)) (n_length cur + n_length n)"
    and top: "in_tree (length bs) (Suc d, off div 2)" "n_hash p = merkle_hash (lib_cr L) w bs (Suc d) (off div 2)"
    and no: "pair_input w cur n \<in> X" "\<not> collide L X (tree_inputs L w bs)"
  shows "n_hash cur = merkle_hash (lib_cr L) w bs d off"
    "n_length cur = of_nat (subtree_size bs d off) \<Longrightarrow>
      n = merkle_node L w bs (d, sibling_offset off) \<and> p = merkle_node L w bs (Suc d, off div 2)"
proof -
  have "pair_input w cur n = node_input (lib_cr L) w bs (Suc d) (off div 2)"
    using collide_input [OF no(1) top(1) _ no(2)] top(2) by (simp add: p node_new_def)
  note b = pair_binding [OF at ok nodes(1) _ this]
  have n32: "length (n_hash n) = 32" using nodes(2) by (simp add: node_ok_def)
  show "n_hash cur = merkle_hash (lib_cr L) w bs d off" by (rule b(1) [OF n32])
  assume len: "n_length cur = of_nat (subtree_size bs d off)"
  have "n_length cur + n_length n = n_length cur + of_nat (subtree_size bs d (sibling_offset off))"
    using b(3) [OF n32] pair_genuine(2) [OF ok, of bs] len by simp
  from merkle_nodeI [OF nodes(2) at(2) b(2) [OF n32] add_left_imp_eq [OF this]]
  have "n = merkle_node L w bs (d, sibling_offset off)" .
  moreover have "p = merkle_node L w bs (Suc d, off div 2)"
    using top(2) b(3) [OF n32] unfolding p merkle_node_def pos_index_def by (simp add: node_new_def)
  ultimately show "n = merkle_node L w bs (d, sibling_offset off) \<and> p = merkle_node L w bs (Suc d, off div 2)" by simp
qed

text \<open>The loop that climbs ends as many levels up as there are nodes in the queue.  When it ends in the
  hash of the tree there, the hash it started with is the one of the tree, and so are the nodes it
  met, if the length it started with is right.\<close>

lemma climb_binding:
  assumes "climb_queue L q it cur ns = Ok (root, ns')" "ft_at (lib_ft L) it d (i div 2 ^ d)"
    and "n_index cur = pos_index (d, i div 2 ^ d)" "length (n_hash cur) = 32"
    and "\<forall>n\<in>set (nq_nodes q) \<union> set_option (nq_extra q). node_ok L n" "i < 2 ^ 63" "d + nq_length q \<le> 62"
  shows "\<exists>rest. ns' = ns @ rest \<and> n_index root = pos_index (d + nq_length q, i div 2 ^ (d + nq_length q)) \<and>
    (in_tree (length bs) (d + nq_length q, i div 2 ^ (d + nq_length q)) \<longrightarrow>
     n_hash root = merkle_hash (lib_cr L) w bs (d + nq_length q) (i div 2 ^ (d + nq_length q)) \<longrightarrow>
     collide L (set (path_inputs w cur rest)) (tree_inputs L w bs) \<or>
     n_hash cur = merkle_hash (lib_cr L) w bs d (i div 2 ^ d) \<and>
     (n_length cur = of_nat (subtree_size bs d (i div 2 ^ d)) \<longrightarrow>
       rest = map (merkle_node L w bs) (path_positions i d (nq_length q))))"
  using assms
proof (induction "nq_length q" arbitrary: q it cur ns d)
  case 0
  then show ?case by (subst (asm) climb_queue.simps) simp
next
  case (Suc k q it cur ns d)
  let ?off = "i div 2 ^ d" and ?it1 = "ft_sibling (lib_ft L) it"
  let ?it2 = "ft_parent (lib_ft L) ?it1"
  have ok: "pos_ok d ?off" "pos_ok d (sibling_offset ?off)" "pos_ok (Suc d) (i div 2 ^ Suc d)"
    using index_pos_ok [OF Suc.prems(6), of d] index_pos_ok(1) [OF Suc.prems(6), of "Suc d"] Suc.prems(7) Suc.hyps(2) by simp_all
  have it1: "ft_at (lib_ft L) ?it1 d (sibling_offset ?off)" using flat.sibling [OF Suc.prems(2) ok(1,2)] .
  have it2: "ft_at (lib_ft L) ?it2 (Suc d) (i div 2 ^ Suc d)"
    using flat.parent [OF it1] ok(3) by (simp only: sibling_parent div_pow_Suc)
  from Suc.prems(1) Suc.hyps(2) obtain n q1 p where s: "shift q (ft_index (lib_ft L) ?it1) = Ok (n, q1)"
    and p: "parent_node L (ft_index (lib_ft L) ?it2) cur n = Ok p" and rec: "climb_queue L q1 ?it2 p (ns @ [n, p]) = Ok (root, ns')"
    by (subst (asm) climb_queue.simps) (auto simp: Let_def bindR_eq_Ok)
  note sn = shift_node [OF s]
  have n: "n_index n = pos_index (d, sibling_offset ?off)" "length (n_hash n) = 32" "node_ok L n"
  proof -
    show "node_ok L n" using sn(2) Suc.prems(5) by blast
    then show "length (n_hash n) = 32" by (simp add: node_ok_def)
    show "n_index n = pos_index (d, sibling_offset ?off)" using sn(1) at_index [OF it1] by simp
  qed
  have p': "p = node_new (lib_ft L) (pos_index (Suc d, i div 2 ^ Suc d)) (cr_blake2b (lib_cr L) (pair_input w cur n)) (n_length cur + n_length n)"
    using p at_index [OF it2] by (simp add: parent_node_eq)
  have k: "k = nq_length q1" "Suc d + nq_length q1 = d + nq_length q" using shift_length [OF s] Suc.hyps(2) by simp_all
  have pk: "n_index p = pos_index (Suc d, i div 2 ^ Suc d)" "length (n_hash p) = 32" by (simp_all add: p' node_new_def crypt.length_blake2b)
  have qk: "\<forall>n\<in>set (nq_nodes q1) \<union> set_option (nq_extra q1). node_ok L n" using Suc.prems(5) sn(3,4) by auto
  have le: "Suc d + nq_length q1 \<le> 62" using k Suc.prems(7) by simp
  obtain rest where rest: "ns' = ns @ [n, p] @ rest" "n_index root = pos_index (d + nq_length q, i div 2 ^ (d + nq_length q))"
    "in_tree (length bs) (d + nq_length q, i div 2 ^ (d + nq_length q)) \<Longrightarrow>
     n_hash root = merkle_hash (lib_cr L) w bs (d + nq_length q) (i div 2 ^ (d + nq_length q)) \<Longrightarrow>
     collide L (set (path_inputs w p rest)) (tree_inputs L w bs) \<or>
     n_hash p = merkle_hash (lib_cr L) w bs (Suc d) (i div 2 ^ Suc d) \<and>
     (n_length p = of_nat (subtree_size bs (Suc d) (i div 2 ^ Suc d)) \<longrightarrow>
       rest = map (merkle_node L w bs) (path_positions i (Suc d) k))"
    using Suc.hyps(1) [OF k(1) rec it2 pk qk Suc.prems(6) le] unfolding k(2) append_assoc k(1) by blast
  have "collide L (set (path_inputs w cur ([n, p] @ rest))) (tree_inputs L w bs) \<or>
     n_hash cur = merkle_hash (lib_cr L) w bs d ?off \<and>
     (n_length cur = of_nat (subtree_size bs d ?off) \<longrightarrow> [n, p] @ rest = map (merkle_node L w bs) (path_positions i d (nq_length q)))"
    if top: "in_tree (length bs) (d + nq_length q, i div 2 ^ (d + nq_length q))"
      "n_hash root = merkle_hash (lib_cr L) w bs (d + nq_length q) (i div 2 ^ (d + nq_length q))"
  proof (rule disj_imp [THEN iffD2, rule_format])
    assume no: "\<not> collide L (set (path_inputs w cur ([n, p] @ rest))) (tree_inputs L w bs)"
    then have "\<not> collide L (set (path_inputs w p rest)) (tree_inputs L w bs)"
      using collide_mono [of L "set (path_inputs w p rest)" "tree_inputs L w bs" "set (path_inputs w cur ([n, p] @ rest))"] by auto
    with rest(3) [OF top] have hp: "n_hash p = merkle_hash (lib_cr L) w bs (Suc d) (i div 2 ^ Suc d)"
      and lp: "n_length p = of_nat (subtree_size bs (Suc d) (i div 2 ^ Suc d)) \<Longrightarrow> rest = map (merkle_node L w bs) (path_positions i (Suc d) k)"
      by blast+
    have tp: "in_tree (length bs) (Suc d, i div 2 ^ Suc d)"
      using in_tree_path [of "length bs" "Suc d" "nq_length q1" i] top(1) unfolding k(2) .
    have "pair_input w cur n \<in> set (path_inputs w cur ([n, p] @ rest))" by simp
    note b = path_step [OF Suc.prems(3) n(1) ok(1,2) Suc.prems(4) n(3) p' [folded div_pow_Suc] tp [folded div_pow_Suc]
        hp [folded div_pow_Suc] this no]
    have "[n, p] @ rest = map (merkle_node L w bs) (path_positions i d (nq_length q))"
      if "n_length cur = of_nat (subtree_size bs d ?off)"
      using b(2) [OF that] lp unfolding Suc.hyps(2) [symmetric] by (simp add: div_pow_Suc [symmetric] del: power_Suc)
    with b(1) show "n_hash cur = merkle_hash (lib_cr L) w bs d ?off \<and>
      (n_length cur = of_nat (subtree_size bs d ?off) \<longrightarrow> [n, p] @ rest = map (merkle_node L w bs) (path_positions i d (nq_length q)))"
      by blast
  qed
  with rest(1,2) show ?case by blast
qed

text \<open>The check of a proof for a block, without upgrade and seek: hash the block, climb, and compare with
  the node that is known there.  The position of the block is half of its index doubled, which wraps.\<close>

lemma verify_block_eq:
  assumes nodes: "infos_to_nodes L infos = Ok nodes" and pf: "pf_block pf = Some b" "pf_seek pf = None" "pf_upgrade pf = None"
    and i: "unat (dblk_index b * 2) = 2 * i"
  defines "n \<equiv> node_new (lib_ft L) (pos_index (0, i)) (cr_blake2b (lib_cr L) (leaf_input w (dblk_value b)))
    (of_nat (length (dblk_value b)))"
  shows "ft_at (lib_ft L) (ft_new (lib_ft L) (dblk_index b * 2)) 0 i"
    "verify_proof L t pf pk infos =
      bindR (climb_queue L (node_queue_new (dblk_nodes b) None) (ft_new (lib_ft L) (dblk_index b * 2)) n [n]) (\<lambda>(root, ns).
      bindR (required_node t (n_index root) nodes) (\<lambda>r.
      case r of
        Inl instr \<Rightarrow> Ok (Inl [instr])
      | Inr v \<Rightarrow> if n_hash v \<noteq> n_hash root then Err InvalidChecksum else Ok (Inr ((mt_changeset t)\<lparr>cg_nodes := ns\<rparr>))))"
proof -
  have ix: "unat (dblk_index b * 2) = tree_index 0 i" using i by simp
  show at: "ft_at (lib_ft L) (ft_new (lib_ft L) (dblk_index b * 2)) 0 i"
    using flat.new [OF ix] i unsigned_less [of "dblk_index b * 2", where ?'a = nat] by (simp add: pos_ok_def)
  have "verify_tree L (pf_block pf) (pf_hash pf) (pf_seek pf) (mt_changeset t) =
      bindR (climb_queue L (node_queue_new (dblk_nodes b) None) (ft_new (lib_ft L) (dblk_index b * 2)) n [n]) (\<lambda>(root, nodes).
      Ok (Some root, (mt_changeset t)\<lparr>cg_nodes := nodes\<rparr>))"
    using at_index [OF at]
    by (simp add: verify_tree_def normalize_data_def pf Let_def block_node_eq n_def mt_changeset_def changeset_new_def)
  then show "verify_proof L t pf pk infos =
      bindR (climb_queue L (node_queue_new (dblk_nodes b) None) (ft_new (lib_ft L) (dblk_index b * 2)) n [n]) (\<lambda>(root, ns).
      bindR (required_node t (n_index root) nodes) (\<lambda>r.
      case r of
        Inl instr \<Rightarrow> Ok (Inl [instr])
      | Inr v \<Rightarrow> if n_hash v \<noteq> n_hash root then Err InvalidChecksum else Ok (Inr ((mt_changeset t)\<lparr>cg_nodes := ns\<rparr>))))"
    using nodes pf(3)
    by (cases "climb_queue L (node_queue_new (dblk_nodes b) None) (ft_new (lib_ft L) (dblk_index b * 2)) n [n]")
      (auto simp: verify_proof_def)
qed

text \<open>A proof for a block, without upgrade and seek, that is accepted by a tree with nodes of the log
  \<open>bs\<close>: the block is the one of the log, and so are all nodes it brings.\<close>

lemma block_proof_binding:
  assumes ok: "verify_proof L t pf pk infos = Ok (Inr cg)" and nodes: "infos_to_nodes L infos = Ok nodes" "genuine_nodes L w bs t nodes"
    and pf: "pf_block pf = Some b" "pf_seek pf = None" "pf_upgrade pf = None"
    and b: "list_all (node_ok L) (dblk_nodes b)" "length (dblk_nodes b) \<le> 62" and bs: "length bs \<le> MAX_BLOCKS"
  defines "i \<equiv> unat (dblk_index b) mod 2 ^ 63"
  shows "\<exists>n rest. cg = (mt_changeset t)\<lparr>cg_nodes := n # rest\<rparr> \<and>
    (collide L (insert (leaf_input w (dblk_value b)) (set (path_inputs w n rest))) (tree_inputs L w bs) \<or>
     i < length bs \<and> dblk_value b = bs ! i \<and> n # rest = map (merkle_node L w bs) ((0, i) # path_positions i 0 (length (dblk_nodes b))))"
proof -
  let ?it = "ft_new (lib_ft L) (dblk_index b * 2)" and ?k = "length (dblk_nodes b)"
  let ?q = "node_queue_new (dblk_nodes b) None"
  define n where "n = node_new (lib_ft L) (pos_index (0, i)) (cr_blake2b (lib_cr L) (leaf_input w (dblk_value b))) (of_nat (length (dblk_value b)))"
  have ix: "unat (dblk_index b * 2) = 2 * i" "i < 2 ^ 63" by (simp_all add: i_def unat_word_ariths mult.commute [of 2] mult_mod_left)
  note eq = verify_block_eq [OF nodes(1) pf ix(1), folded n_def]
  have it: "ft_at (lib_ft L) ?it 0 (i div 2 ^ 0)" using eq(1) by simp
  have q: "nq_length ?q = ?k" "nq_nodes ?q = dblk_nodes b" "nq_extra ?q = None" by (simp_all add: node_queue_new_def)
  obtain root ns v where climb: "climb_queue L ?q ?it n [n] = Ok (root, ns)" and cg: "cg = (mt_changeset t)\<lparr>cg_nodes := ns\<rparr>"
    and v: "required_node t (n_index root) nodes = Ok (Inr v)" "n_hash v = n_hash root"
  proof -
    obtain root ns r where r: "climb_queue L ?q ?it n [n] = Ok (root, ns)" "required_node t (n_index root) nodes = Ok r"
      "(case r of Inl instr \<Rightarrow> Ok (Inl [instr])
        | Inr v \<Rightarrow> if n_hash v \<noteq> n_hash root then Err InvalidChecksum else Ok (Inr ((mt_changeset t)\<lparr>cg_nodes := ns\<rparr>))) = Ok (Inr cg)"
      using ok unfolding eq(2) by (auto simp: bindR_eq_Ok)
    then show thesis using that by (cases r) (auto split: if_splits)
  qed
  have n: "n_index n = pos_index (0, i div 2 ^ 0)" "length (n_hash n) = 32" by (simp_all add: n_def node_new_def crypt.length_blake2b)
  obtain rest where rest: "ns = n # rest" "n_index root = pos_index (?k, i div 2 ^ ?k)"
    "in_tree (length bs) (?k, i div 2 ^ ?k) \<Longrightarrow> n_hash root = merkle_hash (lib_cr L) w bs ?k (i div 2 ^ ?k) \<Longrightarrow>
     collide L (set (path_inputs w n rest)) (tree_inputs L w bs) \<or>
     n_hash n = merkle_hash (lib_cr L) w bs 0 i \<and>
     (n_length n = of_nat (subtree_size bs 0 i) \<longrightarrow> rest = map (merkle_node L w bs) (path_positions i 0 ?k))"
    using climb_binding [OF climb it n, of bs] b q ix(2) by (auto simp: list_all_iff)
  obtain d off where p: "in_tree (length bs) (d, off)" "n_index root = pos_index (d, off)" "v = merkle_node L w bs (d, off)"
    using nodes(2) v(1) unfolding genuine_nodes_def by (metis surj_pair)
  have kp: "pos_ok ?k (i div 2 ^ ?k)" using index_pos_ok(1) [OF ix(2) b(2)] .
  have "tree_index d off = tree_index ?k (i div 2 ^ ?k)"
    using p(2) rest(2) pos_index_unat [OF kp] pos_index_nat(1) [OF p(1) bs] by simp
  then have pos: "d = ?k" "off = i div 2 ^ ?k" by (simp_all add: tree_index_inj)
  have tree: "in_tree (length bs) (0 + ?k, i div 2 ^ (0 + ?k))" using p(1) pos by simp
  have "n_hash root = merkle_hash (lib_cr L) w bs ?k (i div 2 ^ ?k)" using v(2) p(3) pos by simp
  from rest(3) [OF tree [simplified] this] consider "collide L (set (path_inputs w n rest)) (tree_inputs L w bs)"
    | "n_hash n = merkle_hash (lib_cr L) w bs 0 i"
      "n_length n = of_nat (subtree_size bs 0 i) \<longrightarrow> rest = map (merkle_node L w bs) (path_positions i 0 ?k)" by blast
  then have "collide L (insert (leaf_input w (dblk_value b)) (set (path_inputs w n rest))) (tree_inputs L w bs) \<or>
     i < length bs \<and> dblk_value b = bs ! i \<and> n # rest = map (merkle_node L w bs) ((0, i) # path_positions i 0 ?k)"
  proof cases
    case 1
    then show ?thesis using collide_mono [OF 1] by blast
  next
    case 2
    have leaf: "in_tree (length bs) (0, i)" using in_tree_path [OF tree] by simp
    show ?thesis
    proof (rule disj_imp [THEN iffD2, rule_format])
      assume no: "\<not> collide L (insert (leaf_input w (dblk_value b)) (set (path_inputs w n rest))) (tree_inputs L w bs)"
      have "leaf_input w (dblk_value b) = leaf_input w (bs ! i)"
        using collide_input [OF _ leaf _ no, of "leaf_input w (dblk_value b)"] 2(1) by (simp add: n_def node_new_def)
      then have val: "dblk_value b = bs ! i" by (rule leaf_input_inject)
      have i: "i < length bs" using leaf by (simp add: in_tree_def)
      then have len: "n_length n = of_nat (subtree_size bs 0 i)"
        using val by (simp add: n_def node_new_def subtree_size_leaf)
      have "n = merkle_node L w bs (0, i)"
        using 2(1) len unfolding n_def merkle_node_def pos_index_def by (simp add: node_new_def)
      with 2(2) len val i show "i < length bs \<and> dblk_value b = bs ! i \<and>
          n # rest = map (merkle_node L w bs) ((0, i) # path_positions i 0 ?k)" by simp
    qed
  qed
  then show ?thesis unfolding cg rest(1) by (intro exI conjI) (rule refl)
qed

section \<open>Complete paths\<close>

text \<open>With the siblings of the tree in the queue the climb ends in the node of the tree.\<close>

lemma climb_complete:
  assumes "ft_at (lib_ft L) it d (i div 2 ^ d)" "i < 2 ^ 62" "d + k \<le> 62" "nq_length q = k" "nq_extra q = None"
    and "drop (nq_i q) (nq_nodes q) = map (merkle_node L w bs) (sibling_positions i d k)"
  shows "climb_queue L q it (merkle_node L w bs (d, i div 2 ^ d)) ns =
    Ok (merkle_node L w bs (d + k, i div 2 ^ (d + k)), ns @ map (merkle_node L w bs) (path_positions i d k))"
  using assms
proof (induction k arbitrary: d it q ns)
  case 0
  then show ?case by (subst climb_queue.simps) simp
next
  case (Suc k)
  let ?off = "i div 2 ^ d" and ?it1 = "ft_sibling (lib_ft L) it"
  let ?n = "merkle_node L w bs (d, sibling_offset ?off)" and ?it2 = "ft_parent (lib_ft L) ?it1"
  have ok: "pos_ok d ?off" "pos_ok d (sibling_offset ?off)" "pos_ok (Suc d) (i div 2 ^ Suc d)"
    using block_pos_ok [OF Suc.prems(2), of d] block_pos_ok(1) [OF Suc.prems(2), of "Suc d"] Suc.prems(3) by simp_all
  have it1: "ft_at (lib_ft L) ?it1 d (sibling_offset ?off)" using flat.sibling [OF Suc.prems(1) ok(1,2)] .
  have it2: "ft_at (lib_ft L) ?it2 (Suc d) (i div 2 ^ Suc d)"
    using flat.parent [OF it1] ok(3) by (simp only: sibling_parent div_pow_Suc)
  have sib: "sibling_positions i d (Suc k) = (d, sibling_offset ?off) # sibling_positions i (Suc d) k"
    by (simp add: sibling_positions_def upt_conv_Cons del: upt_Suc)
  from Suc.prems(6) have nth: "nq_i q < length (nq_nodes q)" "nq_nodes q ! nq_i q = ?n"
    "drop (Suc (nq_i q)) (nq_nodes q) = map (merkle_node L w bs) (sibling_positions i (Suc d) k)"
    unfolding sib list.map drop_Cons_iff by blast+
  let ?q1 = "q\<lparr>nq_i := nq_i q + 1, nq_length := nq_length q - 1\<rparr>"
  have s: "shift q (ft_index (lib_ft L) ?it1) = Ok (?n, ?q1)"
    using nth at_index [OF it1] Suc.prems(5) by (simp add: shift_def Let_def pos_index_def)
  have p: "parent_node L (ft_index (lib_ft L) ?it2) (merkle_node L w bs (d, ?off)) ?n = Ok (merkle_node L w bs (Suc d, i div 2 ^ Suc d))"
    unfolding parent_node_eq pair_genuine [OF ok(1,2)] merkle_hash_input [symmetric] at_index [OF it2] div_pow_Suc
    by (simp only: merkle_node_def pos_index_def case_prod_conv fst_conv snd_conv)
  have "climb_queue L ?q1 ?it2 (merkle_node L w bs (Suc d, i div 2 ^ Suc d)) (ns @ [?n, merkle_node L w bs (Suc d, i div 2 ^ Suc d)]) =
      Ok (merkle_node L w bs (Suc d + k, i div 2 ^ (Suc d + k)),
        (ns @ [?n, merkle_node L w bs (Suc d, i div 2 ^ Suc d)]) @ map (merkle_node L w bs) (path_positions i (Suc d) k))"
    using Suc.prems nth(3) by (intro Suc.IH [OF it2]) simp_all
  then show ?case
    using s p Suc.prems(4) by (subst climb_queue.simps) (simp add: Let_def del: power_Suc)
qed

text \<open>What a tree makes of block \<open>i\<close> with \<open>k\<close> siblings: it asks for the node \<open>k\<close> levels above the block, and compares.\<close>

lemma block_proof_answer:
  assumes nodes: "infos_to_nodes L infos = Ok nodes" and i: "i < 2 ^ 62" "i < length bs" "k \<le> 62"
    and pf: "pf_block pf = Some \<lparr>dblk_index = of_nat i, dblk_value = bs ! i, dblk_nodes = map (merkle_node L w bs) (sibling_positions i 0 k)\<rparr>"
      "pf_seek pf = None" "pf_upgrade pf = None"
  shows "verify_proof L t pf pk infos =
    bindR (required_node t (pos_index (k, i div 2 ^ k)) nodes) (\<lambda>r.
    case r of
      Inl instr \<Rightarrow> Ok (Inl [instr])
    | Inr v \<Rightarrow> if n_hash v \<noteq> n_hash (merkle_node L w bs (k, i div 2 ^ k)) then Err InvalidChecksum
        else Ok (Inr ((mt_changeset t)\<lparr>cg_nodes := map (merkle_node L w bs) ((0, i) # path_positions i 0 k)\<rparr>)))"
proof -
  have ui: "unat (of_nat i * 2 :: u64) = 2 * i" using i(1) by (simp add: unat_mult_small unat_of_nat64)
  have leaf: "node_new (lib_ft L) (pos_index (0, i)) (cr_blake2b (lib_cr L) (leaf_input w (bs ! i))) (of_nat (length (bs ! i))) =
      merkle_node L w bs (0, i)"
    using i(2) by (simp add: merkle_node_def pos_index_def subtree_size_leaf)
  note eq = verify_block_eq [OF nodes pf, unfolded data_block.select_convs, OF ui, unfolded leaf]
  have at: "ft_at (lib_ft L) (ft_new (lib_ft L) (of_nat i * 2)) 0 (i div 2 ^ 0)" using eq(1) by simp
  have climb: "climb_queue L (node_queue_new (map (merkle_node L w bs) (sibling_positions i 0 k)) None) (ft_new (lib_ft L) (of_nat i * 2))
      (merkle_node L w bs (0, i)) [merkle_node L w bs (0, i)] =
    Ok (merkle_node L w bs (k, i div 2 ^ k), map (merkle_node L w bs) ((0, i) # path_positions i 0 k))"
    using climb_complete [OF at i(1), of k "node_queue_new (map (merkle_node L w bs) (sibling_positions i 0 k)) None" bs "[merkle_node L w bs (0, i)]"] i(3)
    by (simp add: node_queue_new_def sibling_positions_def)
  have "n_index (merkle_node L w bs (k, i div 2 ^ k)) = pos_index (k, i div 2 ^ k)" by (simp add: pos_index_def)
  then show ?thesis unfolding eq(2) climb bindR.simps case_prod_conv by (simp only:)
qed

text \<open>A tree that knows this node accepts.\<close>

lemma block_proof_complete:
  assumes "infos_to_nodes L infos = Ok nodes" "i < 2 ^ 62" "i < length bs" "k \<le> 62"
    and "required_node t (pos_index (k, i div 2 ^ k)) nodes = Ok (Inr (merkle_node L w bs (k, i div 2 ^ k)))"
    and "pf_block pf = Some \<lparr>dblk_index = of_nat i, dblk_value = bs ! i, dblk_nodes = map (merkle_node L w bs) (sibling_positions i 0 k)\<rparr>"
      "pf_seek pf = None" "pf_upgrade pf = None"
  shows "verify_proof L t pf pk infos = Ok (Inr ((mt_changeset t)\<lparr>cg_nodes := map (merkle_node L w bs) ((0, i) # path_positions i 0 k)\<rparr>))"
  using block_proof_answer [OF assms(1-4,6-8), of t pk] assms(5) by simp

end

end
