(* ===== verification/Proof_Creation.thy ===== *)
theory Proof_Creation
  imports Proof_Soundness
begin

text \<open>
  Creating the proof for a block: the tree collects the siblings on the path, asks for those it does
  not have in memory, and after one round of reading the core answers with the block and exactly
  the nodes that the receiver needs.
\<close>

declare split_paired_All [simp del] split_paired_Ex [simp del]

lemma in_tree_sibling: "in_tree n (Suc d, off div 2) \<Longrightarrow> in_tree n (d, sibling_offset off)"
  using in_tree_children [of n d "off div 2"] by (cases rule: sibling_cases [of off]) simp_all

lemma siblings_in_tree:
  assumes "in_tree n (k, i div 2 ^ k)"
  shows "\<forall>p\<in>set (sibling_positions i 0 k). in_tree n p"
proof
  fix p assume "p \<in> set (sibling_positions i 0 k)"
  then obtain j where j: "j < k" "p = (j, sibling_offset (i div 2 ^ j))" by (auto simp: sibling_positions_def)
  have "in_tree n (Suc j + (k - Suc j), i div 2 ^ (Suc j + (k - Suc j)))" using assms j(1) by simp
  from in_tree_path [OF this] have "in_tree n (Suc j, i div 2 ^ j div 2)" by (simp only: div_pow_Suc)
  then show "in_tree n p" unfolding j(2) by (rule in_tree_sibling)
qed

context libs_laws
begin

lemma nodes_to_root_loop_eq:
  assumes "ft_at (lib_ft L) it d (i div 2 ^ d)" "i < 2 ^ 62" "d + k \<le> 62" "in_tree n (d + k, i div 2 ^ (d + k))" "unat head = 2 * n"
  shows "\<exists>it'. nodes_to_root_loop L k head it = Ok it' \<and> ft_at (lib_ft L) it' (d + k) (i div 2 ^ (d + k))"
  using assms
proof (induction k arbitrary: d it)
  case (Suc k)
  have ok: "pos_ok (Suc d) (i div 2 ^ Suc d)" using block_pos_ok(1) [OF Suc.prems(2), of "Suc d"] Suc.prems(3) by simp
  have it: "ft_at (lib_ft L) (ft_parent (lib_ft L) it) (Suc d) (i div 2 ^ Suc d)"
    using flat.parent [OF Suc.prems(1)] ok by (simp only: div_pow_Suc)
  have tree: "in_tree n (Suc d + k, i div 2 ^ (Suc d + k))" using Suc.prems(4) by simp
  have "\<not> ft_contains (lib_ft L) (ft_parent (lib_ft L) it) head"
    using in_tree_path [OF tree] Suc.prems(5) unfolding flat.contains [OF it ok] by (simp add: in_tree_def)
  with Suc.IH [OF it Suc.prems(2) _ tree Suc.prems(5)] Suc.prems(3) show ?case by (simp add: Let_def)
qed simp

lemma collect_eq:
  assumes "node_source L w bs t nodes" "in_tree (length bs) p"
  shows "collect t nodes (pos_index p) acc =
    Ok (fst acc @ map (merkle_node L w bs) (filter (avail t nodes) [p]), snd acc @ map instr_of (filter (\<lambda>p. \<not> avail t nodes p) [p]))"
  using assms unfolding node_source_def by (cases acc) (auto simp: collect_def avail_def)

lemma block_proof_loop_eq:
  assumes src: "node_source L w bs t nodes" and "ft_at (lib_ft L) it d (i div 2 ^ d)" "i < 2 ^ 62" "d + k \<le> 62"
    and "in_tree (length bs) (d + k, i div 2 ^ (d + k))" "k < fuel"
  shows "block_proof_loop L fuel t nodes False seek_root (pos_index (d + k, i div 2 ^ (d + k))) it p acc =
    Ok (p, fst acc @ map (merkle_node L w bs) (filter (avail t nodes) (sibling_positions i d k)),
      snd acc @ map instr_of (filter (\<lambda>p. \<not> avail t nodes p) (sibling_positions i d k)))"
  using assms(2-6)
proof (induction k arbitrary: d it acc fuel)
  case 0
  then obtain f where "fuel = Suc f" by (cases fuel) auto
  with 0 show ?case using at_index [OF 0(1)] by (simp add: sibling_positions_def)
next
  case (Suc k)
  let ?off = "i div 2 ^ d" and ?it1 = "ft_sibling (lib_ft L) it"
  obtain f where f: "fuel = Suc f" using Suc.prems(5) by (cases fuel) auto
  have ok: "pos_ok d ?off" "pos_ok d (sibling_offset ?off)" "pos_ok (Suc d) (i div 2 ^ Suc d)"
    "pos_ok (d + Suc k) (i div 2 ^ (d + Suc k))"
    by (rule block_pos_ok [OF Suc.prems(2)]; use Suc.prems(3) in simp)+
  have it1: "ft_at (lib_ft L) ?it1 d (sibling_offset ?off)" using flat.sibling [OF Suc.prems(1) ok(1,2)] .
  have it2: "ft_at (lib_ft L) (ft_parent (lib_ft L) ?it1) (Suc d) (i div 2 ^ Suc d)"
    using flat.parent [OF it1] ok(3) by (simp only: sibling_parent div_pow_Suc)
  have ne: "ft_index (lib_ft L) it \<noteq> pos_index (d + Suc k, i div 2 ^ (d + Suc k))"
    using pos_index_unat [OF ok(1)] pos_index_unat [OF ok(4)] at_index [OF Suc.prems(1)] by (metis add_Suc_right less_add_Suc1 less_irrefl_nat tree_index_inj)
  have tree: "in_tree (length bs) (Suc d + k, i div 2 ^ (Suc d + k))" using Suc.prems(4) by simp
  have sib: "in_tree (length bs) (d, sibling_offset ?off)"
    using in_tree_path [OF tree] by (intro in_tree_sibling) (simp only: div_pow_Suc)
  have pos: "sibling_positions i d (Suc k) = (d, sibling_offset ?off) # sibling_positions i (Suc d) k"
    by (simp add: sibling_positions_def upt_conv_Cons del: upt_Suc)
  have "k < f" "Suc d + k \<le> 62" using Suc.prems(3,5) f by simp_all
  from Suc.IH [OF it2 Suc.prems(2) this(2) tree this(1)] ne collect_eq [OF src sib] show ?case
    unfolding f block_proof_loop.simps by (simp add: Let_def at_index [OF it1] pos)
qed

text \<open>The request for block \<open>i\<close> with \<open>k\<close> nodes up to a subtree that lies in the log.\<close>

lemma create_block_eq:
  assumes t: "tree_of L w bs t" "length bs \<le> MAX_BLOCKS" and m: "infos_to_nodes L infos = Ok nodes" "node_source L w bs t nodes"
    and i: "in_tree (length bs) (k, i div 2 ^ k)"
  shows "create_valueless_proof L t (Some \<lparr>rb_index = of_nat i, rb_nodes = of_nat k\<rparr>) None None None infos =
    (let qs = filter (\<lambda>p. \<not> avail t nodes p) (sibling_positions i 0 k)
     in Ok (if qs = [] then Inr \<lparr>vp_fork = mt_fork t,
          vp_block = Some \<lparr>dh_index = of_nat i, dh_nodes = map (merkle_node L w bs) (sibling_positions i 0 k)\<rparr>,
          vp_hash = None, vp_seek = None, vp_upgrade = None\<rparr>
        else Inl (map instr_of qs)))"
proof -
  have k: "k \<le> 62" using in_tree_index(2) [OF i t(2)] by (simp add: pos_ok_def)
  have lt: "i < length bs" using in_tree_path [of "length bs" 0 k i] i by (simp add: in_tree_def)
  then have i62: "i < 2 ^ 62" "length bs < 2 ^ 62" using t(2) by (simp_all add: MAX_BLOCKS_def)
  let ?head = "2 * mt_length t" and ?it = "ft_new (lib_ft L) (of_nat i * 2)" and ?pos = "sibling_positions i 0 k"
  have head: "unat ?head = 2 * length bs" using t(1) i62(2) by (simp add: tree_of_def unat_mult_small unat_of_nat64)
  have ix: "unat (of_nat i * 2 :: u64) = tree_index 0 i" using i62(1) by (simp add: unat_mult_small unat_of_nat64)
  have it: "ft_at (lib_ft L) ?it 0 (i div 2 ^ 0)" using flat.new [OF ix] i62(1) by (simp add: pos_ok_def)
  have tree: "in_tree (length bs) (0 + k, i div 2 ^ (0 + k))" using i by simp
  have uk: "unat (of_nat k :: u64) = k" using k by (simp add: unat_of_nat64)
  obtain it' where it': "nodes_to_root_loop L k ?head ?it = Ok it'" "ft_at (lib_ft L) it' k (i div 2 ^ k)"
    using nodes_to_root_loop_eq [OF it i62(1) _ tree head] k by auto
  have root: "nodes_to_root L (of_nat i * 2) (of_nat k) ?head = Ok (pos_index (k, i div 2 ^ k))"
    using it' at_index [OF it'(2)] uk by (simp add: nodes_to_root_def)
  have loop: "block_proof_loop L (lib_fuel L) t nodes False seek (pos_index (k, i div 2 ^ k)) ?it p ([], []) =
      Ok (p, map (merkle_node L w bs) (filter (avail t nodes) ?pos), map instr_of (filter (\<lambda>p. \<not> avail t nodes p) ?pos))" for seek p
    using block_proof_loop_eq [OF m(2) it i62(1) _ tree, of "lib_fuel L" seek p "([], [])"] k enough_fuel by simp
  have all: "filter (avail t nodes) ?pos = ?pos" if "filter (\<lambda>p. \<not> avail t nodes p) ?pos = []"
    using that by (simp add: filter_empty_conv filter_id_conv)
  have "\<not> (0 :: u64) \<ge> ?head" using head lt by (auto simp: word_le_nat_alt)
  then show ?thesis
    using all
    by (simp add: create_valueless_proof_def m(1) normalize_indexed_def proof_sub_tree_def root block_and_seek_proof_def loop Let_def
        del: One_nat_def)
qed

text \<open>The proof that a core gives for block \<open>i\<close>: its path of \<open>k\<close> siblings.\<close>

lemma held_create_block:
  assumes held: "tree_held L w bs t f" and ps: "\<forall>p\<in>set ps. in_tree (length bs) p" and infos: "infos_of L w bs infos ps"
    and i: "in_tree (length bs) (k, i div 2 ^ k)"
  shows "create_valueless_proof L t (Some \<lparr>rb_index = of_nat i, rb_nodes = of_nat k\<rparr>) None None None infos =
    (let qs = to_read t ps (sibling_positions i 0 k)
     in Ok (if qs = [] then Inr \<lparr>vp_fork = mt_fork t,
          vp_block = Some \<lparr>dh_index = of_nat i, dh_nodes = map (merkle_node L w bs) (sibling_positions i 0 k)\<rparr>,
          vp_hash = None, vp_seek = None, vp_upgrade = None\<rparr>
        else Inl (map instr_of qs)))"
proof -
  obtain m where m: "infos_to_nodes L infos = Ok m" "node_source L w bs t m"
    "\<And>qs. \<forall>p\<in>set qs. in_tree (length bs) p \<Longrightarrow> filter (\<lambda>p. \<not> avail t m p) qs = to_read t ps qs"
    using held_nodes [OF held ps infos] by blast
  have t: "tree_of L w bs t" "length bs \<le> MAX_BLOCKS" using held by (simp_all add: tree_held_def)
  show ?thesis using create_block_eq [OF t m(1,2) i] unfolding m(3) [OF siblings_in_tree [OF i]] .
qed

end

context device_laws
begin

text \<open>A proof that needs the nodes at \<open>pos\<close> is there after one round of reading.\<close>

lemma core_create_round:
  assumes held: "tree_held L w bs (hc_tree c) (stored content (hc_storage c) Tree)" and pos: "\<forall>p\<in>set pos. in_tree (length bs) p"
    and ask: "\<And>ps infos. \<forall>p\<in>set ps. in_tree (length bs) p \<Longrightarrow> infos_of L w bs infos ps \<Longrightarrow>
      create_valueless_proof L (hc_tree c) block hash seek upgrade infos =
      (let qs = to_read (hc_tree c) ps pos in Ok (if qs = [] then Inr vp else Inl (map instr_of qs)))"
  shows "core_create_valueless_proof L ra c block hash seek upgrade = Ok vp"
proof -
  let ?t = "hc_tree c"
  define q where "q = to_read ?t [] pos"
  have q: "\<forall>p\<in>set q. in_tree (length bs) p \<and> im_get (mt_unflushed ?t) (pos_index p) = None"
    using pos to_read_mem unfolding q_def by blast
  have again: "to_read ?t q pos = []" using to_read_rest [of ?t "[]" pos] unfolding q_def by auto
  have first: "infos_of L w bs None []" and second: "infos_of L w bs (Some (map (node_info L w bs) q)) q"
    by (simp_all add: infos_of_def)
  have in_q: "\<forall>p\<in>set q. in_tree (length bs) p" using q by blast
  obtain fuel where fuel: "lib_fuel L = Suc fuel" using enough_fuel that [of "lib_fuel L - 1"] by simp
  show ?thesis
    using ask [OF _ first] ask [OF in_q second] read_stored_nodes [OF held q]
    by (simp add: core_create_valueless_proof_def fuel Let_def q_def [symmetric] again)
qed

lemma core_create_block:
  assumes held: "tree_held L w bs (hc_tree c) (stored content (hc_storage c) Tree)" and i: "in_tree (length bs) (k, i div 2 ^ k)"
  shows "core_create_valueless_proof L ra c (Some \<lparr>rb_index = of_nat i, rb_nodes = of_nat k\<rparr>) None None None =
    Ok \<lparr>vp_fork = mt_fork (hc_tree c),
        vp_block = Some \<lparr>dh_index = of_nat i, dh_nodes = map (merkle_node L w bs) (sibling_positions i 0 k)\<rparr>,
        vp_hash = None, vp_seek = None, vp_upgrade = None\<rparr>"
  by (rule core_create_round [OF held siblings_in_tree [OF i]]) (rule held_create_block [OF held _ _ i])

text \<open>A core that has the block answers with it and the path; otherwise it answers nothing and asks its
  own peers for the block.\<close>

lemma core_create_block_proof:
  assumes view: "core_view L w content sk c bs have" and i: "in_tree (length bs) (k, i div 2 ^ k)"
  shows "core_create_proof L ra (Some \<lparr>rb_index = of_nat i, rb_nodes = of_nat k\<rparr>) None None None c =
    (if i \<in> have
     then (Ok (Some \<lparr>pf_fork = mt_fork (hc_tree c),
         pf_block = Some \<lparr>dblk_index = of_nat i, dblk_value = bs ! i, dblk_nodes = map (merkle_node L w bs) (sibling_positions i 0 k)\<rparr>,
         pf_hash = None, pf_seek = None, pf_upgrade = None\<rparr>), c)
     else (Ok None, c\<lparr>hc_events := send_on_get (hc_events c) (of_nat i)\<rparr>))"
proof -
  have held: "tree_held L w bs (hc_tree c) (stored content (hc_storage c) Tree)" using view by (simp add: core_view_def)
  have "i < length bs" using in_tree_path [of "length bs" 0 k i] i by (simp add: in_tree_def)
  then have ui: "unat (of_nat i :: u64) = i" using held by (simp add: tree_held_def MAX_BLOCKS_def unat_of_nat64)
  show ?thesis
    using core_create_block [OF held i] core_get_present [OF view, of "of_nat i"] core_get_absent [OF view, of "of_nat i"] ui
    by (simp add: core_create_proof_def bindC_def readC_def into_proof_def)
qed

end

end
