(* ===== verification/Known_Nodes.thy ===== *)
theory Known_Nodes
  imports Proof_Creation
begin

text \<open>
  The sets of nodes that a peer's tree can know: those that contain the roots and, with every node
  below a root, its parent and its sibling.  Such a set has the nodes that give the byte offset of
  everything in it; it stays so when the path of a block is added and when subtrees are appended.
\<close>

declare split_paired_All [simp del] split_paired_Ex [simp del]

section \<open>The roots of a number\<close>

text \<open>The roots of \<open>n\<close> blocks are the bits of \<open>n\<close>.\<close>

lemma div_pow_add: "(x :: nat) div 2 ^ (d + Suc k) = x div 2 ^ d div 2 div 2 ^ k"
  by (simp only: power_add power_Suc div_mult2_eq)

lemma div_pow_even:
  assumes "even a" "d < j"
  shows "(a + 1) * 2 ^ d div 2 ^ j = a * 2 ^ d div (2 :: nat) ^ j"
proof -
  obtain k where j: "j = d + Suc k" using assms(2) by (metis add_Suc_right less_iff_Suc_add)
  have "x * 2 ^ d div 2 ^ j = x div 2 div 2 ^ k" for x :: nat
    unfolding j div_pow_add by simp
  moreover have "(a + 1) div 2 = a div 2" using assms(1) by simp
  ultimately show ?thesis by metis
qed

lemma pow_div_even: "j < d \<Longrightarrow> even (a * 2 ^ d div (2 :: nat) ^ j)"
proof -
  assume "j < d"
  then obtain k where "d = j + Suc k" by (metis add_Suc_right less_iff_Suc_add)
  then show ?thesis by (simp add: power_add)
qed

lemma rchain_iff: "rchain n ps \<Longrightarrow> (j, x) \<in> set ps \<longleftrightarrow> n div 2 ^ j = x + 1 \<and> even x"
proof (induction n ps rule: rchain.induct)
  case (2 n d off ps)
  then have n: "n = (off + 1) * 2 ^ d" "even off" and IH: "(j, x) \<in> set ps \<longleftrightarrow> off * 2 ^ d div 2 ^ j = x + 1 \<and> even x" by simp_all
  consider "j < d" | "j = d" | "d < j" by linarith
  then show ?case
  proof cases
    case 1
    then have "even (n div 2 ^ j)" "even (off * 2 ^ d div 2 ^ j)" using pow_div_even n(1) by blast+
    then show ?thesis using 1 IH by auto
  next
    case 2
    then show ?thesis using n IH by auto
  next
    case 3
    then show ?thesis using div_pow_even [OF n(2) 3] n(1) IH by auto
  qed
qed simp

lemma root_positions_iff: "(j, x) \<in> set (root_positions n) \<longleftrightarrow> n div 2 ^ j = x + 1 \<and> even x"
  using rchain_iff [OF rchain_root_positions, of j x n] by simp

text \<open>The root above a block.\<close>

lemma block_root:
  assumes "i < m"
  obtains k where "(k, i div 2 ^ k) \<in> set (root_positions m)"
proof -
  obtain d off where p: "(d, off) \<in> set (root_positions m)" "off * 2 ^ d \<le> i" "i < (off + 1) * 2 ^ d"
    using fchain_covers [OF fchain_roots [of m], of i] assms by blast
  then have "i div 2 ^ d = off" by (intro div_nat_eqI) (simp_all add: algebra_simps)
  with p(1) that show thesis by blast
qed

lemma below_root:
  assumes "(r, i div 2 ^ r) \<in> set (root_positions n)" "e < r"
  shows "(e, i div 2 ^ e) \<notin> set (root_positions n)"
proof
  assume "(e, i div 2 ^ e) \<in> set (root_positions n)"
  then have e: "n div 2 ^ e = i div 2 ^ e + 1" "even (i div 2 ^ e)" by (simp_all add: root_positions_iff)
  obtain k where r: "r = e + Suc k" using assms(2) by (metis add_Suc_right less_iff_Suc_add)
  have "n div 2 ^ r = i div 2 ^ r" unfolding r div_pow_add e(1) using e(2) by simp
  with assms(1) show False by (simp add: root_positions_iff)
qed

text \<open>A node of the tree is not above the root of its blocks.\<close>

lemma root_above:
  assumes tree: "in_tree n (b, i div 2 ^ b)" and root: "(r, i div 2 ^ r) \<in> set (root_positions n)"
  shows "b \<le> r"
proof (rule ccontr)
  assume "\<not> b \<le> r"
  then obtain k where b: "b = r + Suc k" by (metis add_Suc_right less_iff_Suc_add not_le)
  have r: "n div 2 ^ r = i div 2 ^ r + 1" "even (i div 2 ^ r)" using root by (simp_all add: root_positions_iff)
  have "n div 2 ^ b = i div 2 ^ b" unfolding b div_pow_add r(1) using r(2) by simp
  moreover have "i div 2 ^ b + 1 \<le> n div 2 ^ b" using tree by (simp add: in_tree_def less_eq_div_iff_mult_less_eq)
  ultimately show False by simp
qed

lemma root_in_tree: "p \<in> set (root_positions n) \<Longrightarrow> in_tree n p"
  using rchain_positions [OF rchain_root_positions, of "fst p" "snd p" n] by (simp add: in_tree_def)

section \<open>Closed sets of nodes\<close>

definition rooted :: "nat \<Rightarrow> (nat \<times> nat) set \<Rightarrow> bool" where
  "rooted n K \<longleftrightarrow> (\<forall>p\<in>K. in_tree n p) \<and> set (root_positions n) \<subseteq> K \<and>
     (\<forall>d off. (d, off) \<in> K \<longrightarrow> (d, off) \<notin> set (root_positions n) \<longrightarrow> (Suc d, off div 2) \<in> K \<and> (d, sibling_offset off) \<in> K)"

lemma rooted_empty: "rooted 0 {}"
  by (simp add: rooted_def)

lemma rooted_up:
  assumes "rooted n K" "(r, i div 2 ^ r) \<in> set (root_positions n)" "(j, i div 2 ^ j) \<in> K" "j \<le> e" "e \<le> r"
  shows "(e, i div 2 ^ e) \<in> K"
  using assms(4,5)
proof (induction e rule: dec_induct)
  case base
  then show ?case using assms(3) by simp
next
  case (step e)
  then have "(e, i div 2 ^ e) \<in> K" "(e, i div 2 ^ e) \<notin> set (root_positions n)" using below_root [OF assms(2), of e] by simp_all
  with assms(1) show ?case unfolding rooted_def by (metis div_pow_Suc)
qed

text \<open>The way down to a block turns right at its odd ancestors.\<close>

lemma left_path_iff:
  assumes "i div 2 ^ d = off"
  shows "p \<in> set (left_path d off i) \<longleftrightarrow> (\<exists>e<d. odd (i div 2 ^ e) \<and> p = (e, i div 2 ^ e - 1))"
  using assms
proof (induction d arbitrary: off)
  case (Suc d)
  have two: "i div 2 ^ d div 2 = off" using Suc.prems by (simp add: div_mult2_eq [symmetric] mult.commute)
  have cmp: "i < (2 * off + 1) * 2 ^ d \<longleftrightarrow> i div 2 ^ d < 2 * off + 1" by (simp add: less_mult_imp_div_less div_less_iff_less_mult)
  show ?case
  proof (cases "even (i div 2 ^ d)")
    case True
    then have "i div 2 ^ d = 2 * off" using two by (auto elim!: evenE)
    with Suc.IH [OF this] cmp True show ?thesis by (auto simp: less_Suc_eq)
  next
    case False
    then have "i div 2 ^ d = 2 * off + 1" using two by (auto elim!: oddE)
    with Suc.IH [OF this] cmp False show ?thesis by (auto simp: less_Suc_eq)
  qed
qed simp

lemma offset_path_root:
  assumes "(r, i div 2 ^ r) \<in> set (root_positions n)"
  shows "offset_path n i = left_path r (i div 2 ^ r) i"
proof -
  let ?P = "\<lambda>(d, off). i < (off + 1) * 2 ^ d"
  have "i < (i div 2 ^ r + 1) * 2 ^ r" using dividend_less_div_times [of "2 ^ r" i] by simp
  then have "List.find ?P (root_positions n) \<noteq> None" using assms by (auto simp: find_None_iff)
  then obtain d off where f: "List.find ?P (root_positions n) = Some (d, off)" by (metis option.exhaust surj_pair)
  then obtain ps1 ps2 where ps: "root_positions n = ps1 @ (d, off) # ps2" "i < (off + 1) * 2 ^ d" "\<forall>p\<in>set ps1. \<not> ?P p"
    unfolding find_Some_iff by (metis (no_types, lifting) case_prodD id_take_nth_drop in_set_conv_nth length_take less_trans min.absorb4 nth_take)
  have chain: "fchain 0 n (ps1 @ (d, off) # ps2)" using fchain_roots [of n] ps(1) by simp
  have before: "off * 2 ^ d \<le> i"
    using chain ps(3)
  proof (induction ps1 arbitrary: n rule: rev_induct)
    case Nil
    then show ?case by simp
  next
    case (snoc q qs)
    obtain d' off' where q: "q = (d', off')" by (cases q)
    have "fchain m n (qs @ (d', off') # (d, off) # ps2) \<Longrightarrow> off * 2 ^ d = (off' + 1) * 2 ^ d'" for m
      by (induction qs arbitrary: m) auto
    with snoc.prems q show ?case by auto
  qed
  then have "i div 2 ^ d = off" using ps(2) by (intro div_nat_eqI) (simp_all add: algebra_simps)
  moreover have "d = r"
  proof (rule ccontr)
    assume "d \<noteq> r"
    then consider "d < r" | "r < d" by linarith
    then show False
      using below_root [OF assms, of d] below_root [of d i n r] assms ps(1) \<open>i div 2 ^ d = off\<close> by cases auto
  qed
  ultimately show ?thesis using f by (simp add: offset_path_def)
qed

lemma rooted_offset_path:
  assumes K: "rooted n K" and j: "(j, i div 2 ^ j) \<in> K" and even: "\<forall>e<j. even (i div 2 ^ e)" and i: "i < n"
  shows "set (offset_path n i) \<subseteq> K"
proof
  fix p assume p: "p \<in> set (offset_path n i)"
  obtain r where r: "(r, i div 2 ^ r) \<in> set (root_positions n)" using block_root [OF i] .
  from p obtain e where e: "e < r" "odd (i div 2 ^ e)" "p = (e, i div 2 ^ e - 1)"
    unfolding offset_path_root [OF r] left_path_iff [OF refl] by blast
  then have "j \<le> e" using even by (meson not_le_imp_less)
  with rooted_up [OF K r j] e(1) have "(e, i div 2 ^ e) \<in> K" by simp
  moreover have "(e, i div 2 ^ e) \<notin> set (root_positions n)" using below_root [OF r e(1)] .
  ultimately have "(e, sibling_offset (i div 2 ^ e)) \<in> K" using K by (simp add: rooted_def)
  then show "p \<in> K" using e(2,3) by (simp add: sibling_offset_def)
qed

text \<open>The path of a block up to a known node.\<close>

lemma path_in_tree:
  assumes "in_tree n (d + k, i div 2 ^ (d + k))"
  shows "\<forall>p\<in>set ((d, i div 2 ^ d) # path_positions i d k). in_tree n p"
  using assms
proof (induction k arbitrary: d)
  case (Suc k)
  have up: "in_tree n (Suc d + k, i div 2 ^ (Suc d + k))" using Suc.prems by simp
  note IH = Suc.IH [OF up]
  have "in_tree n (d, sibling_offset (i div 2 ^ d))"
    using in_tree_path [OF up] by (intro in_tree_sibling) (simp only: div_pow_Suc)
  with IH in_tree_path [OF Suc.prems] show ?case unfolding path_positions.simps by simp
qed simp

lemma path_positions_iff:
  "p \<in> set (path_positions i d k) \<longleftrightarrow>
    (\<exists>e. d \<le> e \<and> e < d + k \<and> (p = (e, sibling_offset (i div 2 ^ e)) \<or> p = (Suc e, i div 2 ^ Suc e)))"
proof (induction k arbitrary: d)
  case (Suc k)
  have "(\<exists>e. d \<le> e \<and> e < d + Suc k \<and> P e) \<longleftrightarrow> P d \<or> (\<exists>e. Suc d \<le> e \<and> e < Suc d + k \<and> P e)" for P
    by (metis Suc_leD Suc_leI add_Suc add_Suc_right le_eq_less_or_eq less_add_Suc1)
  with Suc show ?case by simp
qed simp

lemma rooted_path:
  assumes K: "rooted n K" and k: "(b + k, i div 2 ^ (b + k)) \<in> K"
  shows "rooted n (K \<union> set ((b, i div 2 ^ b) # path_positions i b k))"
proof -
  let ?P = "set ((b, i div 2 ^ b) # path_positions i b k)"
  have up: "(e, i div 2 ^ e) \<in> K \<union> ?P" if "b \<le> e" "e \<le> b + k" for e
  proof (cases "e = b")
    case False
    with that obtain x where "e = Suc x" "b \<le> x" "x < b + k" by (cases e) auto
    then show ?thesis by (auto simp: path_positions_iff simp del: power_Suc)
  qed simp
  have sib: "(e, sibling_offset (i div 2 ^ e)) \<in> ?P" if "b \<le> e" "e < b + k" for e using that by (auto simp: path_positions_iff)
  have tree: "in_tree n (b + k, i div 2 ^ (b + k))" using K k by (simp add: rooted_def)
  have step: "(Suc d, off div 2) \<in> K \<union> ?P \<and> (d, sibling_offset off) \<in> K \<union> ?P"
    if p: "(d, off) \<in> ?P" "(d, off) \<notin> K" for d off
  proof -
    have "b \<le> d \<and> d < b + k \<and> (off = i div 2 ^ d \<or> off = sibling_offset (i div 2 ^ d))"
    proof (cases "(d, off) = (b, i div 2 ^ b)")
      case True
      then have "k \<noteq> 0" using p(2) k by (cases k) auto
      with True show ?thesis by simp
    next
      case False
      then obtain e where e: "b \<le> e" "e < b + k" "(d, off) = (e, sibling_offset (i div 2 ^ e)) \<or> (d, off) = (Suc e, i div 2 ^ Suc e)"
        using p(1) by (auto simp: path_positions_iff)
      moreover have "Suc e \<noteq> b + k" if "(d, off) = (Suc e, i div 2 ^ Suc e)" using that p(2) k by metis
      ultimately show ?thesis by auto
    qed
    then have "b \<le> d" "d < b + k" "off div 2 = i div 2 ^ Suc d" "sibling_offset off = i div 2 ^ d \<or> sibling_offset off = sibling_offset (i div 2 ^ d)"
      using sibling_parent [of "i div 2 ^ d"] by (auto simp: div_pow_Suc sibling_offset_def)
    with up [of "Suc d"] up [of d] sib [of d] show ?thesis by auto
  qed
  have "\<forall>p\<in>?P. in_tree n p" using path_in_tree [OF tree] .
  with K step show ?thesis unfolding rooted_def by blast
qed

section \<open>Appending a subtree\<close>

text \<open>The node \<open>(d, off)\<close> behind \<open>off * 2 ^ d\<close> blocks and the nodes that it completes.\<close>

definition merged_positions :: "nat \<Rightarrow> nat \<Rightarrow> (nat \<times> nat) list" where
  "merged_positions e d = map (\<lambda>j. (j, e div 2 ^ j - 1)) [d ..< Suc (trailing_zeros e)]"

lemma merged_iff: "0 < e \<Longrightarrow> (j, x) \<in> set (merged_positions e d) \<longleftrightarrow> d \<le> j \<and> 2 ^ j dvd e \<and> e = (x + 1) * 2 ^ j"
proof -
  assume e: "0 < e"
  have "(j, x) \<in> set (merged_positions e d) \<longleftrightarrow> d \<le> j \<and> 2 ^ j dvd e \<and> x = e div 2 ^ j - 1"
    using trailing_zeros_dvd [OF e, of j] dvd_trailing_zeros [OF e, of j] by (auto simp: merged_positions_def less_Suc_eq_le simp del: upt_Suc)
  also have "\<dots> \<longleftrightarrow> d \<le> j \<and> 2 ^ j dvd e \<and> e = (x + 1) * 2 ^ j"
  proof -
    have "x = e div 2 ^ j - 1 \<longleftrightarrow> e = (x + 1) * 2 ^ j" if "2 ^ j dvd e"
    proof -
      from that obtain q where q: "e = q * 2 ^ j" by (metis dvdE mult.commute)
      with e have "0 < q" by (cases q) simp_all
      have "q * 2 ^ j = (x + 1) * 2 ^ j \<longleftrightarrow> q = x + 1" by (subst mult_cancel2) simp
      with q \<open>0 < q\<close> show ?thesis by auto
    qed
    then show ?thesis by blast
  qed
  finally show ?thesis .
qed

lemma next_multiple:
  assumes "(2 :: nat) ^ d dvd b" "2 ^ d dvd a" "a < b" "b \<le> a + 2 ^ d"
  shows "b = a + 2 ^ d"
proof -
  obtain x y where xy: "b = x * 2 ^ d" "a = y * 2 ^ d" using assms(1,2) by (metis dvdE mult.commute)
  then have "y < x" "x * 2 ^ d \<le> (y + 1) * 2 ^ d" using assms(3,4) by simp_all
  then have "x \<le> y + 1" using mult_le_cancel2 [of x "2 ^ d" "y + 1"] by simp
  with \<open>y < x\<close> have "x = y + 1" by simp
  with xy show ?thesis by simp
qed

lemma rooted_append:
  assumes K: "rooted (off * 2 ^ d) K"
  shows "rooted ((off + 1) * 2 ^ d) (K \<union> set (merged_positions ((off + 1) * 2 ^ d) d))"
proof -
  let ?m = "off * 2 ^ d"
  define e where "e = (off + 1) * 2 ^ d"
  have e: "0 < e" "?m < e" "e = ?m + 2 ^ d" "2 ^ d dvd e" "2 ^ d dvd ?m" by (simp_all add: e_def)
  let ?new = "set (merged_positions e d)"
  note iff = merged_iff [OF e(1), where d = d]
  have low: "\<not> even x" if "e div 2 ^ j = x + 1 \<or> ?m div 2 ^ j = x + 1" "j < d" for j x
    using that pow_div_even [OF that(2), of "off + 1"] pow_div_even [OF that(2), of off] unfolding e_def by auto
  have fresh: "e = (x + 1) * 2 ^ j" if "d \<le> j" "?m < (x + 1) * 2 ^ j" "(x + 1) * 2 ^ j \<le> e" for j x
  proof -
    have "(2 :: nat) ^ d dvd (x + 1) * 2 ^ j" using that(1) by (meson dvd_mult le_imp_power_dvd)
    from next_multiple [OF this e(5) that(2)] that(3) e(3) show ?thesis by simp
  qed
  have roots: "set (root_positions e) \<subseteq> K \<union> ?new"
  proof
    fix p assume "p \<in> set (root_positions e)"
    then obtain j x where p: "p = (j, x)" "e div 2 ^ j = x + 1" "even x" by (metis root_positions_iff surj_pair)
    then have dj: "d \<le> j" using low by (meson not_le_imp_less)
    have le: "(x + 1) * 2 ^ j \<le> e" using p(2) by (metis div_times_less_eq_dividend)
    show "p \<in> K \<union> ?new"
    proof (cases "(x + 1) * 2 ^ j \<le> ?m")
      case True
      then have "x + 1 \<le> ?m div 2 ^ j" by (simp add: less_eq_div_iff_mult_less_eq)
      moreover have "?m div 2 ^ j \<le> e div 2 ^ j" using e(2) by (intro div_le_mono) simp
      ultimately have "(j, x) \<in> set (root_positions ?m)" using p(2,3) by (simp add: root_positions_iff)
      then show ?thesis using K p(1) by (auto simp: rooted_def)
    next
      case False
      then have "e = (x + 1) * 2 ^ j" using fresh [OF dj _ le] by simp
      then show ?thesis using dj p(1) iff [of j x] by simp
    qed
  qed
  have step: "(Suc j, x div 2) \<in> K \<union> ?new \<and> (j, sibling_offset x) \<in> K \<union> ?new"
    if p: "(j, x) \<in> K \<union> ?new" "(j, x) \<notin> set (root_positions e)" for j x
  proof (cases "(j, x) \<in> K \<and> (j, x) \<notin> set (root_positions ?m)")
    case True
    then show ?thesis using K by (simp add: rooted_def)
  next
    case False
    show ?thesis
    proof (cases "(j, x) \<in> ?new")
      case new: True
      then have j: "d \<le> j" "e = (x + 1) * 2 ^ j" using iff by auto
      then have "e div 2 ^ j = x + 1" by simp
      then have odd: "odd x" using p(2) by (simp add: root_positions_iff)
      then obtain y where y: "x = 2 * y + 1" by (elim oddE)
      then have "e = (y + 1) * 2 ^ Suc j" using j(2) by simp
      then have "(Suc j, y) \<in> ?new" using j(1) iff [of "Suc j" y] by (auto simp del: power_Suc)
      moreover have "?m div 2 ^ j = x"
      proof (rule div_nat_eqI)
        have "(2 :: nat) ^ d \<le> 2 ^ j" using j(1) by (rule power_increasing) simp
        moreover have "?m + 2 ^ d = x * 2 ^ j + 2 ^ j" using j(2) e(3) by simp
        ultimately have "x * 2 ^ j \<le> ?m" by linarith
        then show "2 ^ j * x \<le> ?m" by (simp add: mult.commute)
        show "?m < 2 ^ j * Suc x" using j(2) e(2) by (simp add: algebra_simps)
      qed
      then have "(j, x - 1) \<in> set (root_positions ?m)" using odd by (simp add: root_positions_iff odd_pos)
      then have "(j, x - 1) \<in> K" using K by (auto simp: rooted_def)
      ultimately show ?thesis using y by (simp add: sibling_offset_def)
    next
      case old: False
      with False p(1) have m: "?m div 2 ^ j = x + 1" "even x" "(j, x) \<in> K" by (auto simp: root_positions_iff)
      then have dj: "d \<le> j" using low by (meson not_le_imp_less)
      have "e div 2 ^ j \<noteq> x + 1" using p(2) m(2) by (simp add: root_positions_iff)
      moreover have "x + 1 \<le> e div 2 ^ j" using m(1) e(2) div_le_mono [of ?m e "2 ^ j"] by simp
      ultimately have "x + 2 \<le> e div 2 ^ j" by simp
      then have le: "(x + 1 + 1) * 2 ^ j \<le> e" by (simp add: less_eq_div_iff_mult_less_eq)
      have "?m < (x + 1 + 1) * 2 ^ j" using m(1) dividend_less_div_times [of "2 ^ j" ?m] by (simp add: algebra_simps)
      from fresh [OF dj this le] have top: "e = (x + 1 + 1) * 2 ^ j" .
      obtain y where y: "x = 2 * y" using m(2) by (elim evenE)
      have "(j, x + 1) \<in> ?new" using iff [of j "x + 1"] top dj by auto
      moreover have "e = (y + 1) * 2 ^ Suc j" using top y by simp
      then have "(Suc j, y) \<in> ?new" using iff [of "Suc j" y] dj by (auto simp del: power_Suc)
      ultimately show ?thesis using y m(2) by (simp add: sibling_offset_def)
    qed
  qed
  have "\<forall>p\<in>K \<union> ?new. in_tree e p"
    using K e(2) iff unfolding rooted_def in_tree_def by fastforce
  with roots step show ?thesis unfolding rooted_def e_def [symmetric] by blast
qed

end
