(* ===== verification/Upgrade_Verify.thy ===== *)
theory Upgrade_Verify
  imports Known_Nodes
begin

text \<open>
  Upgrades: a peer that has the first \<open>m\<close> blocks of a log asks for the nodes that lead to its \<open>n\<close>
  blocks.  The author collects the subtrees that continue the log from block \<open>m\<close>; the peer appends
  them to its roots and ends with the roots of the author.
\<close>

declare split_paired_All [simp del] split_paired_Ex [simp del]

section \<open>The subtrees that continue a log\<close>

text \<open>The roots of a log of \<open>n\<close> blocks from block \<open>b\<close> on: each is the largest subtree that fits.\<close>

fun root_chain :: "nat \<Rightarrow> (nat \<times> nat) list \<Rightarrow> nat \<Rightarrow> bool" where
  "root_chain b [] n \<longleftrightarrow> b = n"
| "root_chain b ((k, off) # ps) n \<longleftrightarrow> b = off * 2 ^ k \<and> even off \<and> (off + 1) * 2 ^ k \<le> n \<and> n < (off + 2) * 2 ^ k \<and>
     root_chain ((off + 1) * 2 ^ k) ps n"

text \<open>The subtrees that grow a log of \<open>m\<close> blocks to the end of the root \<open>(k, off)\<close> which contains its
  last block: right siblings on the way up.\<close>

fun grow_chain :: "nat \<Rightarrow> (nat \<times> nat) list \<Rightarrow> nat \<Rightarrow> bool" where
  "grow_chain m [] e \<longleftrightarrow> m = e"
| "grow_chain m ((d, off) # ps) e \<longleftrightarrow> m = off * 2 ^ d \<and> odd off \<and> (off + 1) * 2 ^ d \<le> e \<and> grow_chain ((off + 1) * 2 ^ d) ps e"

lemma grow_chain_le: "grow_chain m ps e \<Longrightarrow> m \<le> e"
  by (induction m ps e rule: grow_chain.induct) auto

lemma root_chain_exists:
  assumes "2 ^ K dvd b" "b \<le> n" "n < b + 2 ^ K"
  shows "\<exists>ps. root_chain b ps n"
  using assms
proof (induction K arbitrary: b)
  case 0
  then have "root_chain b [] n" by simp
  then show ?case by blast
next
  case (Suc K)
  obtain q where q: "b = 2 * q * 2 ^ K" using Suc.prems(1) by (auto elim!: dvdE simp: algebra_simps)
  show ?case
  proof (cases "n < b + 2 ^ K")
    case True
    then show ?thesis using Suc.IH [of b] Suc.prems(1,2) by (meson dvd_trans le_imp_power_dvd le_SucI order_refl)
  next
    case False
    have "2 ^ K dvd b + 2 ^ K" using Suc.prems(1) by (meson dvd_add dvd_refl dvd_trans le_imp_power_dvd le_SucI order_refl)
    from Suc.IH [OF this] Suc.prems(3) False obtain ps where "root_chain (b + 2 ^ K) ps n" by auto
    then have "root_chain b ((K, 2 * q) # ps) n" using q Suc.prems(3) False by (simp add: algebra_simps)
    then show ?thesis by blast
  qed
qed

lemma root_chain_rchain: "root_chain b ps n \<Longrightarrow> rchain b qs \<Longrightarrow> rchain n (rev ps @ qs)"
proof (induction b ps n arbitrary: qs rule: root_chain.induct)
  case (2 b k off ps n)
  then have "rchain ((off + 1) * 2 ^ k) ((k, off) # qs)" by simp
  with 2 show ?case by fastforce
qed simp

lemma root_chain_roots: "root_chain 0 (root_positions n) n"
proof -
  obtain ps where ps: "root_chain 0 ps n" using root_chain_exists [of n 0 n] less_exp [of n] by auto
  from root_chain_rchain [OF this, of "[]"] have "root_positions n = ps" using rchain_unique by fastforce
  with ps show ?thesis by simp
qed

lemma root_chain_prefix:
  assumes "root_chain b (ps @ qs) n"
  obtains e where "fchain b e ps" "root_chain e qs n"
  using assms
proof (induction ps arbitrary: b thesis)
  case Nil
  then show ?case by simp
next
  case (Cons p ps)
  obtain k off where p: "p = (k, off)" by (cases p)
  from Cons.prems(2) have "root_chain ((off + 1) * 2 ^ k) (ps @ qs) n" "b = off * 2 ^ k" by (simp_all add: p)
  from Cons.IH [OF _ this(1)] obtain e where "fchain ((off + 1) * 2 ^ k) e ps" "root_chain e qs n" by blast
  with \<open>b = off * 2 ^ k\<close> show ?case using Cons.prems(1) [of e] by (simp add: p)
qed

lemma root_chain_le: "root_chain b ps n \<Longrightarrow> b \<le> n"
  by (induction b ps n rule: root_chain.induct) auto

text \<open>The largest subtree from a block that fits is unique.\<close>

lemma largest_depth:
  fixes n off off' :: nat
  assumes "off * 2 ^ k = off' * 2 ^ k'" "n < (off + 2) * 2 ^ k" "(off' + 1) * 2 ^ k' \<le> n"
  shows "\<not> k < k'"
proof
  assume "k < k'"
  then have "(2 :: nat) ^ Suc k \<le> 2 ^ k'" by (intro power_increasing) simp_all
  with assms show False by (simp add: algebra_simps)
qed

lemma root_chain_unique: "root_chain b ps n \<Longrightarrow> root_chain b qs n \<Longrightarrow> ps = qs"
proof (induction b ps n arbitrary: qs rule: root_chain.induct)
  case (1 b n)
  then show ?case by (cases qs) auto
next
  case (2 b k off ps n)
  then obtain k' off' qs' where qs: "qs = (k', off') # qs'" by (cases qs) auto
  have e: "off * 2 ^ k = off' * 2 ^ k'" using 2 qs by simp
  from largest_depth [OF e] largest_depth [OF e [symmetric]] have "k = k'" using 2(2,3) qs by fastforce
  with e have "off = off'" by simp
  with 2 \<open>k = k'\<close> qs show ?case by simp
qed

lemma root_chain_length: "root_chain b ps n \<Longrightarrow> n < b + 2 ^ K \<Longrightarrow> length ps \<le> K"
proof (induction b ps n arbitrary: K rule: root_chain.induct)
  case (2 b k off ps n)
  from 2(2) have "b = off * 2 ^ k" "off * 2 ^ k + 2 ^ k \<le> n" by simp_all
  with 2(3) have "(2 :: nat) ^ k < 2 ^ K" by linarith
  then have "k < K" by simp
  moreover have "length ps \<le> k" using 2 by simp
  ultimately show ?case by simp
qed simp

text \<open>Two chains from the same block have the same next root when it fits both.\<close>

lemma root_chain_same:
  assumes "root_chain b ((k, off) # ps) n" "root_chain b rs m" "(off + 1) * 2 ^ k \<le> m" "m \<le> n"
  shows "\<exists>rs'. rs = (k, off) # rs' \<and> root_chain ((off + 1) * 2 ^ k) rs' m"
proof -
  obtain k' off' rs' where rs: "rs = (k', off') # rs'"
  proof (cases rs)
    case Nil
    then show ?thesis using assms that by simp
  next
    case (Cons p rs')
    then show ?thesis using that by (cases p) auto
  qed
  have e: "off * 2 ^ k = off' * 2 ^ k'" using assms(1,2) rs by simp
  from largest_depth [OF e] largest_depth [OF e [symmetric]] have "k = k'" using assms rs by fastforce
  with e have "off = off'" by simp
  with \<open>k = k'\<close> rs assms(2) show ?thesis by simp
qed

text \<open>The right siblings on the way from block \<open>i\<close> up.\<close>

definition right_siblings :: "nat \<Rightarrow> nat \<Rightarrow> nat \<Rightarrow> (nat \<times> nat) list" where
  "right_siblings i d k = map (\<lambda>j. (j, i div 2 ^ j + 1)) (filter (\<lambda>j. even (i div 2 ^ j)) [d ..< d + k])"

lemma right_siblings_Suc:
  "right_siblings i d (Suc k) = (if even (i div 2 ^ d) then [(d, i div 2 ^ d + 1)] else []) @ right_siblings i (Suc d) k"
  by (simp add: right_siblings_def upt_conv_Cons del: upt_Suc)

lemma right_siblings_grow: "grow_chain ((i div 2 ^ d + 1) * 2 ^ d) (right_siblings i d k) ((i div 2 ^ (d + k) + 1) * 2 ^ (d + k))"
proof (induction k arbitrary: d)
  case 0
  then show ?case by (simp add: right_siblings_def)
next
  case (Suc k)
  let ?o = "i div 2 ^ d"
  have next_start: "(i div 2 ^ Suc d + 1) * 2 ^ Suc d = (if even ?o then ?o + 2 else ?o + 1) * 2 ^ d"
    unfolding div_pow_Suc [symmetric] by (auto elim!: evenE oddE)
  have "grow_chain ((i div 2 ^ Suc d + 1) * 2 ^ Suc d) (right_siblings i (Suc d) k) ((i div 2 ^ (d + Suc k) + 1) * 2 ^ (d + Suc k))"
    using Suc [of "Suc d"] by simp
  moreover from this have "(i div 2 ^ Suc d + 1) * 2 ^ Suc d \<le> (i div 2 ^ (d + Suc k) + 1) * 2 ^ (d + Suc k)" by (rule grow_chain_le)
  ultimately show ?case unfolding right_siblings_Suc next_start by (cases "even ?o") (simp_all del: power_Suc)
qed

text \<open>The subtrees that lead from \<open>m\<close> blocks to the roots \<open>ps\<close>.\<close>

fun upgrade_positions :: "nat \<Rightarrow> (nat \<times> nat) list \<Rightarrow> (nat \<times> nat) list" where
  "upgrade_positions m [] = []"
| "upgrade_positions m ((k, off) # ps) =
     (if (off + 1) * 2 ^ k \<le> m then upgrade_positions m ps
      else if off * 2 ^ k < m then right_siblings (m - 1) 0 k @ ps
      else (k, off) # ps)"

lemma upgrade_from_start [simp]: "upgrade_positions 0 ps = ps"
  by (cases ps) auto

lemma root_chain_in_tree: "root_chain b ps n \<Longrightarrow> \<forall>p\<in>set ps. in_tree n p"
  by (induction b ps n rule: root_chain.induct) (auto simp: in_tree_def)

lemma grow_chain_in_tree: "grow_chain m ps e \<Longrightarrow> \<forall>p\<in>set ps. in_tree e p"
  by (induction m ps e rule: grow_chain.induct) (auto simp: in_tree_def)

lemma upgrade_in_tree: "root_chain b ps n \<Longrightarrow> \<forall>p\<in>set (upgrade_positions m ps). in_tree n p"
proof (induction b ps n rule: root_chain.induct)
  case (2 b k off ps n)
  have right: "\<forall>p\<in>set (right_siblings (m - 1) 0 k). in_tree n p" if "off * 2 ^ k < m" "m < (off + 1) * 2 ^ k"
  proof -
    have "(m - 1) div 2 ^ k = off" using that by (intro div_nat_eqI) (simp_all add: algebra_simps)
    then have "grow_chain m (right_siblings (m - 1) 0 k) ((off + 1) * 2 ^ k)"
      using right_siblings_grow [of "m - 1" 0 k] that(1) by simp
    from grow_chain_in_tree [OF this] show ?thesis using 2(2) in_tree_mono by simp blast
  qed
  from 2 root_chain_in_tree [OF 2(2)] right show ?case by auto
qed simp

lemma odd_part_unique: "odd a \<Longrightarrow> odd b \<Longrightarrow> a * 2 ^ d = b * 2 ^ e \<Longrightarrow> d = e \<and> a = (b :: nat)"
proof -
  assume "odd a" "odd b" and eq: "a * 2 ^ d = b * 2 ^ e"
  then have "d = e" using trailing_zeros_odd [of a d] trailing_zeros_odd [of b e] by simp
  with eq show ?thesis by simp
qed

section \<open>The queue\<close>

text \<open>The queue \<open>q\<close> hands out the nodes at the positions \<open>ps\<close>, one after the other, and is then \<open>q'\<close>.\<close>

fun feeds :: "'it libs \<Rightarrow> wire_format \<Rightarrow> bytes list \<Rightarrow> node_queue \<Rightarrow> (nat \<times> nat) list \<Rightarrow> node_queue \<Rightarrow> bool" where
  "feeds L w bs q [] q' \<longleftrightarrow> q = q'"
| "feeds L w bs q (p # ps) q' \<longleftrightarrow> (\<exists>q1. shift q (pos_index p) = Ok (merkle_node L w bs p, q1) \<and> feeds L w bs q1 ps q')"

lemma feeds_append: "feeds L w bs q (xs @ ys) q' \<longleftrightarrow> (\<exists>q1. feeds L w bs q xs q1 \<and> feeds L w bs q1 ys q')"
  by (induction xs arbitrary: q) auto

section \<open>Appending subtrees to the roots\<close>

definition roots_at :: "'it libs \<Rightarrow> wire_format \<Rightarrow> bytes list \<Rightarrow> nat \<Rightarrow> changeset \<Rightarrow> bool" where
  "roots_at L w bs m cg \<longleftrightarrow> cg_roots cg = merkle_roots L w (take m bs) \<and> cg_length cg = of_nat m \<and>
     cg_byte_length cg = of_nat (byte_size (take m bs))"

text \<open>The changeset after growing from \<open>m0\<close> to \<open>m\<close> blocks by \<open>k\<close> subtrees: the roots of these, and more nodes of the
  tree, which keep a set of known nodes closed.\<close>

definition grown :: "'it libs \<Rightarrow> wire_format \<Rightarrow> bytes list \<Rightarrow> nat \<Rightarrow> nat \<Rightarrow> changeset \<Rightarrow> nat \<Rightarrow> changeset \<Rightarrow> bool" where
  "grown L w bs k m0 cg m cg' \<longleftrightarrow> (\<exists>ps. (\<forall>p\<in>set ps. in_tree m p) \<and> length ps \<le> 63 * k \<and> (\<forall>K. rooted m0 K \<longrightarrow> rooted m (K \<union> set ps)) \<and>
     cg' = cg\<lparr>cg_upgraded := True, cg_length := of_nat m, cg_byte_length := of_nat (byte_size (take m bs)),
       cg_roots := merkle_roots L w (take m bs), cg_nodes := cg_nodes cg @ map (merkle_node L w bs) ps\<rparr>)"

lemma grown_roots: "grown L w bs k m0 cg m cg' \<Longrightarrow> roots_at L w bs m cg'"
  by (auto simp: grown_def roots_at_def)

lemma grown_trans:
  assumes "grown L w bs k m0 cg m cg1" "grown L w bs j m cg1 n cg2" "m \<le> n"
  shows "grown L w bs (k + j) m0 cg n cg2"
proof -
  obtain ps where ps: "\<forall>p\<in>set ps. in_tree m p" "length ps \<le> 63 * k" "\<forall>K. rooted m0 K \<longrightarrow> rooted m (K \<union> set ps)"
    "cg1 = cg\<lparr>cg_upgraded := True, cg_length := of_nat m, cg_byte_length := of_nat (byte_size (take m bs)),
       cg_roots := merkle_roots L w (take m bs), cg_nodes := cg_nodes cg @ map (merkle_node L w bs) ps\<rparr>"
    using assms(1) unfolding grown_def by blast
  obtain qs where qs: "\<forall>p\<in>set qs. in_tree n p" "length qs \<le> 63 * j" "\<forall>K. rooted m K \<longrightarrow> rooted n (K \<union> set qs)"
    "cg2 = cg1\<lparr>cg_upgraded := True, cg_length := of_nat n, cg_byte_length := of_nat (byte_size (take n bs)),
       cg_roots := merkle_roots L w (take n bs), cg_nodes := cg_nodes cg1 @ map (merkle_node L w bs) qs\<rparr>"
    using assms(2) unfolding grown_def by blast
  have "\<forall>p\<in>set (ps @ qs). in_tree n p" using ps(1) qs(1) in_tree_mono [OF _ assms(3)] by auto
  moreover have "\<forall>K. rooted m0 K \<longrightarrow> rooted n (K \<union> set (ps @ qs))" using ps(3) qs(3) by (simp add: Un_assoc [symmetric])
  ultimately show ?thesis using ps(2) qs(2) unfolding grown_def by (intro exI [of _ "ps @ qs"] conjI) (simp_all add: qs(4) ps(4))
qed

lemma byte_size_subtree: "byte_size (take ((off + 1) * 2 ^ d) bs) = byte_size (take (off * 2 ^ d) bs) + subtree_size bs d off"
proof -
  have "take ((off + 1) * 2 ^ d) bs = take (off * 2 ^ d) bs @ slice bs (off * 2 ^ d) (2 ^ d)"
    using take_add [of "off * 2 ^ d" "2 ^ d" bs] by (simp add: slice_def add.commute)
  then show ?thesis by (simp add: byte_size_def subtree_size_def)
qed

lemma merkle_node_take: "in_tree m p \<Longrightarrow> m \<le> length bs \<Longrightarrow> merkle_node L w (take m bs) p = merkle_node L w bs p"
  using merkle_node_extend [of "take m bs" p L w "drop m bs"] by simp

lemma n_index_merkle: "n_index (merkle_node L w bs p) = pos_index p"
  by (cases p) (simp add: pos_index_def)

lemma merkle_roots_take: "m \<le> length bs \<Longrightarrow> merkle_roots L w (take m bs) = map (merkle_node L w bs) (root_positions m)"
  using rchain_positions [OF rchain_root_positions, of _ _ m]
  by (auto simp: merkle_roots_def merkle_node_take in_tree_def min_absorb2)

context libs_laws
begin

lemma append_root_grown:
  assumes roots: "roots_at L w bs (off * 2 ^ d) cg" and le: "(off + 1) * 2 ^ d \<le> length bs" "length bs \<le> 2 ^ 62"
    and it: "ft_at (lib_ft L) it d off"
  shows "\<exists>cg' it' d' off'. append_root L cg (merkle_node L w bs (d, off)) it = Ok (cg', it') \<and>
    grown L w bs 1 (off * 2 ^ d) cg ((off + 1) * 2 ^ d) cg' \<and> ft_at (lib_ft L) it' d' off' \<and> even off' \<and> (off' + 1) * 2 ^ d' = (off + 1) * 2 ^ d"
proof -
  let ?m = "off * 2 ^ d" and ?e = "(off + 1) * 2 ^ d"
  let ?cs = "take ?e bs" and ?N = "merkle_node L w bs"
  have len: "length ?cs = ?e" "?m \<le> ?e" "?m \<le> length bs" using le(1) by simp_all
  define ps where "ps = tl (map (\<lambda>d. (d, length ?cs div 2 ^ d - 1)) [d ..< Suc (trailing_zeros (length ?cs))])"
  have "d \<le> trailing_zeros ?e" by (rule dvd_trailing_zeros) simp_all
  then have all: "(d, off) # ps = merged_positions ?e d"
    unfolding ps_def len(1) merged_positions_def by (simp add: upt_conv_Cons del: upt_Suc)
  have ps: "in_tree ?e p" if "p \<in> set ((d, off) # ps)" for p
    using that merged_iff [of ?e "fst p" "snd p" d] unfolding all by (simp add: in_tree_def)
  have few: "length ((d, off) # ps) \<le> 63"
  proof -
    have "2 ^ trailing_zeros ?e dvd ?e" by (rule trailing_zeros_dvd) simp_all
    then have "2 ^ trailing_zeros ?e \<le> ?e" by (rule dvd_imp_le) simp
    then have "(2 :: nat) ^ trailing_zeros ?e \<le> 2 ^ 62" using le by linarith
    then have "trailing_zeros ?e \<le> 62" using power_le_imp_le_exp [of "2 :: nat" _ 62] by simp
    then show ?thesis unfolding all merged_positions_def length_map length_upt by simp
  qed
  have node: "merkle_node L w ?cs p = ?N p" if "in_tree ?e p" for p using merkle_node_take [OF that le(1)] .
  have old: "in_tree ?e p" if "p \<in> set (root_positions ?m)" for p
    using rchain_positions [OF rchain_root_positions, of "fst p" "snd p" ?m] that len(2) by (simp add: in_tree_def)
  have "cg_roots cg @ [?N (d, off)] = map (merkle_node L w ?cs) (rev (rev (root_positions ?m)) @ [(d, off)])"
    using roots old node ps by (simp add: roots_at_def merkle_roots_take [OF len(3)])
  moreover have "map (merkle_node L w ?cs) ps = map ?N ps" using node ps by simp
  moreover have "rchain ?m (rev (root_positions ?m))" by (rule rchain_root_positions)
  ultimately obtain it' d' off' where loop:
    "append_root_loop L (cg_roots cg @ [?N (d, off)]) (cg_nodes cg @ [?N (d, off)]) it =
      Ok (merkle_roots L w ?cs, (cg_nodes cg @ [?N (d, off)]) @ map ?N ps, it')"
    "ft_at (lib_ft L) it' d' off'" "even off'" "(off' + 1) * 2 ^ d' = ?e"
    using append_root_loop_merkle [of ?cs off d "rev (root_positions ?m)" it "cg_nodes cg @ [?N (d, off)]"] it le len(1)
    unfolding ps_def by auto
  have factor: "ft_factor (lib_ft L) it div 2 = of_nat (2 ^ d)"
  proof -
    have "d \<le> 62" using pos_okI(1) [OF le] by (simp add: pos_ok_def)
    then have "(2 :: nat) ^ d < 2 ^ 64" by (intro power_strict_increasing) simp_all
    then show ?thesis using it by (simp add: ft_at_def word_eq_iff_unat unat_div unat_of_nat64 del: of_nat_power)
  qed
  have "grown L w bs 1 ?m cg ?e (cg\<lparr>cg_upgraded := True, cg_length := cg_length cg + ft_factor (lib_ft L) it div 2,
      cg_byte_length := cg_byte_length cg + n_length (?N (d, off)), cg_roots := merkle_roots L w ?cs,
      cg_nodes := (cg_nodes cg @ [?N (d, off)]) @ map ?N ps\<rparr>)"
  proof -
    have "of_nat ?m + of_nat (2 ^ d) = (of_nat ?e :: u64)" by (simp add: algebra_simps)
    moreover have "of_nat (byte_size (take ?m bs)) + n_length (?N (d, off)) = of_nat (byte_size ?cs)"
      unfolding byte_size_subtree by simp
    moreover have "\<forall>p\<in>set ((d, off) # ps). in_tree ?e p" using ps by blast
    moreover have "\<forall>K. rooted ?m K \<longrightarrow> rooted ?e (K \<union> set ((d, off) # ps))" unfolding all using rooted_append by blast
    moreover have "length ((d, off) # ps) \<le> 63 * 1" using few by simp
    ultimately show ?thesis
      using roots unfolding grown_def roots_at_def factor by (intro exI [of _ "(d, off) # ps"] conjI) (simp_all only: append_assoc append.simps list.map)
  qed
  with loop show ?thesis unfolding append_root_def by auto
qed

section \<open>Verifying an upgrade\<close>

lemma shift_next:
  assumes "drop (nq_i q) (nq_nodes q) = merkle_node L w bs p # ns" "nq_extra q = None"
  shows "\<exists>q'. shift q (pos_index p) = Ok (merkle_node L w bs p, q') \<and> drop (nq_i q') (nq_nodes q') = ns \<and> nq_extra q' = None"
  using assms unfolding drop_Cons_iff by (cases p) (simp add: shift_def Let_def pos_index_def)

lemma feeds_nodes:
  assumes "drop (nq_i q) (nq_nodes q) = map (merkle_node L w bs) ps" "nq_extra q = None"
  shows "\<exists>q'. feeds L w bs q ps q' \<and> nq_extra q' = None"
  using assms
proof (induction ps arbitrary: q)
  case (Cons p ps)
  then obtain q1 where "shift q (pos_index p) = Ok (merkle_node L w bs p, q1)" "drop (nq_i q1) (nq_nodes q1) = map (merkle_node L w bs) ps" "nq_extra q1 = None"
    using shift_next [of q bs p] by auto
  with Cons.IH [of q1] show ?case by auto
qed simp

text \<open>The loop that grows the last root up to a larger one.\<close>

lemma grow_loop_eq:
  assumes "grow_chain m ps e" "roots_at L w bs m cg" "e \<le> length bs" "length bs \<le> 2 ^ 62"
    and "ft_at (lib_ft L) it d off" "even off" "(off + 1) * 2 ^ d = m"
    and "e = (ro + 1) * 2 ^ rd" "even ro" "length ps < fuel" "feeds L w bs q ps q'"
  shows "\<exists>cg' it'. grow_loop L fuel (pos_index (rd, ro)) q cg it = Ok (q', cg', it') \<and>
    (ps = [] \<and> cg' = cg \<or> grown L w bs (length ps) m cg e cg') \<and> ft_at (lib_ft L) it' rd ro"
  using assms
proof (induction ps arbitrary: m cg it d off q fuel)
  case Nil
  obtain f where f: "fuel = Suc f" using Nil.prems(10) by (cases fuel) auto
  have "d = rd \<and> off = ro" using odd_part_unique [of "off + 1" "ro + 1" d rd] Nil.prems(1,6-9) by simp
  then have it: "ft_at (lib_ft L) it rd ro" using Nil.prems(5) by simp
  show ?case
    unfolding f using it at_index [OF it] Nil.prems(11)
    by (intro exI [of _ cg] exI [of _ it]) simp
next
  case (Cons p ps)
  obtain f where f: "fuel = Suc f" using Cons.prems(10) by (cases fuel) auto
  obtain d1 off1 where p: "p = (d1, off1)" by (cases p)
  from Cons.prems(1) have c: "m = off1 * 2 ^ d1" "odd off1" "(off1 + 1) * 2 ^ d1 \<le> e" "grow_chain ((off1 + 1) * 2 ^ d1) ps e"
    by (simp_all add: p)
  have "odd (off + 1)" "off1 * 2 ^ d1 = (off + 1) * 2 ^ d" using Cons.prems(6) c(1) unfolding Cons.prems(7) by simp_all
  from odd_part_unique [OF c(2) this] have same: "d1 = d" "off1 = off + 1" by blast+
  have le: "(off1 + 1) * 2 ^ d1 \<le> length bs" using c(3) Cons.prems(3) by simp
  have ok: "pos_ok d off1" using pos_okI(1) [OF le Cons.prems(4)] same(1) by simp
  then have ok': "pos_ok d off" by (rule pos_ok_mono) (simp add: same(2))
  have okr: "pos_ok rd ro" using pos_okI(1) [of ro rd "length bs"] Cons.prems(3,4,8) by simp
  have "(d, off) \<noteq> (rd, ro)" using Cons.prems(7,8) c(1,3) same by auto
  then have ne: "ft_index (lib_ft L) it \<noteq> pos_index (rd, ro)"
    using pos_index_unat [OF ok'] pos_index_unat [OF okr] at_index [OF Cons.prems(5)] by (metis tree_index_inj)
  have it1: "ft_at (lib_ft L) (ft_sibling (lib_ft L) it) d1 off1"
    using flat.sibling [OF Cons.prems(5) ok'] ok Cons.prems(6) same by (simp add: sibling_offset_def)
  have roots: "roots_at L w bs (off1 * 2 ^ d1) cg" using Cons.prems(2) c(1) by simp
  from append_root_grown [OF roots le Cons.prems(4) it1] obtain cg1 it2 d2 off2 where
    app: "append_root L cg (merkle_node L w bs p) (ft_sibling (lib_ft L) it) = Ok (cg1, it2)"
    "grown L w bs 1 (off1 * 2 ^ d1) cg ((off1 + 1) * 2 ^ d1) cg1" "ft_at (lib_ft L) it2 d2 off2" "even off2" "(off2 + 1) * 2 ^ d2 = (off1 + 1) * 2 ^ d1"
    unfolding p by blast
  obtain q1 where q1: "shift q (pos_index p) = Ok (merkle_node L w bs p, q1)" "feeds L w bs q1 ps q'"
    using Cons.prems(11) by auto
  have idx: "ft_index (lib_ft L) (ft_sibling (lib_ft L) it) = pos_index p" using at_index [OF it1] p by simp
  have "length ps < f" using Cons.prems(10) f by simp
  from Cons.IH [OF c(4) grown_roots [OF app(2)] Cons.prems(3,4) app(3,4,5) Cons.prems(8,9) this q1(2)]
  obtain cg' it' where rec: "grow_loop L f (pos_index (rd, ro)) q1 cg1 it2 = Ok (q', cg', it')"
    "ps = [] \<and> cg' = cg1 \<or> grown L w bs (length ps) ((off1 + 1) * 2 ^ d1) cg1 e cg'" "ft_at (lib_ft L) it' rd ro"
    by blast
  have "grown L w bs (length (p # ps)) m cg e cg'"
    unfolding c(1) using rec(2) grown_trans [OF app(2) _ c(3)] app(2) c(4) by auto
  with rec ne idx q1(1) app(1) show ?case unfolding f by (auto simp: Let_def)
qed

text \<open>The roots behind the ones that are there are appended one after the other.\<close>

lemma root_index_below:
  assumes "i < length (root_positions b)" "b \<le> off * 2 ^ k" "pos_ok k off" "b \<le> 2 ^ 62"
  shows "pos_index (root_positions b ! i) \<noteq> pos_index (k, off)"
proof -
  obtain d o' where p: "root_positions b ! i = (d, o')" by (cases "root_positions b ! i")
  then have "(d, o') \<in> set (root_positions b)" using assms(1) nth_mem by metis
  then have le: "(o' + 1) * 2 ^ d \<le> b" using rchain_positions [OF rchain_root_positions, of d o' b] by simp
  have "tree_index d o' < tree_index k off" using tree_index_bound [of d o'] tree_index_ge [of off k] le assms(2) by simp
  then show ?thesis
    unfolding p using pos_index_unat [OF pos_okI(1) [OF le assms(4)]] pos_index_unat [OF assms(3)] by (metis less_irrefl_nat)
qed

lemma upgrade_tail:
  assumes "root_chain b ps n" "roots_at L w bs b cg" "n \<le> length bs" "length bs \<le> 2 ^ 62"
    and "ft_at (lib_ft L) it 0 b" "unat to = 2 * n" "length ps < fuel" "grow \<longrightarrow> length (cg_roots cg) \<le> i"
    and "feeds L w bs q ps q'"
  shows "\<exists>cg' it'. upgrade_roots_loop L fuel to q cg grow i it = Ok (q', cg', it') \<and>
    (ps = [] \<and> cg' = cg \<or> grown L w bs (length ps) b cg n cg')"
  using assms
proof (induction ps arbitrary: b cg it q fuel grow)
  case Nil
  obtain f where f: "fuel = Suc f" using Nil.prems(7) by (cases fuel) auto
  have "pos_ok 0 b" using Nil.prems(1,3,4) by (simp add: pos_ok_def)
  from flat.full_root_none [OF Nil.prems(5) this, of to] Nil.prems(1,6)
  have "\<not> fst (ft_full_root (lib_ft L) to it)" by simp
  with Nil.prems(9) show ?case unfolding f by (auto simp: case_prod_unfold)
next
  case (Cons p ps)
  obtain f where f: "fuel = Suc f" using Cons.prems(7) by (cases fuel) auto
  obtain k off where p: "p = (k, off)" by (cases p)
  from Cons.prems(1) have c: "b = off * 2 ^ k" "(off + 1) * 2 ^ k \<le> n" "n < (off + 2) * 2 ^ k" "root_chain ((off + 1) * 2 ^ k) ps n"
    by (simp_all add: p)
  have le: "(off + 1) * 2 ^ k \<le> length bs" using c(2) Cons.prems(3) by simp
  have ok: "pos_ok k off" by (rule pos_okI(1) [OF le Cons.prems(4)])
  obtain it1 where it1: "ft_full_root (lib_ft L) to it = (True, it1)" "ft_at (lib_ft L) it1 k off"
    using flat.full_root [OF Cons.prems(5) [unfolded c(1)] ok Cons.prems(6) c(2,3)] by (metis prod.collapse)
  have b62: "b \<le> 2 ^ 62" "b \<le> length bs" using le Cons.prems(4) c(1) by simp_all
  have skip: "\<not> (i < length (cg_roots cg) \<and> n_index (cg_roots cg ! i) = ft_index (lib_ft L) it1)"
    using root_index_below [of i b off k] Cons.prems(2) c(1) ok b62 at_index [OF it1(2)]
    by (auto simp: roots_at_def merkle_roots_take n_index_merkle)
  have roots: "roots_at L w bs (off * 2 ^ k) cg" using Cons.prems(2) c(1) by simp
  from append_root_grown [OF roots le Cons.prems(4) it1(2)] obtain cg1 it2 d2 off2 where
    app: "append_root L cg (merkle_node L w bs p) it1 = Ok (cg1, it2)"
    "grown L w bs 1 (off * 2 ^ k) cg ((off + 1) * 2 ^ k) cg1" "ft_at (lib_ft L) it2 d2 off2" "(off2 + 1) * 2 ^ d2 = (off + 1) * 2 ^ k"
    unfolding p by blast
  obtain q1 where q1: "shift q (ft_index (lib_ft L) it1) = Ok (merkle_node L w bs p, q1)" "feeds L w bs q1 ps q'"
    using Cons.prems(9) at_index [OF it1(2)] p by auto
  have "pos_ok d2 off2" using pos_okI(1) [of off2 d2 "length bs"] app(4) le Cons.prems(4) by simp
  moreover have "pos_ok 0 ((off2 + 1) * 2 ^ d2)" using app(4) le Cons.prems(4) by (simp add: pos_ok_def)
  ultimately have it3: "ft_at (lib_ft L) (ft_next_tree (lib_ft L) it2) 0 ((off + 1) * 2 ^ k)"
    using flat.next_tree [OF app(3)] app(4) by simp
  have "length ps < f" using Cons.prems(7) f by simp
  from Cons.IH [OF c(4) grown_roots [OF app(2)] Cons.prems(3,4) it3 Cons.prems(6) this _ q1(2), of False]
  obtain cg' it' where rec: "upgrade_roots_loop L f to q1 cg1 False i (ft_next_tree (lib_ft L) it2) = Ok (q', cg', it')"
    "ps = [] \<and> cg' = cg1 \<or> grown L w bs (length ps) ((off + 1) * 2 ^ k) cg1 n cg'" by blast
  have "grown L w bs (length (p # ps)) b cg n cg'" unfolding c(1) using rec(2) grown_trans [OF app(2) _ c(2)] app(2) c(4) by auto
  moreover have "upgrade_roots_loop L fuel to q cg grow i it = Ok (q', cg', it')"
    unfolding f using it1(1) skip Cons.prems(8) q1(1) app(1) rec(1) by (auto simp: Let_def)
  ultimately show ?case by blast
qed

text \<open>The root \<open>(k, off)\<close> of the longer log that contains the last block of the shorter one.\<close>

lemma last_root:
  assumes "0 < m"
  obtains d off where "last (root_positions m) = (d, off)" "root_positions m \<noteq> []" "even off" "(off + 1) * 2 ^ d = m"
proof -
  have r: "rchain m (rev (root_positions m))" by (rule rchain_root_positions)
  then obtain d off qs where qs: "rev (root_positions m) = (d, off) # qs" using assms by (cases "rev (root_positions m)") auto
  then have "root_positions m = rev qs @ [(d, off)]" by (metis rev.simps(2) rev_swap)
  with r qs that show thesis by auto
qed

lemma upgrade_grow:
  assumes e: "off * 2 ^ k < m" "m < (off + 1) * 2 ^ k" "even off" "(off + 1) * 2 ^ k \<le> length bs" "length bs \<le> 2 ^ 62"
    and roots: "roots_at L w bs m cg"
    and q: "feeds L w bs q (right_siblings (m - 1) 0 k) q'"
  shows "\<exists>cg' it'. grow_loop L (lib_fuel L) (pos_index (k, off)) q cg (ft_seek (lib_ft L) (n_index (last (cg_roots cg))) it) =
      Ok (q', cg', it') \<and> grown L w bs (length (right_siblings (m - 1) 0 k)) m cg ((off + 1) * 2 ^ k) cg' \<and> ft_at (lib_ft L) it' k off"
proof -
  have m: "0 < m" "m \<le> length bs" using e by linarith+
  have rootsm: "cg_roots cg = map (merkle_node L w bs) (root_positions m)"
    using roots m(2) by (simp add: roots_at_def merkle_roots_take)
  obtain d o' where l: "last (root_positions m) = (d, o')" "root_positions m \<noteq> []" "even o'" "(o' + 1) * 2 ^ d = m"
    using last_root [OF m(1)] by blast
  have okl: "pos_ok d o'" using pos_okI(1) [of o' d "length bs"] l(4) m(2) e(5) by simp
  have "n_index (last (cg_roots cg)) = pos_index (d, o')" using l(1,2) by (simp add: rootsm last_map n_index_merkle)
  then have at: "ft_at (lib_ft L) (ft_seek (lib_ft L) (n_index (last (cg_roots cg))) it) d o'"
    using flat.seek [OF pos_index_unat [OF okl] okl] by simp
  have "(m - 1) div 2 ^ k = off"
    using e(1,2) by (intro div_nat_eqI) (simp_all add: algebra_simps)
  then have chain: "grow_chain m (right_siblings (m - 1) 0 k) ((off + 1) * 2 ^ k)"
    using right_siblings_grow [of "m - 1" 0 k] m(1) by simp
  have k: "k \<le> 62" using pos_okI(1) [OF e(4,5)] by (simp add: pos_ok_def)
  have "length (right_siblings (m - 1) 0 k) \<le> k"
    using length_filter_le [of "\<lambda>j. even ((m - 1) div 2 ^ j)" "[0 ..< k]"] by (simp add: right_siblings_def)
  then have fuel: "length (right_siblings (m - 1) 0 k) < lib_fuel L" using enough_fuel k by simp
  have "right_siblings (m - 1) 0 k \<noteq> []" using chain e(2) by (cases "right_siblings (m - 1) 0 k") auto
  then show ?thesis
    using grow_loop_eq [OF chain roots e(4,5) at l(3,4) refl e(3) fuel q] by blast
qed

text \<open>The step at the root that contains the last block of the shorter log.\<close>

lemma upgrade_roots_inside:
  assumes chain: "root_chain b ((k, off) # ps) n" "root_chain b rs m" "root_positions m = pre @ rs" "roots_at L w bs m cg"
    and le: "m \<le> n" "n \<le> length bs" "length bs \<le> 2 ^ 62" and it: "ft_at (lib_ft L) it 0 b" "unat to = 2 * n" "length ps < f"
    and inside: "b < m" "m < (off + 1) * 2 ^ k" and q: "feeds L w bs q (right_siblings (m - 1) 0 k @ ps) q'"
  shows "\<exists>cg' it'. upgrade_roots_loop L (Suc f) to q cg True (length pre) it = Ok (q', cg', it') \<and>
    grown L w bs (length (right_siblings (m - 1) 0 k @ ps)) m cg n cg'"
proof -
  let ?e = "(off + 1) * 2 ^ k"
  from chain(1) have c: "b = off * 2 ^ k" "?e \<le> n" "n < (off + 2) * 2 ^ k" "root_chain ?e ps n" "even off" by simp_all
  have le': "?e \<le> length bs" using c(2) le(2) by simp
  have ok: "pos_ok k off" "pos_ok 0 ?e" using pos_okI(1) [OF le' le(3)] le' le(3) by (simp_all add: pos_ok_def)
  obtain it1 where it1: "ft_full_root (lib_ft L) to it = (True, it1)" "ft_at (lib_ft L) it1 k off"
    using flat.full_root [OF it(1) [unfolded c(1)] ok(1) it(2) c(2,3)] by (metis prod.collapse)
  have rootsm: "cg_roots cg = map (merkle_node L w bs) (root_positions m)"
    using chain(4) le(1,2) by (simp add: roots_at_def merkle_roots_take)
  obtain k' off' rs' where rs: "rs = (k', off') # rs'"
  proof (cases rs)
    case Nil
    then show ?thesis using chain(2) inside(1) that by simp
  next
    case (Cons x rs')
    then show ?thesis using that by (cases x) auto
  qed
  have le'': "(off' + 1) * 2 ^ k' \<le> m" using chain(2) rs by simp
  then have "(k', off') \<noteq> (k, off)" using inside(2) by auto
  moreover have "pos_ok k' off'" using pos_okI(1) [of off' k' "length bs"] le'' le by simp
  ultimately have "pos_index (k', off') \<noteq> pos_index (k, off)"
    using pos_index_unat [OF ok(1)] pos_index_unat [of k' off'] by (metis tree_index_inj)
  then have skip: "length pre < length (cg_roots cg)" "n_index (cg_roots cg ! length pre) \<noteq> ft_index (lib_ft L) it1"
    using chain(3) rs at_index [OF it1(2)] by (simp_all add: rootsm nth_append n_index_merkle)
  obtain q1 where q1: "feeds L w bs q (right_siblings (m - 1) 0 k) q1" "feeds L w bs q1 ps q'"
    using q unfolding feeds_append by blast
  from upgrade_grow [OF inside(1) [unfolded c(1)] inside(2) c(5) le' le(3) chain(4) q1(1), of it1]
  obtain cg1 it2 where g: "grow_loop L (lib_fuel L) (pos_index (k, off)) q cg (ft_seek (lib_ft L) (n_index (last (cg_roots cg))) it1) =
      Ok (q1, cg1, it2)" "grown L w bs (length (right_siblings (m - 1) 0 k)) m cg ?e cg1" "ft_at (lib_ft L) it2 k off" by blast
  from upgrade_tail [OF c(4) grown_roots [OF g(2)] le(2,3) flat.next_tree [OF g(3) ok] it(2,3), of False "length pre" q1 q'] q1(2)
  obtain cg' it' where tl: "upgrade_roots_loop L f to q1 cg1 False (length pre) (ft_next_tree (lib_ft L) it2) = Ok (q', cg', it')"
    "ps = [] \<and> cg' = cg1 \<or> grown L w bs (length ps) ?e cg1 n cg'" by auto
  have "grown L w bs (length (right_siblings (m - 1) 0 k @ ps)) m cg n cg'" using tl(2) grown_trans [OF g(2) _ c(2)] g(2) c(4) by auto
  moreover have "upgrade_roots_loop L (Suc f) to q cg True (length pre) it = Ok (q', cg', it')"
    using it1 skip g(1) tl(1) at_index [OF it1(2)] by (simp add: Let_def)
  ultimately show ?thesis by blast
qed

text \<open>From the start: roots that both logs have are passed over, the root that contains the last
  block of the shorter log is grown, the rest is appended.\<close>

lemma upgrade_roots_eq:
  assumes "root_chain b ps n" "root_chain b rs m" "root_positions m = pre @ rs" "roots_at L w bs m cg" "0 < m" "m \<le> n"
    and "n \<le> length bs" "length bs \<le> 2 ^ 62" "ft_at (lib_ft L) it 0 b" "unat to = 2 * n" "length ps < fuel"
    and "feeds L w bs q (upgrade_positions m ps) q'"
  shows "\<exists>cg' it'. upgrade_roots_loop L fuel to q cg True (length pre) it = Ok (q', cg', it') \<and>
    (m = n \<and> cg' = cg \<or> grown L w bs (length (upgrade_positions m ps)) m cg n cg')"
proof -
  have rootsm: "cg_roots cg = map (merkle_node L w bs) (root_positions m)"
    using assms(4,6,7) by (simp add: roots_at_def merkle_roots_take)
  then have count: "length (cg_roots cg) = length (root_positions m)" by simp
  show ?thesis
  using assms(1-3,9,11,12)
proof (induction ps arbitrary: b rs pre it fuel)
  case Nil
  then have "b = n" "m = n" using root_chain_le [OF Nil.prems(2)] assms(6) by simp_all
  moreover from this have "rs = []" using Nil.prems(2) by (cases rs) auto
  moreover from this have "length (cg_roots cg) \<le> length pre" using count Nil.prems(3) by simp
  ultimately show ?case
    using upgrade_tail [of b "[]" n bs cg it to fuel True "length pre" q q'] Nil.prems assms(4,7,8,10) by simp
next
  case (Cons p ps)
  obtain f where f: "fuel = Suc f" using Cons.prems(5) by (cases fuel) auto
  obtain k off where p: "p = (k, off)" by (cases p)
  let ?e = "(off + 1) * 2 ^ k"
  from Cons.prems(1) have c: "b = off * 2 ^ k" "?e \<le> n" "n < (off + 2) * 2 ^ k" "root_chain ?e ps n"
    by (simp_all add: p)
  have le: "?e \<le> length bs" using c(2) assms(7) by simp
  have ok: "pos_ok k off" "pos_ok 0 ?e" using pos_okI(1) [OF le assms(8)] le assms(8) by (simp_all add: pos_ok_def)
  obtain it1 where it1: "ft_full_root (lib_ft L) to it = (True, it1)" "ft_at (lib_ft L) it1 k off"
    using flat.full_root [OF Cons.prems(4) [unfolded c(1)] ok(1) assms(10) c(2,3)] by (metis prod.collapse)
  have next_it: "ft_at (lib_ft L) (ft_next_tree (lib_ft L) it') 0 ?e" if "ft_at (lib_ft L) it' k off" for it'
    using flat.next_tree [OF that ok] .
  have fuel: "length ps < f" using Cons.prems(5) f by simp
  have bm: "b \<le> m" using root_chain_le [OF Cons.prems(2)] .
  consider "?e \<le> m" | "\<not> ?e \<le> m" "b < m" | "\<not> ?e \<le> m" "b = m" using bm by linarith
  then show ?case
  proof cases
    case 1
    obtain rs' where rs': "rs = (k, off) # rs'" "root_chain ?e rs' m"
      using root_chain_same [OF Cons.prems(1) [unfolded p] Cons.prems(2) 1 assms(6)] by blast
    have "cg_roots cg ! length pre = merkle_node L w bs (k, off)" "length pre < length (cg_roots cg)"
      using Cons.prems(3) rs'(1) by (simp_all add: rootsm nth_append)
    then have "upgrade_roots_loop L fuel to q cg True (length pre) it =
        upgrade_roots_loop L f to q cg True (length (pre @ [(k, off)])) (ft_next_tree (lib_ft L) it1)"
      unfolding f using it1 at_index [OF it1(2)] by (simp add: n_index_merkle)
    with Cons.IH [OF c(4) rs'(2) _ next_it [OF it1(2)] fuel] Cons.prems(3,6) rs'(1) 1 show ?thesis by (simp add: p)
  next
    case 2
    have "upgrade_positions m (p # ps) = right_siblings (m - 1) 0 k @ ps" using 2 c(1) by (simp add: p)
    then have q: "feeds L w bs q (right_siblings (m - 1) 0 k @ ps) q'" using Cons.prems(6) by simp
    have "m < ?e" using 2(1) by simp
    from upgrade_roots_inside [OF Cons.prems(1) [unfolded p] Cons.prems(2,3) assms(4,6-8) Cons.prems(4) assms(10) fuel 2(2) this q]
    show ?thesis unfolding f \<open>upgrade_positions m (p # ps) = right_siblings (m - 1) 0 k @ ps\<close> by blast
  next
    case 3
    then have "rs = []" using Cons.prems(2) by (cases rs) auto
    then have "length (cg_roots cg) \<le> length pre" using count Cons.prems(3) by simp
    moreover have "upgrade_positions m (p # ps) = p # ps" using 3 c(1) by (simp add: p)
    ultimately show ?thesis
      using upgrade_tail [of b "p # ps" n bs cg it to fuel True "length pre" q q'] Cons.prems assms(4,7,8,10) 3 by simp blast
  qed
qed
qed

lemma upgrade_loop_complete:
  assumes "roots_at L w bs m cg" "m < n" "n \<le> length bs" "length bs \<le> 2 ^ 62" "unat to = 2 * n"
    and "feeds L w bs q (upgrade_positions m (root_positions n)) q'"
  shows "\<exists>cg' it'. upgrade_roots_loop L (lib_fuel L) to q cg (cg_roots cg \<noteq> []) 0 (ft_new (lib_ft L) 0) = Ok (q', cg', it') \<and>
    grown L w bs (length (upgrade_positions m (root_positions n))) m cg n cg'"
proof -
  have at: "ft_at (lib_ft L) (ft_new (lib_ft L) 0) 0 0" using flat.new [of 0 0 0] by (simp add: pos_ok_def)
  have "length (root_positions n) \<le> 63"
    using root_chain_length [OF root_chain_roots, of n 63] assms(3,4) by simp
  then have fuel: "length (root_positions n) < lib_fuel L" using enough_fuel by simp
  show ?thesis
  proof (cases "m = 0")
    case True
    have "cg_roots cg = []" using assms(1) True by (simp add: roots_at_def merkle_roots_def root_positions.simps)
    moreover have "root_positions n \<noteq> []" using root_chain_roots [of n] assms(2) by auto
    ultimately show ?thesis
      using upgrade_tail [OF root_chain_roots _ assms(3,4) at assms(5) fuel, of cg False 0 q q'] assms(1,6) True by auto
  next
    case False
    then have "cg_roots cg \<noteq> []" using assms(1-3) last_root [of m] by (auto simp: roots_at_def merkle_roots_take)
    moreover have m: "0 < m" "m \<le> n" using False assms(2) by simp_all
    from upgrade_roots_eq [OF root_chain_roots root_chain_roots _ assms(1) m assms(3,4) at assms(5) fuel assms(6), of "[]"]
    obtain cg' it' where "upgrade_roots_loop L (lib_fuel L) to q cg True 0 (ft_new (lib_ft L) 0) = Ok (q', cg', it')"
      "grown L w bs (length (upgrade_positions m (root_positions n))) m cg n cg'" using assms(2) by auto
    ultimately show ?thesis by auto
  qed
qed

end

end
