(* ===== verification/Upgrade_Extra.thy ===== *)
theory Upgrade_Extra
  imports Upgrade_Verify
begin

text \<open>
  The nodes behind an upgrade: an author whose log is longer than what the peer asked for adds the
  subtrees that lead to the log it has signed.  The peer appends them by two loops, one that grows
  its last root and one that descends to each further root.
\<close>

declare split_paired_All [simp del] split_paired_Ex [simp del]

section \<open>The two parts of an upgrade\<close>

text \<open>The subtrees that lead from \<open>m\<close> blocks to \<open>n\<close>: right siblings up to the end of a root, and the roots
  behind it.\<close>

lemma upgrade_parts:
  assumes "root_chain b ps n" "b \<le> m" "m \<le> n"
  shows "\<exists>xs e ys. upgrade_positions m ps = xs @ ys \<and> grow_chain m xs e \<and> root_chain e ys n"
  using assms
proof (induction b ps n rule: root_chain.induct)
  case (1 b n)
  then have "upgrade_positions m [] = [] @ [] \<and> grow_chain m [] m \<and> root_chain m [] n" by simp
  then show ?case by blast
next
  case (2 b k off ps n)
  note c = "2.prems"(1)
  consider "(off + 1) * 2 ^ k \<le> m" | "off * 2 ^ k < m" "m < (off + 1) * 2 ^ k" | "m = off * 2 ^ k"
    using c "2.prems"(2) by fastforce
  then show ?case
  proof cases
    case 1
    then show ?thesis using "2.IH" "2.prems" by (simp del: mult_Suc add_mult_distrib)
  next
    case 2
    have "(m - 1) div 2 ^ k = off" using 2 by (intro div_nat_eqI) (simp_all add: algebra_simps)
    then have "grow_chain m (right_siblings (m - 1) 0 k) ((off + 1) * 2 ^ k)"
      using right_siblings_grow [of "m - 1" 0 k] 2(1) by simp
    moreover have "upgrade_positions m ((k, off) # ps) = right_siblings (m - 1) 0 k @ ps" using 2 by simp
    ultimately show ?thesis using c by (metis root_chain.simps(2))
  next
    case 3
    then have "upgrade_positions m ((k, off) # ps) = [] @ (k, off) # ps \<and> grow_chain m [] m \<and> root_chain m ((k, off) # ps) n"
      using c by simp
    then show ?thesis by blast
  qed
qed

text \<open>A root behind the end of an even one is a subtree of its sibling.\<close>

lemma root_below_sibling:
  assumes "o' * 2 ^ k = (off + 1) * 2 ^ d" "even o'" "even (off :: nat)"
  obtains j where "d = k + Suc j" "o' = (off + 1) * 2 ^ Suc j"
proof -
  have "k < d"
  proof (rule ccontr)
    assume "\<not> k < d"
    then obtain i where "k = d + i" using le_Suc_ex not_less by metis
    with assms(1) have "o' * 2 ^ i * 2 ^ d = (off + 1) * 2 ^ d" by (simp add: power_add mult_ac)
    then have "o' * 2 ^ i = off + 1" by (simp only: mult_cancel2) simp
    with assms(2,3) show False by (metis even_mult_iff odd_add odd_one)
  qed
  then obtain j where j: "d = k + Suc j" using less_imp_Suc_add by fastforce
  with assms(1) have "o' * 2 ^ k = (off + 1) * 2 ^ Suc j * 2 ^ k" by (simp add: power_add algebra_simps)
  then have "o' = (off + 1) * 2 ^ Suc j" by (simp only: mult_cancel2) simp
  with j that show thesis by blast
qed

context libs_laws
begin

lemma descend_to_eq:
  assumes "ft_at (lib_ft L) it (k + j) off" "pos_ok (k + j) off" "j < fuel"
  shows "\<exists>it'. descend_to L fuel (pos_index (k, off * 2 ^ j)) it = Ok it' \<and> ft_at (lib_ft L) it' k (off * 2 ^ j)"
  using assms
proof (induction j arbitrary: it off fuel)
  case 0
  then obtain f where "fuel = Suc f" by (cases fuel) auto
  with 0 show ?case using at_index [OF "0.prems"(1)] by simp
next
  case (Suc j)
  obtain f where f: "fuel = Suc f" using Suc.prems(3) by (cases fuel) auto
  have at: "ft_at (lib_ft L) it (Suc (k + j)) off" "pos_ok (Suc (k + j)) off" using Suc.prems(1,2) by simp_all
  have "(2 :: nat) ^ k \<le> 2 ^ Suc (k + j)" by (intro power_increasing) simp_all
  then have le: "(off * 2 ^ Suc j + 1) * 2 ^ k \<le> (off + 1) * 2 ^ Suc (k + j)" by (simp add: power_add algebra_simps)
  have ok: "pos_ok (k + j) (2 * off)" using at(2) by (auto simp: pos_ok_def power_add algebra_simps)
  have ok': "pos_ok k (off * 2 ^ Suc j)" using at(2) le unfolding pos_ok_def by linarith
  have "(k, off * 2 ^ Suc j) \<noteq> (Suc (k + j), off)" by simp
  then have ne: "pos_index (k, off * 2 ^ Suc j) \<noteq> ft_index (lib_ft L) it"
    using pos_index_unat [OF ok'] pos_index_unat [OF at(2)] at_index [OF at(1)] by (metis tree_index_inj prod.inject)
  have "unat (ft_factor (lib_ft L) it) \<noteq> 2" using at(1) by (simp add: ft_at_def)
  then have factor: "ft_factor (lib_ft L) it \<noteq> 2" by auto
  have "2 * off * 2 ^ j = off * 2 ^ Suc j" by simp
  with Suc.IH [OF flat.left_child [OF at] ok, of f] Suc.prems(3) f ne factor show ?case by simp
qed

text \<open>A later root differs from the sibling of the last one.\<close>

lemma extra_siblings_eq:
  assumes "grow_chain m xs e" "root_chain e ys n" "roots_at L w bs m cg" "n \<le> length bs" "length bs \<le> 2 ^ 62"
    and "ft_at (lib_ft L) it d off" "even off" "(off + 1) * 2 ^ d = m"
  shows "\<exists>cg' it'. extra_siblings L (map (merkle_node L w bs) (xs @ ys)) cg it = Ok (map (merkle_node L w bs) ys, cg', it') \<and>
    (xs = [] \<and> cg' = cg \<or> grown L w bs (length xs) m cg e cg') \<and>
    (ys \<noteq> [] \<longrightarrow> (\<exists>d' off'. ft_at (lib_ft L) it' d' (off' + 1) \<and> even off' \<and> (off' + 1) * 2 ^ d' = e))"
  using assms
proof (induction xs arbitrary: m cg it d off)
  case Nil
  show ?case
  proof (cases ys)
    case Nil
    then show ?thesis by auto
  next
    case (Cons p zs)
    obtain k o' where p: "p = (k, o')" by (cases p)
    have c: "o' * 2 ^ k = (off + 1) * 2 ^ d" "even o'" "(o' + 1) * 2 ^ k \<le> length bs" "(off + 1) * 2 ^ d \<le> length bs"
      using Nil.prems(1,2,4,8) Cons p by auto
    have ok: "pos_ok d off" "pos_ok d (off + 1)" "pos_ok k o'" using pos_okI [OF c(4) Nil.prems(5)] pos_okI(1) [OF c(3) Nil.prems(5)] by simp_all
    have it1: "ft_at (lib_ft L) (ft_sibling (lib_ft L) it) d (off + 1)"
      using flat.sibling [OF Nil.prems(6) ok(1)] ok(2) Nil.prems(7) by (simp add: sibling_offset_def)
    obtain j where "d = k + Suc j" by (rule root_below_sibling [OF c(1,2) Nil.prems(7)])
    then have "tree_index k o' \<noteq> tree_index d (off + 1)" by (simp add: tree_index_inj)
    then have "n_index (merkle_node L w bs p) \<noteq> ft_index (lib_ft L) (ft_sibling (lib_ft L) it)"
      using pos_index_unat [OF ok(3)] pos_index_unat [OF ok(2)] at_index [OF it1] unfolding n_index_merkle p by metis
    then have "extra_siblings L (map (merkle_node L w bs) ([] @ ys)) cg it = Ok (map (merkle_node L w bs) ys, cg, ft_sibling (lib_ft L) it)"
      by (simp add: Cons Let_def)
    moreover have "(off + 1) * 2 ^ d = e" using Nil.prems(1,8) by simp
    ultimately show ?thesis using it1 Nil.prems(7) by blast
  qed
next
  case (Cons p xs)
  obtain d1 off1 where p: "p = (d1, off1)" by (cases p)
  from Cons.prems(1) have c: "m = off1 * 2 ^ d1" "odd off1" "(off1 + 1) * 2 ^ d1 \<le> e" "grow_chain ((off1 + 1) * 2 ^ d1) xs e"
    by (simp_all add: p)
  have "odd (off + 1)" "off1 * 2 ^ d1 = (off + 1) * 2 ^ d" using Cons.prems(7) c(1) unfolding Cons.prems(8) by simp_all
  from odd_part_unique [OF c(2) this] have same: "d1 = d" "off1 = off + 1" by blast+
  have le: "(off1 + 1) * 2 ^ d1 \<le> length bs" using c(3) root_chain_le [OF Cons.prems(2)] Cons.prems(4) by simp
  have ok: "pos_ok d off1" using pos_okI(1) [OF le Cons.prems(5)] same(1) by simp
  then have ok': "pos_ok d off" by (rule pos_ok_mono) (simp add: same(2))
  have it1: "ft_at (lib_ft L) (ft_sibling (lib_ft L) it) d1 off1"
    using flat.sibling [OF Cons.prems(6) ok'] ok Cons.prems(7) same by (simp add: sibling_offset_def)
  have roots: "roots_at L w bs (off1 * 2 ^ d1) cg" using Cons.prems(3) c(1) by simp
  from append_root_grown [OF roots le Cons.prems(5) it1] obtain cg1 it2 d2 off2 where
    app: "append_root L cg (merkle_node L w bs p) (ft_sibling (lib_ft L) it) = Ok (cg1, it2)"
    "grown L w bs 1 (off1 * 2 ^ d1) cg ((off1 + 1) * 2 ^ d1) cg1" "ft_at (lib_ft L) it2 d2 off2" "even off2" "(off2 + 1) * 2 ^ d2 = (off1 + 1) * 2 ^ d1"
    unfolding p by blast
  have idx: "ft_index (lib_ft L) (ft_sibling (lib_ft L) it) = n_index (merkle_node L w bs p)"
    using at_index [OF it1] p by (simp add: n_index_merkle)
  from Cons.IH [OF c(4) Cons.prems(2) grown_roots [OF app(2)] Cons.prems(4,5) app(3,4,5)]
  obtain cg' it' where rec: "extra_siblings L (map (merkle_node L w bs) (xs @ ys)) cg1 it2 = Ok (map (merkle_node L w bs) ys, cg', it')"
    "xs = [] \<and> cg' = cg1 \<or> grown L w bs (length xs) ((off1 + 1) * 2 ^ d1) cg1 e cg'"
    "ys \<noteq> [] \<longrightarrow> (\<exists>d' off'. ft_at (lib_ft L) it' d' (off' + 1) \<and> even off' \<and> (off' + 1) * 2 ^ d' = e)" by blast
  have "grown L w bs (length (p # xs)) m cg e cg'" unfolding c(1) using rec(2) grown_trans [OF app(2) _ c(3)] app(2) c(4) by auto
  with rec idx app(1) show ?case by (auto simp: Let_def)
qed

lemma extra_roots_eq:
  assumes "root_chain e ys n" "roots_at L w bs e cg" "n \<le> length bs" "length bs \<le> 2 ^ 62"
    and "ys \<noteq> [] \<longrightarrow> (\<exists>d off. ft_at (lib_ft L) it d (off + 1) \<and> even off \<and> (off + 1) * 2 ^ d = e)"
  shows "\<exists>cg'. extra_roots L (map (merkle_node L w bs) ys) cg it = Ok cg' \<and> (ys = [] \<and> cg' = cg \<or> grown L w bs (length ys) e cg n cg')"
  using assms
proof (induction ys arbitrary: e cg it)
  case (Cons p ys)
  obtain k o' where p: "p = (k, o')" by (cases p)
  obtain d off where at: "ft_at (lib_ft L) it d (off + 1)" "even off" "(off + 1) * 2 ^ d = e" using Cons.prems(5) by blast
  from Cons.prems(1) have c: "e = o' * 2 ^ k" "even o'" "(o' + 1) * 2 ^ k \<le> n" "root_chain ((o' + 1) * 2 ^ k) ys n" by (simp_all add: p)
  have le: "(o' + 1) * 2 ^ k \<le> length bs" "(off + 1) * 2 ^ d \<le> length bs" using c(1,3) at(3) Cons.prems(3) by simp_all
  have ok: "pos_ok d (off + 1)" using pos_okI(2) [OF le(2) Cons.prems(4)] .
  obtain j where j: "d = k + Suc j" "o' = (off + 1) * 2 ^ Suc j"
    using root_below_sibling [of o' k off d] c(1,2) at(2,3) by metis
  have "d \<le> 62" using ok by (simp add: pos_ok_def)
  then have "Suc j < lib_fuel L" using j(1) enough_fuel by simp
  from descend_to_eq [OF at(1) [unfolded j(1)] ok [unfolded j(1)] this] j(2)
  obtain it1 where it1: "descend_to L (lib_fuel L) (pos_index (k, o')) it = Ok it1" "ft_at (lib_ft L) it1 k o'" by auto
  have roots: "roots_at L w bs (o' * 2 ^ k) cg" using Cons.prems(2) c(1) by simp
  from append_root_grown [OF roots le(1) Cons.prems(4) it1(2)] obtain cg1 it2 d2 off2 where
    app: "append_root L cg (merkle_node L w bs p) it1 = Ok (cg1, it2)"
    "grown L w bs 1 (o' * 2 ^ k) cg ((o' + 1) * 2 ^ k) cg1" "ft_at (lib_ft L) it2 d2 off2" "even off2" "(off2 + 1) * 2 ^ d2 = (o' + 1) * 2 ^ k"
    unfolding p by blast
  have "ft_at (lib_ft L) (ft_sibling (lib_ft L) it2) d2 (off2 + 1)"
    using flat.sibling [OF app(3)] pos_okI [of off2 d2 "length bs"] app(4,5) le(1) Cons.prems(4) by (simp add: sibling_offset_def)
  with app(4,5) Cons.IH [OF c(4) grown_roots [OF app(2)] Cons.prems(3,4), of "ft_sibling (lib_ft L) it2"]
  obtain cg' where rec: "extra_roots L (map (merkle_node L w bs) ys) cg1 (ft_sibling (lib_ft L) it2) = Ok cg'"
    "ys = [] \<and> cg' = cg1 \<or> grown L w bs (length ys) ((o' + 1) * 2 ^ k) cg1 n cg'" by blast
  have "grown L w bs (length (p # ys)) e cg n cg'" unfolding c(1) using rec(2) grown_trans [OF app(2) _ c(3)] app(2) c(4) by auto
  with rec it1 app(1) show ?case by (simp add: n_index_merkle p)
qed simp

section \<open>Accepting an upgrade\<close>

lemma length_upgrade_positions: "root_chain b ps n \<Longrightarrow> n \<le> 2 ^ 62 \<Longrightarrow> length ps \<le> k \<Longrightarrow> length (upgrade_positions m ps) \<le> k + 62"
proof (induction b ps n arbitrary: k rule: root_chain.induct)
  case (2 b d off ps n)
  have "d \<le> 62" using "2.prems" pos_okI(1) [of off d n] by (auto simp: pos_ok_def)
  moreover have "length (right_siblings (m - 1) 0 d) \<le> d"
    using length_filter_le [of "\<lambda>j. even ((m - 1) div 2 ^ j)" "[0 ..< d]"] by (simp add: right_siblings_def)
  ultimately show ?case using "2.IH" [of k] "2.prems" by auto
qed simp

lemma upgrade_count: "n \<le> 2 ^ 62 \<Longrightarrow> length (upgrade_positions m (root_positions n)) \<le> 125"
  using length_upgrade_positions [OF root_chain_roots, of n 63 m] root_chain_length [OF root_chain_roots, of n 63] by simp

text \<open>A peer with \<open>m\<close> blocks that asked for the first \<open>n\<close> of a longer log ends with the whole log.\<close>

lemma verify_upgrade_complete:
  assumes cg: "roots_at L w bs m cg" and n: "m < n" "n \<le> length bs" "length bs \<le> 2 ^ 62"
    and u: "unat (du_start u) + unat (du_length u) = n" "du_signature u = tree_signature L w sk bs"
      "du_additional_nodes u = map (merkle_node L w bs) (upgrade_positions n (root_positions (length bs)))"
    and q: "feeds L w bs (node_queue_new (du_nodes u) block_root) (upgrade_positions m (root_positions n)) q'"
  shows "\<exists>cg'. grown L w bs (length (upgrade_positions m (root_positions n)) + length (upgrade_positions n (root_positions (length bs)))) m cg (length bs) cg' \<and>
    verify_upgrade L 0 u block_root (cr_verifying_key (lib_cr L) sk) cg =
      Ok (nq_extra q' = None, cg'\<lparr>cg_fork := 0, cg_hash := Some (tree_hash L w bs), cg_signature := Some (tree_signature L w sk bs)\<rparr>)"
proof -
  let ?q = "node_queue_new (du_nodes u) block_root" and ?to = "2 * (du_start u + du_length u)"
  have "unat (du_start u + du_length u) = n" using u(1) n(2,3) by (simp add: unat_add_small)
  then have to: "unat ?to = 2 * n" using n(2,3) by (simp add: unat_mult_small del: distrib_left_numeral)
  obtain cg1 it1 where loop: "upgrade_roots_loop L (lib_fuel L) ?to ?q cg (cg_roots cg \<noteq> []) 0 (ft_new (lib_ft L) 0) = Ok (q', cg1, it1)"
    "grown L w bs (length (upgrade_positions m (root_positions n))) m cg n cg1"
    using upgrade_loop_complete [OF cg n to q] by auto
  have roots1: "cg_roots cg1 = map (merkle_node L w bs) (root_positions n)"
    using grown_roots [OF loop(2)] n(2) by (simp add: roots_at_def merkle_roots_take)
  have "0 < n" using n(1) by simp
  from last_root [OF this] obtain d off where l: "last (root_positions n) = (d, off)" "root_positions n \<noteq> []" "even off" "(off + 1) * 2 ^ d = n" by blast
  have "pos_ok d off" using pos_okI(1) [of off d "length bs"] l(4) n(2,3) by simp
  then have at: "ft_at (lib_ft L) (ft_seek (lib_ft L) (n_index (last (cg_roots cg1))) it1) d off"
    using flat.seek [OF pos_index_unat] l(1,2) by (simp add: roots1 last_map n_index_merkle)
  obtain xs e ys where parts: "upgrade_positions n (root_positions (length bs)) = xs @ ys" "grow_chain n xs e" "root_chain e ys (length bs)"
    using upgrade_parts [OF root_chain_roots _ n(2)] by blast
  from extra_siblings_eq [OF parts(2,3) grown_roots [OF loop(2)] order_refl n(3) at l(3,4)]
  obtain cg2 it2 where sib: "extra_siblings L (map (merkle_node L w bs) (xs @ ys)) cg1 (ft_seek (lib_ft L) (n_index (last (cg_roots cg1))) it1) =
      Ok (map (merkle_node L w bs) ys, cg2, it2)" "xs = [] \<and> cg2 = cg1 \<or> grown L w bs (length xs) n cg1 e cg2"
    "ys \<noteq> [] \<longrightarrow> (\<exists>d' off'. ft_at (lib_ft L) it2 d' (off' + 1) \<and> even off' \<and> (off' + 1) * 2 ^ d' = e)" by blast
  have cg2: "grown L w bs (length (upgrade_positions m (root_positions n)) + length xs) m cg e cg2" using sib(2) loop(2) grown_trans [OF loop(2) _ grow_chain_le [OF parts(2)]] parts(2) by auto
  from extra_roots_eq [OF parts(3) grown_roots [OF cg2] order_refl n(3) sib(3)]
  obtain cg' where ex: "extra_roots L (map (merkle_node L w bs) ys) cg2 it2 = Ok cg'" "ys = [] \<and> cg' = cg2 \<or> grown L w bs (length ys) e cg2 (length bs) cg'" by blast
  have g: "grown L w bs (length (upgrade_positions m (root_positions n)) + length (upgrade_positions n (root_positions (length bs)))) m cg (length bs) cg'"
    unfolding parts(1) using ex(2) cg2 grown_trans [OF cg2 _ root_chain_le [OF parts(3)]] parts(3) by (auto simp: add.assoc)
  then have "cg_roots cg' = merkle_roots L w bs" "cg_length cg' = of_nat (length bs)"
    using grown_roots [OF g] by (simp_all add: roots_at_def)
  then have "verify_and_set_signature L (cg'\<lparr>cg_fork := 0\<rparr>) (tree_signature L w sk bs) (cr_verifying_key (lib_cr L) sk) =
      Ok (cg'\<lparr>cg_fork := 0, cg_hash := Some (tree_hash L w bs), cg_signature := Some (tree_signature L w sk bs)\<rparr>)"
    using hash_and_sign_eq [of "cg'\<lparr>cg_fork := 0\<rparr>" bs sk] sign_then_verify [of "cg'\<lparr>cg_fork := 0\<rparr>" sk] by simp
  moreover have "cg_roots cg1 \<noteq> []" using l(2) by (simp add: roots1)
  ultimately show ?thesis
    using loop(1) sib(1) ex(1) u(2,3) parts(1) g unfolding verify_upgrade_def by (auto simp: Let_def)
qed

end

end
