(* ===== verification/Upgrade_Create.thy ===== *)
theory Upgrade_Create
  imports Upgrade_Extra
begin

text \<open>
  The author's side of an upgrade: the walk over the roots that collects the subtrees behind block
  \<open>m\<close> up to block \<open>n\<close>, and the nodes that lead from there to the whole log.  A block that is asked
  for along with the upgrade is proved up to the subtree of the upgrade that contains it, which the
  upgrade then leaves out.
\<close>

declare split_paired_All [simp del] split_paired_Ex [simp del]

section \<open>Taking one subtree\<close>

text \<open>The nodes that are at hand and the reads for the others, collected behind what there is.\<close>

definition gathered ::
  "'it libs \<Rightarrow> wire_format \<Rightarrow> bytes list \<Rightarrow> merkle_tree \<Rightarrow> node_infos \<Rightarrow> node list \<times> instructions \<Rightarrow> (nat \<times> nat) list \<Rightarrow>
    node list \<times> instructions" where
  "gathered L w bs t nodes acc ps =
     (fst acc @ map (merkle_node L w bs) (filter (avail t nodes) ps), snd acc @ map instr_of (filter (\<lambda>p. \<not> avail t nodes p) ps))"

definition take_plain ::
  "'it libs \<Rightarrow> wire_format \<Rightarrow> bytes list \<Rightarrow> merkle_tree \<Rightarrow> node_infos \<Rightarrow> local_proof \<times> node list \<times> instructions \<Rightarrow> nat \<times> nat \<Rightarrow>
    local_proof \<times> node list \<times> instructions" where
  "take_plain L w bs t nodes acc p = (fst acc, gathered L w bs t nodes (snd acc) [p])"

text \<open>The block \<open>i\<close> is proved below the first subtree that contains it.\<close>

definition holds_block :: "nat \<Rightarrow> nat \<times> nat \<Rightarrow> bool" where
  "holds_block i p \<longleftrightarrow> i div 2 ^ fst p = snd p"

definition take_block ::
  "'it libs \<Rightarrow> wire_format \<Rightarrow> bytes list \<Rightarrow> merkle_tree \<Rightarrow> node_infos \<Rightarrow> nat \<Rightarrow> local_proof \<times> node list \<times> instructions \<Rightarrow> nat \<times> nat \<Rightarrow>
    local_proof \<times> node list \<times> instructions" where
  "take_block L w bs t nodes i acc p =
     (if lp_nodes (fst acc) = None \<and> lp_seek (fst acc) = None \<and> holds_block i p
      then let (ns, reads) = gathered L w bs t nodes ([], []) (sibling_positions i 0 (fst p))
           in ((fst acc)\<lparr>lp_nodes := Some ns\<rparr>, fst (snd acc), snd (snd acc) @ reads)
      else take_plain L w bs t nodes acc p)"

text \<open>What a request takes at each subtree of the first \<open>n\<close> blocks.\<close>

definition takes ::
  "'it libs \<Rightarrow> merkle_tree \<Rightarrow> node_infos \<Rightarrow> upgrade_request option \<Rightarrow> nat \<Rightarrow>
    (local_proof \<times> node list \<times> instructions \<Rightarrow> nat \<times> nat \<Rightarrow> local_proof \<times> node list \<times> instructions) \<Rightarrow> bool" where
  "takes L t nodes req n f \<longleftrightarrow> (\<forall>it lp acc d off. ft_at (lib_ft L) it d off \<longrightarrow> in_tree n (d, off) \<longrightarrow>
     upgrade_take L t nodes req it lp acc = Ok (f (lp, acc) (d, off)))"

lemma holds_block_iff: "holds_block i (d, off) \<longleftrightarrow> off * 2 ^ d \<le> i \<and> i < (off + 1) * 2 ^ d"
proof
  assume "holds_block i (d, off)"
  then have "i div 2 ^ d = off" by (simp add: holds_block_def)
  then show "off * 2 ^ d \<le> i \<and> i < (off + 1) * 2 ^ d" using dividend_less_div_times [of "2 ^ d" i] by auto
next
  assume "off * 2 ^ d \<le> i \<and> i < (off + 1) * 2 ^ d"
  then show "holds_block i (d, off)" by (simp add: holds_block_def) (intro div_nat_eqI, simp_all add: algebra_simps)
qed

lemma gathered_step: "gathered L w bs t nodes (gathered L w bs t nodes acc xs) ys = gathered L w bs t nodes acc (xs @ ys)"
  by (simp add: gathered_def)

lemma take_plain_all: "foldl (take_plain L w bs t nodes) (lp, acc) ps = (lp, gathered L w bs t nodes acc ps)"
proof (induction ps arbitrary: acc)
  case Nil
  then show ?case by (simp add: gathered_def)
next
  case (Cons p ps)
  then show ?case by (simp add: take_plain_def gathered_step)
qed

lemma take_block_none: "\<forall>p\<in>set ps. \<not> holds_block i p \<Longrightarrow> foldl (take_block L w bs t nodes i) acc ps = foldl (take_plain L w bs t nodes) acc ps"
  by (induction ps arbitrary: acc) (auto simp: take_block_def)

lemma take_block_rest: "lp_nodes (fst acc) \<noteq> None \<Longrightarrow> foldl (take_block L w bs t nodes i) acc ps = foldl (take_plain L w bs t nodes) acc ps"
  by (induction ps arbitrary: acc) (auto simp: take_block_def take_plain_def)

lemma take_block_all:
  assumes "\<forall>p\<in>set xs. \<not> holds_block i p" "holds_block i p" "lp_nodes lp = None" "lp_seek lp = None"
  defines "sibs \<equiv> sibling_positions i 0 (fst p)"
  shows "foldl (take_block L w bs t nodes i) (lp, [], []) (xs @ p # ys) =
    (lp\<lparr>lp_nodes := Some (map (merkle_node L w bs) (filter (avail t nodes) sibs))\<rparr>,
     map (merkle_node L w bs) (filter (avail t nodes) (xs @ ys)),
     map instr_of (filter (\<lambda>p. \<not> avail t nodes p) (xs @ sibs @ ys)))"
  using assms(2-4)
  by (simp add: take_block_none [OF assms(1)] take_plain_all take_block_def Let_def gathered_def sibs_def take_block_rest)

context libs_laws
begin

lemma takes_plain:
  assumes src: "node_source L w bs t nodes" and n: "n \<le> length bs" "length bs \<le> 2 ^ 62"
    and req: "\<And>r. req = Some r \<Longrightarrow> 2 * n \<le> unat (ur_sub_tree r)"
  shows "takes L t nodes req n (take_plain L w bs t nodes)"
  unfolding takes_def
proof (intro allI impI)
  fix it lp acc d off
  assume it: "ft_at (lib_ft L) it d off" and p: "in_tree n (d, off)"
  have ok: "pos_ok d off" using in_tree_pos_ok [OF p] n by simp
  have "\<not> ft_contains (lib_ft L) it (ur_sub_tree r)" if "req = Some r" for r
    using p req [OF that] unfolding flat.contains [OF it ok] by (simp add: in_tree_def)
  then show "upgrade_take L t nodes req it lp acc = Ok (take_plain L w bs t nodes (lp, acc) (d, off))"
    using collect_eq [OF src in_tree_mono [OF p n(1)]] at_index [OF it]
    by (cases req) (simp_all add: upgrade_take_def take_plain_def gathered_def)
qed

lemma takes_block:
  assumes src: "node_source L w bs t nodes" and n: "n \<le> length bs" "length bs \<le> 2 ^ 62" and i: "i < 2 ^ 62"
    and req: "ur_indexed r = Some ix" "ni_value ix" "ni_index ix = of_nat i * 2" "\<not> ur_is_seek r" "ur_sub_tree r = of_nat i * 2"
  shows "takes L t nodes (Some r) n (take_block L w bs t nodes i)"
  unfolding takes_def
proof (intro allI impI)
  fix it lp acc d off
  assume it: "ft_at (lib_ft L) it d off" and p: "in_tree n (d, off)"
  have ok: "pos_ok d off" using in_tree_pos_ok [OF p] n by simp
  have ui: "unat (of_nat i * 2 :: u64) = 2 * i" using i by (simp add: unat_mult_small unat_of_nat64)
  have inside: "ft_contains (lib_ft L) it (ur_sub_tree r) \<longleftrightarrow> holds_block i (d, off)"
    unfolding req(5) flat.contains [OF it ok] ui holds_block_iff by auto
  have plain: "collect t nodes (ft_index (lib_ft L) it) acc = Ok (gathered L w bs t nodes acc [(d, off)])"
    using collect_eq [OF src in_tree_mono [OF p n(1)]] at_index [OF it] by (simp add: gathered_def)
  have "block_and_seek_proof L t (ur_indexed r) (ur_is_seek r) (ur_sub_tree r) (ft_index (lib_ft L) it) lp nodes =
      (let (ns, reads) = gathered L w bs t nodes ([], []) (sibling_positions i 0 d) in Ok (lp\<lparr>lp_nodes := Some ns\<rparr>, reads))"
    if "holds_block i (d, off)"
  proof -
    have off: "off = i div 2 ^ (0 + d)" using that by (simp add: holds_block_def)
    have leaf: "ft_at (lib_ft L) (ft_new (lib_ft L) (of_nat i * 2)) 0 (i div 2 ^ 0)"
      using flat.new [of "of_nat i * 2" 0 i] ui i by (simp add: pos_ok_def)
    have d: "0 + d \<le> 62" "d < lib_fuel L" using ok enough_fuel by (simp_all add: pos_ok_def)
    have tree: "in_tree (length bs) (0 + d, i div 2 ^ (0 + d))" using in_tree_mono [OF p n(1)] off by simp
    show ?thesis
      using block_proof_loop_eq [OF src leaf i d(1) tree d(2), of "of_nat i * 2" lp "([], [])"] at_index [OF it] off req
      by (simp add: block_and_seek_proof_def gathered_def)
  qed
  then show "upgrade_take L t nodes (Some r) it lp acc = Ok (take_block L w bs t nodes i (lp, acc) (d, off))"
    using inside plain by (auto simp: upgrade_take_def take_block_def take_plain_def gathered_def)
qed

section \<open>The walk over the roots\<close>

lemma sibling_side:
  assumes "pos_ok d (sibling_offset (i div 2 ^ d))" "i < 2 ^ 62"
  shows "pos_index (d, sibling_offset (i div 2 ^ d)) > (of_nat (2 * i) :: u64) \<longleftrightarrow> even (i div 2 ^ d)"
proof -
  let ?o = "i div 2 ^ d"
  have i: "?o * 2 ^ d \<le> i" "i < (?o + 1) * 2 ^ d"
    using dividend_less_div_times [of "2 ^ d" i] by simp_all
  have ui: "unat (of_nat (2 * i) :: u64) = 2 * i" using assms(2) by (simp add: unat_of_nat64 del: of_nat_mult)
  have "2 * i < tree_index d (sibling_offset ?o) \<longleftrightarrow> even ?o"
  proof (cases "even ?o")
    case True
    then show ?thesis using tree_index_ge [of "?o + 1" d] i(2) by (simp add: sibling_offset_def)
  next
    case False
    then have "?o - 1 + 1 = ?o" by (simp add: odd_pos)
    then have "tree_index d (?o - 1) < 2 * (?o * 2 ^ d)" using tree_index_bound [of d "?o - 1"] by simp
    then have "\<not> 2 * i < tree_index d (?o - 1)" using i(1) by linarith
    then show ?thesis using False by (simp add: sibling_offset_def)
  qed
  then show ?thesis using pos_index_unat [OF assms(1)] ui by (simp only: word_less_nat_alt)
qed

lemma connect_loop_eq:
  assumes takes: "takes L t nodes req n f" and small: "n \<le> 2 ^ 62"
    and "ft_at (lib_ft L) it d (i div 2 ^ d)" "i < 2 ^ 62" "d + k \<le> 62" "in_tree n (d + k, i div 2 ^ (d + k))" "k < fuel"
  shows "\<exists>it'. connect_loop L fuel t nodes req (pos_index (d + k, i div 2 ^ (d + k))) (of_nat (2 * i)) it (fst acc) (snd acc) =
      Ok (it', foldl f acc (right_siblings i d k)) \<and> ft_at (lib_ft L) it' (d + k) (i div 2 ^ (d + k))"
  using assms(3-7)
proof (induction k arbitrary: d it acc fuel)
  case 0
  then obtain f where "fuel = Suc f" by (cases fuel) auto
  with 0 show ?case using at_index [OF 0(1)] by (simp add: right_siblings_def)
next
  case (Suc k)
  let ?off = "i div 2 ^ d" and ?it1 = "ft_sibling (lib_ft L) it"
  obtain fl where fl: "fuel = Suc fl" using Suc.prems(5) by (cases fuel) auto
  have ok: "pos_ok d ?off" "pos_ok d (sibling_offset ?off)" "pos_ok (Suc d) (i div 2 ^ Suc d)"
    "pos_ok (d + Suc k) (i div 2 ^ (d + Suc k))"
    by (rule block_pos_ok [OF Suc.prems(2)]; use Suc.prems(3) in simp)+
  have it1: "ft_at (lib_ft L) ?it1 d (sibling_offset ?off)" using flat.sibling [OF Suc.prems(1) ok(1,2)] .
  have it2: "ft_at (lib_ft L) (ft_parent (lib_ft L) ?it1) (Suc d) (i div 2 ^ Suc d)"
    using flat.parent [OF it1] ok(3) by (simp only: sibling_parent div_pow_Suc)
  have ne: "ft_index (lib_ft L) it \<noteq> pos_index (d + Suc k, i div 2 ^ (d + Suc k))"
    using pos_index_unat [OF ok(1)] pos_index_unat [OF ok(4)] at_index [OF Suc.prems(1)]
    by (metis add_Suc_right less_add_Suc1 less_irrefl_nat tree_index_inj)
  have tree: "in_tree n (Suc d + k, i div 2 ^ (Suc d + k))" using Suc.prems(4) by simp
  have sib: "in_tree n (d, sibling_offset ?off)"
    using in_tree_path [OF tree] by (intro in_tree_sibling) (simp only: div_pow_Suc)
  define acc1 where "acc1 = foldl f acc (if even ?off then [(d, ?off + 1)] else [])"
  have take: "upgrade_take L t nodes req ?it1 (fst acc) (snd acc) = Ok (f acc (d, sibling_offset ?off))"
    using takes it1 sib unfolding takes_def by simp
  have step: "(if ft_index (lib_ft L) ?it1 > of_nat (2 * i) then upgrade_take L t nodes req ?it1 (fst acc) (snd acc) else Ok (fst acc, snd acc)) =
      Ok (fst acc1, snd acc1)"
    unfolding at_index [OF it1] sibling_side [OF ok(2) Suc.prems(2)] take acc1_def by (simp add: sibling_offset_def)
  have "k < fl" "Suc d + k \<le> 62" using Suc.prems(3,5) fl by simp_all
  from Suc.IH [OF it2 Suc.prems(2) this(2) tree this(1), of acc1] obtain it' where
    "connect_loop L fl t nodes req (pos_index (d + Suc k, i div 2 ^ (d + Suc k))) (of_nat (2 * i)) (ft_parent (lib_ft L) ?it1) (fst acc1) (snd acc1) =
      Ok (it', foldl f acc (right_siblings i d (Suc k)))" "ft_at (lib_ft L) it' (d + Suc k) (i div 2 ^ (d + Suc k))"
    unfolding right_siblings_Suc foldl_append acc1_def [symmetric] add_Suc_shift by blast
  then show ?case unfolding fl connect_loop.simps Let_def step using ne by (simp add: case_prod_unfold)
qed

text \<open>The check that a root ends before the block asked for.\<close>

lemma root_before:
  assumes "ft_at (lib_ft L) it k off" "pos_ok k off" "(off + 1) * 2 ^ k \<le> 2 ^ 62" "m < 2 ^ 62"
  shows "ft_index (lib_ft L) it + ft_factor (lib_ft L) it div 2 < of_nat (2 * m) \<longleftrightarrow> (off + 1) * 2 ^ k \<le> m"
proof -
  have half: "unat (ft_factor (lib_ft L) it div 2) = 2 ^ k" using assms(1) by (simp add: ft_at_def unat_div)
  have idx: "unat (ft_index (lib_ft L) it) + 2 ^ k + 1 = 2 * ((off + 1) * 2 ^ k)"
    using assms(1) tree_index_eq [of k off] by (simp add: ft_at_def)
  then have "unat (ft_index (lib_ft L) it + ft_factor (lib_ft L) it div 2) + 1 = 2 * ((off + 1) * 2 ^ k)"
    using half assms(3) by (subst unat_add_small) simp_all
  moreover have "unat (of_nat (2 * m) :: u64) = 2 * m" using assms(4) by (simp add: unat_of_nat64 del: of_nat_mult)
  ultimately show ?thesis unfolding word_less_nat_alt by linarith
qed

lemma create_tail:
  assumes takes: "takes L t nodes req n f" and small: "n < 2 ^ 62"
    and "root_chain b ps n" "m \<le> b" "ft_at (lib_ft L) it 0 b" "unat to = 2 * n" "length ps < fuel"
  shows "upgrade_loop L fuel t nodes req (of_nat (2 * m)) to True it (fst acc) (snd acc) = Ok (True, foldl f acc ps)"
  using assms(3-7)
proof (induction ps arbitrary: b it acc fuel)
  case Nil
  obtain fl where fl: "fuel = Suc fl" using Nil.prems(5) by (cases fuel) auto
  have "pos_ok 0 b" using Nil.prems(1) small by (simp add: pos_ok_def)
  from flat.full_root_none [OF Nil.prems(3) this, of to] Nil.prems(1,4)
  have "\<not> fst (ft_full_root (lib_ft L) to it)" by simp
  then show ?case unfolding fl by (simp add: case_prod_unfold)
next
  case (Cons p ps)
  obtain fl where fl: "fuel = Suc fl" using Cons.prems(5) by (cases fuel) auto
  obtain k off where p: "p = (k, off)" by (cases p)
  let ?e = "(off + 1) * 2 ^ k"
  from Cons.prems(1) have c: "b = off * 2 ^ k" "?e \<le> n" "n < (off + 2) * 2 ^ k" "root_chain ?e ps n"
    by (simp_all add: p)
  have ok: "pos_ok k off" "pos_ok 0 ?e" using pos_okI(1) [OF c(2)] c(2) small by (simp_all add: pos_ok_def)
  obtain it1 where it1: "ft_full_root (lib_ft L) to it = (True, it1)" "ft_at (lib_ft L) it1 k off"
    using flat.full_root [OF Cons.prems(3) [unfolded c(1)] ok(1) Cons.prems(4) c(2,3)] by (metis prod.collapse)
  have "?e = b + 2 ^ k" "0 < (2 :: nat) ^ k" using c(1) by simp_all
  then have lt: "\<not> ?e \<le> m" "m < 2 ^ 62" "?e \<le> 2 ^ 62" using Cons.prems(2) c(2) small by linarith+
  have "\<not> ft_index (lib_ft L) it1 + ft_factor (lib_ft L) it1 div 2 < of_nat (2 * m)"
    unfolding root_before [OF it1(2) ok(1) lt(3,2)] by (rule lt(1))
  moreover have "upgrade_take L t nodes req it1 (fst acc) (snd acc) = Ok (f acc p)"
    using takes it1(2) c(2) unfolding takes_def p by (simp add: in_tree_def)
  moreover have "upgrade_loop L fl t nodes req (of_nat (2 * m)) to True (ft_next_tree (lib_ft L) it1) (fst (f acc p)) (snd (f acc p)) =
      Ok (True, foldl f acc (p # ps))"
    using Cons.IH [OF c(4) _ flat.next_tree [OF it1(2) ok] Cons.prems(4), of fl "f acc p"] lt(1) Cons.prems(5) fl by simp
  ultimately show ?case unfolding fl using it1(1) by (simp add: case_prod_unfold)
qed

lemma create_loop:
  assumes takes: "takes L t nodes req n f" and small: "n < 2 ^ 62"
    and "root_chain b ps n" "b \<le> m" "ft_at (lib_ft L) it 0 b" "length ps < fuel"
    and m: "0 < m" "m < n" and to: "unat to = 2 * n"
  shows "upgrade_loop L fuel t nodes req (of_nat (2 * m)) to False it (fst acc) (snd acc) =
    Ok (True, foldl f acc (upgrade_positions m ps))"
  using assms(3-6)
proof (induction ps arbitrary: b it fuel)
  case Nil
  then show ?case using m(2) by simp
next
  case (Cons p ps)
  obtain fl where fl: "fuel = Suc fl" using Cons.prems(4) by (cases fuel) auto
  obtain k off where p: "p = (k, off)" by (cases p)
  let ?e = "(off + 1) * 2 ^ k" and ?from = "of_nat (2 * m) :: u64"
  from Cons.prems(1) have c: "b = off * 2 ^ k" "?e \<le> n" "n < (off + 2) * 2 ^ k" "root_chain ?e ps n"
    by (simp_all add: p)
  have ok: "pos_ok k off" "pos_ok 0 ?e" using pos_okI(1) [OF c(2)] c(2) small by (simp_all add: pos_ok_def)
  obtain it1 where it1: "ft_full_root (lib_ft L) to it = (True, it1)" "ft_at (lib_ft L) it1 k off"
    using flat.full_root [OF Cons.prems(3) [unfolded c(1)] ok(1) to c(2,3)] by (metis prod.collapse)
  have lt: "m < 2 ^ 62" "?e \<le> 2 ^ 62" "m - 1 < 2 ^ 62" using c(2) small m(2) by simp_all
  note before = root_before [OF it1(2) ok(1) lt(2,1)]
  have from2: "?from - 2 = of_nat (2 * (m - 1))" "unat (of_nat (2 * (m - 1)) :: u64) = 2 * (m - 1)"
  proof -
    show "?from - 2 = of_nat (2 * (m - 1))" using m(1) by (cases m) simp_all
    show "unat (of_nat (2 * (m - 1)) :: u64) = 2 * (m - 1)" by (rule unat_of_nat64) (use lt(3) in simp)
  qed
  have fuel: "length ps < fl" using Cons.prems(4) fl by simp
  have next_it: "ft_at (lib_ft L) (ft_next_tree (lib_ft L) it') 0 ?e" if "ft_at (lib_ft L) it' k off" for it'
    using flat.next_tree [OF that ok] .
  have inside: "ft_contains (lib_ft L) it1 (?from - 2) \<longleftrightarrow> b < m \<and> m \<le> ?e"
    unfolding from2(1) flat.contains [OF it1(2) ok(1)] from2(2) using m(1) c(1) by auto
  consider "?e \<le> m" | "\<not> ?e \<le> m" "b < m" | "\<not> ?e \<le> m" "b = m" using Cons.prems(2) by linarith
  then show ?case
  proof cases
    case 1
    then show ?thesis
      unfolding fl using it1(1) before Cons.IH [OF c(4) 1 next_it [OF it1(2)] fuel] by (simp add: p)
  next
    case 2
    let ?i = "m - 1"
    have off: "?i div 2 ^ k = off" using 2 c(1) by (intro div_nat_eqI) (simp_all add: algebra_simps)
    have tree: "in_tree n (0 + k, ?i div 2 ^ (0 + k))" using c(2) off by (simp add: in_tree_def)
    have conn: "n \<le> 2 ^ 62" "0 + k \<le> 62" "k < lib_fuel L" using small ok(1) enough_fuel by (simp_all add: pos_ok_def)
    have "ft_at (lib_ft L) (ft_seek (lib_ft L) (?from - 2) it1) 0 (?i div 2 ^ 0)"
      using flat.seek [of "?from - 2" 0 ?i it1] from2 lt(3) by (simp add: pos_ok_def)
    from connect_loop_eq [OF takes conn(1) this lt(3) conn(2) tree conn(3), of acc, folded from2(1), unfolded add_0 off]
    obtain it2 where it2: "connect_loop L (lib_fuel L) t nodes req (pos_index (k, off)) (?from - 2) (ft_seek (lib_ft L) (?from - 2) it1) (fst acc) (snd acc) =
        Ok (it2, foldl f acc (right_siblings ?i 0 k))" "ft_at (lib_ft L) it2 k off"
      by blast
    have "m \<le> ?e" using 2 by simp
    from create_tail [OF takes small c(4) this next_it [OF it2(2)] to fuel, of "foldl f acc (right_siblings ?i 0 k)"]
    show ?thesis
      unfolding fl using it1 before inside 2 it2(1) c(1) at_index [OF it1(2)] by (simp add: p Let_def case_prod_unfold)
  next
    case 3
    have "m \<le> ?e" using 3 by simp
    have "upgrade_take L t nodes req it1 (fst acc) (snd acc) = Ok (f acc p)"
      using takes it1(2) c(2) unfolding takes_def p by (simp add: in_tree_def)
    with create_tail [OF takes small c(4) \<open>m \<le> ?e\<close> next_it [OF it1(2)] to fuel, of "f acc p"]
    show ?thesis
      unfolding fl using it1(1) before inside 3 c(1) by (simp add: p case_prod_unfold)
  qed
qed

lemma create_walk:
  assumes takes: "takes L t nodes req n f" and n: "m < n" "n < 2 ^ 62" and to: "unat to = 2 * n"
  shows "upgrade_loop L (lib_fuel L) t nodes req (of_nat (2 * m)) to (of_nat (2 * m) = (0 :: u64)) (ft_new (lib_ft L) 0) lp ([], []) =
    Ok (True, foldl f (lp, [], []) (upgrade_positions m (root_positions n)))"
proof -
  have at: "ft_at (lib_ft L) (ft_new (lib_ft L) 0) 0 0" using flat.new [of 0 0 0] by (simp add: pos_ok_def)
  have "length (root_positions n) \<le> 63" using root_chain_length [OF root_chain_roots, of n 63] n(2) by simp
  then have fuel: "length (root_positions n) < lib_fuel L" using enough_fuel by simp
  show ?thesis
  proof (cases "m = 0")
    case True
    then show ?thesis
      using create_tail [OF takes n(2) root_chain_roots _ at to fuel, of 0 "(lp, [], [])"] by simp
  next
    case False
    have "unat (of_nat (2 * m) :: u64) = 2 * m" using n by (intro unat_of_nat64) simp
    with False have "(of_nat (2 * m) :: u64) \<noteq> 0" by (metis mult_eq_0_iff unat_0 zero_neq_numeral)
    with False show ?thesis
      using create_loop [OF takes n(2) root_chain_roots _ at fuel _ n(1) to, of "(lp, [], [])"] by (simp del: of_nat_mult)
  qed
qed

end

end
