(* ===== verification/Upgrade_Answer.thy ===== *)
theory Upgrade_Answer
  imports Upgrade_Create
begin

text \<open>
  The answer to a request for an upgrade, alone or together with a block: which nodes the proof
  brings, and that the peer accepts it.
\<close>

declare split_paired_All [simp del] split_paired_Ex [simp del]

text \<open>The upgrade of a peer with \<open>m\<close> blocks to the first \<open>n\<close> blocks of a log, where the peer gets the
  subtrees \<open>ups\<close>, and what leads on to the whole log.\<close>

definition upgrade_msg :: "'it libs \<Rightarrow> wire_format \<Rightarrow> bytes list \<Rightarrow> nat \<Rightarrow> nat \<Rightarrow> (nat \<times> nat) list \<Rightarrow> bytes \<Rightarrow> data_upgrade" where
  "upgrade_msg L w bs m n ups sig =
     \<lparr>du_start = of_nat m, du_length = of_nat (n - m), du_nodes = map (merkle_node L w bs) ups,
      du_additional_nodes = map (merkle_node L w bs) (upgrade_positions n (root_positions (length bs))), du_signature = sig\<rparr>"

definition upgrade_req :: "nat \<Rightarrow> nat \<Rightarrow> request_upgrade" where
  "upgrade_req m n = \<lparr>ru_start = of_nat m, ru_length = of_nat (n - m)\<rparr>"

lemma upgrade_positions_self: "root_chain b ps n \<Longrightarrow> upgrade_positions n ps = []"
  by (induction b ps n rule: root_chain.induct) auto

lemma upgrade_fchain: "m \<le> n \<Longrightarrow> fchain m n (upgrade_positions m (root_positions n))"
proof -
  have grow: "grow_chain m xs e \<Longrightarrow> fchain m e xs" for m xs e
    by (induction m xs e rule: grow_chain.induct) auto
  have root: "root_chain e ys n \<Longrightarrow> fchain e n ys" for e ys
    by (induction e ys n rule: root_chain.induct) auto
  have app: "fchain m e xs \<Longrightarrow> fchain e n ys \<Longrightarrow> fchain m n (xs @ ys)" for m e xs ys
    by (induction m e xs rule: fchain.induct) auto
  assume "m \<le> n"
  with upgrade_parts [OF root_chain_roots, of m n] obtain xs e ys where
    "upgrade_positions m (root_positions n) = xs @ ys" "grow_chain m xs e" "root_chain e ys n" by blast
  then show ?thesis using app [OF grow root] by simp
qed

text \<open>Exactly one of the subtrees of an upgrade contains a given block of it.\<close>

lemma fchain_holds_le: "fchain m n ps \<Longrightarrow> p \<in> set ps \<Longrightarrow> holds_block i p \<Longrightarrow> m \<le> i \<and> i < n"
proof (induction m n ps rule: fchain.induct)
  case (2 m n d off ps)
  have le: "(off + 1) * 2 ^ d \<le> n" using 2(2) fchain_le [of "(off + 1) * 2 ^ d" n ps] by simp
  show ?case
  proof (cases "p = (d, off)")
    case True
    then have "off * 2 ^ d \<le> i" "i < (off + 1) * 2 ^ d" using 2(4) by (simp_all only: holds_block_iff)
    then show ?thesis using 2(2) le by auto
  next
    case False
    then show ?thesis using 2 by auto
  qed
qed simp

lemma fchain_split:
  assumes "fchain m n ps" "m \<le> i" "i < n"
  obtains xs p ys where "ps = xs @ p # ys" "holds_block i p" "\<forall>q\<in>set xs. \<not> holds_block i q" "\<forall>q\<in>set ys. \<not> holds_block i q"
proof -
  have "\<exists>xs p ys. ps = xs @ p # ys \<and> holds_block i p \<and> (\<forall>q\<in>set xs. \<not> holds_block i q) \<and> (\<forall>q\<in>set ys. \<not> holds_block i q)"
    using assms
  proof (induction m n ps rule: fchain.induct)
    case (2 m n d off ps)
    show ?case
    proof (cases "i < (off + 1) * 2 ^ d")
      case True
      have "holds_block i (d, off)" using True 2(2,3) by (simp add: holds_block_iff)
      moreover have "\<not> holds_block i q" if "q \<in> set ps" for q
        using fchain_holds_le [of "(off + 1) * 2 ^ d" n ps q i] that True 2(2) by auto
      ultimately show ?thesis by (intro exI [of _ "[]"]) auto
    next
      case False
      with 2 obtain xs p ys where "ps = xs @ p # ys" "holds_block i p" "\<forall>q\<in>set xs. \<not> holds_block i q" "\<forall>q\<in>set ys. \<not> holds_block i q"
        by auto
      then show ?thesis using False by (intro exI [of _ "(d, off) # xs"]) (auto simp: holds_block_iff)
    qed
  qed simp
  with that show thesis by blast
qed

context libs_laws
begin

text \<open>The answer, for what the request takes at each subtree.\<close>

lemma create_eq:
  fixes m n :: nat
  assumes t: "tree_of L w bs t" "length bs \<le> MAX_BLOCKS" "mt_signature t = Some sig"
    and nodes: "infos_to_nodes L infos = Ok nodes" "node_source L w bs t nodes" and m: "m < n" "n \<le> length bs"
    and blk: "\<And>b. blk = Some b \<Longrightarrow> \<not> rb_index b < of_nat m"
    and takes: "takes L t nodes (Some \<lparr>ur_indexed = normalize_indexed L blk None, ur_is_seek = False,
      ur_sub_tree = (case blk of None \<Rightarrow> 2 * mt_length t | Some b \<Rightarrow> rb_index b * 2)\<rparr>) n f"
    and out: "foldl f (\<lparr>lp_seek = None, lp_nodes = None, lp_upgrade = None, lp_additional_upgrade = None\<rparr>, [], [])
      (upgrade_positions m (root_positions n)) = (lp, ns, reads)" "lp_additional_upgrade lp = None"
  defines "ahead \<equiv> upgrade_positions n (root_positions (length bs))"
  shows "create_valueless_proof L t blk None None (Some (upgrade_req m n)) infos =
    (let instrs = reads @ map instr_of (filter (\<lambda>p. \<not> avail t nodes p) ahead)
     in if instrs \<noteq> [] then Ok (Inl instrs)
        else bindR (case blk of
            Some b \<Rightarrow> bindR (expect (lp_nodes lp)) (\<lambda>ns. Ok (Some \<lparr>dh_index = rb_index b, dh_nodes = ns\<rparr>))
          | None \<Rightarrow> Ok None) (\<lambda>data_block.
          Ok (Inr \<lparr>vp_fork = mt_fork t, vp_block = data_block, vp_hash = None, vp_seek = None,
            vp_upgrade = Some \<lparr>du_start = of_nat m, du_length = of_nat (n - m), du_nodes = ns,
              du_additional_nodes = map (merkle_node L w bs) (filter (avail t nodes) ahead), du_signature = sig\<rparr>\<rparr>)))"
proof -
  let ?head = "2 * mt_length t" and ?from = "of_nat m * 2 :: u64" and ?to = "of_nat m * 2 + of_nat (n - m) * 2 :: u64"
  let ?len = "length bs"
  let ?sub = "case blk of None \<Rightarrow> ?head | Some b \<Rightarrow> rb_index b * 2"
  let ?p0 = "\<lparr>lp_seek = None, lp_nodes = None, lp_upgrade = None, lp_additional_upgrade = None\<rparr>"
  have n62: "?len < 2 ^ 62" "n < 2 ^ 62" using t(2) m by (simp_all add: MAX_BLOCKS_def)
  have from_eq: "?from = of_nat (2 * m)" by simp
  have "of_nat m + of_nat (n - m) = (of_nat n :: u64)" using m by (simp add: of_nat_add [symmetric] del: of_nat_add)
  then have to_n: "?to = of_nat (2 * n)" by (simp add: distrib_right [symmetric])
  have to: "unat (of_nat (2 * n) :: u64) = 2 * n" using n62(2) by (intro unat_of_nat64) simp
  have from_u: "unat (of_nat (2 * m) :: u64) = 2 * m" using n62(2) m by (intro unat_of_nat64) simp
  have head: "unat ?head = 2 * ?len" using t(1) n62 by (simp add: tree_of_def unat_mult_small unat_of_nat64)
  have head_eq: "?head = of_nat (2 * ?len)" using t(1) by (simp add: tree_of_def)
  have sub: "proof_sub_tree L t nodes (normalize_indexed L blk None) None (Some \<lparr>ru_start = of_nat m, ru_length = of_nat (n - m)\<rparr>) (of_nat (2 * m)) (of_nat (2 * n)) =
      Ok (Inr (?sub, ?p0, []))"
    using blk by (cases blk) (simp_all add: proof_sub_tree_def normalize_indexed_def Let_def)
  have up: "upgrade_proof L t (normalize_indexed L blk None) False (of_nat (2 * m)) (of_nat (2 * n)) ?sub ?p0 nodes = Ok (lp\<lparr>lp_upgrade := Some ns\<rparr>, reads)"
    using create_walk [OF takes m(1) n62(2) to, of ?p0] out(1) by (simp add: upgrade_proof_def del: of_nat_mult)
  have add: "additional_upgrade_proof L t (of_nat (2 * n)) (of_nat (2 * ?len)) lp nodes =
      Ok (lp\<lparr>lp_additional_upgrade := Some (map (merkle_node L w bs) (filter (avail t nodes) ahead))\<rparr>,
        map instr_of (filter (\<lambda>p. \<not> avail t nodes p) ahead))" if "n < ?len" for lp
    using create_walk [OF takes_plain [OF nodes(2) order_refl less_imp_le [OF n62(1)], of None] that n62(1), of "of_nat (2 * ?len)" lp] head head_eq
    by (simp add: additional_upgrade_proof_def take_plain_all gathered_def ahead_def del: of_nat_mult)
  have guard: "\<not> (of_nat (2 * n) \<le> (of_nat (2 * m) :: u64) \<or> of_nat (2 * ?len) < (of_nat (2 * n) :: u64))"
    using from_u to head m unfolding head_eq word_le_nat_alt word_less_nat_alt by simp
  show ?thesis
  proof (cases "n = ?len")
    case True
    have ahead: "ahead = []" using upgrade_positions_self [OF root_chain_roots, of ?len] True by (simp add: ahead_def)
    show ?thesis
      unfolding create_valueless_proof_def upgrade_req_def request_upgrade.select_convs option.case Let_def case_prod_conv
        to_n nodes(1) bindR.simps
      unfolding from_eq head_eq
      using guard sub up True out(2) t(3) by (cases blk) (simp_all add: ahead bindR_assoc del: of_nat_mult of_nat_diff)
  next
    case False
    then have lt: "n < ?len" using m by simp
    then have "of_nat (2 * ?len) > (of_nat (2 * n) :: u64)" using to head unfolding head_eq word_less_nat_alt by simp
    then show ?thesis
      unfolding create_valueless_proof_def upgrade_req_def request_upgrade.select_convs option.case Let_def case_prod_conv
        to_n nodes(1) bindR.simps
      unfolding from_eq head_eq
      using guard sub up add [OF lt] t(3) by (cases blk) (simp_all add: bindR_assoc del: of_nat_mult of_nat_diff)
  qed
qed

lemma plain_out:
  "foldl (take_plain L w bs t nodes) (lp, [], []) ps =
    (lp, map (merkle_node L w bs) (filter (avail t nodes) ps), map instr_of (filter (\<lambda>p. \<not> avail t nodes p) ps))"
  by (simp add: take_plain_all gathered_def)

text \<open>An upgrade alone; one with a block of the upgrade, which is proved up to the subtree \<open>p\<close>; and one with
  a block behind the upgrade, which no subtree contains.\<close>

lemma create_upgrade_eq:
  assumes t: "tree_of L w bs t" "length bs \<le> MAX_BLOCKS" "mt_signature t = Some sig"
    and nodes: "infos_to_nodes L infos = Ok nodes" "node_source L w bs t nodes" and m: "m < n" "n \<le> length bs"
  defines "ups \<equiv> upgrade_positions m (root_positions n)"
  shows "create_valueless_proof L t None None None (Some (upgrade_req m n)) infos =
    (let qs = filter (\<lambda>p. \<not> avail t nodes p) (ups @ upgrade_positions n (root_positions (length bs)))
     in if qs = [] then bindR (Ok \<lparr>vp_fork = mt_fork t, vp_block = None, vp_hash = None, vp_seek = None,
          vp_upgrade = Some (upgrade_msg L w bs m n ups sig)\<rparr>) (\<lambda>v. Ok (Inr v))
        else Ok (Inl (map instr_of qs)))"
proof -
  have "length bs \<le> 2 ^ 62" using t(2) by (simp add: MAX_BLOCKS_def)
  moreover have "unat (2 * mt_length t) = 2 * length bs" using t(1,2) by (simp add: tree_of_def MAX_BLOCKS_def unat_mult_small unat_of_nat64)
  ultimately have "takes L t nodes (Some \<lparr>ur_indexed = normalize_indexed L None None, ur_is_seek = False,
      ur_sub_tree = (case None of None \<Rightarrow> 2 * mt_length t | Some b \<Rightarrow> rb_index b * 2)\<rparr>) n (take_plain L w bs t nodes)"
    using m(2) by (intro takes_plain [OF nodes(2) m(2)]) auto
  from create_eq [OF t nodes m, where blk = None, OF _ this plain_out] show ?thesis
    by (auto simp: Let_def gathered_def ups_def upgrade_msg_def filter_empty_conv filter_id_conv simp del: of_nat_diff)
qed

lemma create_block_upgrade_eq:
  assumes t: "tree_of L w bs t" "length bs \<le> MAX_BLOCKS" "mt_signature t = Some sig"
    and nodes: "infos_to_nodes L infos = Ok nodes" "node_source L w bs t nodes" and m: "n \<le> length bs" "m \<le> i" "i < n"
    and ups: "upgrade_positions m (root_positions n) = xs @ p # ys" "holds_block i p" "\<forall>q\<in>set xs. \<not> holds_block i q"
  shows "create_valueless_proof L t (Some \<lparr>rb_index = of_nat i, rb_nodes = k\<rparr>) None None (Some (upgrade_req m n)) infos =
    (let qs = filter (\<lambda>p. \<not> avail t nodes p) (xs @ sibling_positions i 0 (fst p) @ ys @ upgrade_positions n (root_positions (length bs)))
     in if qs = [] then bindR (Ok \<lparr>vp_fork = mt_fork t,
          vp_block = Some \<lparr>dh_index = of_nat i, dh_nodes = map (merkle_node L w bs) (sibling_positions i 0 (fst p))\<rparr>, vp_hash = None, vp_seek = None,
          vp_upgrade = Some (upgrade_msg L w bs m n (xs @ ys) sig)\<rparr>) (\<lambda>v. Ok (Inr v))
        else Ok (Inl (map instr_of qs)))"
proof -
  let ?b = "\<lparr>rb_index = of_nat i, rb_nodes = k\<rparr>"
  have small: "length bs \<le> 2 ^ 62" "i < 2 ^ 62" "m < n" using t(2) m by (simp_all add: MAX_BLOCKS_def)
  then have "unat (of_nat i :: u64) = i" "unat (of_nat m :: u64) = m" using m(2) by (simp_all add: unat_of_nat64)
  then have blk: "\<not> rb_index b < of_nat m" if "Some ?b = Some b" for b using that m(2) by (auto simp: word_less_nat_alt)
  let ?p0 = "\<lparr>lp_seek = None, lp_nodes = None, lp_upgrade = None, lp_additional_upgrade = None\<rparr>"
  note out = take_block_all [OF ups(3,2), of ?p0 L w bs t nodes ys, folded ups(1), OF local_proof.select_convs(2,1)]
  have "takes L t nodes (Some \<lparr>ur_indexed = normalize_indexed L (Some ?b) None, ur_is_seek = False,
      ur_sub_tree = (case Some ?b of None \<Rightarrow> 2 * mt_length t | Some b \<Rightarrow> rb_index b * 2)\<rparr>) n (take_block L w bs t nodes i)"
    by (rule takes_block [OF nodes(2) m(1) small(1,2), where ix = "\<lparr>ni_value = True, ni_index = of_nat i * 2, ni_nodes = k, ni_last_index = of_nat i\<rparr>"]) (simp_all add: normalize_indexed_def)
  from create_eq [OF t nodes small(3) m(1), where blk = "Some ?b", OF blk this out] show ?thesis
    by (auto simp: Let_def upgrade_msg_def filter_empty_conv filter_id_conv simp del: of_nat_diff)
qed

lemma create_beyond_eq:
  assumes t: "tree_of L w bs t" "length bs \<le> MAX_BLOCKS" "mt_signature t = Some sig"
    and nodes: "infos_to_nodes L infos = Ok nodes" "node_source L w bs t nodes" and m: "m < n" "n \<le> length bs" "n \<le> i" "i < 2 ^ 62"
  shows "create_valueless_proof L t (Some \<lparr>rb_index = of_nat i, rb_nodes = k\<rparr>) None None (Some (upgrade_req m n)) infos =
    (let qs = filter (\<lambda>p. \<not> avail t nodes p) (upgrade_positions m (root_positions n) @ upgrade_positions n (root_positions (length bs)))
     in if qs = [] then bindR Panic (\<lambda>v. Ok (Inr v)) else Ok (Inl (map instr_of qs)))"
proof -
  let ?b = "\<lparr>rb_index = of_nat i, rb_nodes = k\<rparr>"
  have small: "length bs \<le> 2 ^ 62" using t(2) by (simp add: MAX_BLOCKS_def)
  have u: "unat (of_nat i :: u64) = i" "unat (of_nat m :: u64) = m" using m by (simp_all add: unat_of_nat64)
  then have blk: "\<not> rb_index b < of_nat m" if "Some ?b = Some b" for b using that m by (auto simp: word_less_nat_alt)
  have "unat (of_nat i * 2 :: u64) = 2 * i" using u m(4) by (simp add: unat_mult_small)
  then have "takes L t nodes (Some \<lparr>ur_indexed = normalize_indexed L (Some ?b) None, ur_is_seek = False,
      ur_sub_tree = (case Some ?b of None \<Rightarrow> 2 * mt_length t | Some b \<Rightarrow> rb_index b * 2)\<rparr>) n (take_plain L w bs t nodes)"
    using m(3) by (intro takes_plain [OF nodes(2) m(2) small]) auto
  from create_eq [OF t nodes m(1,2), where blk = "Some ?b", OF blk this plain_out] show ?thesis
    by (auto simp: Let_def gathered_def filter_empty_conv)
qed

end

section \<open>What a core answers\<close>

context device_laws
begin

text \<open>A request that needs the nodes at \<open>pos\<close> is answered after one round of reading.\<close>

lemma core_create_answer:
  assumes held: "tree_held L w bs (hc_tree c) (stored content (hc_storage c) Tree)" and pos: "\<forall>p\<in>set pos. in_tree (length bs) p"
    and ask: "\<And>infos nodes. infos_to_nodes L infos = Ok nodes \<Longrightarrow> node_source L w bs (hc_tree c) nodes \<Longrightarrow>
      create_valueless_proof L (hc_tree c) block hash seek upgrade infos =
      (let qs = filter (\<lambda>p. \<not> avail (hc_tree c) nodes p) pos in if qs = [] then bindR res (\<lambda>v. Ok (Inr v)) else Ok (Inl (map instr_of qs)))"
  shows "core_create_valueless_proof L ra c block hash seek upgrade = res"
proof -
  let ?t = "hc_tree c"
  define q where "q = to_read ?t [] pos"
  have q: "\<forall>p\<in>set q. in_tree (length bs) p \<and> im_get (mt_unflushed ?t) (pos_index p) = None"
    using pos to_read_mem unfolding q_def by blast
  have again: "to_read ?t q pos = []" using to_read_rest [of ?t "[]" pos] unfolding q_def by auto
  have first: "infos_of L w bs None []" and second: "infos_of L w bs (Some (map (node_info L w bs) q)) q"
    by (simp_all add: infos_of_def)
  have in_q: "\<forall>p\<in>set q. in_tree (length bs) p" using q by blast
  obtain fuel where fuel: "lib_fuel L = Suc fuel" using enough_fuel that [of "lib_fuel L - 1"] by simp
  have ask': "create_valueless_proof L ?t block hash seek upgrade infos =
      (let qs = to_read ?t ps pos in if qs = [] then bindR res (\<lambda>v. Ok (Inr v)) else Ok (Inl (map instr_of qs)))"
    if ps: "\<forall>p\<in>set ps. in_tree (length bs) p" "infos_of L w bs infos ps" for ps infos
  proof -
    obtain nodes where n: "infos_to_nodes L infos = Ok nodes" "node_source L w bs ?t nodes"
      "\<And>qs. \<forall>p\<in>set qs. in_tree (length bs) p \<Longrightarrow> filter (\<lambda>p. \<not> avail ?t nodes p) qs = to_read ?t ps qs"
      using held_nodes [OF held ps] by blast
    show ?thesis unfolding ask [OF n(1,2)] n(3) [OF pos] ..
  qed
  show ?thesis
    using ask' [OF _ first] ask' [OF in_q second] read_stored_nodes [OF held q]
    by (cases res) (simp_all add: core_create_valueless_proof_def fuel Let_def q_def [symmetric] again)
qed

lemma core_create_upgrade_proof:
  assumes view: "core_view L w content sk c bs have" and m: "m < n" "n \<le> length bs"
  shows "core_create_proof L ra None None None (Some (upgrade_req m n)) c =
    (Ok (Some \<lparr>pf_fork = 0, pf_block = None, pf_hash = None, pf_seek = None,
       pf_upgrade = Some (upgrade_msg L w bs m n (upgrade_positions m (root_positions n)) (tree_signature L w sk bs))\<rparr>), c)"
proof -
  let ?pos = "upgrade_positions m (root_positions n) @ upgrade_positions n (root_positions (length bs))"
  have held: "tree_held L w bs (hc_tree c) (stored content (hc_storage c) Tree)"
    "mt_signature (hc_tree c) = Some (tree_signature L w sk bs)" "mt_fork (hc_tree c) = 0"
    using view m by (auto simp: core_view_def)
  have t: "tree_of L w bs (hc_tree c)" "length bs \<le> MAX_BLOCKS" using held(1) by (simp_all add: tree_held_def)
  have pos: "\<forall>p\<in>set ?pos. in_tree (length bs) p"
    using upgrade_in_tree [OF root_chain_roots] in_tree_mono [OF _ m(2)] by auto
  show ?thesis
    using core_create_answer [OF held(1) pos create_upgrade_eq [OF t held(2) _ _ m]] held(3)
    by (simp add: core_create_proof_def bindC_def readC_def into_proof_def)
qed

lemma core_create_block_upgrade_proof:
  assumes view: "core_view L w content sk c bs have" and m: "n \<le> length bs" "m \<le> i" "i < n" "i \<in> have"
    and ups: "upgrade_positions m (root_positions n) = xs @ p # ys" "holds_block i p" "\<forall>q\<in>set xs. \<not> holds_block i q"
  shows "core_create_proof L ra (Some \<lparr>rb_index = of_nat i, rb_nodes = k\<rparr>) None None (Some (upgrade_req m n)) c =
    (Ok (Some \<lparr>pf_fork = 0,
       pf_block = Some \<lparr>dblk_index = of_nat i, dblk_value = bs ! i, dblk_nodes = map (merkle_node L w bs) (sibling_positions i 0 (fst p))\<rparr>,
       pf_hash = None, pf_seek = None,
       pf_upgrade = Some (upgrade_msg L w bs m n (xs @ ys) (tree_signature L w sk bs))\<rparr>), c)"
proof -
  let ?pos = "xs @ sibling_positions i 0 (fst p) @ ys @ upgrade_positions n (root_positions (length bs))"
  have held: "tree_held L w bs (hc_tree c) (stored content (hc_storage c) Tree)"
    "mt_signature (hc_tree c) = Some (tree_signature L w sk bs)" "mt_fork (hc_tree c) = 0"
    using view m by (auto simp: core_view_def)
  have t: "tree_of L w bs (hc_tree c)" "length bs \<le> MAX_BLOCKS" using held(1) by (simp_all add: tree_held_def)
  have ui: "unat (of_nat i :: u64) = i" using t(2) m by (simp add: MAX_BLOCKS_def unat_of_nat64)
  have "in_tree n q" if "q \<in> set (xs @ p # ys)" for q using upgrade_in_tree [OF root_chain_roots, of m n] that unfolding ups(1) by blast
  then have in_n: "in_tree (length bs) q" if "q \<in> set (xs @ p # ys)" for q using in_tree_mono [OF _ m(1)] that by blast
  have "in_tree (length bs) (fst p, i div 2 ^ fst p)" using in_n [of p] ups(2) by (simp add: holds_block_def)
  from siblings_in_tree [OF this] have pos: "\<forall>q\<in>set ?pos. in_tree (length bs) q"
    using in_n upgrade_in_tree [OF root_chain_roots, of n "length bs"] by auto
  show ?thesis
    using core_create_answer [OF held(1) pos create_block_upgrade_eq [OF t held(2) _ _ m(1-3) ups, of _ _ k]] held(3)
      core_get_present [OF view, of "of_nat i"] m(4) ui
    by (simp add: core_create_proof_def bindC_def readC_def into_proof_def)
qed

lemma core_create_beyond:
  assumes view: "core_view L w content sk c bs have" and m: "m < n" "n \<le> length bs" "n \<le> i" "i < 2 ^ 62"
  shows "core_create_proof L ra (Some \<lparr>rb_index = of_nat i, rb_nodes = k\<rparr>) None None (Some (upgrade_req m n)) c = (Panic, c)"
proof -
  let ?pos = "upgrade_positions m (root_positions n) @ upgrade_positions n (root_positions (length bs))"
  have held: "tree_held L w bs (hc_tree c) (stored content (hc_storage c) Tree)"
    "mt_signature (hc_tree c) = Some (tree_signature L w sk bs)"
    using view m by (auto simp: core_view_def)
  have t: "tree_of L w bs (hc_tree c)" "length bs \<le> MAX_BLOCKS" using held(1) by (simp_all add: tree_held_def)
  have pos: "\<forall>p\<in>set ?pos. in_tree (length bs) p"
    using upgrade_in_tree [OF root_chain_roots] in_tree_mono [OF _ m(2)] by auto
  show ?thesis
    using core_create_answer [OF held(1) pos create_beyond_eq [OF t held(2) _ _ m, of _ _ k]]
    by (simp add: core_create_proof_def bindC_def readC_def)
qed

end

end
