(* ===== verification/Upgrade_Accept.thy ===== *)
theory Upgrade_Accept
  imports Upgrade_Answer
begin

text \<open>
  That a peer accepts what a core answers: the upgrade alone, and the upgrade with a block of it,
  whose proof ends in a subtree that the upgrade leaves out and takes from there.
\<close>

declare split_paired_All [simp del] split_paired_Ex [simp del]

text \<open>The changeset that a peer with tree \<open>t\<close> gets: the whole log, and nodes of it.\<close>

definition upgraded_changeset ::
  "'it libs \<Rightarrow> wire_format \<Rightarrow> bytes \<Rightarrow> bytes list \<Rightarrow> merkle_tree \<Rightarrow> (nat \<times> nat) list \<Rightarrow> changeset" where
  "upgraded_changeset L w sk bs t ps = (mt_changeset t)\<lparr>cg_upgraded := True, cg_length := of_nat (length bs),
     cg_byte_length := of_nat (byte_size bs), cg_roots := merkle_roots L w bs, cg_nodes := map (merkle_node L w bs) ps, cg_fork := 0,
     cg_hash := Some (tree_hash L w bs), cg_signature := Some (tree_signature L w sk bs)\<rparr>"

context libs_laws
begin

lemma tree_pos_inj:
  assumes "in_tree n p" "in_tree n q" "n \<le> 2 ^ 62" "pos_index p = pos_index q"
  shows "p = q"
proof -
  obtain d off d' off' where pq: "p = (d, off)" "q = (d', off')" by (cases p, cases q)
  have "pos_ok d off" "pos_ok d' off'" using in_tree_pos_ok assms(1-3) pq by blast+
  then have "unat (pos_index (d, off)) = tree_index d off" "unat (pos_index (d', off')) = tree_index d' off'"
    using pos_index_unat by blast+
  with assms(4) have "tree_index d off = tree_index d' off'" by (metis pq)
  then show ?thesis by (simp add: pq tree_index_inj)
qed

text \<open>The extra node stays in the queue until its place is asked for.\<close>

lemma feeds_keep:
  assumes "drop (nq_i q) (nq_nodes q) = map (merkle_node L w bs) ps @ rest" "\<forall>p\<in>set ps. \<forall>r. nq_extra q = Some r \<longrightarrow> n_index r \<noteq> pos_index p"
  shows "\<exists>q'. feeds L w bs q ps q' \<and> nq_extra q' = nq_extra q \<and> drop (nq_i q') (nq_nodes q') = rest"
  using assms
proof (induction ps arbitrary: q)
  case (Cons p ps)
  let ?q1 = "q\<lparr>nq_i := nq_i q + 1, nq_length := nq_length q - 1\<rparr>"
  from Cons.prems(1) have nth: "nq_i q < length (nq_nodes q)" "nq_nodes q ! nq_i q = merkle_node L w bs p"
    "drop (Suc (nq_i q)) (nq_nodes q) = map (merkle_node L w bs) ps @ rest"
    unfolding list.map append.simps drop_Cons_iff by blast+
  then have "shift q (pos_index p) = Ok (merkle_node L w bs p, ?q1)"
    using Cons.prems(2) by (cases "nq_extra q") (simp_all add: shift_def Let_def n_index_merkle)
  moreover have "\<exists>q'. feeds L w bs ?q1 ps q' \<and> nq_extra q' = nq_extra ?q1 \<and> drop (nq_i q') (nq_nodes q') = rest"
    using nth(3) Cons.prems(2) by (intro Cons.IH) auto
  ultimately show ?case by auto
qed simp

lemma feeds_block:
  assumes "\<forall>q\<in>set (xs @ p # ys). in_tree n q" "n \<le> 2 ^ 62" "p \<notin> set xs"
  shows "\<exists>q'. feeds L w bs (node_queue_new (map (merkle_node L w bs) (xs @ ys)) (Some (merkle_node L w bs p))) (xs @ p # ys) q' \<and> nq_extra q' = None"
proof -
  let ?q = "node_queue_new (map (merkle_node L w bs) (xs @ ys)) (Some (merkle_node L w bs p))"
  have "pos_index p \<noteq> pos_index x" if "x \<in> set xs" for x
    using tree_pos_inj [of n p x] assms that by auto
  then obtain q1 where q1: "feeds L w bs ?q xs q1" "nq_extra q1 = Some (merkle_node L w bs p)"
    "drop (nq_i q1) (nq_nodes q1) = map (merkle_node L w bs) ys"
    using feeds_keep [of ?q bs xs "map (merkle_node L w bs) ys"] by (auto simp: node_queue_new_def n_index_merkle)
  let ?q2 = "q1\<lparr>nq_extra := None, nq_length := nq_length q1 - 1\<rparr>"
  have "shift q1 (pos_index p) = Ok (merkle_node L w bs p, ?q2)" using q1(2) by (simp add: shift_def Let_def n_index_merkle)
  moreover obtain q' where "feeds L w bs ?q2 ys q'" "nq_extra q' = None" using feeds_nodes [of ?q2 bs ys] q1(3) by auto
  ultimately show ?thesis using q1(1) unfolding feeds_append feeds.simps by blast
qed

lemma upgrade_msg_end:
  assumes "m \<le> n" "n \<le> 2 ^ 62"
  shows "unat (du_start (upgrade_msg L w bs m n ups sig)) + unat (du_length (upgrade_msg L w bs m n ups sig)) = n"
  using assms by (simp add: upgrade_msg_def unat_of_nat64 del: of_nat_diff)

text \<open>The check of a block that lies in the log, in front of an upgrade.\<close>

lemma verify_block_tree:
  assumes i: "i < length bs" "length bs \<le> 2 ^ 62" "k \<le> 62"
  shows "verify_tree L (Some \<lparr>dblk_index = of_nat i, dblk_value = bs ! i, dblk_nodes = map (merkle_node L w bs) (sibling_positions i 0 k)\<rparr>) None None cg =
    Ok (Some (merkle_node L w bs (k, i div 2 ^ k)), cg\<lparr>cg_nodes := cg_nodes cg @ map (merkle_node L w bs) ((0, i) # path_positions i 0 k)\<rparr>)"
proof -
  have i62: "i < 2 ^ 62" using i by simp
  have ix: "unat (of_nat i * 2 :: u64) = tree_index 0 i" using i62 by (simp add: unat_mult_small unat_of_nat64)
  have it: "ft_at (lib_ft L) (ft_new (lib_ft L) (of_nat i * 2)) 0 (i div 2 ^ 0)" using flat.new [OF ix] i62 by (simp add: pos_ok_def)
  have leaf: "node_new (lib_ft L) (pos_index (0, i)) (cr_blake2b (lib_cr L) (leaf_input w (bs ! i))) (of_nat (length (bs ! i))) =
      merkle_node L w bs (0, i)"
    using i(1) by (simp add: merkle_node_def pos_index_def subtree_size_leaf)
  have "length (sibling_positions i 0 k) = k" by (simp add: sibling_positions_def)
  then show ?thesis
    using climb_complete [OF it i62, of k "node_queue_new (map (merkle_node L w bs) (sibling_positions i 0 k)) None" bs
        "cg_nodes cg @ [merkle_node L w bs (0, i)]"] i(3) at_index [OF it] leaf
    by (simp add: verify_tree_def normalize_data_def Let_def block_node_eq node_queue_new_def)
qed

section \<open>Accepted upgrades\<close>

lemma upgrade_proof_complete:
  assumes t: "tree_of L w (take m bs) t" and m: "m < n" "n \<le> length bs" "length bs \<le> 2 ^ 62" and nodes: "infos_to_nodes L infos = Ok nodes"
    and pf: "pf = \<lparr>pf_fork = 0, pf_block = None, pf_hash = None, pf_seek = None,
       pf_upgrade = Some (upgrade_msg L w bs m n (upgrade_positions m (root_positions n)) (tree_signature L w sk bs))\<rparr>"
  shows "\<exists>ps. (\<forall>p\<in>set ps. in_tree (length bs) p) \<and> length ps \<le> 2 ^ 14 \<and> (\<forall>K. rooted m K \<longrightarrow> rooted (length bs) (K \<union> set ps)) \<and>
    verify_proof L t pf (cr_verifying_key (lib_cr L) sk) infos = Ok (Inr (upgraded_changeset L w sk bs t ps))"
proof -
  let ?k = "length (upgrade_positions m (root_positions n)) + length (upgrade_positions n (root_positions (length bs)))"
  let ?u = "upgrade_msg L w bs m n (upgrade_positions m (root_positions n)) (tree_signature L w sk bs)"
  have cg: "roots_at L w bs m (mt_changeset t)"
    using t m by (auto simp: roots_at_def tree_of_def mt_changeset_def changeset_new_def min_absorb2)
  obtain q' where q': "feeds L w bs (node_queue_new (du_nodes ?u) None) (upgrade_positions m (root_positions n)) q'" "nq_extra q' = None"
    using feeds_nodes [of "node_queue_new (du_nodes ?u) None" bs] by (auto simp: node_queue_new_def upgrade_msg_def)
  have "unat (du_start ?u) + unat (du_length ?u) = n" using upgrade_msg_end m by simp
  from verify_upgrade_complete [OF cg m this _ _ q'(1), of sk] q'(2) obtain cg' where g: "grown L w bs ?k m (mt_changeset t) (length bs) cg'"
    "verify_upgrade L 0 ?u None (cr_verifying_key (lib_cr L) sk) (mt_changeset t) =
      Ok (True, cg'\<lparr>cg_fork := 0, cg_hash := Some (tree_hash L w bs), cg_signature := Some (tree_signature L w sk bs)\<rparr>)"
    by (auto simp: upgrade_msg_def)
  from g(1) obtain ps where ps: "\<forall>p\<in>set ps. in_tree (length bs) p" "length ps \<le> 63 * ?k" "\<forall>K. rooted m K \<longrightarrow> rooted (length bs) (K \<union> set ps)"
    "cg' = (mt_changeset t)\<lparr>cg_upgraded := True, cg_length := of_nat (length bs), cg_byte_length := of_nat (byte_size bs),
       cg_roots := merkle_roots L w bs, cg_nodes := cg_nodes (mt_changeset t) @ map (merkle_node L w bs) ps\<rparr>"
    by (auto simp: grown_def)
  have "?k \<le> 250" using upgrade_count [of n m] upgrade_count [of "length bs" n] m by simp
  then have "length ps \<le> 2 ^ 14" using ps(2) by simp
  moreover have "cg_nodes (mt_changeset t) = []" by (simp add: mt_changeset_def changeset_new_def)
  ultimately show ?thesis
    using g(2) nodes ps unfolding pf upgraded_changeset_def
    by (auto simp: verify_proof_def verify_tree_def normalize_data_def)
qed

text \<open>The nodes of the path of the block come first.\<close>

lemma block_upgrade_proof_complete:
  assumes t: "tree_of L w (take m bs) t" and m: "n \<le> length bs" "length bs \<le> 2 ^ 62" "m \<le> i" "i < n" and nodes: "infos_to_nodes L infos = Ok nodes"
    and ups: "upgrade_positions m (root_positions n) = xs @ p # ys" "holds_block i p" "\<forall>q\<in>set xs. \<not> holds_block i q"
    and pf: "pf = \<lparr>pf_fork = 0,
       pf_block = Some \<lparr>dblk_index = of_nat i, dblk_value = bs ! i, dblk_nodes = map (merkle_node L w bs) (sibling_positions i 0 (fst p))\<rparr>,
       pf_hash = None, pf_seek = None,
       pf_upgrade = Some (upgrade_msg L w bs m n (xs @ ys) (tree_signature L w sk bs))\<rparr>"
  shows "\<exists>ps. (\<forall>p\<in>set ps. in_tree (length bs) p) \<and>
    verify_proof L t pf (cr_verifying_key (lib_cr L) sk) infos =
      Ok (Inr (upgraded_changeset L w sk bs t ((0, i) # path_positions i 0 (fst p) @ ps)))"
proof -
  let ?u = "upgrade_msg L w bs m n (xs @ ys) (tree_signature L w sk bs)" and ?N = "merkle_node L w bs"
  let ?cg = "(mt_changeset t)\<lparr>cg_nodes := map ?N ((0, i) # path_positions i 0 (fst p))\<rparr>"
  have cg: "roots_at L w bs m ?cg"
    using t m by (auto simp: roots_at_def tree_of_def mt_changeset_def changeset_new_def min_absorb2)
  have tree: "\<forall>q\<in>set (xs @ p # ys). in_tree n q" using upgrade_in_tree [OF root_chain_roots, of m n] unfolding ups(1) .
  have p: "p = (fst p, i div 2 ^ fst p)" using ups(2) by (metis holds_block_def prod.collapse)
  have "pos_ok (fst p) (snd p)" using tree m in_tree_pos_ok [of n "fst p" "snd p"] by simp
  then have k: "fst p \<le> 62" by (simp add: pos_ok_def)
  have "p \<notin> set xs" using ups(2,3) by blast
  from feeds_block [OF tree _ this] m obtain q' where
    q': "feeds L w bs (node_queue_new (du_nodes ?u) (Some (?N p))) (upgrade_positions m (root_positions n)) q'" "nq_extra q' = None"
    unfolding ups(1) upgrade_msg_def by auto
  have n: "m < n" using m by simp
  have "unat (du_start ?u) + unat (du_length ?u) = n" using upgrade_msg_end m by simp
  from verify_upgrade_complete [OF cg n m(1,2) this _ _ q'(1), of sk] q'(2) obtain cg' k where g: "grown L w bs k m ?cg (length bs) cg'"
    "verify_upgrade L 0 ?u (Some (?N p)) (cr_verifying_key (lib_cr L) sk) ?cg =
      Ok (True, cg'\<lparr>cg_fork := 0, cg_hash := Some (tree_hash L w bs), cg_signature := Some (tree_signature L w sk bs)\<rparr>)"
    by (auto simp: upgrade_msg_def)
  have "verify_tree L (pf_block pf) (pf_hash pf) (pf_seek pf) (mt_changeset t) = Ok (Some (?N p), ?cg)"
    using verify_block_tree [of i bs "fst p" "mt_changeset t"] m k p by (simp add: pf mt_changeset_def changeset_new_def)
  then have "verify_proof L t pf (cr_verifying_key (lib_cr L) sk) infos =
      Ok (Inr (cg'\<lparr>cg_fork := 0, cg_hash := Some (tree_hash L w bs), cg_signature := Some (tree_signature L w sk bs)\<rparr>))"
    using g(2) nodes by (simp add: verify_proof_def pf)
  then show ?thesis
    using g(1) unfolding grown_def upgraded_changeset_def by (auto simp: mt_changeset_def changeset_new_def)
qed

end

end
