(* ===== verification/Changeset_Offset.thy ===== *)
theory Changeset_Offset
  imports Upgrade_Accept
begin

text \<open>
  Where the block of a proof goes on the data store: the bytes in front of it below the node that its
  path ends in, and the bytes in front of this node.
\<close>

declare split_paired_All [simp del] split_paired_Ex [simp del]

section \<open>The loop over the changeset\<close>

text \<open>The bytes in front of the subtree of depth \<open>d\<close> that contains block \<open>i\<close>.\<close>

definition front :: "bytes list \<Rightarrow> nat \<Rightarrow> nat \<Rightarrow> nat" where
  "front bs i d = byte_size (take (i div 2 ^ d * 2 ^ d) bs)"

lemma front_step:
  "front bs i d = front bs i (Suc d) + (if odd (i div 2 ^ d) then subtree_size bs d (i div 2 ^ d - 1) else 0)"
proof (cases "odd (i div 2 ^ d)")
  case True
  then obtain x where x: "i div 2 ^ d = 2 * x + 1" by (elim oddE)
  then have "i div 2 ^ Suc d = x" by (simp add: div_pow_Suc [symmetric] del: power_Suc)
  then have "i div 2 ^ Suc d * 2 ^ Suc d = 2 * x * 2 ^ d" by simp
  moreover have "i div 2 ^ d * 2 ^ d = (2 * x + 1) * 2 ^ d" using x by simp
  ultimately show ?thesis using True x byte_size_subtree [of "2 * x" d bs] unfolding front_def by (simp only: if_True) simp
next
  case False
  then obtain x where "i div 2 ^ d = 2 * x" by (auto elim: evenE)
  moreover from this have "i div 2 ^ Suc d = x" by (simp add: div_pow_Suc [symmetric] del: power_Suc)
  ultimately have "i div 2 ^ Suc d * 2 ^ Suc d = i div 2 ^ d * 2 ^ d" by simp
  then show ?thesis using False unfolding front_def by (simp only: if_False add_0_right)
qed

lemma offset_loop_skip:
  "\<forall>n\<in>set ns. n_index n \<noteq> ft_index (lib_ft L) it \<Longrightarrow> changeset_offset_loop L ns it toff ir par = (toff, par)"
  by (induction ns) auto

lemma position_at: "\<forall>x\<in>set xs. \<not> P x \<Longrightarrow> P y \<Longrightarrow> position P (xs @ y # ys) = Some (length xs)"
  by (induction xs) auto

lemma position_none: "\<forall>x\<in>set xs. \<not> P x \<Longrightarrow> position P xs = None"
  by (induction xs) auto

context libs_laws
begin

text \<open>The loop over the nodes of a changeset that starts with the path of block \<open>i\<close> follows this path; what
  it adds up are the bytes in front of the block below the node it has reached.\<close>

lemma offset_loop_path:
  assumes "in_tree (length bs) (d + k, i div 2 ^ (d + k))" "length bs < 2 ^ 62" "ft_at (lib_ft L) it (Suc d) (i div 2 ^ Suc d)"
    and "\<forall>n\<in>set rest. n_index n \<noteq> pos_index (Suc (d + k), i div 2 ^ Suc (d + k))" "i < 2 ^ 62"
  shows "changeset_offset_loop L (map (merkle_node L w bs) (path_positions i d k) @ rest) it toff (odd (i div 2 ^ d)) (Some (merkle_node L w bs (d, i div 2 ^ d))) =
    (toff + (of_nat (front bs i d) - of_nat (front bs i (d + k))), Some (merkle_node L w bs (d + k, i div 2 ^ (d + k))))"
  using assms(1,3,4)
proof (induction k arbitrary: d it toff)
  case 0
  then show ?case using offset_loop_skip [of rest L it] at_index [OF "0.prems"(2)] by auto
next
  case (Suc k)
  let ?N = "merkle_node L w bs" and ?it1 = "ft_parent (lib_ft L) it"
  have up: "in_tree (length bs) (Suc d + k, i div 2 ^ (Suc d + k))" using Suc.prems(1) by simp
  have "2 ^ (d + Suc k) \<le> length bs" using Suc.prems(1) by (simp add: in_tree_def)
  then have "(2 :: nat) ^ (d + Suc k) < 2 ^ 62" using assms(2) by linarith
  then have d: "d + Suc k < 62" by (rule power_less_imp_less_exp [rotated]) simp
  have ok: "pos_ok (Suc d) (i div 2 ^ Suc d)" "pos_ok (Suc (Suc d)) (i div 2 ^ Suc (Suc d))" "pos_ok d (sibling_offset (i div 2 ^ d))"
    by (rule block_pos_ok [OF assms(5)]; use d in simp)+
  have it1: "ft_at (lib_ft L) ?it1 (Suc (Suc d)) (i div 2 ^ Suc (Suc d))"
    using flat.parent [OF Suc.prems(2)] ok(2) by (simp only: div_pow_Suc)
  have idx: "ft_index (lib_ft L) it = pos_index (Suc d, i div 2 ^ Suc d)" using at_index [OF Suc.prems(2)] .
  have "tree_index d (sibling_offset (i div 2 ^ d)) \<noteq> tree_index (Suc d) (i div 2 ^ Suc d)" by (simp add: tree_index_inj)
  then have ne: "pos_index (d, sibling_offset (i div 2 ^ d)) \<noteq> pos_index (Suc d, i div 2 ^ Suc d)"
    using pos_index_unat [OF ok(3)] pos_index_unat [OF ok(1)] by metis
  have right: "ft_is_right (lib_ft L) it = odd (i div 2 ^ Suc d)" using flat.is_right [OF Suc.prems(2) ok(1)] .
  have rest: "\<forall>n\<in>set rest. n_index n \<noteq> pos_index (Suc (Suc d + k), i div 2 ^ Suc (Suc d + k))" using Suc.prems(3) by simp
  have len: "n_length (?N (Suc d, i div 2 ^ Suc d)) - n_length (?N (d, i div 2 ^ d)) = of_nat (front bs i d) - of_nat (front bs i (Suc d))"
    if "odd (i div 2 ^ d)"
  proof -
    obtain x where x: "i div 2 ^ d = 2 * x + 1" using \<open>odd (i div 2 ^ d)\<close> by (metis oddE)
    then have "i div 2 ^ Suc d = x" by (simp add: div_pow_Suc [symmetric] del: power_Suc)
    then show ?thesis using front_step [of bs i d] that x subtree_size_Suc [of bs d x] by simp
  qed
  have same: "front bs i d = front bs i (Suc d)" if "\<not> odd (i div 2 ^ d)" using front_step [of bs i d] that by simp
  show ?case
    using Suc.IH [OF up it1 rest, of "if odd (i div 2 ^ d) then toff + (n_length (?N (Suc d, i div 2 ^ Suc d)) - n_length (?N (d, i div 2 ^ d))) else toff"]
      idx ne right len same unfolding path_positions.simps list.map append.simps changeset_offset_loop.simps n_index_merkle Let_def
    by (simp add: add_Suc_shift [symmetric] del: power_Suc add_Suc_shift)
qed

section \<open>The offset\<close>

text \<open>The bytes in front of a node are those in front of its first block.\<close>

lemma node_offset_first_block:
  assumes "pos_ok k off"
  shows "byte_offset_from_nodes L t (pos_index (k, off)) nodes = byte_offset_from_nodes L t (of_nat (2 * (off * 2 ^ k))) nodes"
proof (cases k)
  case 0
  then show ?thesis by (simp add: pos_index_def)
next
  case (Suc d)
  have "odd (tree_index k off)" using tree_index_Suc [of d off] Suc by presburger
  then have "odd (pos_index (k, off))" by (simp add: pos_index_def)
  then have "pos_index (k, off) AND 1 = 1" by (simp add: and_one_eq odd_iff_mod_2_eq_one)
  moreover have "ft_left_span (lib_ft L) (pos_index (k, off)) = of_nat (2 * (off * 2 ^ k))"
    using flat.left_span [OF pos_index_unat [OF assms] assms] by (metis of_nat_unat_same)
  moreover have "of_nat (2 * (off * 2 ^ k)) AND 1 \<noteq> (1 :: u64)" by (simp add: and_one_eq mod2_eq_if)
  ultimately show ?thesis by (simp add: byte_offset_from_nodes_def Let_def del: of_nat_mult)
qed

lemma sum_root_lengths_eq:
  "sum_root_lengths (pre @ map (merkle_node L w bs) ps @ ys) (length pre) (length ps) acc =
    Ok (acc + of_nat (\<Sum>p \<leftarrow> ps. subtree_size bs (fst p) (snd p)))"
proof (induction ps arbitrary: pre acc)
  case (Cons p ps)
  have "index_at (pre @ map (merkle_node L w bs) (p # ps) @ ys) (length pre) = (Ok (merkle_node L w bs p) :: node hres)"
    by (simp add: index_at_def nth_append)
  moreover have "n_length (merkle_node L w bs p) = of_nat (subtree_size bs (fst p) (snd p))" by (cases p) simp
  ultimately show ?case using Cons.IH [of "pre @ [merkle_node L w bs p]"] by (simp add: add.assoc)
qed simp

lemma known_changeset_offset:
  assumes known: "tree_known L w bs K t f" and ps: "\<forall>p\<in>set ps. in_tree (length bs) p" and infos: "infos_of L w bs infos ps"
    and i: "in_tree (length bs) (k, i div 2 ^ k)" and cg: "cg_roots cg = mt_roots t" "cg_nodes cg = map (merkle_node L w bs) ((0, i) # path_positions i 0 k)"
  shows "byte_offset_in_changeset L t (of_nat i) cg infos =
    (let qs = (if (k, i div 2 ^ k) \<in> set (root_positions (length bs)) then []
               else to_read t ps (offset_path (length bs) (i div 2 ^ k * 2 ^ k)))
     in Ok (if qs = [] then Inr (of_nat (byte_size (take i bs))) else Inl (map instr_of qs)))"
proof -
  let ?N = "merkle_node L w bs" and ?n = "length bs" and ?i = "i div 2 ^ k * 2 ^ k"
  have t: "tree_of L w bs t" and max: "?n \<le> MAX_BLOCKS" using known by (simp_all add: tree_known_def)
  have lt: "i < ?n" using in_tree_path [of ?n 0 k i] i by (simp add: in_tree_def)
  then have i62: "i < 2 ^ 62" "?n < 2 ^ 62" "?i < ?n" using max le_less_trans [OF div_times_less_eq_dividend lt] by (simp_all add: MAX_BLOCKS_def)
  have ok: "pos_ok k (i div 2 ^ k)" using in_tree_index(2) [OF i max] by simp
  have ne: "mt_length t \<noteq> of_nat i" using t lt i62 by (auto simp: tree_of_def dest!: arg_cong [of _ _ unat] simp: unat_of_nat64)
  have ix: "unat (of_nat i * 2 :: u64) = tree_index 0 i" using i62(1) by (simp add: unat_mult_small unat_of_nat64)
  have it: "ft_at (lib_ft L) (ft_new (lib_ft L) (of_nat i * 2)) 0 i" using flat.new [OF ix] i62(1) by (simp add: pos_ok_def)
  have it1: "ft_at (lib_ft L) (ft_parent (lib_ft L) (ft_new (lib_ft L) (of_nat i * 2))) (Suc 0) (i div 2 ^ Suc 0)"
    using flat.parent [OF it] block_pos_ok(1) [OF i62(1), of "Suc 0"] by simp
  have right: "ft_is_right (lib_ft L) (ft_new (lib_ft L) (of_nat i * 2)) = odd (i div 2 ^ 0)"
    using flat.is_right [OF it] i62(1) by (simp add: pos_ok_def)
  let ?toff = "of_nat (byte_size (take i bs)) - of_nat (front bs i k) :: u64"
  have loop: "changeset_offset_loop L (cg_nodes cg) (ft_new (lib_ft L) (of_nat i * 2)) 0 False None = (?toff, Some (?N (k, i div 2 ^ k)))"
    using offset_loop_path [of bs 0 k i _ "[]" 0, OF _ i62(2) it1 _ i62(1)] i right at_index [OF it] by (simp add: cg(2) n_index_merkle front_def)
  show ?thesis
  proof (cases "(k, i div 2 ^ k) \<in> set (root_positions ?n)")
    case True
    then obtain xs ys where roots: "root_positions ?n = xs @ (k, i div 2 ^ k) # ys" "(k, i div 2 ^ k) \<notin> set xs"
      by (metis in_set_conv_decomp_first)
    have "\<forall>q\<in>set (xs @ (k, i div 2 ^ k) # ys). in_tree ?n q" using root_in_tree roots(1) by metis
    then have "pos_index x \<noteq> pos_index (k, i div 2 ^ k)" if "x \<in> set xs" for x
      using pos_index_inj [of ?n x "(k, i div 2 ^ k)"] that max roots(2) by auto
    then have "position (\<lambda>r. n_index r = n_index (?N (k, i div 2 ^ k))) (map ?N xs @ ?N (k, i div 2 ^ k) # map ?N ys) = Some (length (map ?N xs))"
      by (intro position_at) (auto simp: n_index_merkle)
    moreover have tr: "mt_roots t = map ?N xs @ ?N (k, i div 2 ^ k) # map ?N ys" using t roots(1) by (simp add: tree_of_def merkle_roots_def)
    moreover have "fchain 0 (i div 2 ^ k * 2 ^ k) xs"
    proof -
      have "fchain m ?n (xs @ (k, i div 2 ^ k) # ys) \<Longrightarrow> fchain m (i div 2 ^ k * 2 ^ k) xs" for m
        by (induction xs arbitrary: m) auto
      with fchain_roots [of ?n] roots(1) show ?thesis by simp
    qed
    then have "(\<Sum>p \<leftarrow> xs. subtree_size bs (fst p) (snd p)) = front bs i k"
      using fchain_size [of 0 ?i xs bs] i62(3) by (simp add: front_def slice_def)
    ultimately show ?thesis
      using ne loop True sum_root_lengths_eq [of "[]" bs xs "?N (k, i div 2 ^ k) # map ?N ys"]
      by (simp add: byte_offset_in_changeset_def hypercore_index_into_merkle_tree_index_def Let_def mult.commute [of "2 :: u64" "of_nat i"] cg(1))
  next
    case False
    have tr: "mt_roots t = map ?N (root_positions ?n)" using t by (simp add: tree_of_def merkle_roots_def)
    have "pos_index x \<noteq> pos_index (k, i div 2 ^ k)" if "x \<in> set (root_positions ?n)" for x
      using pos_index_inj [OF root_in_tree [OF that] i max] that False by auto
    then have "position (\<lambda>r. n_index r = n_index (?N (k, i div 2 ^ k))) (cg_roots cg) = None"
      unfolding cg(1) tr by (intro position_none) (auto simp: n_index_merkle)
    moreover obtain m where m: "infos_to_nodes L infos = Ok m" "node_source L w bs t m"
      "\<And>qs. \<forall>p\<in>set qs. in_tree ?n p \<Longrightarrow> filter (\<lambda>p. \<not> avail t m p) qs = to_read t ps qs"
      using known_nodes [OF known ps infos] by blast
    have "\<forall>p\<in>set (offset_path ?n ?i). in_tree ?n p" using in_tree_offset_path [OF i62(3)] by auto
    note offset = byte_offset_from_nodes_eq [OF t m(2) i62(3), unfolded m(3) [OF this]]
    ultimately show ?thesis
      using ne loop False m(1) offset node_offset_first_block [OF ok, of t m]
      by (simp add: byte_offset_in_changeset_def hypercore_index_into_merkle_tree_index_def byte_offset_from_index_def Let_def
          mult.commute [of "2 :: u64" "of_nat i"] n_index_merkle front_def)
  qed
qed

end

end
