(* ===== verification/Upgrade_Sound.thy ===== *)
theory Upgrade_Sound
  imports Upgrade_Verify
begin

text \<open>
  What an accepted upgrade says: the signature of the author holds for the hash of the new roots and
  the new length.  If the author signs only logs, the roots are those of one of them, or there is a
  collision.
\<close>

section \<open>The hashes in the roots\<close>

definition hashes_ok :: "node list \<Rightarrow> bool" where
  "hashes_ok ns \<longleftrightarrow> list_all (\<lambda>n. length (n_hash n) = 32) ns"

definition queue_ok :: "node_queue \<Rightarrow> bool" where
  "queue_ok q \<longleftrightarrow> (\<forall>n\<in>set (nq_nodes q) \<union> set_option (nq_extra q). length (n_hash n) = 32)"

text \<open>The bytes that the author signs for a log.\<close>

definition log_message :: "'it libs \<Rightarrow> wire_format \<Rightarrow> bytes list \<Rightarrow> bytes" where
  "log_message L w bs = TREE @ tree_hash L w bs @ w_u64 w (of_nat (length bs)) @ w_u64 w 0"

text \<open>The bytes whose signature is checked for a changeset, and a signature on bytes that the author did
  not sign.\<close>

definition changeset_message :: "'it libs \<Rightarrow> wire_format \<Rightarrow> changeset \<Rightarrow> bytes" where
  "changeset_message L w cg =
     TREE @ cr_blake2b (lib_cr L) (root_input w (cg_roots cg)) @ w_u64 w (cg_length cg) @ w_u64 w (cg_fork cg)"

definition forged :: "'it libs \<Rightarrow> wire_format \<Rightarrow> bytes list set \<Rightarrow> bytes \<Rightarrow> bytes \<Rightarrow> bytes \<Rightarrow> bool" where
  "forged L w logs pk msg sig \<longleftrightarrow> cr_verify (lib_cr L) pk msg sig \<and> msg \<notin> log_message L w ` logs"

lemma queue_shift: "shift q index = Ok (n, q') \<Longrightarrow> queue_ok q \<Longrightarrow> queue_ok q' \<and> length (n_hash n) = 32"
  by (auto simp: queue_ok_def shift_def Let_def split: option.splits if_splits)

context libs_laws
begin

lemma append_root_loop_hashes:
  "append_root_loop L roots nodes it = Ok (roots', nodes', it') \<Longrightarrow> hashes_ok roots \<Longrightarrow> hashes_ok roots'"
proof (induction "length roots" arbitrary: roots nodes it rule: less_induct)
  case less
  show ?case
  proof (cases "length roots > 1 \<and> ft_index (lib_ft L) (ft_sibling (lib_ft L) it) = n_index (roots ! (length roots - 2))")
    case True
    define n where "n = node_new (lib_ft L) (ft_index (lib_ft L) (ft_parent (lib_ft L) (ft_sibling (lib_ft L) it)))
      (cr_blake2b (lib_cr L) (pair_input w (roots ! (length roots - 1)) (roots ! (length roots - 2))))
      (n_length (roots ! (length roots - 1)) + n_length (roots ! (length roots - 2)))"
    let ?roots = "butlast (butlast roots) @ [n]"
    have "append_root_loop L ?roots (nodes @ [n]) (ft_parent (lib_ft L) (ft_sibling (lib_ft L) it)) = Ok (roots', nodes', it')"
      using less.prems(1) True unfolding append_root_loop.simps [of L roots]
      by (simp add: Let_def hash_parent_eq pair_input_def [symmetric] n_def)
    moreover have "hashes_ok ?roots"
      using less.prems(2) by (auto simp: hashes_ok_def list_all_iff n_def node_new_def crypt.length_blake2b dest!: in_set_butlastD)
    moreover have "length ?roots < length roots" using True by auto
    ultimately show ?thesis using less.hyps by blast
  next
    case False
    then show ?thesis using less.prems unfolding append_root_loop.simps [of L roots] by (auto simp: Let_def split: if_splits)
  qed
qed

lemma append_root_hashes:
  "append_root L cg n it = Ok (cg', it') \<Longrightarrow> hashes_ok (cg_roots cg) \<Longrightarrow> length (n_hash n) = 32 \<Longrightarrow> hashes_ok (cg_roots cg')"
  using append_root_loop_hashes [of "cg_roots cg @ [n]" "cg_nodes cg @ [n]" it]
  by (fastforce simp: append_root_def bindR_eq_Ok hashes_ok_def)

lemma grow_loop_hashes:
  "grow_loop L fuel r q cg it = Ok (q', cg', it') \<Longrightarrow> queue_ok q \<Longrightarrow> hashes_ok (cg_roots cg) \<Longrightarrow> queue_ok q' \<and> hashes_ok (cg_roots cg')"
proof (induction fuel arbitrary: q cg it)
  case (Suc fuel)
  show ?case
  proof (cases "ft_index (lib_ft L) it = r")
    case False
    with Suc.prems(1) obtain n q1 cg1 it1 where "shift q (ft_index (lib_ft L) (ft_sibling (lib_ft L) it)) = Ok (n, q1)"
      "append_root L cg n (ft_sibling (lib_ft L) it) = Ok (cg1, it1)" "grow_loop L fuel r q1 cg1 it1 = Ok (q', cg', it')"
      by (auto simp: bindR_eq_Ok Let_def)
    with Suc show ?thesis using queue_shift append_root_hashes by blast
  qed (use Suc.prems in simp)
qed simp

lemma upgrade_roots_hashes:
  "upgrade_roots_loop L fuel to q cg grow i it = Ok (q', cg', it') \<Longrightarrow> queue_ok q \<Longrightarrow> hashes_ok (cg_roots cg) \<Longrightarrow> hashes_ok (cg_roots cg')"
proof (induction fuel arbitrary: q cg grow i it)
  case (Suc fuel)
  obtain full it1 where f: "ft_full_root (lib_ft L) to it = (full, it1)" by (cases "ft_full_root (lib_ft L) to it")
  consider "\<not> full" | "full" "i < length (cg_roots cg)" "n_index (cg_roots cg ! i) = ft_index (lib_ft L) it1"
    | "full" "\<not> (i < length (cg_roots cg) \<and> n_index (cg_roots cg ! i) = ft_index (lib_ft L) it1)" "grow" "i < length (cg_roots cg)"
    | "full" "\<not> (i < length (cg_roots cg) \<and> n_index (cg_roots cg ! i) = ft_index (lib_ft L) it1)" "\<not> (grow \<and> i < length (cg_roots cg))"
    by blast
  then show ?case
  proof cases
    case 1
    with Suc.prems f show ?thesis by simp
  next
    case 2
    with Suc f show ?thesis by simp
  next
    case 3
    with Suc.prems(1) f obtain q1 cg1 it2 where
      "grow_loop L (lib_fuel L) (ft_index (lib_ft L) it1) q cg (ft_seek (lib_ft L) (n_index (last (cg_roots cg))) it1) = Ok (q1, cg1, it2)"
      "upgrade_roots_loop L fuel to q1 cg1 False i (ft_next_tree (lib_ft L) it2) = Ok (q', cg', it')"
      by (auto simp: bindR_eq_Ok Let_def)
    with Suc grow_loop_hashes show ?thesis by blast
  next
    case 4
    with Suc.prems(1) f obtain n q1 cg1 it2 where "shift q (ft_index (lib_ft L) it1) = Ok (n, q1)"
      "append_root L cg n it1 = Ok (cg1, it2)" "upgrade_roots_loop L fuel to q1 cg1 False i (ft_next_tree (lib_ft L) it2) = Ok (q', cg', it')"
      by (auto simp: bindR_eq_Ok Let_def split: if_splits)
    with Suc show ?thesis using queue_shift append_root_hashes by blast
  qed
qed simp

lemma extra_siblings_hashes:
  "extra_siblings L extra cg it = Ok (extra', cg', it') \<Longrightarrow> hashes_ok extra \<Longrightarrow> hashes_ok (cg_roots cg) \<Longrightarrow>
    hashes_ok extra' \<and> hashes_ok (cg_roots cg')"
proof (induction extra arbitrary: cg it)
  case (Cons n extra)
  show ?case
  proof (cases "n_index n = ft_index (lib_ft L) (ft_sibling (lib_ft L) it)")
    case True
    with Cons.prems(1) obtain cg1 it1 where "append_root L cg n (ft_sibling (lib_ft L) it) = Ok (cg1, it1)"
      "extra_siblings L extra cg1 it1 = Ok (extra', cg', it')" by (auto simp: bindR_eq_Ok Let_def)
    with Cons show ?thesis using append_root_hashes by (auto simp: hashes_ok_def)
  qed (use Cons.prems in \<open>auto simp: Let_def hashes_ok_def\<close>)
qed (simp add: hashes_ok_def)

lemma extra_roots_hashes:
  "extra_roots L extra cg it = Ok cg' \<Longrightarrow> hashes_ok extra \<Longrightarrow> hashes_ok (cg_roots cg) \<Longrightarrow> hashes_ok (cg_roots cg')"
proof (induction extra arbitrary: cg it)
  case (Cons n extra)
  then obtain it1 cg1 it2 where "append_root L cg n it1 = Ok (cg1, it2)" "extra_roots L extra cg1 (ft_sibling (lib_ft L) it2) = Ok cg'"
    by (auto simp: bindR_eq_Ok)
  with Cons show ?case using append_root_hashes by (auto simp: hashes_ok_def)
qed simp

lemma climb_root_hash:
  "climb_queue L q it cur ns = Ok (root, ns') \<Longrightarrow> length (n_hash cur) = 32 \<Longrightarrow> length (n_hash root) = 32"
proof (induction "nq_length q" arbitrary: q it cur ns)
  case 0
  then show ?case by (subst (asm) climb_queue.simps) simp
next
  case (Suc k)
  then obtain n q1 p where "shift q (ft_index (lib_ft L) (ft_sibling (lib_ft L) it)) = Ok (n, q1)"
    "parent_node L (ft_index (lib_ft L) (ft_parent (lib_ft L) (ft_sibling (lib_ft L) it))) cur n = Ok p"
    "climb_queue L q1 (ft_parent (lib_ft L) (ft_sibling (lib_ft L) it)) p (ns @ [n, p]) = Ok (root, ns')"
    by (subst (asm) climb_queue.simps) (auto simp: Let_def bindR_eq_Ok)
  moreover from this(2) have "length (n_hash p) = 32" by (auto simp: parent_node_eq node_new_def crypt.length_blake2b)
  ultimately show ?case using Suc.hyps(1) [of q1] Suc.hyps(2) shift_length by fastforce
qed

text \<open>The first half of the check leaves the roots alone and gives a node with a hash.\<close>

lemma climb_stage:
  assumes "bindR (climb_queue L q it n (cg_nodes cg @ [n])) (\<lambda>(root, nodes). Ok (Some root, cg\<lparr>cg_nodes := nodes\<rparr>)) = Ok (root, cg')"
    "length (n_hash n) = 32"
  shows "cg_roots cg' = cg_roots cg \<and> (\<forall>n. root = Some n \<longrightarrow> length (n_hash n) = 32)"
  using assms climb_root_hash by (auto simp: bindR_eq_Ok)

lemma seek_stage:
  assumes "(case seek of
      Some seek \<Rightarrow>
        if ds_nodes seek \<noteq> [] then
          let it = ft_new (lib_ft L) (n_index (ds_nodes seek ! 0)); q = node_queue_new (ds_nodes seek) None
          in bindR (shift q (ft_index (lib_ft L) it)) (\<lambda>(n, q).
             bindR (climb_queue L q it n (cg_nodes cg @ [n])) (\<lambda>(root, nodes). Ok (Some root, cg\<lparr>cg_nodes := nodes\<rparr>)))
        else Ok (None, cg)
    | None \<Rightarrow> Ok (None, cg)) = Ok (root, cg')"
    "\<forall>s. seek = Some s \<longrightarrow> hashes_ok (ds_nodes s)"
  shows "cg_roots cg' = cg_roots cg \<and> (\<forall>n. root = Some n \<longrightarrow> length (n_hash n) = 32)"
proof (cases "\<exists>s. seek = Some s \<and> ds_nodes s \<noteq> []")
  case True
  then obtain s where s: "seek = Some s" "ds_nodes s \<noteq> []" by blast
  let ?q = "node_queue_new (ds_nodes s) None" and ?it = "ft_new (lib_ft L) (n_index (ds_nodes s ! 0))"
  have q: "queue_ok ?q" using assms(2) s(1) by (auto simp: queue_ok_def node_queue_new_def hashes_ok_def list_all_iff)
  from assms(1) s obtain n q1 where n: "shift ?q (ft_index (lib_ft L) ?it) = Ok (n, q1)"
    "bindR (climb_queue L q1 ?it n (cg_nodes cg @ [n])) (\<lambda>(root, nodes). Ok (Some root, cg\<lparr>cg_nodes := nodes\<rparr>)) = Ok (root, cg')"
    by (auto simp: Let_def bindR_eq_Ok)
  from climb_stage [OF n(2)] queue_shift [OF n(1) q] show ?thesis by blast
next
  case False
  then show ?thesis using assms(1) by (auto split: option.splits)
qed

lemma verify_tree_hashes:
  assumes "verify_tree L block hash seek cg = Ok (root, cg')" "\<forall>h. hash = Some h \<longrightarrow> hashes_ok (dh_nodes h)"
    "\<forall>b. block = Some b \<longrightarrow> hashes_ok (dblk_nodes b)" "\<forall>s. seek = Some s \<longrightarrow> hashes_ok (ds_nodes s)"
  shows "cg_roots cg' = cg_roots cg \<and> (\<forall>n. root = Some n \<longrightarrow> length (n_hash n) = 32)"
proof (cases "normalize_data block hash = None \<and> (case seek of Some seek \<Rightarrow> ds_nodes seek = [] | None \<Rightarrow> True)")
  case True
  then show ?thesis using assms(1) by (auto simp: verify_tree_def)
next
  case False
  from assms(1) False obtain r1 cg1 where
    seek: "(case seek of
      Some seek \<Rightarrow>
        if ds_nodes seek \<noteq> [] then
          let it = ft_new (lib_ft L) (n_index (ds_nodes seek ! 0)); q = node_queue_new (ds_nodes seek) None
          in bindR (shift q (ft_index (lib_ft L) it)) (\<lambda>(n, q).
             bindR (climb_queue L q it n (cg_nodes cg @ [n])) (\<lambda>(root, nodes). Ok (Some root, cg\<lparr>cg_nodes := nodes\<rparr>)))
        else Ok (None, cg)
    | None \<Rightarrow> Ok (None, cg)) = Ok (r1, cg1)"
    and data: "(case normalize_data block hash of
       Some d \<Rightarrow>
         let it = ft_new (lib_ft L) (nd_index d); q = node_queue_new (nd_nodes d) r1
         in bindR (case nd_value d of
               Some val \<Rightarrow> bindR (block_node L (ft_index (lib_ft L) it) val) (\<lambda>n. Ok (n, q))
             | None \<Rightarrow> shift q (ft_index (lib_ft L) it)) (\<lambda>(n, q).
            bindR (climb_queue L q it n (cg_nodes cg1 @ [n])) (\<lambda>(root, nodes). Ok (Some root, cg1\<lparr>cg_nodes := nodes\<rparr>)))
     | None \<Rightarrow> Ok (r1, cg1)) = Ok (root, cg')"
    unfolding verify_tree_def Let_def by (auto simp: bindR_eq_Ok)
  note s = seek_stage [OF seek assms(4)]
  show ?thesis
  proof (cases "normalize_data block hash")
    case None
    with data s show ?thesis by simp
  next
    case (Some d)
    let ?it = "ft_new (lib_ft L) (nd_index d)" and ?q = "node_queue_new (nd_nodes d) r1"
    have "hashes_ok (nd_nodes d)" using Some assms(2,3) by (auto simp: normalize_data_def split: option.splits)
    then have q: "queue_ok ?q" using s by (auto simp: queue_ok_def node_queue_new_def hashes_ok_def list_all_iff)
    from data Some obtain n q1 where n: "(case nd_value d of
               Some val \<Rightarrow> bindR (block_node L (ft_index (lib_ft L) ?it) val) (\<lambda>n. Ok (n, ?q))
             | None \<Rightarrow> shift ?q (ft_index (lib_ft L) ?it)) = Ok (n, q1)"
      "bindR (climb_queue L q1 ?it n (cg_nodes cg1 @ [n])) (\<lambda>(root, nodes). Ok (Some root, cg1\<lparr>cg_nodes := nodes\<rparr>)) = Ok (root, cg')"
      by (auto simp: Let_def bindR_eq_Ok)
    have "length (n_hash n) = 32"
      using n(1) queue_shift [OF _ q] by (auto simp: block_node_eq node_new_def crypt.length_blake2b split: option.splits)
    from climb_stage [OF n(2) this] s show ?thesis by simp
  qed
qed

section \<open>Accepted upgrades\<close>

lemma verify_upgrade_signed:
  assumes "verify_upgrade L fork u root pk cg = Ok (b, cg')" "hashes_ok (du_nodes u)" "hashes_ok (du_additional_nodes u)"
    "hashes_ok (cg_roots cg)" "\<forall>n. root = Some n \<longrightarrow> length (n_hash n) = 32"
  shows "hashes_ok (cg_roots cg')" "cg_fork cg' = fork" "cg_signature cg' = Some (du_signature u)"
    "cr_verify (lib_cr L) pk (TREE @ cr_blake2b (lib_cr L) (root_input w (cg_roots cg')) @ w_u64 w (cg_length cg') @ w_u64 w fork) (du_signature u)"
proof -
  let ?q = "node_queue_new (du_nodes u) root"
  from assms(1) obtain q1 cg1 it1 extra cg2 it2 cg3 where
    loop: "upgrade_roots_loop L (lib_fuel L) (2 * (du_start u + du_length u)) ?q cg (cg_roots cg \<noteq> []) 0 (ft_new (lib_ft L) 0) = Ok (q1, cg1, it1)"
    and sib: "extra_siblings L (du_additional_nodes u) cg1 (ft_seek (lib_ft L) (n_index (last (cg_roots cg1))) it1) = Ok (extra, cg2, it2)"
    and ext: "extra_roots L extra cg2 it2 = Ok cg3"
    and sig: "verify_and_set_signature L (cg3\<lparr>cg_fork := fork\<rparr>) (du_signature u) pk = Ok cg'"
    by (auto simp: verify_upgrade_def Let_def bindR_eq_Ok split: if_splits)
  have "queue_ok ?q" using assms(2,5) by (auto simp: queue_ok_def node_queue_new_def hashes_ok_def list_all_iff)
  from upgrade_roots_hashes [OF loop this assms(4)] extra_siblings_hashes [OF sib assms(3)] extra_roots_hashes [OF ext]
  have "hashes_ok (cg_roots cg3)" by blast
  moreover note v = verified_message [OF sig]
  have eq: "cg' = cg3\<lparr>cg_fork := fork, cg_hash := cg_hash cg', cg_signature := Some (du_signature u)\<rparr>" using v(5) by simp
  have "cg_roots cg' = cg_roots cg3" "cg_length cg' = cg_length cg3" "cg_fork cg' = fork"
    using arg_cong [OF eq, of cg_roots] arg_cong [OF eq, of cg_length] arg_cong [OF eq, of cg_fork] by simp_all
  ultimately show "hashes_ok (cg_roots cg')" "cg_fork cg' = fork" "cg_signature cg' = Some (du_signature u)"
    "cr_verify (lib_cr L) pk (TREE @ cr_blake2b (lib_cr L) (root_input w (cg_roots cg')) @ w_u64 w (cg_length cg') @ w_u64 w fork) (du_signature u)"
    using v(2,4) by simp_all
qed

text \<open>A proof with an upgrade, whatever else it has: the roots of the changeset are those of a log that
  the author signed, of the very length of the changeset, unless the signature is forged.\<close>

lemma upgrade_binding:
  assumes ok: "verify_proof L t pf pk infos = Ok (Inr cg)" and pf: "pf_upgrade pf = Some u"
    and nodes: "hashes_ok (du_nodes u)" "hashes_ok (du_additional_nodes u)" "hashes_ok (mt_roots t)"
    and parts: "\<forall>h. pf_hash pf = Some h \<longrightarrow> hashes_ok (dh_nodes h)" "\<forall>b. pf_block pf = Some b \<longrightarrow> hashes_ok (dblk_nodes b)"
      "\<forall>s. pf_seek pf = Some s \<longrightarrow> hashes_ok (ds_nodes s)"
  shows "forged L w logs pk (changeset_message L w cg) (du_signature u) \<or> (\<exists>bs\<in>logs. cg_length cg = of_nat (length bs) \<and> cg_fork cg = 0 \<and> cg_signature cg = Some (du_signature u) \<and>
    (collide L {root_input w (cg_roots cg)} (tree_inputs L w bs) \<or>
     map (\<lambda>n. (n_hash n, n_index n, n_length n)) (cg_roots cg) = map (\<lambda>n. (n_hash n, n_index n, n_length n)) (merkle_roots L w bs)))"
proof (rule disj_imp [THEN iffD2, rule_format])
  assume signed: "\<not> forged L w logs pk (changeset_message L w cg) (du_signature u)"
  obtain root cg0 b where tree: "verify_tree L (pf_block pf) (pf_hash pf) (pf_seek pf) (mt_changeset t) = Ok (root, cg0)"
    and up: "verify_upgrade L (pf_fork pf) u root pk cg0 = Ok (b, cg)"
  proof -
    from ok pf obtain nodes root cg0 b cg1 where r: "verify_tree L (pf_block pf) (pf_hash pf) (pf_seek pf) (mt_changeset t) = Ok (root, cg0)"
      "verify_upgrade L (pf_fork pf) u root pk cg0 = Ok (b, cg1)"
      "(case if b then None else root of
         Some unverified \<Rightarrow>
           bindR (required_node t (n_index unverified) nodes) (\<lambda>r.
           case r of
             Inl instr \<Rightarrow> Ok (Inl [instr])
           | Inr verified \<Rightarrow> if n_hash verified \<noteq> n_hash unverified then Err InvalidChecksum else Ok (Inr cg1))
       | None \<Rightarrow> Ok (Inr cg1)) = Ok (Inr cg)"
      by (auto simp: verify_proof_def bindR_eq_Ok)
    from r(3) have "cg1 = cg" by (auto simp: bindR_eq_Ok split: option.split_asm if_split_asm sum.split_asm)
    with r that show thesis by blast
  qed
  from verify_tree_hashes [OF tree parts] nodes(3)
  have "hashes_ok (cg_roots cg0)" "\<forall>n. root = Some n \<longrightarrow> length (n_hash n) = 32"
    by (simp_all add: mt_changeset_def changeset_new_def)
  note v = verify_upgrade_signed [OF up nodes(1,2) this]
  obtain bs where bs: "bs \<in> logs"
    "TREE @ cr_blake2b (lib_cr L) (root_input w (cg_roots cg)) @ w_u64 w (cg_length cg) @ w_u64 w (pf_fork pf) = log_message L w bs"
    using signed v(2,4) by (auto simp: forged_def changeset_message_def)
  have h: "cr_blake2b (lib_cr L) (root_input w (cg_roots cg)) = tree_hash L w bs"
    "w_u64 w (cg_length cg) @ w_u64 w (pf_fork pf) @ [] = w_u64 w (of_nat (length bs)) @ w_u64 w 0 @ []"
    using bs(2) by (auto simp: log_message_def tree_hash_def crypt.length_blake2b)
  then have len: "cg_length cg = of_nat (length bs)" "pf_fork pf = 0" unfolding same_u64 by simp_all
  have "collide L {root_input w (cg_roots cg)} (tree_inputs L w bs) \<or>
     map (\<lambda>n. (n_hash n, n_index n, n_length n)) (cg_roots cg) = map (\<lambda>n. (n_hash n, n_index n, n_length n)) (merkle_roots L w bs)"
  proof (cases "root_input w (cg_roots cg) = root_input w (merkle_roots L w bs)")
    case True
    have "list_all (\<lambda>n. length (n_hash n) = 32) (merkle_roots L w bs)"
      using merkle_node_ok by (auto simp: merkle_roots_def list_all_iff node_ok_def)
    from root_input_inject [OF True v(1) [unfolded hashes_ok_def] this] show ?thesis ..
  next
    case False
    then show ?thesis using h(1) by (auto simp: collide_def tree_inputs_def tree_hash_def)
  qed
  with bs(1) len v(2,3) show "\<exists>bs\<in>logs. cg_length cg = of_nat (length bs) \<and> cg_fork cg = 0 \<and> cg_signature cg = Some (du_signature u) \<and>
    (collide L {root_input w (cg_roots cg)} (tree_inputs L w bs) \<or>
     map (\<lambda>n. (n_hash n, n_index n, n_length n)) (cg_roots cg) = map (\<lambda>n. (n_hash n, n_index n, n_length n)) (merkle_roots L w bs))"
    by auto
qed

end

end
