(* ===== verification/Core_Machine.thy ===== *)
theory Core_Machine
  imports Core_Reopen
begin

text \<open>
  An append-only log with holes as the abstract specification of an author's core, and that the
  core implements it: every sequence of commands, with reopenings in between, gets the replies
  that the log gives.
\<close>

section \<open>The specification\<close>

record log_state =
  ls_blocks :: "bytes list"
  ls_have :: "nat set"
  ls_writeable :: bool

datatype command = AppendBatch "bytes list" | GetBlock u64 | HasBlock u64 | ClearRange u64 u64 | MakeReadOnly | GetInfo | Reopen

datatype reply = Outcome append_outcome | Block "bytes option" | Present bool | Cleared | WasWriteable bool
  | Info core_info_record | Reopened | Failed hypercore_error

definition empty_log :: "bool \<Rightarrow> log_state" where
  "empty_log wr = \<lparr>ls_blocks = [], ls_have = {}, ls_writeable = wr\<rparr>"

definition first_gap :: "nat set \<Rightarrow> nat \<Rightarrow> nat" where
  "first_gap have len = length (takeWhile (\<lambda>i. i \<in> have) [0 ..< len])"

fun spec_exec :: "command \<Rightarrow> log_state \<Rightarrow> reply \<times> log_state" where
  "spec_exec (AppendBatch cs) st =
     (if \<not> ls_writeable st then (Failed NotWritable, st)
      else let bs = ls_blocks st @ cs
           in (Outcome \<lparr>ao_length = of_nat (length bs), ao_byte_length = of_nat (byte_size bs)\<rparr>,
               st\<lparr>ls_blocks := bs, ls_have := ls_have st \<union> {length (ls_blocks st)..<length bs}\<rparr>))"
| "spec_exec (GetBlock i) st =
     (Block (if unat i \<in> ls_have st then Some (ls_blocks st ! unat i) else None), st)"
| "spec_exec (HasBlock i) st = (Present (unat i \<in> ls_have st), st)"
| "spec_exec (ClearRange s e) st = (Cleared, st\<lparr>ls_have := ls_have st - {unat s..<unat e}\<rparr>)"
| "spec_exec MakeReadOnly st = (WasWriteable (ls_writeable st), st\<lparr>ls_writeable := False\<rparr>)"
| "spec_exec GetInfo st =
     (Info \<lparr>ci_length = of_nat (length (ls_blocks st)), ci_byte_length = of_nat (byte_size (ls_blocks st)),
        ci_contiguous_length = of_nat (first_gap (ls_have st) (length (ls_blocks st))), ci_fork = 0,
        ci_writeable = ls_writeable st\<rparr>, st)"
| "spec_exec Reopen st = (Reopened, st)"

text \<open>The limits within which the core implements it: sizes, no empty blocks, no node with the hash
  of a blank one; ranges to clear within the log; and reopening only a log without holes that fits
  the first quarter of a bitfield page.\<close>

fun admissible :: "'it libs \<Rightarrow> wire_format \<Rightarrow> command \<Rightarrow> log_state \<Rightarrow> bool" where
  "admissible L w (AppendBatch cs) st \<longleftrightarrow> core_small (ls_blocks st @ cs) \<and> nonblank L w (ls_blocks st @ cs) \<and>
     length cs \<le> MAX_BATCH \<and> [] \<notin> set cs"
| "admissible L w (ClearRange s e) st \<longleftrightarrow> unat e \<le> length (ls_blocks st)"
| "admissible L w Reopen st \<longleftrightarrow> ls_have st = {..<length (ls_blocks st)} \<and> length (ls_blocks st) \<le> 8192"
| "admissible L w _ st \<longleftrightarrow> True"

section \<open>The core's replies\<close>

definition reply_with :: "('a \<Rightarrow> reply) \<Rightarrow> 'a hres \<times> 'd hypercore \<Rightarrow> reply hres \<times> 'd hypercore" where
  "reply_with f r =
     ((case fst r of Ok x \<Rightarrow> Ok (f x) | Err e \<Rightarrow> Ok (Failed e) | Panic \<Rightarrow> Panic | Diverge \<Rightarrow> Diverge), snd r)"

fun core_exec ::
  "'it libs \<Rightarrow> 'd random_access \<Rightarrow> command \<Rightarrow> 'd hypercore \<Rightarrow> reply hres \<times> 'd hypercore" where
  "core_exec L ra (AppendBatch cs) c = reply_with Outcome (core_append_batch L ra cs c)"
| "core_exec L ra (GetBlock i) c = reply_with Block (core_get L ra i c)"
| "core_exec L ra (HasBlock i) c = reply_with Present (core_has c i, c)"
| "core_exec L ra (ClearRange s e) c = reply_with (\<lambda>_. Cleared) (core_clear L ra s e c)"
| "core_exec L ra MakeReadOnly c = reply_with WasWriteable (make_read_only L ra c)"
| "core_exec L ra GetInfo c = (Ok (Info (core_info c)), c)"
| "core_exec L ra Reopen c =
     (case core_new L ra [] (hc_storage c) (hypercore_options_new\<lparr>ho_open := True\<rparr>) of
        Ok c' \<Rightarrow> (Ok Reopened, c')
      | Err e \<Rightarrow> (Ok (Failed e), c)
      | Panic \<Rightarrow> (Panic, c)
      | Diverge \<Rightarrow> (Diverge, c))"

fun spec_trace :: "command list \<Rightarrow> log_state \<Rightarrow> reply list" where
  "spec_trace [] st = []"
| "spec_trace (cmd # cmds) st = (let (r, st') = spec_exec cmd st in r # spec_trace cmds st')"

fun core_trace :: "'it libs \<Rightarrow> 'd random_access \<Rightarrow> command list \<Rightarrow> 'd hypercore \<Rightarrow> reply hres list" where
  "core_trace L ra [] c = []"
| "core_trace L ra (cmd # cmds) c = (let (r, c') = core_exec L ra cmd c in r # core_trace L ra cmds c')"

fun admissible_trace :: "'it libs \<Rightarrow> wire_format \<Rightarrow> command list \<Rightarrow> log_state \<Rightarrow> bool" where
  "admissible_trace L w [] st \<longleftrightarrow> True"
| "admissible_trace L w (cmd # cmds) st \<longleftrightarrow>
     admissible L w cmd st \<and> admissible_trace L w cmds (snd (spec_exec cmd st))"

section \<open>The simulation\<close>

definition core_rel ::
  "'it libs \<Rightarrow> wire_format \<Rightarrow> ('d \<Rightarrow> bytes) \<Rightarrow> bytes \<Rightarrow> 'd hypercore \<Rightarrow> log_state \<Rightarrow> bool" where
  "core_rel L w content sk c st \<longleftrightarrow>
     core_inv L w content sk c (ls_blocks st) (ls_have st) \<and> [] \<notin> set (ls_blocks st) \<and>
     ls_writeable st = (kp_secret (hc_key_pair c) \<noteq> None)"

lemma first_gap_contiguous: "have \<subseteq> {..<len} \<Longrightarrow> contiguous_at have (first_gap have len)"
proof -
  assume "have": "have \<subseteq> {..<len}"
  let ?n = "first_gap have len"
  have le: "?n \<le> len" using length_takeWhile_le [of "\<lambda>i. i \<in> have" "[0 ..< len]"] by (simp add: first_gap_def)
  have "i \<in> have" if "i < ?n" for i
  proof -
    have "takeWhile (\<lambda>i. i \<in> have) [0 ..< len] ! i = i"
      using that le takeWhile_nth [of i "\<lambda>i. i \<in> have" "[0 ..< len]"] by (simp add: first_gap_def)
    then show ?thesis using that nth_mem set_takeWhileD unfolding first_gap_def by metis
  qed
  moreover have "?n \<notin> have"
  proof (cases "?n < len")
    case True
    then show ?thesis
      using nth_length_takeWhile [of "\<lambda>i. i \<in> have" "[0 ..< len]"] by (simp add: first_gap_def)
  next
    case False
    with "have" le show ?thesis by auto
  qed
  ultimately show ?thesis by (auto simp: contiguous_at_def)
qed

context device_laws
begin

lemma append_not_writeable:
  "kp_secret (hc_key_pair c) = None \<Longrightarrow> core_append_batch L ra cs c = (Err NotWritable, c)"
  by (simp add: core_append_batch_def run_simps)

lemma append_nothing:
  assumes "core_view L w content sk c bs have" "kp_secret (hc_key_pair c) \<noteq> None"
  shows "core_append_batch L ra [] c = (Ok \<lparr>ao_length = of_nat (length bs), ao_byte_length = of_nat (byte_size bs)\<rparr>, c)"
  using assms by (auto simp: core_append_batch_def run_simps core_view_def tree_held_def tree_of_def)

lemma inv_view: "core_inv L w content sk c bs have \<Longrightarrow> core_view L w content sk c bs have"
  by (simp add: core_inv_def)

lemma core_inv_events: "core_inv L w content sk c bs have \<Longrightarrow> core_inv L w content sk (c\<lparr>hc_events := ev\<rparr>) bs have"
  by (simp add: core_inv_def core_view_def hint_ok_def durable_def)

lemma simulate_append:
  assumes rel: "core_rel L w content sk c st" and ok: "admissible L w (AppendBatch cs) st"
  shows "\<exists>c'. core_exec L ra (AppendBatch cs) c = (Ok (fst (spec_exec (AppendBatch cs) st)), c') \<and>
    core_rel L w content sk c' (snd (spec_exec (AppendBatch cs) st))"
proof -
  have inv: "core_inv L w content sk c (ls_blocks st) (ls_have st)" using rel by (simp add: core_rel_def)
  show ?thesis
  proof (cases "kp_secret (hc_key_pair c)")
    case None
    with rel append_not_writeable [OF None] show ?thesis by (auto simp: core_rel_def reply_with_def)
  next
    case (Some k)
    then have k: "kp_secret (hc_key_pair c) = Some sk" using inv by (simp add: core_inv_def core_view_def author_keys_def)
    show ?thesis
    proof (cases "cs = []")
      case True
      with rel k append_nothing [OF inv_view [OF inv]] show ?thesis
        by (auto simp: core_rel_def reply_with_def Let_def)
    next
      case False
      then have "concat cs \<noteq> []" using ok by (cases cs) auto
      with core_append_ok [OF inv k False] ok rel k show ?thesis
        by (fastforce simp: core_rel_def reply_with_def Let_def)
    qed
  qed
qed

lemma simulate_clear:
  assumes rel: "core_rel L w content sk c st" and ok: "admissible L w (ClearRange s e) st"
  shows "\<exists>c'. core_exec L ra (ClearRange s e) c = (Ok (fst (spec_exec (ClearRange s e) st)), c') \<and>
    core_rel L w content sk c' (snd (spec_exec (ClearRange s e) st))"
proof (cases "s \<ge> e")
  case True
  then have "{unat s..<unat e} = {}" by (simp add: word_le_nat_alt)
  with True rel show ?thesis by (simp add: core_clear_def reply_with_def core_rel_def)
next
  case False
  have inv: "core_inv L w content sk c (ls_blocks st) (ls_have st)" using rel by (simp add: core_rel_def)
  have "\<forall>i\<in>ls_have st - {unat s..<unat e}. ls_blocks st ! i \<noteq> []"
  proof
    fix i assume "i \<in> ls_have st - {unat s..<unat e}"
    then have "i < length (ls_blocks st)" using inv by (auto simp: core_inv_def core_view_def)
    then have "ls_blocks st ! i \<in> set (ls_blocks st)" by (rule nth_mem)
    with rel show "ls_blocks st ! i \<noteq> []" unfolding core_rel_def by metis
  qed
  with core_clear_ok [OF inv, of "unat s" "unat e"] False ok rel show ?thesis
    by (auto simp: word_le_nat_alt core_rel_def reply_with_def)
qed

lemma simulate_reopen:
  assumes rel: "core_rel L w content sk c st" and ok: "admissible L w Reopen st"
  shows "\<exists>c'. core_exec L ra Reopen c = (Ok Reopened, c') \<and> core_rel L w content sk c' st"
proof -
  let ?opt = "hypercore_options_new\<lparr>ho_open := True\<rparr>"
  have inv: "core_inv L w content sk c (ls_blocks st) (ls_have st)" using rel by (simp add: core_rel_def)
  have opt: "ho_open ?opt \<longrightarrow> ho_key_pair ?opt = None" by (simp add: hypercore_options_new_def)
  from core_reopen_ok [OF inv _ opt, of "[]"] ok rel show ?thesis by (auto simp: core_rel_def)
qed

lemma simulate:
  assumes rel: "core_rel L w content sk c st" and ok: "admissible L w cmd st"
  shows "\<exists>c'. core_exec L ra cmd c = (Ok (fst (spec_exec cmd st)), c') \<and> core_rel L w content sk c' (snd (spec_exec cmd st))"
proof (cases cmd)
  case (AppendBatch cs)
  with simulate_append [OF rel] ok show ?thesis by blast
next
  case (ClearRange s e)
  with simulate_clear [OF rel] ok show ?thesis by blast
next
  case Reopen
  with simulate_reopen [OF rel] ok show ?thesis by auto
next
  case (GetBlock i)
  have inv: "core_inv L w content sk c (ls_blocks st) (ls_have st)" using rel by (simp add: core_rel_def)
  show ?thesis
  proof (cases "unat i \<in> ls_have st")
    case True
    with core_get_present [OF inv_view [OF inv] True] rel GetBlock show ?thesis by (simp add: reply_with_def)
  next
    case False
    with core_get_absent [OF inv_view [OF inv] False] rel core_inv_events [OF inv] GetBlock show ?thesis
      by (simp add: reply_with_def core_rel_def)
  qed
next
  case (HasBlock i)
  have inv: "core_inv L w content sk c (ls_blocks st) (ls_have st)" using rel by (simp add: core_rel_def)
  from core_view_bits [OF inv_view [OF inv]] rel HasBlock show ?thesis by (simp add: core_has_def reply_with_def)
next
  case MakeReadOnly
  with rel make_read_only_ok show ?thesis unfolding core_rel_def by (fastforce simp: reply_with_def)
next
  case GetInfo
  have inv: "core_inv L w content sk c (ls_blocks st) (ls_have st)" using rel by (simp add: core_rel_def)
  then have "have": "ls_have st \<subseteq> {..<length (ls_blocks st)}" by (simp add: core_inv_def core_view_def)
  have "(kp_secret (hc_key_pair c) = Some sk) = (kp_secret (hc_key_pair c) \<noteq> None)"
    using inv by (auto simp: core_inv_def core_view_def author_keys_def)
  with core_info_eq [OF inv] contiguous_unique [OF first_gap_contiguous [OF "have"]] rel GetInfo show ?thesis
    by (auto simp: core_rel_def)
qed

lemma simulate_trace:
  "core_rel L w content sk c st \<Longrightarrow> admissible_trace L w cmds st \<Longrightarrow>
    core_trace L ra cmds c = map Ok (spec_trace cmds st)"
proof (induction cmds arbitrary: c st)
  case (Cons cmd cmds)
  from simulate [OF Cons.prems(1), of cmd] Cons.prems(2) obtain c' where
    "core_exec L ra cmd c = (Ok (fst (spec_exec cmd st)), c')" "core_rel L w content sk c' (snd (spec_exec cmd st))" by auto
  with Cons.IH [of c' "snd (spec_exec cmd st)"] Cons.prems(2) show ?case by (simp add: Let_def case_prod_unfold)
qed simp

end

end
