(* ===== verification/Core_Properties.thy ===== *)
theory Core_Properties
  imports Core_Machine
begin

text \<open>
  The properties of the core as a whole, for every implementation of the libraries and of the
  storage devices that keeps their laws, each with an instance on the reference libraries and
  storage in memory.
\<close>

section \<open>A core in memory\<close>

definition ref_secret :: bytes where "ref_secret = replicate 32 7"

definition ref_pair :: partial_keypair where
  "ref_pair = \<lparr>kp_public = cr_verifying_key ref_crypto ref_secret, kp_secret = Some ref_secret\<rparr>"

definition mem_empty :: "bytes storage" where
  "mem_empty = \<lparr>st_tree = [], st_data = [], st_bitfield = [], st_oplog = []\<rparr>"

lemma mem_empty_stored: "stored mem_content mem_empty st = []"
  by (cases st) (simp_all add: mem_empty_def mem_content_def get_random_access.simps)

lemma ref_author: "author_keys ref_libs ref_secret ref_pair"
  by (simp add: author_keys_def ref_pair_def ref_secret_def)

lemma ref_nonblank: "nonblank ref_libs ref_wire bs"
proof -
  have "\<not> n_blank (merkle_node ref_libs ref_wire bs (d, off))" for d off
    by (cases d) (simp_all add: merkle_node_def node_new_def ref_crypto_def ref_digest_def)
  then show ?thesis unfolding nonblank_def by (metis prod.collapse)
qed

lemma ref_core_new:
  obtains c where "core_inv ref_libs ref_wire mem_content ref_secret c [] {}" "kp_secret (hc_key_pair c) = Some ref_secret"
    "ev_sent (hc_events c) = []"
  using mem_log.core_fresh_ok [of mem_empty "\<lparr>ho_key_pair = Some ref_pair, ho_open = False\<rparr>" ref_pair "[]" ref_secret]
    mem_empty_stored ref_author by (auto simp: ref_pair_def)

lemma ref_core_blocks:
  obtains c where "core_inv ref_libs ref_wire mem_content ref_secret c [[1], [2, 3]] {..<2}"
    "kp_secret (hc_key_pair c) = Some ref_secret"
proof -
  obtain c where c: "core_inv ref_libs ref_wire mem_content ref_secret c [] {}" "kp_secret (hc_key_pair c) = Some ref_secret"
    using ref_core_new by blast
  have "core_small ([] @ [[1], [2, 3]])" "length [[1], [2, 3 :: u8]] \<le> MAX_BATCH"
    by (simp_all add: core_small_def MAX_BLOCKS_def MAX_BATCH_def byte_size_def)
  from mem_log.core_append_ok [OF c _ this(2,1) ref_nonblank] c(2) show thesis
    using that by (auto simp: numeral_2_eq_2 lessThan_atLeast0)
qed

section \<open>The core implements a log\<close>

text \<open>C1: a core made on empty stores gives, to every sequence of appends, reads, clears, reopenings,
  of making it read-only and asking for its state, exactly the replies of an append-only log with
  holes: blocks come back as they were appended, cleared ones are gone, lengths are right, and a
  reader's append fails.  The commands have to stay within the limits of \<open>admissible\<close>.\<close>

theorem core_refines_log:
  assumes "device_laws L w ra content" "\<forall>st. stored content s st = []" "author_keys L sk kp"
    and "admissible_trace L w cmds (empty_log (kp_secret kp \<noteq> None))"
  shows "\<exists>c. core_new L ra generated s \<lparr>ho_key_pair = Some kp, ho_open = False\<rparr> = Ok c \<and>
    core_trace L ra cmds c = map Ok (spec_trace cmds (empty_log (kp_secret kp \<noteq> None)))"
proof -
  from device_laws.core_fresh_ok [OF assms(1,2) _ _ assms(3), of "\<lparr>ho_key_pair = Some kp, ho_open = False\<rparr>" generated]
  obtain c where c: "core_new L ra generated s \<lparr>ho_key_pair = Some kp, ho_open = False\<rparr> = Ok c"
    "core_inv L w content sk c [] {}" "hc_key_pair c = kp" by auto
  then have "core_rel L w content sk c (empty_log (kp_secret kp \<noteq> None))" by (simp add: core_rel_def empty_log_def)
  from device_laws.simulate_trace [OF assms(1) this assms(4)] c(1) show ?thesis by blast
qed

theorem core_refines_log_witness:
  "\<exists>c. core_new ref_libs mem_access [] mem_empty \<lparr>ho_key_pair = Some ref_pair, ho_open = False\<rparr> = Ok c \<and>
    core_trace ref_libs mem_access [AppendBatch [[1], [2, 3]], Reopen, GetBlock 1, ClearRange 0 1, GetBlock 0, MakeReadOnly,
        AppendBatch [[4]]] c =
      [Ok (Outcome \<lparr>ao_length = 2, ao_byte_length = 3\<rparr>), Ok Reopened, Ok (Block (Some [2, 3])), Ok Cleared, Ok (Block None),
       Ok (WasWriteable True), Ok (Failed NotWritable)]"
proof -
  let ?cmds = "[AppendBatch [[1], [2, 3]], Reopen, GetBlock 1, ClearRange 0 1, GetBlock 0, MakeReadOnly, AppendBatch [[4]]]"
  have "admissible_trace ref_libs ref_wire ?cmds (empty_log (kp_secret ref_pair \<noteq> None))"
    by (auto simp: empty_log_def ref_pair_def ref_nonblank core_small_def MAX_BLOCKS_def MAX_BATCH_def byte_size_def)
  from core_refines_log [OF mem_log.device_laws_axioms _ ref_author this] mem_empty_stored show ?thesis
    by (simp add: empty_log_def ref_pair_def byte_size_def)
qed

section \<open>Each operation\<close>

text \<open>C19: making a core on empty stores, with a given key pair or a generated one, gives a core whose
  state and stores represent the empty log.\<close>

theorem new_core_is_empty:
  assumes "device_laws L w ra content" "\<forall>st. stored content s st = []" "\<not> ho_open opt"
    and "kp = (case ho_key_pair opt of Some kp \<Rightarrow> kp
      | None \<Rightarrow> \<lparr>kp_public = cr_verifying_key (lib_cr L) generated, kp_secret = Some generated\<rparr>)" "author_keys L sk kp"
  shows "\<exists>c. core_new L ra generated s opt = Ok c \<and> core_inv L w content sk c [] {} \<and> hc_key_pair c = kp"
  using device_laws.core_fresh_ok [OF assms] by blast

theorem new_core_is_empty_witness:
  "\<exists>c. core_new ref_libs mem_access ref_secret mem_empty hypercore_options_new = Ok c \<and>
    core_inv ref_libs ref_wire mem_content ref_secret c [] {} \<and> kp_secret (hc_key_pair c) = Some ref_secret"
  using new_core_is_empty [OF mem_log.device_laws_axioms, of mem_empty hypercore_options_new ref_pair ref_secret ref_secret]
    mem_empty_stored ref_author by (auto simp: hypercore_options_new_def ref_pair_def)

text \<open>C3: appending a batch to a writeable core returns the new length and byte length, puts the
  blocks behind the ones that are there, keeps the invariant of memory and stores, and sends the
  two events.  The batch is not empty; an empty block can only be appended when the data store
  reaches up to its place.\<close>

theorem append_extends_log:
  assumes "device_laws L w ra content" "core_inv L w content sk c bs have" "kp_secret (hc_key_pair c) = Some sk"
    and "cs \<noteq> []" "length cs \<le> MAX_BATCH" "core_small (bs @ cs)" "nonblank L w (bs @ cs)"
    and "concat cs \<noteq> [] \<or> byte_size bs \<le> length (stored content (hc_storage c) Data)"
  shows "\<exists>c'. core_append_batch L ra cs c =
      (Ok \<lparr>ao_length = of_nat (length (bs @ cs)), ao_byte_length = of_nat (byte_size (bs @ cs))\<rparr>, c') \<and>
    core_inv L w content sk c' (bs @ cs) (have \<union> {length bs..<length (bs @ cs)}) \<and> hc_key_pair c' = hc_key_pair c \<and>
    ev_sent (hc_events c') = ev_sent (hc_events c) @
      [DataUpgrade, Have \<lparr>hv_start = of_nat (length bs), hv_length = of_nat (length cs), hv_drop = False\<rparr>]"
  using device_laws.core_append_ok [OF assms] .

theorem append_extends_log_witness:
  "\<exists>c c'. core_inv ref_libs ref_wire mem_content ref_secret c [[1], [2, 3]] {..<2} \<and>
    core_append_batch ref_libs mem_access [[4], []] c = (Ok \<lparr>ao_length = 4, ao_byte_length = 4\<rparr>, c') \<and>
    core_inv ref_libs ref_wire mem_content ref_secret c' [[1], [2, 3], [4], []] {..<4}"
proof -
  obtain c where c: "core_inv ref_libs ref_wire mem_content ref_secret c [[1], [2, 3]] {..<2}"
    "kp_secret (hc_key_pair c) = Some ref_secret" using ref_core_blocks by blast
  have size: "core_small ([[1], [2, 3]] @ [[4], []])" "length [[4], [] :: bytes] \<le> MAX_BATCH"
    by (simp_all add: core_small_def MAX_BLOCKS_def MAX_BATCH_def byte_size_def)
  have all: "{..<2} \<union> {Suc (Suc 0)..<Suc (Suc (Suc (Suc 0)))} = {..<4 :: nat}" by auto
  from append_extends_log [OF mem_log.device_laws_axioms c _ size(2,1) ref_nonblank] obtain c' where
    "core_append_batch ref_libs mem_access [[4], []] c = (Ok \<lparr>ao_length = 4, ao_byte_length = 4\<rparr>, c')"
    "core_inv ref_libs ref_wire mem_content ref_secret c' [[1], [2, 3], [4], []] ({..<2} \<union> {Suc (Suc 0)..<Suc (Suc (Suc (Suc 0)))})"
    by (auto simp: byte_size_def)
  with c(1) show ?thesis unfolding all by blast
qed

text \<open>C4: reading index \<open>i\<close> returns the very block that was appended there when it is still present,
  without changing the core; otherwise it returns nothing and sends the event that asks peers for
  it.\<close>

theorem get_returns_block:
  assumes "device_laws L w ra content" "core_inv L w content sk c bs have"
  shows "core_get L ra i c =
    (if unat i \<in> have then (Ok (Some (bs ! unat i)), c)
     else (Ok None, c\<lparr>hc_events := events_send (hc_events c) (Get i)\<rparr>))"
  using device_laws.core_get_present [OF assms(1)] device_laws.core_get_absent [OF assms(1)]
    device_laws.inv_view [OF assms] by (auto simp: send_on_get_def)

theorem get_returns_block_witness:
  "\<exists>c. core_inv ref_libs ref_wire mem_content ref_secret c [[1], [2, 3]] {..<2} \<and>
    core_get ref_libs mem_access 1 c = (Ok (Some [2, 3]), c)"
proof -
  obtain c where c: "core_inv ref_libs ref_wire mem_content ref_secret c [[1], [2, 3]] {..<2}" using ref_core_blocks by blast
  with get_returns_block [OF mem_log.device_laws_axioms c, of 1] show ?thesis by auto
qed

text \<open>C6: when no block that stays is empty, clearing a range of blocks keeps the invariant for the smaller set
  of blocks: in memory, in the log, and on the data store, where the bytes of every block outside the
  range stay as they were and are read as before.\<close>

theorem clear_keeps_other_blocks:
  assumes "device_laws L w ra content" "core_inv L w content sk c bs have" "s < e" "e \<le> length bs"
    and "\<forall>i\<in>have - {s..<e}. bs ! i \<noteq> []"
  shows "\<exists>c'. core_clear L ra (of_nat s) (of_nat e) c = (Ok (), c') \<and> core_inv L w content sk c' bs (have - {s..<e}) \<and>
    (\<forall>i. unat i \<in> have - {s..<e} \<longrightarrow> core_get L ra i c' = (Ok (Some (bs ! unat i)), c'))"
proof -
  obtain c' where c': "core_clear L ra (of_nat s) (of_nat e) c = (Ok (), c')" "core_inv L w content sk c' bs (have - {s..<e})"
    using device_laws.core_clear_ok [OF assms] by blast
  with device_laws.core_get_present [OF assms(1) device_laws.inv_view [OF assms(1) c'(2)]] show ?thesis by blast
qed

theorem clear_keeps_other_blocks_witness:
  "\<exists>c c'. core_inv ref_libs ref_wire mem_content ref_secret c [[1], [2, 3]] {..<2} \<and>
    core_clear ref_libs mem_access 0 1 c = (Ok (), c') \<and> core_get ref_libs mem_access 1 c' = (Ok (Some [2, 3]), c')"
proof -
  obtain c where c: "core_inv ref_libs ref_wire mem_content ref_secret c [[1], [2, 3]] {..<2}" using ref_core_blocks by blast
  have ne: "\<forall>i\<in>{..<2} - {0..<1}. [[1], [2, 3 :: u8]] ! i \<noteq> []" by (auto simp: less_2_cases_iff)
  from clear_keeps_other_blocks [OF mem_log.device_laws_axioms c _ _ ne] obtain c' where
    "core_clear ref_libs mem_access 0 1 c = (Ok (), c')"
    "\<forall>i. unat i \<in> {..<2} - {0..<1} \<longrightarrow> core_get ref_libs mem_access i c' = (Ok (Some ([[1], [2, 3]] ! unat i)), c')"
    by auto
  with c show ?thesis by (auto dest: spec [where x = 1])
qed

text \<open>C5: opening the stores of a core with at most 8192 blocks again, at any moment between operations, gives a
  core that shows the same log, though the log of operations was not flushed; without holes, the
  invariant holds again, so the reopened core goes on like the old one.  The bound on the length is
  that of what the bitfield reads back.\<close>

theorem reopen_restores_log:
  assumes "device_laws L w ra content" "core_inv L w content sk c bs have" "length bs \<le> 8192"
    and "ho_open opt \<longrightarrow> ho_key_pair opt = None"
  shows "\<exists>c'. core_new L ra generated (hc_storage c) opt = Ok c' \<and> core_view L w content sk c' bs have \<and>
    (have = {..<length bs} \<longrightarrow> core_inv L w content sk c' bs have) \<and>
    hc_storage c' = hc_storage c \<and> hc_key_pair c' = hc_key_pair c"
  using device_laws.core_reopen_ok [OF assms] by blast

theorem reopen_restores_log_witness:
  "\<exists>c c'. core_inv ref_libs ref_wire mem_content ref_secret c [[1], [2, 3]] {..<2} \<and>
    core_new ref_libs mem_access [] (hc_storage c) \<lparr>ho_key_pair = None, ho_open = True\<rparr> = Ok c' \<and>
    core_inv ref_libs ref_wire mem_content ref_secret c' [[1], [2, 3]] {..<2}"
proof -
  obtain c where c: "core_inv ref_libs ref_wire mem_content ref_secret c [[1], [2, 3]] {..<2}" using ref_core_blocks by blast
  with reopen_restores_log [OF mem_log.device_laws_axioms c, of "\<lparr>ho_key_pair = None, ho_open = True\<rparr>" "[]"] show ?thesis
    by (auto simp: numeral_2_eq_2)
qed

text \<open>C18: after \<open>make_read_only\<close>, which says whether there was a secret key, the log is unchanged, the key
  is gone from memory, and every append fails and changes nothing.  If there was a key, the log store
  holds nothing afterwards but two copies of the header without it, each filled up with zeros: the
  header that had the key, and the entries behind, are overwritten and cut off.\<close>

theorem read_only_core_rejects_appends:
  assumes "device_laws L w ra content" "core_inv L w content sk c bs have"
  shows "\<exists>c'. make_read_only L ra c = (Ok (kp_secret (hc_key_pair c) \<noteq> None), c') \<and> core_inv L w content sk c' bs have \<and>
    kp_secret (hc_key_pair c') = None \<and> kp_secret (h_key_pair (hc_header c')) = None \<and>
    (kp_secret (hc_key_pair c) \<noteq> None \<longrightarrow>
      stored content (hc_storage c') Oplog = header_slots L w (op_header_bits (hc_oplog c')) (hc_header c')) \<and>
    (\<forall>cs. core_append_batch L ra cs c' = (Err NotWritable, c'))"
proof -
  obtain c' where c': "make_read_only L ra c = (Ok (kp_secret (hc_key_pair c) \<noteq> None), c')" "core_inv L w content sk c' bs have"
    "kp_secret (hc_key_pair c') = None"
    "kp_secret (hc_key_pair c) \<noteq> None \<longrightarrow> stored content (hc_storage c') Oplog = header_slots L w (op_header_bits (hc_oplog c')) (hc_header c')"
    using device_laws.make_read_only_ok [OF assms] by blast
  moreover have "h_key_pair (hc_header c') = hc_key_pair c'" using c'(2) by (auto simp: core_inv_def core_view_def header_of_def)
  ultimately show ?thesis using device_laws.append_not_writeable [OF assms(1) c'(3)] by auto
qed

theorem read_only_core_rejects_appends_witness:
  "\<exists>c c'. core_inv ref_libs ref_wire mem_content ref_secret c [[1], [2, 3]] {..<2} \<and> kp_secret (hc_key_pair c) = Some ref_secret \<and>
    make_read_only ref_libs mem_access c = (Ok True, c') \<and> kp_secret (h_key_pair (hc_header c')) = None \<and>
    stored mem_content (hc_storage c') Oplog = header_slots ref_libs ref_wire (op_header_bits (hc_oplog c')) (hc_header c') \<and>
    core_append_batch ref_libs mem_access [[4]] c' = (Err NotWritable, c')"
proof -
  obtain c where c: "core_inv ref_libs ref_wire mem_content ref_secret c [[1], [2, 3]] {..<2}"
    "kp_secret (hc_key_pair c) = Some ref_secret" using ref_core_blocks by blast
  with read_only_core_rejects_appends [OF mem_log.device_laws_axioms c(1)] show ?thesis by fastforce
qed

text \<open>C20: what \<open>info\<close> reports is the log: its length, byte length, the first index that is missing, and
  whether the secret key is there.\<close>

theorem info_describes_log:
  assumes "device_laws L w ra content" "core_inv L w content sk c bs have"
  shows "core_info c = \<lparr>ci_length = of_nat (length bs), ci_byte_length = of_nat (byte_size bs),
    ci_contiguous_length = of_nat (first_gap have (length bs)), ci_fork = 0, ci_writeable = (kp_secret (hc_key_pair c) = Some sk)\<rparr>"
proof -
  have "have \<subseteq> {..<length bs}" using assms(2) by (simp add: core_inv_def core_view_def)
  from contiguous_unique [OF first_gap_contiguous [OF this]] device_laws.core_info_eq [OF assms] show ?thesis by auto
qed

theorem info_describes_log_witness:
  "\<exists>c. core_inv ref_libs ref_wire mem_content ref_secret c [[1], [2, 3]] {..<2} \<and> ci_length (core_info c) = 2 \<and>
    ci_byte_length (core_info c) = 3"
proof -
  obtain c where c: "core_inv ref_libs ref_wire mem_content ref_secret c [[1], [2, 3]] {..<2}" using ref_core_blocks by blast
  with info_describes_log [OF mem_log.device_laws_axioms c] show ?thesis by (auto simp: byte_size_def)
qed

end
