(* ===== verification/Replication.thy ===== *)
theory Replication
  imports Upgrade_Accept Upgrade_Sound Core_Properties
begin

text \<open>
  Replication between an author's core and the tree of a peer: the peer counts the nodes it misses
  above a block, asks for the block with that many nodes, and accepts the answer; it asks for the
  rest of the log, and accepts the answer.  What it accepts is what the author wrote.
\<close>

declare split_paired_All [simp del] split_paired_Ex [simp del]

section \<open>Counting the missing nodes\<close>

text \<open>A peer's tree over the first \<open>m\<close> blocks of \<open>bs\<close>: it knows the roots, and what it knows is of the
  log.\<close>

definition replica_tree :: "'it libs \<Rightarrow> wire_format \<Rightarrow> bytes list \<Rightarrow> nat \<Rightarrow> merkle_tree \<Rightarrow> node_infos \<Rightarrow> bool" where
  "replica_tree L w bs m t nodes \<longleftrightarrow> m \<le> length bs \<and> length bs \<le> MAX_BLOCKS \<and> tree_of L w (take m bs) t \<and> genuine_nodes L w bs t nodes \<and>
     (\<forall>p\<in>set (root_positions m). required_node t (pos_index p) nodes = Ok (Inr (merkle_node L w bs p)))"

lemma optional_required:
  "optional_node t index nodes = Ok (Inr (Some n)) \<longleftrightarrow> required_node t index nodes = Ok (Inr n)"
  by (auto simp: optional_node_def required_node_def mt_node_def Let_def split: option.splits if_splits)

context libs_laws
begin

lemma missing_loop_ok:
  assumes "missing_loop L fuel t nodes head it (of_nat d) = Ok (Inr c)" "ft_at (lib_ft L) it d (i div 2 ^ d)"
    and "d \<le> r" "in_tree m (r, i div 2 ^ r)" "m \<le> MAX_BLOCKS" "unat head = 2 * m" "required_node t (pos_index (r, i div 2 ^ r)) nodes = Ok (Inr root)"
  shows "\<exists>k n. c = of_nat k \<and> d \<le> k \<and> k \<le> r \<and> required_node t (pos_index (k, i div 2 ^ k)) nodes = Ok (Inr n)"
  using assms(1-3)
proof (induction fuel arbitrary: d it)
  case (Suc fuel)
  have "in_tree m (d + (r - d), i div 2 ^ (d + (r - d)))" using Suc.prems(3) assms(4) by simp
  from in_tree_path [OF this] have tree: "in_tree m (d, i div 2 ^ d)" .
  then have ok: "pos_ok d (i div 2 ^ d)" using in_tree_index(2) [OF _ assms(5)] by fastforce
  have inside: "\<not> ft_contains (lib_ft L) it head"
    using tree assms(6) unfolding flat.contains [OF Suc.prems(2) ok] by (simp add: in_tree_def)
  have "\<exists>v. optional_node t (pos_index (d, i div 2 ^ d)) nodes = Ok (Inr v)"
  proof (cases "optional_node t (pos_index (d, i div 2 ^ d)) nodes")
    case (Ok r)
    with Suc.prems(1) inside show ?thesis by (cases r) (simp_all add: at_index [OF Suc.prems(2)])
  qed (use Suc.prems(1) inside in \<open>simp_all add: at_index [OF Suc.prems(2)]\<close>)
  then obtain v where v: "optional_node t (pos_index (d, i div 2 ^ d)) nodes = Ok (Inr v)" by blast
  show ?case
  proof (cases v)
    case (Some n)
    then have "c = of_nat d" using Suc.prems(1) inside v by (simp add: at_index [OF Suc.prems(2)])
    moreover have "required_node t (pos_index (d, i div 2 ^ d)) nodes = Ok (Inr n)" using v Some optional_required by metis
    ultimately show ?thesis using Suc.prems(3) by blast
  next
    case None
    then have "d \<noteq> r" using v assms(7) optional_required [of t "pos_index (r, i div 2 ^ r)" nodes root] by auto
    then have le: "Suc d \<le> r" using Suc.prems(3) by simp
    have "in_tree m (Suc d + (r - Suc d), i div 2 ^ (Suc d + (r - Suc d)))" using le assms(4) by simp
    from in_tree_index(2) [OF in_tree_path [OF this] assms(5)] have "pos_ok (Suc d) (i div 2 ^ Suc d)" by simp
    then have "ft_at (lib_ft L) (ft_parent (lib_ft L) it) (Suc d) (i div 2 ^ Suc d)"
      using flat.parent [OF Suc.prems(2)] by (simp only: div_pow_Suc)
    moreover have "missing_loop L fuel t nodes head (ft_parent (lib_ft L) it) (of_nat (Suc d)) = Ok (Inr c)"
      using Suc.prems(1) inside v None by (simp add: at_index [OF Suc.prems(2)] add.commute)
    ultimately show ?thesis using Suc.IH [OF _ _ le] by (meson Suc_leD)
  qed
qed simp

text \<open>The count leads to a node that the peer knows and that lies in the log.\<close>

lemma missing_nodes_ok:
  assumes t: "replica_tree L w bs m t nodes" and infos: "infos_to_nodes L infos = Ok nodes" and i: "i < m"
    and missing: "missing_nodes L t (of_nat (2 * i)) infos = Ok (Inr c)"
  obtains k where "c = of_nat k" "in_tree (length bs) (k, i div 2 ^ k)"
    "required_node t (pos_index (k, i div 2 ^ k)) nodes = Ok (Inr (merkle_node L w bs (k, i div 2 ^ k)))"
proof -
  have bs: "m \<le> length bs" "length bs \<le> MAX_BLOCKS" using t by (simp_all add: replica_tree_def)
  then have small: "m < 2 ^ 62" "i < 2 ^ 62" "m \<le> MAX_BLOCKS" using i by (simp_all add: MAX_BLOCKS_def)
  let ?it = "ft_new (lib_ft L) (of_nat (2 * i))" and ?head = "2 * mt_length t"
  have head: "unat ?head = 2 * m"
    using t small by (simp add: replica_tree_def tree_of_def unat_mult_small unat_of_nat64 min_absorb2)
  have ui: "unat (of_nat (2 * i) :: u64) = tree_index 0 i" using small(2) by (simp add: unat_of_nat64 del: of_nat_mult)
  have it: "ft_at (lib_ft L) ?it 0 i" using flat.new [OF ui] small(2) by (simp add: pos_ok_def)
  obtain r where r: "(r, i div 2 ^ r) \<in> set (root_positions m)" using block_root [OF i] by blast
  have tree: "in_tree m (r, i div 2 ^ r)" using rchain_positions [OF rchain_root_positions, of r "i div 2 ^ r" m] r by (simp add: in_tree_def)
  have root: "required_node t (pos_index (r, i div 2 ^ r)) nodes = Ok (Inr (merkle_node L w bs (r, i div 2 ^ r)))"
    using t r by (simp add: replica_tree_def)
  have "ft_factor (lib_ft L) ?it div 2 = 1" using it by (simp add: ft_at_def word_eq_iff_unat unat_div)
  then have "unat (ft_index (lib_ft L) ?it + ft_factor (lib_ft L) ?it div 2 - 1) = 2 * i"
    using it by (simp add: ft_at_def)
  then have "missing_loop L (lib_fuel L) t nodes ?head ?it (of_nat 0) = Ok (Inr c)"
    using missing head i infos by (simp add: missing_nodes_def Let_def word_le_nat_alt del: of_nat_mult)
  from missing_loop_ok [OF this, of i r m] it tree small(3) head root
  obtain k n where k: "c = of_nat k" "k \<le> r" "required_node t (pos_index (k, i div 2 ^ k)) nodes = Ok (Inr n)" by auto
  have "in_tree m (k + (r - k), i div 2 ^ (k + (r - k)))" using k(2) tree by simp
  from in_tree_mono [OF in_tree_path [OF this] bs(1)] have tk: "in_tree (length bs) (k, i div 2 ^ k)" .
  from t k(3) obtain p where p: "in_tree (length bs) p" "pos_index (k, i div 2 ^ k) = pos_index p" "n = merkle_node L w bs p"
    unfolding replica_tree_def genuine_nodes_def by blast
  from pos_index_inj [OF tk p(1) bs(2) p(2)] p(3) k(3) that [OF k(1) tk] show thesis by simp
qed

end

section \<open>A peer in memory\<close>

abbreviation ref_log :: "bytes list" where "ref_log \<equiv> [[1], [2, 3]]"

text \<open>A peer that knows the root of the log and nothing below it.\<close>

definition ref_replica :: merkle_tree where
  "ref_replica = \<lparr>mt_roots = [merkle_node ref_libs ref_wire ref_log (1, 0)], mt_length = 2, mt_byte_length = 3, mt_fork = 0,
     mt_signature = None, mt_unflushed = [(1, merkle_node ref_libs ref_wire ref_log (1, 0))], mt_truncated = False, mt_truncate_to = 0\<rparr>"

definition ref_reads :: "store_info list" where
  "ref_reads = [si_new_content_miss Tree 80]"

lemma root_positions_2: "root_positions 2 = [(1, 0)]"
proof -
  have "root_chain 0 [(1, 0)] 2" by simp
  with root_chain_roots show ?thesis by (rule root_chain_unique)
qed

lemma ref_reads_nodes: "infos_to_nodes ref_libs (Some ref_reads) = Ok [(2, None)]"
  by (simp add: infos_to_nodes_def ref_reads_def si_new_content_miss_def index_from_info_def NODE_SIZE_def im_insert_def)

lemma ref_required: "required_node ref_replica index [(2, None)] = Ok (Inr n) \<longleftrightarrow> index = 1 \<and> n = merkle_node ref_libs ref_wire ref_log (1, 0)"
  using ref_nonblank [of ref_log]
  by (auto simp: required_node_def mt_node_def ref_replica_def im_get_def nonblank_def in_tree_def Let_def split: if_splits)

lemma ref_replica_ok: "replica_tree ref_libs ref_wire ref_log 2 ref_replica [(2, None)]"
proof -
  have "genuine_nodes ref_libs ref_wire ref_log ref_replica [(2, None)]"
    unfolding genuine_nodes_def ref_required by (auto simp: in_tree_def pos_index_def tree_index_def intro!: exI [of _ "(1, 0)"])
  moreover have "tree_of ref_libs ref_wire (take 2 ref_log) ref_replica"
    by (simp add: tree_of_def ref_replica_def merkle_roots_def root_positions_2 [unfolded numeral_2_eq_2] byte_size_def)
  moreover have "pos_index (1, 0) = 1" by (simp add: pos_index_def tree_index_def)
  ultimately show ?thesis using ref_required [of 1] by (auto simp: replica_tree_def root_positions_2 MAX_BLOCKS_def)
qed

lemma ref_missing: "missing_nodes ref_libs ref_replica (of_nat (2 * 1)) (Some ref_reads) = Ok (Inr 1)"
proof -
  have "optional_node ref_replica 2 [(2, None)] = Ok (Inr None)"
    by (simp add: optional_node_def mt_node_def ref_replica_def im_get_def)
  moreover have "optional_node ref_replica 1 [(2, None)] = Ok (Inr (Some (merkle_node ref_libs ref_wire ref_log (1, 0))))"
    unfolding optional_required ref_required by simp
  ultimately have "missing_loop ref_libs (Suc (Suc 63)) ref_replica [(2, None)] 4 (0, 1) 0 = Ok (Inr 1)"
    unfolding missing_loop.simps by (simp add: ref_index_def tree_index_def)
  moreover have "mt_length ref_replica = 2" by (simp add: ref_replica_def)
  moreover have "ref_pos 2 = (0, 1)" by code_simp
  ultimately show ?thesis
    by (simp add: missing_nodes_def ref_reads_nodes Let_def ref_index_def tree_index_def)
qed

section \<open>Properties\<close>

text \<open>C9: a peer that counts the nodes it misses above block \<open>i\<close> and asks a core that has the block for
  it with that many nodes gets a proof with this block, which its check accepts, and whose nodes
  are nodes of the log; the core itself does not change.\<close>

theorem block_is_replicated:
  assumes "device_laws L w ra content" "core_inv L w content sk c bs have" "i \<in> have"
    and "replica_tree L w bs m t nodes" "infos_to_nodes L infos = Ok nodes" "i < m"
    and "missing_nodes L t (of_nat (2 * i)) infos = Ok (Inr k)"
  shows "\<exists>pf b ps. core_create_proof L ra (Some \<lparr>rb_index = of_nat i, rb_nodes = k\<rparr>) None None None c = (Ok (Some pf), c) \<and>
    pf_block pf = Some b \<and> dblk_value b = bs ! i \<and> (\<forall>p\<in>set ps. in_tree (length bs) p) \<and>
    verify_proof L t pf pk infos = Ok (Inr ((mt_changeset t)\<lparr>cg_nodes := map (merkle_node L w bs) ps\<rparr>))"
proof -
  have laws: "libs_laws L w" using assms(1) by (rule device_laws.axioms)
  obtain d where d: "k = of_nat d" "in_tree (length bs) (d, i div 2 ^ d)"
    "required_node t (pos_index (d, i div 2 ^ d)) nodes = Ok (Inr (merkle_node L w bs (d, i div 2 ^ d)))"
    using libs_laws.missing_nodes_ok [OF laws assms(4-7)] by blast
  have small: "length bs \<le> MAX_BLOCKS" "m \<le> length bs" using assms(4) by (simp_all add: replica_tree_def)
  have i: "i < 2 ^ 62" "i < length bs" "d \<le> 62"
    using small assms(6) in_tree_index(2) [OF d(2) small(1)] by (simp_all add: MAX_BLOCKS_def pos_ok_def)
  let ?b = "\<lparr>dblk_index = of_nat i, dblk_value = bs ! i, dblk_nodes = map (merkle_node L w bs) (sibling_positions i 0 d)\<rparr>"
  let ?pf = "\<lparr>pf_fork = mt_fork (hc_tree c), pf_block = Some ?b, pf_hash = None, pf_seek = None, pf_upgrade = None\<rparr>"
  have path: "\<forall>p\<in>set ((0, i) # path_positions i 0 d). in_tree (length bs) p" using path_in_tree [of "length bs" 0 d i] d(2) by simp
  have "verify_proof L t ?pf pk infos = Ok (Inr ((mt_changeset t)\<lparr>cg_nodes := map (merkle_node L w bs) ((0, i) # path_positions i 0 d)\<rparr>))"
    by (rule libs_laws.block_proof_complete [OF laws assms(5) i d(3)]) simp_all
  moreover have "core_create_proof L ra (Some \<lparr>rb_index = of_nat i, rb_nodes = k\<rparr>) None None None c = (Ok (Some ?pf), c)"
    using device_laws.core_create_block_proof [OF assms(1) device_laws.inv_view [OF assms(1,2)] d(2)] assms(3) d(1) by simp
  ultimately show ?thesis
    using path by (intro exI [of _ ?pf] exI [of _ ?b] exI [of _ "(0, i) # path_positions i 0 d"] conjI) simp_all
qed

theorem block_is_replicated_witness:
  "\<exists>c pf b ps. core_inv ref_libs ref_wire mem_content ref_secret c ref_log {..<2} \<and>
    core_create_proof ref_libs mem_access (Some \<lparr>rb_index = 1, rb_nodes = 1\<rparr>) None None None c = (Ok (Some pf), c) \<and>
    pf_block pf = Some b \<and> dblk_value b = [2, 3] \<and>
    verify_proof ref_libs ref_replica pf [] (Some ref_reads) =
      Ok (Inr ((mt_changeset ref_replica)\<lparr>cg_nodes := map (merkle_node ref_libs ref_wire ref_log) ps\<rparr>))"
proof -
  obtain c where c: "core_inv ref_libs ref_wire mem_content ref_secret c ref_log {..<2}" by (rule ref_core_blocks)
  then show ?thesis
    using block_is_replicated [OF mem_log.device_laws_axioms c _ ref_replica_ok ref_reads_nodes _ ref_missing, of "[]"] by fastforce
qed

text \<open>The changeset of an upgrade fits the tree it was made for, and makes it the tree of the log.\<close>

lemma commit_upgraded:
  assumes "length bs \<le> 2 ^ 62"
  shows "\<exists>t'. mt_commit L t (upgraded_changeset L w sk bs t ps) = Ok t' \<and> tree_of L w bs t' \<and> mt_signature t' = Some (tree_signature L w sk bs)"
  using assms
  by (simp add: upgraded_changeset_def mt_commit_def commitable_def commit_truncation_def mt_changeset_def changeset_new_def tree_of_def)

lemma author_key:
  assumes "core_view L w content sk c bs have"
  shows "length bs \<le> 2 ^ 62" "kp_public (hc_key_pair c) = cr_verifying_key (lib_cr L) sk"
  using assms by (auto simp: core_view_def tree_held_def MAX_BLOCKS_def author_keys_def)

text \<open>C7: a peer with the first \<open>m\<close> blocks that asks an author to upgrade it to \<open>n\<close> blocks gets an upgrade
  which its check accepts with the author's public key; committing it makes the peer's tree the
  tree of the whole log of the author, which may be longer than \<open>n\<close>.\<close>

theorem upgrade_is_replicated:
  assumes "device_laws L w ra content" "core_inv L w content sk c bs have" "m < n" "n \<le> length bs"
    and "tree_of L w (take m bs) t" "infos_to_nodes L infos = Ok nodes"
  shows "\<exists>pf cg t'. core_create_proof L ra None None None (Some (upgrade_req m n)) c = (Ok (Some pf), c) \<and>
    verify_proof L t pf (kp_public (hc_key_pair c)) infos = Ok (Inr cg) \<and>
    mt_commit L t cg = Ok t' \<and> tree_of L w bs t' \<and> mt_signature t' = Some (tree_signature L w sk bs)"
proof -
  have laws: "libs_laws L w" using assms(1) by (rule device_laws.axioms)
  have view: "core_view L w content sk c bs have" using device_laws.inv_view [OF assms(1,2)] .
  from libs_laws.upgrade_proof_complete [OF laws assms(5,3,4) author_key(1) [OF view] assms(6) refl, of sk]
    device_laws.core_create_upgrade_proof [OF assms(1) view assms(3,4)] commit_upgraded [OF author_key(1) [OF view], of L t w sk]
  show ?thesis unfolding author_key(2) [OF view] by blast
qed

text \<open>C8: a peer that asks for an upgrade to \<open>n\<close> blocks together with one of the new blocks gets both in
  one proof, which its check accepts; the changeset has the path of the block first, and committing
  it makes the peer's tree the tree of the whole log.\<close>

theorem block_and_upgrade_are_replicated:
  assumes "device_laws L w ra content" "core_inv L w content sk c bs have" "m \<le> i" "i < n" "n \<le> length bs" "i \<in> have"
    and "tree_of L w (take m bs) t" "infos_to_nodes L infos = Ok nodes"
  shows "\<exists>pf b cg t' k ps. core_create_proof L ra (Some \<lparr>rb_index = of_nat i, rb_nodes = r\<rparr>) None None (Some (upgrade_req m n)) c = (Ok (Some pf), c) \<and>
    pf_block pf = Some b \<and> dblk_value b = bs ! i \<and> verify_proof L t pf (kp_public (hc_key_pair c)) infos = Ok (Inr cg) \<and>
    cg_nodes cg = map (merkle_node L w bs) ((0, i) # path_positions i 0 k @ ps) \<and>
    mt_commit L t cg = Ok t' \<and> tree_of L w bs t' \<and> mt_signature t' = Some (tree_signature L w sk bs)"
proof -
  have laws: "libs_laws L w" using assms(1) by (rule device_laws.axioms)
  have view: "core_view L w content sk c bs have" using device_laws.inv_view [OF assms(1,2)] .
  have "m \<le> n" using assms(3,4) by simp
  obtain xs p ys where ups: "upgrade_positions m (root_positions n) = xs @ p # ys" "holds_block i p" "\<forall>q\<in>set xs. \<not> holds_block i q"
    by (rule fchain_split [OF upgrade_fchain [OF \<open>m \<le> n\<close>] assms(3,4)])
  define pf where "pf = \<lparr>pf_fork = 0,
       pf_block = Some \<lparr>dblk_index = of_nat i, dblk_value = bs ! i, dblk_nodes = map (merkle_node L w bs) (sibling_positions i 0 (fst p))\<rparr>,
       pf_hash = None, pf_seek = None, pf_upgrade = Some (upgrade_msg L w bs m n (xs @ ys) (tree_signature L w sk bs))\<rparr>"
  from libs_laws.block_upgrade_proof_complete [OF laws assms(7,5) author_key(1) [OF view] assms(3,4,8) ups pf_def]
  obtain ps where ok: "verify_proof L t pf (kp_public (hc_key_pair c)) infos =
      Ok (Inr (upgraded_changeset L w sk bs t ((0, i) # path_positions i 0 (fst p) @ ps)))"
    unfolding author_key(2) [OF view] by blast
  let ?cg = "upgraded_changeset L w sk bs t ((0, i) # path_positions i 0 (fst p) @ ps)"
  obtain t' where t': "mt_commit L t ?cg = Ok t'" "tree_of L w bs t'" "mt_signature t' = Some (tree_signature L w sk bs)"
    using commit_upgraded [OF author_key(1) [OF view]] by blast
  have answer: "core_create_proof L ra (Some \<lparr>rb_index = of_nat i, rb_nodes = r\<rparr>) None None (Some (upgrade_req m n)) c = (Ok (Some pf), c)"
    unfolding pf_def by (rule device_laws.core_create_block_upgrade_proof [OF assms(1) view assms(5,3,4,6) ups])
  have "cg_nodes ?cg = map (merkle_node L w bs) ((0, i) # path_positions i 0 (fst p) @ ps)" by (simp add: upgraded_changeset_def)
  moreover have "\<exists>b. pf_block pf = Some b \<and> dblk_value b = bs ! i" by (simp add: pf_def)
  ultimately show ?thesis using answer ok t' by blast
qed

text \<open>The tree of a peer that has nothing.\<close>

definition empty_tree :: merkle_tree where
  "empty_tree = \<lparr>mt_roots = [], mt_length = 0, mt_byte_length = 0, mt_fork = 0, mt_signature = None, mt_unflushed = [],
     mt_truncated = False, mt_truncate_to = 0\<rparr>"

lemma empty_tree_of: "tree_of L w (take 0 bs) empty_tree"
  by (simp add: tree_of_def empty_tree_def merkle_roots_def byte_size_def root_positions.simps)

theorem upgrade_is_replicated_witness:
  "\<exists>c pf cg t'. core_inv ref_libs ref_wire mem_content ref_secret c ref_log {..<2} \<and>
    core_create_proof ref_libs mem_access None None None (Some (upgrade_req 0 1)) c = (Ok (Some pf), c) \<and>
    verify_proof ref_libs empty_tree pf (kp_public (hc_key_pair c)) None = Ok (Inr cg) \<and>
    mt_commit ref_libs empty_tree cg = Ok t' \<and> tree_of ref_libs ref_wire ref_log t'"
proof -
  obtain c where c: "core_inv ref_libs ref_wire mem_content ref_secret c ref_log {..<2}" by (rule ref_core_blocks)
  have "infos_to_nodes ref_libs None = Ok []" by (simp add: infos_to_nodes_def)
  from upgrade_is_replicated [OF mem_log.device_laws_axioms c _ _ empty_tree_of this, of 1] c show ?thesis by fastforce
qed

theorem block_and_upgrade_are_replicated_witness:
  "\<exists>c pf b cg t'. core_inv ref_libs ref_wire mem_content ref_secret c ref_log {..<2} \<and>
    core_create_proof ref_libs mem_access (Some \<lparr>rb_index = 1, rb_nodes = 0\<rparr>) None None (Some (upgrade_req 0 2)) c = (Ok (Some pf), c) \<and>
    pf_block pf = Some b \<and> dblk_value b = [2, 3] \<and> verify_proof ref_libs empty_tree pf (kp_public (hc_key_pair c)) None = Ok (Inr cg) \<and>
    mt_commit ref_libs empty_tree cg = Ok t' \<and> tree_of ref_libs ref_wire ref_log t'"
proof -
  obtain c where c: "core_inv ref_libs ref_wire mem_content ref_secret c ref_log {..<2}" by (rule ref_core_blocks)
  have "infos_to_nodes ref_libs None = Ok []" by (simp add: infos_to_nodes_def)
  from block_and_upgrade_are_replicated [OF mem_log.device_laws_axioms c _ _ _ _ empty_tree_of this, of 1 2 0] c show ?thesis by fastforce
qed

text \<open>The check doubles the index of a block in 64 bits, and so does not see its highest bit.\<close>

lemma index_wraps:
  assumes "pf_block pf = Some b"
  shows "verify_proof L t (pf\<lparr>pf_block := Some (b\<lparr>dblk_index := dblk_index b + 2 ^ 63\<rparr>)\<rparr>) pk infos = verify_proof L t pf pk infos"
proof -
  define b' where "b' = b\<lparr>dblk_index := dblk_index b + 2 ^ 63\<rparr>"
  have "dblk_index b' * 2 = dblk_index b * 2" "dblk_value b' = dblk_value b" "dblk_nodes b' = dblk_nodes b" by (simp_all add: b'_def distrib_right)
  then have "normalize_data (Some b') hash = normalize_data (Some b) hash" for hash by (simp add: normalize_data_def)
  then have "verify_tree L (Some b') hash seek cg = verify_tree L (Some b) hash seek cg" for hash seek cg by (simp only: verify_tree_def)
  moreover have "pf_block (pf\<lparr>pf_block := Some b'\<rparr>) = Some b'" "pf_hash (pf\<lparr>pf_block := Some b'\<rparr>) = pf_hash pf"
    "pf_seek (pf\<lparr>pf_block := Some b'\<rparr>) = pf_seek pf" "pf_upgrade (pf\<lparr>pf_block := Some b'\<rparr>) = pf_upgrade pf"
    "pf_fork (pf\<lparr>pf_block := Some b'\<rparr>) = pf_fork pf" by simp_all
  ultimately show ?thesis unfolding verify_proof_def assms b'_def [symmetric] by (simp only:)
qed

text \<open>C11: a block that a peer accepts, in a proof without seek and upgrade, against a node of its tree is the
  block of the log at the given index, and the nodes that come with it are nodes of the log;
  otherwise the block or the path and the log give a collision of the hash function.  The index, which
  the other side chooses, counts without its highest bit, as \<open>index_wraps\<close> shows: the check doubles it in 64
  bits.  The nodes have hashes of 32 bytes, and the path has at most 62 nodes.\<close>

theorem accepted_block_is_genuine:
  assumes "libs_laws L w" "verify_proof L t pf pk infos = Ok (Inr cg)" "infos_to_nodes L infos = Ok nodes" "genuine_nodes L w bs t nodes"
    and "pf_block pf = Some b" "pf_seek pf = None" "pf_upgrade pf = None"
    and "list_all (node_ok L) (dblk_nodes b)" "length (dblk_nodes b) \<le> 62" "length bs \<le> MAX_BLOCKS"
  shows "\<exists>n rest. cg = (mt_changeset t)\<lparr>cg_nodes := n # rest\<rparr> \<and>
    (collide L (insert (leaf_input w (dblk_value b)) (set (path_inputs w n rest))) (tree_inputs L w bs) \<or>
     unat (dblk_index b) mod 2 ^ 63 < length bs \<and> dblk_value b = bs ! (unat (dblk_index b) mod 2 ^ 63) \<and>
     n # rest = map (merkle_node L w bs)
       ((0, unat (dblk_index b) mod 2 ^ 63) # path_positions (unat (dblk_index b) mod 2 ^ 63) 0 (length (dblk_nodes b))))"
  using libs_laws.block_proof_binding [OF assms] .

definition ref_block_proof :: proof_msg where
  "ref_block_proof = \<lparr>pf_fork = 0, pf_block = Some \<lparr>dblk_index = 1, dblk_value = [2, 3], dblk_nodes = [merkle_node ref_libs ref_wire ref_log (0, 0)]\<rparr>,
     pf_hash = None, pf_seek = None, pf_upgrade = None\<rparr>"

lemma ref_block_accepted:
  "\<exists>cg. verify_proof ref_libs ref_replica ref_block_proof [] (Some ref_reads) = Ok (Inr cg)"
proof -
  have "required_node ref_replica (pos_index (1, 1 div 2 ^ 1)) [(2, None)] = Ok (Inr (merkle_node ref_libs ref_wire ref_log (1, 1 div 2 ^ 1)))"
    unfolding ref_required by (simp add: pos_index_def tree_index_def)
  moreover have "sibling_positions 1 0 1 = [(0, 0)]" by (simp add: sibling_positions_def sibling_offset_def)
  ultimately show ?thesis
    using rl.block_proof_complete [OF ref_reads_nodes, of 1 ref_log 1 ref_replica ref_block_proof "[]"] by (simp add: ref_block_proof_def)
qed

theorem accepted_block_is_genuine_witness:
  "\<exists>cg n rest. verify_proof ref_libs ref_replica ref_block_proof [] (Some ref_reads) = Ok (Inr cg) \<and>
    cg = (mt_changeset ref_replica)\<lparr>cg_nodes := n # rest\<rparr> \<and>
    (collide ref_libs (insert (leaf_input ref_wire [2, 3]) (set (path_inputs ref_wire n rest))) (tree_inputs ref_libs ref_wire ref_log) \<or>
     n # rest = map (merkle_node ref_libs ref_wire ref_log) ((0, 1) # path_positions 1 0 1))"
proof -
  obtain cg where cg: "verify_proof ref_libs ref_replica ref_block_proof [] (Some ref_reads) = Ok (Inr cg)" using ref_block_accepted by blast
  have "genuine_nodes ref_libs ref_wire ref_log ref_replica [(2, None)]" using ref_replica_ok by (simp add: replica_tree_def)
  from accepted_block_is_genuine [OF rl.libs_laws_axioms cg ref_reads_nodes this] cg show ?thesis
    using rl.merkle_node_ok by (fastforce simp: ref_block_proof_def MAX_BLOCKS_def)
qed

text \<open>C12: when a peer accepts an upgrade, with whatever else the proof carries, the new roots and the
  new length are those of a log that the author signed; otherwise the signature is forged, or the
  roots and the log give a collision.\<close>

theorem accepted_upgrade_is_signed:
  assumes "libs_laws L w" "verify_proof L t pf pk infos = Ok (Inr cg)" "pf_upgrade pf = Some u"
    and "hashes_ok (du_nodes u)" "hashes_ok (du_additional_nodes u)" "hashes_ok (mt_roots t)"
    and "\<forall>h. pf_hash pf = Some h \<longrightarrow> hashes_ok (dh_nodes h)" "\<forall>b. pf_block pf = Some b \<longrightarrow> hashes_ok (dblk_nodes b)"
      "\<forall>s. pf_seek pf = Some s \<longrightarrow> hashes_ok (ds_nodes s)"
  shows "forged L w logs pk (changeset_message L w cg) (du_signature u) \<or>
    (\<exists>bs\<in>logs. cg_length cg = of_nat (length bs) \<and> cg_fork cg = 0 \<and> cg_signature cg = Some (du_signature u) \<and>
      (collide L {root_input w (cg_roots cg)} (tree_inputs L w bs) \<or>
       map (\<lambda>n. (n_hash n, n_index n, n_length n)) (cg_roots cg) = map (\<lambda>n. (n_hash n, n_index n, n_length n)) (merkle_roots L w bs)))"
  using libs_laws.upgrade_binding [OF assms] .

definition ref_upgrade :: data_upgrade where
  "ref_upgrade = \<lparr>du_start = 0, du_length = 2, du_nodes = map (merkle_node ref_libs ref_wire ref_log) [(1, 0)],
     du_additional_nodes = [], du_signature = tree_signature ref_libs ref_wire ref_secret ref_log\<rparr>"

definition ref_upgrade_proof :: proof_msg where
  "ref_upgrade_proof = \<lparr>pf_fork = 0, pf_block = None, pf_hash = None, pf_seek = None, pf_upgrade = Some ref_upgrade\<rparr>"

lemma ref_upgrade_accepted:
  "\<exists>cg. verify_proof ref_libs empty_tree ref_upgrade_proof (cr_verifying_key ref_crypto ref_secret) None = Ok (Inr cg)"
proof -
  have self: "upgrade_positions 2 (root_positions (length ref_log)) = []"
    using upgrade_positions_self [OF root_chain_roots, of 2] by (simp add: numeral_2_eq_2)
  have "ref_upgrade = upgrade_msg ref_libs ref_wire ref_log 0 2 (upgrade_positions 0 (root_positions 2)) (tree_signature ref_libs ref_wire ref_secret ref_log)"
    unfolding upgrade_msg_def self ref_upgrade_def by (simp add: root_positions_2)
  then show ?thesis
    using rl.upgrade_proof_complete [OF empty_tree_of, of 2 ref_log None "[]" ref_upgrade_proof ref_secret]
    by (auto simp: ref_upgrade_proof_def infos_to_nodes_def)
qed

theorem accepted_upgrade_is_signed_witness:
  "\<exists>cg. verify_proof ref_libs empty_tree ref_upgrade_proof (cr_verifying_key ref_crypto ref_secret) None = Ok (Inr cg) \<and>
    (forged ref_libs ref_wire {ref_log} (cr_verifying_key ref_crypto ref_secret) (changeset_message ref_libs ref_wire cg) (du_signature ref_upgrade) \<or>
     cg_length cg = 2)"
proof -
  obtain cg where cg: "verify_proof ref_libs empty_tree ref_upgrade_proof (cr_verifying_key ref_crypto ref_secret) None = Ok (Inr cg)"
    using ref_upgrade_accepted by blast
  have "pf_upgrade ref_upgrade_proof = Some ref_upgrade" by (simp add: ref_upgrade_proof_def)
  moreover have "length (merkle_hash ref_crypto ref_wire ref_log 1 0) = 32" using rl.length_merkle_hash [of ref_log 1 0] by simp
  then have "hashes_ok (du_nodes ref_upgrade)" "hashes_ok (du_additional_nodes ref_upgrade)" "hashes_ok (mt_roots empty_tree)"
    by (simp_all add: ref_upgrade_def hashes_ok_def empty_tree_def)
  moreover have "pf_hash ref_upgrade_proof = None" "pf_block ref_upgrade_proof = None" "pf_seek ref_upgrade_proof = None"
    by (simp_all add: ref_upgrade_proof_def)
  ultimately show ?thesis
    using accepted_upgrade_is_signed [OF rl.libs_laws_axioms cg, of ref_upgrade "{ref_log}"] cg by auto
qed

text \<open>C17: a proof of another fork, one that does not pass the check, and one that does not fit the tree
  change nothing: neither memory nor stores nor events.\<close>

theorem rejected_proof_changes_nothing:
  assumes "pf_fork pf \<noteq> mt_fork (hc_tree c) \<or> (\<forall>cg. core_verify_proof L ra c pf = Ok cg \<longrightarrow> \<not> commitable (hc_tree c) cg)"
  shows "\<exists>r. verify_and_apply_proof L ra pf c = (r, c) \<and> r \<noteq> Ok True"
  using assms by (cases "core_verify_proof L ra c pf") (auto simp: verify_and_apply_proof_def bindC_def readC_def)

theorem rejected_proof_changes_nothing_witness:
  "\<exists>c r. core_inv ref_libs ref_wire mem_content ref_secret c ref_log {..<2} \<and>
    verify_and_apply_proof ref_libs mem_access (ref_block_proof\<lparr>pf_fork := 1\<rparr>) c = (r, c) \<and> r \<noteq> Ok True"
proof -
  obtain c where c: "core_inv ref_libs ref_wire mem_content ref_secret c ref_log {..<2}" by (rule ref_core_blocks)
  then have "mt_fork (hc_tree c) = 0" by (simp add: core_inv_def core_view_def)
  then have "pf_fork (ref_block_proof\<lparr>pf_fork := 1\<rparr>) \<noteq> mt_fork (hc_tree c)" by simp
  with c rejected_proof_changes_nothing [of "ref_block_proof\<lparr>pf_fork := 1\<rparr>" c ref_libs mem_access] show ?thesis by blast
qed

end
