(* ===== verification/Missing_Nodes.thy ===== *)
theory Missing_Nodes
  imports Replication
begin

text \<open>
  Counting the nodes that a core misses above a block, on its own stores: nodes that it does not
  know are read as zeros or not at all, and the count ends at the first one that it knows.
\<close>

declare split_paired_All [simp del] split_paired_Ex [simp del]

text \<open>The read of a node that may be missing, and what it gives for a node that is.\<close>

definition ask_of :: "nat \<times> nat \<Rightarrow> store_info_instruction" where
  "ask_of p = sii_new_content_allow_miss Tree (40 * pos_index p) 40"

definition gap_info :: "bytes \<Rightarrow> nat \<times> nat \<Rightarrow> store_info" where
  "gap_info f p = (if 40 * tree_index (fst p) (snd p) + 40 \<le> length f then si_new_content Tree (40 * pos_index p) (replicate 40 0)
     else si_new_content_miss Tree (40 * pos_index p))"

text \<open>The nodes above block \<open>i\<close> from depth \<open>b\<close> on.\<close>

abbreviation up_path :: "nat \<Rightarrow> nat \<Rightarrow> nat \<Rightarrow> (nat \<times> nat) list" where
  "up_path i b d \<equiv> map (\<lambda>e. (e, i div 2 ^ e)) [b ..< d]"

text \<open>A node that was read and is not there.\<close>

definition absent :: "node option option \<Rightarrow> bool" where
  "absent x \<longleftrightarrow> x = Some None \<or> (\<exists>n. x = Some (Some n) \<and> n_blank n)"

lemma optional_absent:
  "im_get (mt_unflushed t) index = None \<Longrightarrow> absent (im_get nodes index) \<Longrightarrow> optional_node t index nodes = Ok (Inr None)"
  by (auto simp: optional_node_def mt_node_def absent_def)

context libs_laws
begin

lemma blank_node: "\<exists>n. node_from_bytes L index (replicate 40 0) = Ok n \<and> n_blank n"
proof -
  let ?n = "node_new (lib_ft L) index (replicate 32 0) 0"
  have hash: "n_hash ?n = replicate 32 0" "n_length ?n = 0" "n_blank ?n" by (simp_all add: node_new_def list_all_iff)
  then have "node_bytes w ?n = replicate 40 0" by (simp add: node_bytes_def cenc.w_u64_zero replicate_add [symmetric])
  with node_from_bytes_eq [of ?n index] hash show ?thesis by simp
qed

lemma gap_infos:
  assumes "\<forall>p\<in>set ps. in_tree n p" "n \<le> MAX_BLOCKS"
  shows "\<exists>m. infos_to_nodes_loop L (map (gap_info f) ps @ rest) nodes = infos_to_nodes_loop L rest m \<and>
    (\<forall>p. in_tree n p \<longrightarrow> (if p \<in> set ps then absent (im_get m (pos_index p)) else im_get m (pos_index p) = im_get nodes (pos_index p)))"
  using assms(1)
proof (induction ps arbitrary: nodes)
  case (Cons p ps)
  have p: "in_tree n p" using Cons.prems by simp
  obtain x where x: "infos_to_nodes_loop L (map (gap_info f) (p # ps) @ rest) nodes =
      infos_to_nodes_loop L (map (gap_info f) ps @ rest) (im_insert (pos_index p) x nodes)" "absent (Some x)"
  proof (cases "40 * tree_index (fst p) (snd p) + 40 \<le> length f")
    case True
    obtain nd where "node_from_bytes L (pos_index p) (replicate 40 0) = Ok nd" "n_blank nd" using blank_node by blast
    with True index_from_node_info [OF p assms(2)] that [of "Some nd"] show ?thesis
      by (simp add: gap_info_def si_new_content_def index_from_info_def absent_def)
  next
    case False
    with index_from_node_info [OF p assms(2)] that [of None] show ?thesis
      by (simp add: gap_info_def si_new_content_def si_new_content_miss_def index_from_info_def absent_def)
  qed
  have "\<forall>p\<in>set ps. in_tree n p" using Cons.prems by simp
  from Cons.IH [OF this, of "im_insert (pos_index p) x nodes"] x pos_index_inj [OF _ p assms(2)] show ?case
    by (fastforce split: if_splits)
qed auto

text \<open>The walk passes the nodes that are absent.\<close>

lemma missing_loop_skip:
  assumes m: "m \<le> MAX_BLOCKS" "unat head = 2 * m" and k: "in_tree m (k, i div 2 ^ k)"
    and skip: "\<forall>e<k. b \<le> e \<longrightarrow> optional_node t (pos_index (e, i div 2 ^ e)) nodes = Ok (Inr None)"
    and stop: "optional_node t (pos_index (k, i div 2 ^ k)) nodes = Ok r" "r \<noteq> Inr None"
    and at: "ft_at (lib_ft L) it d (i div 2 ^ d)" and d: "b \<le> d" "d \<le> k" "k - d < fuel"
  shows "missing_loop L fuel t nodes head it (of_nat (d - b)) = Ok (case r of Inl instr \<Rightarrow> Inl [instr] | Inr _ \<Rightarrow> Inr (of_nat (k - b)))"
  using at d
proof (induction fuel arbitrary: d it)
  case (Suc fuel)
  have "in_tree m (d + (k - d), i div 2 ^ (d + (k - d)))" using Suc.prems(3) k by simp
  from in_tree_path [OF this] have tree: "in_tree m (d, i div 2 ^ d)" .
  then have ok: "pos_ok d (i div 2 ^ d)" using in_tree_index(2) [OF _ m(1)] by fastforce
  have inside: "\<not> ft_contains (lib_ft L) it head"
    using tree m(2) unfolding flat.contains [OF Suc.prems(1) ok] by (simp add: in_tree_def)
  show ?case
  proof (cases "d = k")
    case True
    then show ?thesis using inside stop by (auto simp: at_index [OF Suc.prems(1)] split: option.splits sum.splits)
  next
    case False
    then have le: "b \<le> Suc d" "Suc d \<le> k" "k - Suc d < fuel" using Suc.prems(2-4) by simp_all
    have "in_tree m (Suc d + (k - Suc d), i div 2 ^ (Suc d + (k - Suc d)))" using le k by simp
    from in_tree_index(2) [OF in_tree_path [OF this] m(1)] have "pos_ok (Suc d) (i div 2 ^ Suc d)" by simp
    then have up: "ft_at (lib_ft L) (ft_parent (lib_ft L) it) (Suc d) (i div 2 ^ Suc d)"
      using flat.parent [OF Suc.prems(1)] by (simp only: div_pow_Suc)
    have "optional_node t (pos_index (d, i div 2 ^ d)) nodes = Ok (Inr None)" using skip le Suc.prems(2) by simp
    moreover have "of_nat (d - b) + 1 = (of_nat (Suc d - b) :: u64)" using Suc.prems(2) by (simp add: Suc_diff_le)
    ultimately have "missing_loop L (Suc fuel) t nodes head it (of_nat (d - b)) =
        missing_loop L fuel t nodes head (ft_parent (lib_ft L) it) (of_nat (Suc d - b))"
      using inside by (simp add: at_index [OF Suc.prems(1)] del: of_nat_diff)
    with Suc.IH [OF up le] show ?thesis by (simp del: of_nat_diff)
  qed
qed simp

lemma missing_nodes_skip:
  assumes t: "tree_of L w bs t" "length bs \<le> MAX_BLOCKS" and k: "b \<le> k" "in_tree (length bs) (k, i div 2 ^ k)"
    and nodes: "infos_to_nodes L infos = Ok nodes"
    and skip: "\<forall>e<k. b \<le> e \<longrightarrow> optional_node t (pos_index (e, i div 2 ^ e)) nodes = Ok (Inr None)"
    and stop: "optional_node t (pos_index (k, i div 2 ^ k)) nodes = Ok r" "r \<noteq> Inr None"
  shows "missing_nodes L t (pos_index (b, i div 2 ^ b)) infos = Ok (case r of Inl instr \<Rightarrow> Inl [instr] | Inr _ \<Rightarrow> Inr (of_nat (k - b)))"
proof -
  let ?p = "(b, i div 2 ^ b)" and ?it = "ft_new (lib_ft L) (pos_index (b, i div 2 ^ b))" and ?head = "2 * mt_length t"
  have small: "length bs < 2 ^ 62" using t(2) by (simp add: MAX_BLOCKS_def)
  have head: "unat ?head = 2 * length bs" using t(1) small by (simp add: tree_of_def unat_mult_small unat_of_nat64)
  have tree: "in_tree (length bs) ?p" using in_tree_path [of "length bs" b "k - b" i] k by simp
  have it: "ft_at (lib_ft L) ?it b (i div 2 ^ b)"
    using flat.new [OF pos_index_nat(1) [OF tree t(2), simplified]] in_tree_index(2) [OF tree t(2)] by simp
  have "unat (ft_index (lib_ft L) ?it + ft_factor (lib_ft L) ?it div 2 - 1) < 2 * length bs"
  proof -
    have span: "unat (ft_index (lib_ft L) ?it) = tree_index b (i div 2 ^ b)" "unat (ft_factor (lib_ft L) ?it div 2) = 2 ^ b"
      using it in_tree_index(2) [OF tree t(2)] by (simp_all add: ft_at_def unat_div)
    have le: "tree_index b (i div 2 ^ b) + 2 ^ b < 2 * length bs"
      using tree by (cases "2 ^ b :: nat") (simp_all add: in_tree_def tree_index_def algebra_simps)
    let ?x = "ft_index (lib_ft L) ?it + ft_factor (lib_ft L) ?it div 2"
    have x: "unat ?x = tree_index b (i div 2 ^ b) + 2 ^ b"
      using span small le by (subst unat_plus_simple [THEN iffD1]) (auto simp: no_olen_add_nat)
    then have "?x \<noteq> 0" by auto
    from unat_minus_one [OF this] x le show ?thesis by simp
  qed
  then have "missing_nodes L t (pos_index ?p) infos = missing_loop L (lib_fuel L) t nodes ?head ?it (of_nat (b - b))"
    using head nodes by (simp add: missing_nodes_def Let_def word_le_nat_alt)
  moreover have "k - b < lib_fuel L" using in_tree_index(2) [OF k(2) t(2)] enough_fuel by (auto simp: pos_ok_def)
  ultimately show ?thesis
    using missing_loop_skip [OF t(2) head k(2) skip stop it order_refl k(1)] by simp
qed

text \<open>A node that is not known is not in memory either.\<close>

lemma unknown_unflushed:
  assumes gaps: "tree_gaps K t f" and p: "in_tree n p" "n \<le> MAX_BLOCKS" "p \<notin> K"
  shows "im_get (mt_unflushed t) (pos_index p) = None"
proof (rule ccontr)
  assume "im_get (mt_unflushed t) (pos_index p) \<noteq> None"
  then obtain nd where "im_get (mt_unflushed t) (pos_index p) = Some nd" by blast
  then have "unat (pos_index p) \<in> slots K" using gaps unfolding tree_gaps_def by blast
  then show False using p(3) pos_index_nat(1) [OF p(1,2)] by (auto simp: slots_def tree_index_inj prod_eq_iff)
qed

text \<open>The nodes below depth \<open>d\<close> were read and are not there.\<close>

lemma gaps_read:
  assumes gaps: "tree_gaps K t f" and tree: "in_tree n (d, i div 2 ^ d)" "n \<le> MAX_BLOCKS" and out: "\<forall>e<d. b \<le> e \<longrightarrow> (e, i div 2 ^ e) \<notin> K"
  obtains m where "infos_to_nodes_loop L (map (gap_info f) (up_path i b d) @ rest) [] = infos_to_nodes_loop L rest m"
    "\<forall>e<d. b \<le> e \<longrightarrow> absent (im_get m (pos_index (e, i div 2 ^ e)))" "im_get m (pos_index (d, i div 2 ^ d)) = None"
    "\<forall>e<d. b \<le> e \<longrightarrow> in_tree n (e, i div 2 ^ e) \<and> im_get (mt_unflushed t) (pos_index (e, i div 2 ^ e)) = None"
proof -
  have path: "in_tree n (e, i div 2 ^ e)" if "e \<le> d" for e using in_tree_path [of n e "d - e" i] that tree(1) by simp
  then have "\<forall>p\<in>set (up_path i b d). in_tree n p" by auto
  from gap_infos [OF this tree(2), of f rest "[]"] obtain m where
    m: "infos_to_nodes_loop L (map (gap_info f) (up_path i b d) @ rest) [] = infos_to_nodes_loop L rest m"
    "\<forall>p. in_tree n p \<longrightarrow> (if p \<in> set (up_path i b d) then absent (im_get m (pos_index p)) else im_get m (pos_index p) = im_get [] (pos_index p))"
    by blast
  have "im_get m (pos_index (d, i div 2 ^ d)) = None"
    using m(2) [rule_format, OF tree(1)] by (auto simp: im_get_def split: if_splits)
  moreover have "\<forall>e<d. b \<le> e \<longrightarrow> absent (im_get m (pos_index (e, i div 2 ^ e)))" using m(2) path by auto
  ultimately show thesis using m(1) path unknown_unflushed [OF gaps path tree(2)] out by (intro that) auto
qed

text \<open>What is asked for next; the count ends at the first node that is known.\<close>

lemma missing_nodes_asks:
  assumes known: "tree_known L w bs K t f" and gaps: "tree_gaps K t f" and k: "b \<le> k" "(k, i div 2 ^ k) \<in> K"
    and least: "\<forall>e<k. b \<le> e \<longrightarrow> (e, i div 2 ^ e) \<notin> K" and d: "b \<le> d" "d \<le> k"
  shows "missing_nodes L t (pos_index (b, i div 2 ^ b)) (Some (map (gap_info f) (up_path i b d))) =
      Ok (if d = k \<and> im_get (mt_unflushed t) (pos_index (k, i div 2 ^ k)) \<noteq> None then Inr (of_nat (k - b)) else Inl [ask_of (d, i div 2 ^ d)])"
proof -
  let ?p = "\<lambda>e. (e, i div 2 ^ e)"
  have t: "tree_of L w bs t" "length bs \<le> MAX_BLOCKS" and top: "in_tree (length bs) (?p k)" using known k by (auto simp: tree_known_def)
  then have tree: "in_tree (length bs) (?p d)" using in_tree_path [of "length bs" d "k - d" i] d by simp
  have "\<forall>e<d. b \<le> e \<longrightarrow> ?p e \<notin> K" using least d by simp
  then obtain m where m: "infos_to_nodes L (Some (map (gap_info f) (up_path i b d))) = Ok m"
    "\<forall>e<d. b \<le> e \<longrightarrow> absent (im_get m (pos_index (?p e)))" "im_get m (pos_index (?p d)) = None"
    "\<forall>e<d. b \<le> e \<longrightarrow> in_tree (length bs) (?p e) \<and> im_get (mt_unflushed t) (pos_index (?p e)) = None"
    by (rule gaps_read [OF gaps tree t(2), where rest = "[]"]) (simp_all add: infos_to_nodes_def)
  have "\<forall>e<d. b \<le> e \<longrightarrow> optional_node t (pos_index (?p e)) m = Ok (Inr None)" using m(2,4) optional_absent by blast
  note skip = missing_nodes_skip [OF t d(1) tree m(1) this]
  show ?thesis
  proof (cases "d = k \<and> im_get (mt_unflushed t) (pos_index (?p k)) \<noteq> None")
    case True
    then have "required_node t (pos_index (?p k)) m = Ok (Inr (merkle_node L w bs (?p k)))"
      using known_required_node [OF known top, of m "[]"] m(3) by simp
    then have "optional_node t (pos_index (?p k)) m = Ok (Inr (Some (merkle_node L w bs (?p k))))" using optional_required by blast
    with skip [of "Inr (Some (merkle_node L w bs (?p k)))"] True show ?thesis by simp
  next
    case False
    then have "im_get (mt_unflushed t) (pos_index (?p d)) = None"
      using d least unknown_unflushed [OF gaps tree t(2)] by (cases "d = k") auto
    then have "optional_node t (pos_index (?p d)) m = Ok (Inl (ask_of (?p d)))"
      using m(3) by (simp add: optional_node_def mt_node_def ask_of_def)
    from skip [OF this] False show ?thesis by simp
  qed
qed

lemma missing_nodes_found:
  assumes known: "tree_known L w bs K t f" and gaps: "tree_gaps K t f" and k: "b \<le> k" "(k, i div 2 ^ k) \<in> K"
    and least: "\<forall>e<k. b \<le> e \<longrightarrow> (e, i div 2 ^ e) \<notin> K"
  shows "missing_nodes L t (pos_index (b, i div 2 ^ b)) (Some (map (gap_info f) (up_path i b k) @ [node_info L w bs (k, i div 2 ^ k)])) = Ok (Inr (of_nat (k - b)))"
proof -
  let ?p = "\<lambda>e. (e, i div 2 ^ e)"
  have t: "tree_of L w bs t" "length bs \<le> MAX_BLOCKS" and top: "in_tree (length bs) (?p k)" using known k by (auto simp: tree_known_def)
  obtain m where m: "infos_to_nodes L (Some (map (gap_info f) (up_path i b k) @ [node_info L w bs (?p k)])) =
      infos_to_nodes_loop L (map (node_info L w bs) [?p k]) m" "\<forall>e<k. b \<le> e \<longrightarrow> absent (im_get m (pos_index (?p e)))"
    "\<forall>e<k. b \<le> e \<longrightarrow> in_tree (length bs) (?p e) \<and> im_get (mt_unflushed t) (pos_index (?p e)) = None"
    by (rule gaps_read [OF gaps top t(2) least, where rest = "map (node_info L w bs) [?p k]"])
      (simp add: infos_to_nodes_def del: infos_to_nodes_loop.simps)
  have "\<forall>p\<in>set [?p k]. in_tree (length bs) p" using top by simp
  from infos_to_nodes_loop_eq [OF this t(2), of m] obtain m' where m': "infos_to_nodes_loop L (map (node_info L w bs) [?p k]) m = Ok m'"
    "\<forall>p. in_tree (length bs) p \<longrightarrow> im_get m' (pos_index p) = (if p = ?p k then Some (Some (merkle_node L w bs p)) else im_get m (pos_index p))"
    by auto
  have "im_get m' (pos_index (?p k)) = Some (Some (merkle_node L w bs (?p k)))" using m'(2) top by simp
  then have "required_node t (pos_index (?p k)) m' = Ok (Inr (merkle_node L w bs (?p k)))"
    using known_required_node [OF known top, of m' "[?p k]"] by simp
  then have "optional_node t (pos_index (?p k)) m' = Ok (Inr (Some (merkle_node L w bs (?p k))))" using optional_required by blast
  moreover have "\<forall>e<k. b \<le> e \<longrightarrow> optional_node t (pos_index (?p e)) m' = Ok (Inr None)"
    using m(2,3) m'(2) optional_absent by auto
  ultimately show ?thesis
    using missing_nodes_skip [OF t k(1) top m(1) [unfolded m'(1)], of "Inr (Some (merkle_node L w bs (?p k)))"] by simp
qed

end

context device_laws
begin

lemma read_ask:
  "read_infos ra s [ask_of p] =
    (if unat (40 * pos_index p) + 40 \<le> length (stored content s Tree)
     then Ok [si_new_content Tree (40 * pos_index p) (slice (stored content s Tree) (unat (40 * pos_index p)) 40)]
     else Ok [si_new_content_miss Tree (40 * pos_index p)])"
proof (cases "unat (40 * pos_index p) + 40 \<le> length (stored content s Tree)")
  case True
  then show ?thesis
    using read_in [of "40 * pos_index p" 40 "get_random_access s Tree"]
    by (simp add: ask_of_def sii_new_content_allow_miss_def read_one_def)
next
  case False
  then show ?thesis
    using read_out [of "get_random_access s Tree" "40 * pos_index p" 40]
    by (simp add: ask_of_def sii_new_content_allow_miss_def read_one_def)
qed

lemma read_gap:
  assumes gaps: "tree_gaps K t (stored content s Tree)" and p: "in_tree n p" "n \<le> MAX_BLOCKS" "p \<notin> K"
  shows "read_infos ra s [ask_of p] = Ok [gap_info (stored content s Tree) p]"
proof -
  let ?f = "stored content s Tree" and ?x = "tree_index (fst p) (snd p)"
  have off: "unat (40 * pos_index p) = 40 * ?x" using pos_index_nat(2) [OF p(1,2)] .
  have out: "?x \<notin> slots K" using p(3) by (auto simp: slots_def tree_index_inj prod_eq_iff)
  have "slice ?f (40 * ?x) 40 = replicate 40 0" if fit: "40 * ?x + 40 \<le> length ?f"
  proof (rule nth_equalityI)
    show len: "length (slice ?f (40 * ?x) 40) = length (replicate 40 (0 :: u8))" using fit by (simp add: slice_def)
    fix j assume "j < length (slice ?f (40 * ?x) 40)"
    then have j: "j < 40" using len by simp
    then have "(40 * ?x + j) div 40 = ?x" by simp
    then have "?f ! (40 * ?x + j) = 0" using gaps out fit j by (simp add: tree_gaps_def blank_outside_def)
    then show "slice ?f (40 * ?x) 40 ! j = replicate 40 0 ! j" using fit j by (simp add: slice_def)
  qed
  then show ?thesis unfolding read_ask off gap_info_def by simp
qed

lemma read_known:
  assumes known: "tree_known L w bs K t (stored content s Tree)" and p: "p \<in> K" "im_get (mt_unflushed t) (pos_index p) = None"
  shows "read_infos ra s [ask_of p] = Ok [node_info L w bs p]"
proof -
  have tree: "in_tree (length bs) p" "length bs \<le> MAX_BLOCKS"
    and held: "holds_at (stored content s Tree) (40 * tree_index (fst p) (snd p)) (node_bytes w (merkle_node L w bs p))"
    using known p by (auto simp: tree_known_def)
  then show ?thesis
    unfolding read_ask pos_index_nat(2) [OF tree] by (simp add: holds_at_def length_node_bytes node_info_def)
qed

text \<open>The rounds of reading, one node each.\<close>

lemma count_rounds:
  assumes known: "tree_known L w bs K t (stored content s Tree)" and gaps: "tree_gaps K t (stored content s Tree)"
    and k: "b \<le> k" "(k, i div 2 ^ k) \<in> K" and least: "\<forall>e<k. b \<le> e \<longrightarrow> (e, i div 2 ^ e) \<notin> K"
    and d: "b \<le> d" "d \<le> k" "k - d < fuel" "d < k \<or> im_get (mt_unflushed t) (pos_index (k, i div 2 ^ k)) = None"
  shows "read_loop fuel ra s (\<lambda>infos. missing_nodes L t (pos_index (b, i div 2 ^ b)) (Some infos))
      (map (gap_info (stored content s Tree)) (up_path i b d)) [ask_of (d, i div 2 ^ d)] = Ok (of_nat (k - b))"
  using d
proof (induction fuel arbitrary: d)
  case (Suc fuel)
  have max: "length bs \<le> MAX_BLOCKS" using known by (simp add: tree_known_def)
  show ?case
  proof (cases "d = k")
    case True
    then have none: "im_get (mt_unflushed t) (pos_index (k, i div 2 ^ k)) = None" using Suc.prems(4) by simp
    show ?thesis
      using read_known [OF known k(2) none] missing_nodes_found [OF known gaps k least] True by simp
  next
    case False
    then have lt: "d < k" "b \<le> Suc d" "Suc d \<le> k" "k - Suc d < fuel" using Suc.prems(1-3) by simp_all
    have "in_tree (length bs) (k, i div 2 ^ k)" using known k by (auto simp: tree_known_def)
    then have "in_tree (length bs) (d, i div 2 ^ d)" using in_tree_path [of "length bs" d "k - d" i] lt(1) by simp
    note read = read_gap [OF gaps this max] and asks = missing_nodes_asks [OF known gaps k least lt(2,3)]
    have "(d, i div 2 ^ d) \<notin> K" using least lt(1) Suc.prems(1) by blast
    with read asks Suc.IH [OF lt(2-4)] lt Suc.prems(1) show ?thesis by (auto split: if_splits)
  qed
qed simp

lemma missing_nodes_counted:
  assumes known: "tree_known L w bs K (hc_tree c) (stored content (hc_storage c) Tree)"
    and gaps: "tree_gaps K (hc_tree c) (stored content (hc_storage c) Tree)"
    and k: "b \<le> k" "(k, i div 2 ^ k) \<in> K" and least: "\<forall>e<k. b \<le> e \<longrightarrow> (e, i div 2 ^ e) \<notin> K"
  shows "missing_nodes_from_merkle_tree_index L ra (pos_index (b, i div 2 ^ b)) c = (Ok (of_nat (k - b)), c)"
proof -
  let ?ask = "missing_nodes L (hc_tree c) (pos_index (b, i div 2 ^ b))"
  have "?ask None = ?ask (Some (map (gap_info (stored content (hc_storage c) Tree)) (up_path i b b)))"
    by (simp add: missing_nodes_def infos_to_nodes_def Let_def)
  note first = this [unfolded missing_nodes_asks [OF known gaps k least order_refl k(1)]]
  have "in_tree (length bs) (k, i div 2 ^ k)" "length bs \<le> MAX_BLOCKS" using known k by (auto simp: tree_known_def)
  from in_tree_index(2) [OF this] have "k - b < lib_fuel L" using enough_fuel by (auto simp: pos_ok_def)
  note rounds = count_rounds [OF known gaps k least order_refl k(1) this]
  show ?thesis using first rounds k(1)
    by (auto simp: missing_nodes_from_merkle_tree_index_def readC_def simp del: of_nat_diff split: if_splits)
qed

end

end
