(* ===== verification/Hash_Proof.thy ===== *)
theory Hash_Proof
  imports Proof_Creation
begin

text \<open>
  The proof for a node of the tree, without a block: what the tree collects, what a core answers, and
  what a receiver makes of it.
\<close>

declare split_paired_All [simp del] split_paired_Ex [simp del]

text \<open>The node at depth \<open>d\<close> above block \<open>i\<close> and its \<open>k\<close> siblings.\<close>

abbreviation hash_positions :: "nat \<Rightarrow> nat \<Rightarrow> nat \<Rightarrow> (nat \<times> nat) list" where
  "hash_positions i d k \<equiv> (d, i div 2 ^ d) # sibling_positions i d k"

abbreviation hash_request :: "nat \<Rightarrow> nat \<Rightarrow> nat \<Rightarrow> request_block" where
  "hash_request i d k \<equiv> \<lparr>rb_index = pos_index (d, i div 2 ^ d), rb_nodes = of_nat k\<rparr>"

definition hash_proof :: "'it libs \<Rightarrow> wire_format \<Rightarrow> bytes list \<Rightarrow> nat \<Rightarrow> nat \<Rightarrow> nat \<Rightarrow> proof_msg" where
  "hash_proof L w bs i d k = \<lparr>pf_fork = 0, pf_block = None,
     pf_hash = Some \<lparr>dh_index = pos_index (d, i div 2 ^ d), dh_nodes = map (merkle_node L w bs) (hash_positions i d k)\<rparr>,
     pf_seek = None, pf_upgrade = None\<rparr>"

lemma hash_positions_in_tree:
  assumes "in_tree n (d + k, i div 2 ^ (d + k))"
  shows "\<forall>p\<in>set (hash_positions i d k). in_tree n p"
proof -
  have "in_tree n (j, sibling_offset (i div 2 ^ j))" if "d \<le> j" "j < d + k" for j
  proof -
    have "in_tree n (Suc j + (d + k - Suc j), i div 2 ^ (Suc j + (d + k - Suc j)))" using assms that by simp
    from in_tree_path [OF this] have "in_tree n (Suc j, i div 2 ^ j div 2)" by (simp only: div_pow_Suc)
    then show ?thesis by (rule in_tree_sibling)
  qed
  then show ?thesis using in_tree_path [OF assms] by (auto simp: sibling_positions_def)
qed

context libs_laws
begin

lemma create_hash_eq:
  assumes t: "tree_of L w bs t" "length bs \<le> MAX_BLOCKS" and m: "infos_to_nodes L infos = Ok nodes" "node_source L w bs t nodes"
    and i: "i < length bs" "in_tree (length bs) (d + k, i div 2 ^ (d + k))"
  shows "create_valueless_proof L t None (Some (hash_request i d k)) None None infos =
    (let qs = filter (\<lambda>p. \<not> avail t nodes p) (hash_positions i d k)
     in Ok (if qs = [] then Inr \<lparr>vp_fork = mt_fork t, vp_block = None,
          vp_hash = Some \<lparr>dh_index = pos_index (d, i div 2 ^ d), dh_nodes = map (merkle_node L w bs) (hash_positions i d k)\<rparr>,
          vp_seek = None, vp_upgrade = None\<rparr>
        else Inl (map instr_of qs)))"
proof -
  have k: "d + k \<le> 62" using in_tree_index(2) [OF i(2) t(2)] by (simp add: pos_ok_def)
  have i62: "i < 2 ^ 62" "length bs < 2 ^ 62" using i(1) t(2) by (simp_all add: MAX_BLOCKS_def)
  let ?p = "(d, i div 2 ^ d)" and ?head = "2 * mt_length t" and ?it = "ft_new (lib_ft L) (pos_index (d, i div 2 ^ d))" and ?pos = "sibling_positions i d k"
  have head: "unat ?head = 2 * length bs" using t(1) i62(2) by (simp add: tree_of_def unat_mult_small unat_of_nat64)
  have leaf: "in_tree (length bs) ?p" using in_tree_path [OF i(2)] .
  have it: "ft_at (lib_ft L) ?it d (i div 2 ^ d)"
    using flat.new [OF pos_index_nat(1) [OF leaf t(2), simplified]] in_tree_index(2) [OF leaf t(2)] by simp
  have uk: "unat (of_nat k :: u64) = k" using k by (simp add: unat_of_nat64)
  obtain it' where it': "nodes_to_root_loop L k ?head ?it = Ok it'" "ft_at (lib_ft L) it' (d + k) (i div 2 ^ (d + k))"
    using nodes_to_root_loop_eq [OF it i62(1) k i(2) head] by auto
  have root: "nodes_to_root L (pos_index ?p) (of_nat k) ?head = Ok (pos_index (d + k, i div 2 ^ (d + k)))"
    using it' at_index [OF it'(2)] uk by (simp add: nodes_to_root_def)
  have first: "collect t nodes (pos_index ?p) ([], []) =
      Ok (map (merkle_node L w bs) (filter (avail t nodes) [?p]), map instr_of (filter (\<lambda>p. \<not> avail t nodes p) [?p]))"
    using collect_eq [OF m(2) leaf, of "([], [])"] by simp
  have loop: "block_proof_loop L (lib_fuel L) t nodes False seek (pos_index (d + k, i div 2 ^ (d + k))) ?it p acc =
      Ok (p, fst acc @ map (merkle_node L w bs) (filter (avail t nodes) ?pos), snd acc @ map instr_of (filter (\<lambda>p. \<not> avail t nodes p) ?pos))" for seek p acc
    using block_proof_loop_eq [OF m(2) it i62(1) k i(2)] k enough_fuel by simp
  have all: "filter (avail t nodes) ?pos = ?pos \<and> avail t nodes ?p" if "filter (\<lambda>p. \<not> avail t nodes p) (?p # ?pos) = []"
    using that by (auto simp: filter_empty_conv filter_id_conv split: if_splits)
  have "\<not> (0 :: u64) \<ge> ?head" using head i(1) by (auto simp: word_le_nat_alt)
  then show ?thesis
    using all at_index [OF it]
    by (simp add: create_valueless_proof_def m(1) normalize_indexed_def proof_sub_tree_def root block_and_seek_proof_def loop first Let_def
        del: One_nat_def)
qed

lemma held_create_hash:
  assumes held: "tree_held L w bs t f" and ps: "\<forall>p\<in>set ps. in_tree (length bs) p" and infos: "infos_of L w bs infos ps"
    and i: "i < length bs" "in_tree (length bs) (d + k, i div 2 ^ (d + k))"
  shows "create_valueless_proof L t None (Some (hash_request i d k)) None None infos =
    (let qs = to_read t ps (hash_positions i d k)
     in Ok (if qs = [] then Inr \<lparr>vp_fork = mt_fork t, vp_block = None,
          vp_hash = Some \<lparr>dh_index = pos_index (d, i div 2 ^ d), dh_nodes = map (merkle_node L w bs) (hash_positions i d k)\<rparr>,
          vp_seek = None, vp_upgrade = None\<rparr>
        else Inl (map instr_of qs)))"
proof -
  obtain m where m: "infos_to_nodes L infos = Ok m" "node_source L w bs t m"
    "\<And>qs. \<forall>p\<in>set qs. in_tree (length bs) p \<Longrightarrow> filter (\<lambda>p. \<not> avail t m p) qs = to_read t ps qs"
    using held_nodes [OF held ps infos] by blast
  have t: "tree_of L w bs t" "length bs \<le> MAX_BLOCKS" using held by (simp_all add: tree_held_def)
  show ?thesis using create_hash_eq [OF t m(1,2) i] unfolding m(3) [OF hash_positions_in_tree [OF i(2)]] .
qed

text \<open>The receiver climbs from the node to the one \<open>k\<close> levels above it, and compares that.\<close>

lemma hash_proof_answer:
  assumes nodes: "infos_to_nodes L infos = Ok nodes" and i: "i < 2 ^ 62" "d + k \<le> 62"
  shows "verify_proof L t (hash_proof L w bs i d k) pk infos =
    bindR (required_node t (pos_index (d + k, i div 2 ^ (d + k))) nodes) (\<lambda>r.
    case r of
      Inl instr \<Rightarrow> Ok (Inl [instr])
    | Inr v \<Rightarrow> if n_hash v \<noteq> n_hash (merkle_node L w bs (d + k, i div 2 ^ (d + k))) then Err InvalidChecksum
        else Ok (Inr ((mt_changeset t)\<lparr>cg_nodes := map (merkle_node L w bs) ((d, i div 2 ^ d) # path_positions i d k)\<rparr>)))"
proof -
  let ?p = "(d, i div 2 ^ d)" and ?ns = "map (merkle_node L w bs) (hash_positions i d k)" and ?it = "ft_new (lib_ft L) (pos_index (d, i div 2 ^ d))"
  have ok: "pos_ok d (i div 2 ^ d)" using block_pos_ok(1) [OF i(1), of d] i(2) by simp
  have it: "ft_at (lib_ft L) ?it d (i div 2 ^ d)" using flat.new [OF pos_index_unat [OF ok]] ok by simp
  let ?q = "node_queue_new ?ns None"
  obtain q where q: "shift ?q (pos_index ?p) = Ok (merkle_node L w bs ?p, q)" "nq_length q = k" "nq_extra q = None"
    "drop (nq_i q) (nq_nodes q) = map (merkle_node L w bs) (sibling_positions i d k)"
    by (auto simp: shift_def node_queue_new_def index_at_def pos_index_def sibling_positions_def Let_def)
  from climb_complete [OF it i q(2-4), of "[merkle_node L w bs ?p]"]
  have climb: "climb_queue L q ?it (merkle_node L w bs ?p) [merkle_node L w bs ?p] =
      Ok (merkle_node L w bs (d + k, i div 2 ^ (d + k)), map (merkle_node L w bs) (?p # path_positions i d k))" by simp
  have root: "n_index (merkle_node L w bs (d + k, i div 2 ^ (d + k))) = pos_index (d + k, i div 2 ^ (d + k))" by (simp add: pos_index_def)
  have "cg_nodes (mt_changeset t) = []" by (simp add: mt_changeset_def changeset_new_def)
  then have "verify_tree L None (pf_hash (hash_proof L w bs i d k)) None (mt_changeset t) =
      Ok (Some (merkle_node L w bs (d + k, i div 2 ^ (d + k))), (mt_changeset t)\<lparr>cg_nodes := map (merkle_node L w bs) (?p # path_positions i d k)\<rparr>)"
    using q(1) climb at_index [OF it] by (simp add: verify_tree_def normalize_data_def hash_proof_def Let_def del: list.map)
  with nodes root show ?thesis
    by (cases "required_node t (pos_index (d + k, i div 2 ^ (d + k))) nodes") (auto simp: verify_proof_def hash_proof_def split: sum.split)
qed

end

context device_laws
begin

lemma core_create_hash_proof:
  assumes view: "core_view L w content sk c bs have" and i: "i < length bs" "in_tree (length bs) (d + k, i div 2 ^ (d + k))"
  shows "core_create_proof L ra None (Some (hash_request i d k)) None None c = (Ok (Some (hash_proof L w bs i d k)), c)"
proof -
  have held: "tree_held L w bs (hc_tree c) (stored content (hc_storage c) Tree)" "mt_fork (hc_tree c) = 0" using view by (simp_all add: core_view_def)
  have "core_create_valueless_proof L ra c None (Some (hash_request i d k)) None None = Ok \<lparr>vp_fork = mt_fork (hc_tree c), vp_block = None,
      vp_hash = Some \<lparr>dh_index = pos_index (d, i div 2 ^ d), dh_nodes = map (merkle_node L w bs) (hash_positions i d k)\<rparr>,
      vp_seek = None, vp_upgrade = None\<rparr>"
    by (rule core_create_round [OF held(1) hash_positions_in_tree [OF i(2)]]) (rule held_create_hash [OF held(1) _ _ i])
  with held(2) show ?thesis by (simp add: core_create_proof_def bindC_def readC_def into_proof_def hash_proof_def)
qed

end

end
