(* ===== verification/Replica_Core.thy ===== *)
theory Replica_Core
  imports Changeset_Offset Missing_Nodes Hash_Proof
begin

text \<open>
  A core that has its log by replication: it knows some nodes of the tree and has some of the blocks.
  Every genuine block and every genuine upgrade that it is handed extends what it knows, and the
  blocks that it has can be read.
\<close>

declare split_paired_All [simp del] split_paired_Ex [simp del]

section \<open>The state of a replica\<close>

definition replica_state ::
  "'it libs \<Rightarrow> wire_format \<Rightarrow> ('d \<Rightarrow> bytes) \<Rightarrow> bytes \<Rightarrow> 'd hypercore \<Rightarrow> bytes list \<Rightarrow> (nat \<times> nat) set \<Rightarrow> nat set \<Rightarrow> bool" where
  "replica_state L w content sk c bs K have \<longleftrightarrow> core_known L w content sk c bs K have \<and> hint_ok c have \<and>
     oplog_slots L w content (hc_storage c) (hc_oplog c) \<and> op_entries_byte_length (hc_oplog c) < MAX_OPLOG_ENTRIES_BYTE_SIZE \<and>
     rooted (length bs) K \<and> (\<forall>i\<in>have. (0, i) \<in> K) \<and> tree_gaps K (hc_tree c) (stored content (hc_storage c) Tree)"

text \<open>The entries that it writes to the log, with the nodes at \<open>ps\<close>, and the logs that lead from one state to
  another.\<close>

definition path_entry :: "'it libs \<Rightarrow> wire_format \<Rightarrow> bytes list \<Rightarrow> (nat \<times> nat) list \<Rightarrow> nat option \<Rightarrow> entry" where
  "path_entry L w bs ps i = \<lparr>e_user_data = [], e_tree_nodes = map (merkle_node L w bs) ps, e_tree_upgrade = None,
     e_bitfield = map_option (\<lambda>i. \<lparr>bu_drop = False, bu_start = of_nat i, bu_length = 1\<rparr>) i\<rparr>"

definition upgrade_entry :: "'it libs \<Rightarrow> wire_format \<Rightarrow> bytes \<Rightarrow> bytes list \<Rightarrow> bytes list \<Rightarrow> (nat \<times> nat) list \<Rightarrow> entry" where
  "upgrade_entry L w sk bs cs ps = \<lparr>e_user_data = [], e_tree_nodes = map (merkle_node L w (bs @ cs)) ps,
     e_tree_upgrade = Some (upgrade_of L w sk bs cs), e_bitfield = None\<rparr>"

inductive replica_path ::
  "'it libs \<Rightarrow> wire_format \<Rightarrow> bytes \<Rightarrow> bytes list \<Rightarrow> (nat \<times> nat) set \<Rightarrow> nat set \<Rightarrow> entry list \<Rightarrow> bytes list \<Rightarrow> (nat \<times> nat) set \<Rightarrow> nat set \<Rightarrow> bool"
  for L w sk bs0 K0 have0 where
  start: "replica_path L w sk bs0 K0 have0 [] bs0 K0 have0"
| path: "replica_path L w sk bs0 K0 have0 es bs K have \<Longrightarrow> \<forall>p\<in>set ps. in_tree (length bs) p \<Longrightarrow> \<forall>j\<in>set_option i. j < length bs \<Longrightarrow>
    replica_path L w sk bs0 K0 have0 (es @ [path_entry L w bs ps i]) bs (K \<union> set ps) (have \<union> set_option i)"
| upgrade: "replica_path L w sk bs0 K0 have0 es bs K have \<Longrightarrow> cs \<noteq> [] \<Longrightarrow> \<forall>p\<in>set ps. in_tree (length (bs @ cs)) p \<Longrightarrow>
    set (root_positions (length (bs @ cs))) \<subseteq> K \<union> set ps \<Longrightarrow>
    replica_path L w sk bs0 K0 have0 (es @ [upgrade_entry L w sk bs cs ps]) (bs @ cs) (K \<union> set ps) have"

text \<open>What the stores alone say: a flushed state, and the entries that lead from it to the present one.\<close>

definition flushed_nodes :: "'it libs \<Rightarrow> wire_format \<Rightarrow> bytes list \<Rightarrow> (nat \<times> nat) set \<Rightarrow> bytes \<Rightarrow> bool" where
  "flushed_nodes L w bs K f \<longleftrightarrow> set (root_positions (length bs)) \<subseteq> K \<and> blank_outside (slots K) f \<and>
     (\<forall>p\<in>K. in_tree (length bs) p \<and> holds_at f (40 * tree_index (fst p) (snd p)) (node_bytes w (merkle_node L w bs p)))"

definition flushed_bits :: "fixed_bitfield list \<Rightarrow> nat \<Rightarrow> nat set \<Rightarrow> bool" where
  "flushed_bits ps len have \<longleftrightarrow> list_all fixed_wf ps \<and> 32768 * length ps < len + 32768 \<and> (\<forall>k. page_bits ps k \<longleftrightarrow> k \<in> have) \<and> have \<subseteq> {..<len}"

definition replica_durable ::
  "'it libs \<Rightarrow> wire_format \<Rightarrow> ('d \<Rightarrow> bytes) \<Rightarrow> bytes \<Rightarrow> 'd hypercore \<Rightarrow> bytes list \<Rightarrow> (nat \<times> nat) set \<Rightarrow> nat set \<Rightarrow> bool" where
  "replica_durable L w content sk c bs K have \<longleftrightarrow> (\<exists>es bs0 K0 have0 n ps.
     let h = header_of L w sk (hc_key_pair c) bs0 n
     in oplog_image L w (stored content (hc_storage c) Oplog) (op_header_bits (hc_oplog c)) (get_current_header_bit (hc_oplog c)) h es \<and>
        (hc_skip_flush_count c = 0 \<and> op_entries_byte_length (hc_oplog c) = 0 \<or> oplog_inv L w content (hc_storage c) (hc_oplog c) h es) \<and>
        contiguous_at have0 n \<and> flushed_nodes L w bs0 K0 (stored content (hc_storage c) Tree) \<and>
        stored content (hc_storage c) Bitfield = page_file ps \<and> flushed_bits ps (length bs0) have0 \<and>
        replica_path L w sk bs0 K0 have0 es bs K have)"

definition replica_inv ::
  "'it libs \<Rightarrow> wire_format \<Rightarrow> ('d \<Rightarrow> bytes) \<Rightarrow> bytes \<Rightarrow> 'd hypercore \<Rightarrow> bytes list \<Rightarrow> (nat \<times> nat) set \<Rightarrow> nat set \<Rightarrow> bool" where
  "replica_inv L w content sk c bs K have \<longleftrightarrow> replica_state L w content sk c bs K have \<and> replica_durable L w content sk c bs K have"

text \<open>The messages of an author: the block \<open>i\<close> with \<open>k\<close> nodes of its path, and the upgrade from \<open>m\<close> to \<open>n\<close> blocks.\<close>

definition block_proof :: "'it libs \<Rightarrow> wire_format \<Rightarrow> bytes list \<Rightarrow> nat \<Rightarrow> nat \<Rightarrow> proof_msg" where
  "block_proof L w bs i k = \<lparr>pf_fork = 0,
     pf_block = Some \<lparr>dblk_index = of_nat i, dblk_value = bs ! i, dblk_nodes = map (merkle_node L w bs) (sibling_positions i 0 k)\<rparr>,
     pf_hash = None, pf_seek = None, pf_upgrade = None\<rparr>"

definition upgrade_proof_msg :: "'it libs \<Rightarrow> wire_format \<Rightarrow> bytes \<Rightarrow> bytes list \<Rightarrow> nat \<Rightarrow> nat \<Rightarrow> proof_msg" where
  "upgrade_proof_msg L w sk bs m n = \<lparr>pf_fork = 0, pf_block = None, pf_hash = None, pf_seek = None,
     pf_upgrade = Some (upgrade_msg L w bs m n (upgrade_positions m (root_positions n)) (tree_signature L w sk bs))\<rparr>"

lemma blocks_held_put:
  assumes held: "blocks_held bs have f" and i: "i < length bs" "bs ! i \<noteq> []"
  shows "blocks_held bs (have \<union> {i}) (file_write f (byte_size (take i bs)) (bs ! i))"
  unfolding blocks_held_def
proof (intro allI impI)
  fix j assume j: "j < length bs" "j \<in> have \<union> {i}"
  have step: "byte_size (take (Suc x) bs) = byte_size (take x bs) + length (bs ! x)" if "x < length bs" for x
    using that by (simp add: take_Suc_conv_app_nth byte_size_def)
  have mono: "byte_size (take (Suc x) bs) \<le> byte_size (take y bs)" if "x < y" for x y
    using byte_size_take_mono [of "Suc x" y bs] that by simp
  show "holds_at (file_write f (byte_size (take i bs)) (bs ! i)) (byte_size (take j bs)) (bs ! j)"
  proof (cases "j = i")
    case True
    then show ?thesis using holds_at_file_write [OF i(2)] by simp
  next
    case False
    then have "holds_at f (byte_size (take j bs)) (bs ! j)" using held j by (simp add: blocks_held_def)
    moreover have "byte_size (take j bs) + length (bs ! j) \<le> byte_size (take i bs) \<or> byte_size (take i bs) + length (bs ! i) \<le> byte_size (take j bs)"
      using False step [OF j(1)] step [OF i(1)] mono [of j i] mono [of i j] by (cases "j < i") auto
    ultimately show ?thesis by (intro holds_at_file_write_other)
  qed
qed

context libs_laws
begin

lemma gaps_insert:
  assumes gaps: "tree_gaps K t f" and ps: "\<forall>p\<in>set ps. in_tree (length bs) p" "length bs \<le> MAX_BLOCKS"
    and t': "mt_unflushed t' = fold (\<lambda>n m. im_insert (n_index n) n m) (map (merkle_node L w bs) ps) (mt_unflushed t)"
  shows "tree_gaps (K \<union> set ps) t' f"
proof -
  have "unat i \<in> slots (K \<union> set ps)" if "im_get (mt_unflushed t') i = Some n" for i n
    using insert_nodes_get(3) [OF ps, where m = "mt_unflushed t", folded t', OF that] gaps pos_index_nat(1) [OF _ ps(2)] ps(1)
    unfolding tree_gaps_def slots_def by fastforce
  moreover have "slots K \<subseteq> slots (K \<union> set ps)" by (auto simp: slots_def)
  ultimately show ?thesis using gaps unfolding tree_gaps_def blank_outside_def by blast
qed

end

context device_laws
begin

section \<open>Reading\<close>

lemma replica_get:
  assumes state: "replica_state L w content sk c bs K have"
  shows "core_get L ra i c =
    (if unat i \<in> have then (Ok (Some (bs ! unat i)), c) else (Ok None, c\<lparr>hc_events := send_on_get (hc_events c) i\<rparr>))"
proof -
  have known: "core_known L w content sk c bs K have" and K: "rooted (length bs) K" "\<forall>i\<in>have. (0, i) \<in> K"
    using state by (simp_all add: replica_state_def)
  show ?thesis
  proof (cases "unat i \<in> have")
    case True
    then have "unat i < length bs" using known by (auto simp: core_known_def)
    moreover have leaf: "(0, unat i div 2 ^ 0) \<in> K" using K(2) True by simp
    ultimately have "set ((0, unat i) # offset_path (length bs) (unat i)) \<subseteq> K"
      using rooted_offset_path [OF K(1) leaf] by simp
    from core_get_known [OF known True this] True show ?thesis by simp
  next
    case False
    then show ?thesis using core_known_bits [OF known, of i] by (simp add: core_get_def run_simps)
  qed
qed

section \<open>Flushing\<close>

lemma replica_events: "replica_inv L w content sk c bs K have \<Longrightarrow> replica_inv L w content sk (c\<lparr>hc_events := ev\<rparr>) bs K have"
  by (simp add: replica_inv_def replica_state_def core_known_def hint_ok_def replica_durable_def)

lemma replica_durable_skip:
  "replica_durable L w content sk c bs K have \<Longrightarrow> hc_skip_flush_count c \<noteq> 0 \<Longrightarrow>
    replica_durable L w content sk (c\<lparr>hc_skip_flush_count := n\<rparr>) bs K have"
  unfolding replica_durable_def Let_def by simp blast

text \<open>An entry in the log takes the durable state along.\<close>

lemma replica_durable_log:
  assumes dur: "hc_skip_flush_count c = 0 \<or> replica_durable L w content sk c bs K have"
    and log: "\<forall>h es. oplog_inv L w content (hc_storage c) (hc_oplog c) h es \<longrightarrow> oplog_inv L w content (hc_storage c') (hc_oplog c') h (es @ [e])"
    and c': "hc_skip_flush_count c' = hc_skip_flush_count c" "hc_key_pair c' = hc_key_pair c"
      "stored content (hc_storage c') Tree = stored content (hc_storage c) Tree"
      "stored content (hc_storage c') Bitfield = stored content (hc_storage c) Bitfield"
    and path: "\<forall>es bs0 K0 have0. replica_path L w sk bs0 K0 have0 es bs K have \<longrightarrow> replica_path L w sk bs0 K0 have0 (es @ [e]) bs' K' have'"
  shows "hc_skip_flush_count c' = 0 \<or> replica_durable L w content sk c' bs' K' have'"
proof (cases "hc_skip_flush_count c = 0")
  case False
  then obtain es bs0 K0 have0 n ps where d: "oplog_inv L w content (hc_storage c) (hc_oplog c) (header_of L w sk (hc_key_pair c) bs0 n) es"
    "contiguous_at have0 n" "flushed_nodes L w bs0 K0 (stored content (hc_storage c) Tree)"
    "stored content (hc_storage c) Bitfield = page_file ps" "flushed_bits ps (length bs0) have0" "replica_path L w sk bs0 K0 have0 es bs K have"
    using dur unfolding replica_durable_def Let_def by blast
  have inv: "oplog_inv L w content (hc_storage c') (hc_oplog c') (header_of L w sk (hc_key_pair c') bs0 n) (es @ [e])" using log d(1) c'(2) by simp
  then have "oplog_image L w (stored content (hc_storage c') Oplog) (op_header_bits (hc_oplog c')) (get_current_header_bit (hc_oplog c'))
      (header_of L w sk (hc_key_pair c') bs0 n) (es @ [e])" by (simp add: oplog_inv_def)
  with inv d(2-5) path [rule_format, OF d(6)] c'(3,4) have "replica_durable L w content sk c' bs' K' have'" unfolding replica_durable_def Let_def
    by (intro exI [of _ "es @ [e]"] exI [of _ bs0] exI [of _ K0] exI [of _ have0] exI [of _ n] exI [of _ ps]) simp
  then show ?thesis ..

qed (use c'(1) in simp)

lemma maybe_flush_known:
  assumes known: "core_known L w content sk c bs K have" and hint: "hint_ok c have" and slots: "oplog_slots L w content (hc_storage c) (hc_oplog c)"
    and K: "rooted (length bs) K" "\<forall>i\<in>have. (0, i) \<in> K" "tree_gaps K (hc_tree c) (stored content (hc_storage c) Tree)"
    and dur: "hc_skip_flush_count c = 0 \<or> replica_durable L w content sk c bs K have"
  shows "\<exists>c'. maybe_flush L ra c = (Ok (), c') \<and> replica_inv L w content sk c' bs K have \<and> hc_key_pair c' = hc_key_pair c \<and> hc_events c' = hc_events c"
proof (cases "hc_skip_flush_count c = 0 \<or> op_entries_byte_length (hc_oplog c) \<ge> MAX_OPLOG_ENTRIES_BYTE_SIZE")
  case True
  let ?c = "c\<lparr>hc_skip_flush_count := 3\<rparr>"
  have pre: "core_known L w content sk ?c bs K have" "hint_ok ?c have" "oplog_slots L w content (hc_storage ?c) (hc_oplog ?c)"
    using known hint slots by (simp_all add: core_known_def hint_ok_def)
  obtain c' ps where c': "flush_bitfield_and_tree_and_oplog L ra False ?c = (Ok (), c')" "core_known L w content sk c' bs K have"
    "hint_ok c' have" "oplog_inv L w content (hc_storage c') (hc_oplog c') (hc_header ?c) []" "op_entries_byte_length (hc_oplog c') = 0"
    "hc_key_pair c' = hc_key_pair c" "hc_events c' = hc_events c" "tree_gaps K (hc_tree c') (stored content (hc_storage c') Tree)"
    "mt_unflushed (hc_tree c') = []" "bits_stored (hc_bitfield c') ps (length bs)" "stored content (hc_storage c') Bitfield = page_file ps"
    "\<forall>k. page_bits ps k \<longleftrightarrow> k \<in> have"
    by (rule core_flush_known [OF pre, of False]) (use K(3) in simp)
  have slots': "oplog_slots L w content (hc_storage c') (hc_oplog c')" using c'(4) image_oplog_slots unfolding oplog_inv_def by blast
  obtain n where n: "contiguous_at have n" "hc_header c = header_of L w sk (hc_key_pair c') bs n"
    using known hint c'(6) unfolding core_known_def hint_ok_def header_of_def by auto
  have "flushed_nodes L w bs K (stored content (hc_storage c') Tree)"
    using c'(2,8,9) K(1) by (auto simp: flushed_nodes_def core_known_def tree_known_def tree_gaps_def rooted_def im_get_def)
  moreover have "flushed_bits ps (length bs) have"
    using c'(10,12) known by (simp add: flushed_bits_def bits_stored_def core_known_def)
  ultimately have "replica_durable L w content sk c' bs K have"
    using c'(4,11) n replica_path.start [of L w sk bs K "have"] unfolding replica_durable_def Let_def
    by (intro exI [of _ "[]"] exI [of _ bs] exI [of _ K] exI [of _ "have"] exI [of _ n] exI [of _ ps]) (simp add: oplog_inv_def)
  moreover have "should_flush_bitfield_and_tree_and_oplog c = (Ok True, ?c)"
    using True by (simp add: should_flush_bitfield_and_tree_and_oplog_def run_simps)
  ultimately show ?thesis
    using c' slots' K by (intro exI [of _ c']) (simp add: maybe_flush_def run_simps replica_inv_def replica_state_def MAX_OPLOG_ENTRIES_BYTE_SIZE_def)
next
  case False
  let ?c = "c\<lparr>hc_skip_flush_count := hc_skip_flush_count c - 1\<rparr>"
  have "should_flush_bitfield_and_tree_and_oplog c = (Ok False, ?c)"
    using False by (simp add: should_flush_bitfield_and_tree_and_oplog_def run_simps)
  moreover have "replica_durable L w content sk ?c bs K have" using dur False replica_durable_skip by blast
  ultimately show ?thesis
    using False known hint slots K
    by (intro exI [of _ ?c]) (simp add: maybe_flush_def run_simps replica_inv_def replica_state_def core_known_def hint_ok_def not_le)
qed

section \<open>Checking a path\<close>

text \<open>A proof whose path leads to a known node passes; the node is read when it is not in memory.\<close>

lemma replica_verify_path:
  assumes state: "replica_state L w content sk c bs K have" and q: "q \<in> K"
    and answer: "\<forall>infos nodes. infos_to_nodes L infos = Ok nodes \<longrightarrow> verify_proof L (hc_tree c) pf (kp_public (hc_key_pair c)) infos =
      bindR (required_node (hc_tree c) (pos_index q) nodes) (\<lambda>r. case r of Inl instr \<Rightarrow> Ok (Inl [instr])
        | Inr v \<Rightarrow> if n_hash v \<noteq> n_hash (merkle_node L w bs q) then Err InvalidChecksum else Ok (Inr cg))"
  shows "core_verify_proof L ra c pf = Ok cg"
proof -
  let ?t = "hc_tree c"
  have known: "tree_known L w bs K ?t (stored content (hc_storage c) Tree)" using state by (simp add: replica_state_def core_known_def)
  have tree: "in_tree (length bs) q" and max: "length bs \<le> MAX_BLOCKS" using known q by (auto simp: tree_known_def)
  have first: "required_node ?t (pos_index q) [] =
      Ok (if im_get (mt_unflushed ?t) (pos_index q) \<noteq> None then Inr (merkle_node L w bs q) else Inl (instr_of q))"
    using known_required_node [OF known tree, of "[]" "[]"] by (simp add: im_get_def)
  have none: "infos_to_nodes L None = Ok []" by (simp add: infos_to_nodes_def)
  show ?thesis
  proof (cases "im_get (mt_unflushed ?t) (pos_index q)")
    case None
    have read: "read_infos ra (hc_storage c) (map instr_of [q]) = Ok (map (node_info L w bs) [q])"
      by (rule read_known_nodes [OF known]) (use q None in simp)
    obtain m where m: "infos_to_nodes L (Some (map (node_info L w bs) [q])) = Ok m" "im_get m (pos_index q) = Some (Some (merkle_node L w bs q))"
      using infos_to_nodes_eq [of "[q]" bs] tree max by auto
    have "required_node ?t (pos_index q) m = Ok (Inr (merkle_node L w bs q))"
      using known_required_node [OF known tree, of m "[q]"] m(2) by simp
    with answer [rule_format, OF m(1)] answer [rule_format, OF none] first None read show ?thesis by (simp add: core_verify_proof_def)
  next
    case (Some n)
    with answer [rule_format, OF none] first show ?thesis by (simp add: core_verify_proof_def)
  qed
qed

lemma known_path:
  assumes state: "replica_state L w content sk c bs K have" and k: "(k, i div 2 ^ k) \<in> K"
  shows "i < length bs" "i < 2 ^ 62" "k \<le> 62" "length bs \<le> MAX_BLOCKS"
proof -
  have tree: "in_tree (length bs) (k, i div 2 ^ k)" and max: "length bs \<le> MAX_BLOCKS"
    using state k by (auto simp: replica_state_def core_known_def tree_known_def)
  then show "i < length bs" using in_tree_path [of "length bs" 0 k i] by (simp add: in_tree_def)
  then show "i < 2 ^ 62" "k \<le> 62" "length bs \<le> MAX_BLOCKS" using max in_tree_index(2) [OF tree max] by (simp_all add: MAX_BLOCKS_def pos_ok_def)
qed

section \<open>Taking a block\<close>

lemma replica_verify_block:
  assumes state: "replica_state L w content sk c bs K have" and k: "(k, i div 2 ^ k) \<in> K"
  shows "core_verify_proof L ra c (block_proof L w bs i k) =
    Ok ((mt_changeset (hc_tree c))\<lparr>cg_nodes := map (merkle_node L w bs) ((0, i) # path_positions i 0 k)\<rparr>)"
  by (intro replica_verify_path [OF state k] allI impI, rule block_proof_answer)
    (use known_path [OF state k] in \<open>simp_all add: block_proof_def\<close>)

text \<open>The block goes to its place on the data store.\<close>

lemma replica_apply_block:
  assumes state: "replica_state L w content sk c bs K have" and k: "(k, i div 2 ^ k) \<in> K"
    and cg: "cg_roots cg = mt_roots (hc_tree c)" "cg_nodes cg = map (merkle_node L w bs) ((0, i) # path_positions i 0 k)"
  obtains s1 where "apply_block L ra cg (pf_block (block_proof L w bs i k)) c =
      (Ok (Some \<lparr>bu_drop = False, bu_start = of_nat i, bu_length = 1\<rparr>), c\<lparr>hc_storage := s1\<rparr>)"
    "stored content s1 Data = file_write (stored content (hc_storage c) Data) (byte_size (take i bs)) (bs ! i)"
    "\<forall>st. st \<noteq> Data \<longrightarrow> stored content s1 st = stored content (hc_storage c) st"
proof -
  let ?t = "hc_tree c" and ?n = "length bs" and ?i = "i div 2 ^ k * 2 ^ k"
  have known: "tree_known L w bs K ?t (stored content (hc_storage c) Tree)" and K: "rooted ?n K" and size: "byte_size bs \<le> 2 ^ 62"
    using state by (simp_all add: replica_state_def core_known_def core_small_def)
  have tree: "in_tree ?n (k, i div 2 ^ k)" using known k by (auto simp: tree_known_def)
  have lt: "i < ?n" using in_tree_path [of ?n 0 k i] tree by (simp add: in_tree_def)
  define qs where "qs = (if (k, i div 2 ^ k) \<in> set (root_positions ?n) then [] else to_read ?t [] (offset_path ?n ?i))"
  have "set (offset_path ?n ?i) \<subseteq> K"
  proof (rule rooted_offset_path [OF K])
    show "(k, ?i div 2 ^ k) \<in> K" using k by simp
    show "\<forall>e<k. even (?i div 2 ^ e)" using pow_div_even by blast
    show "?i < ?n" using le_less_trans [OF div_times_less_eq_dividend lt] by simp
  qed
  then have qs: "\<forall>p\<in>set qs. p \<in> K \<and> im_get (mt_unflushed ?t) (pos_index p) = None"
    using to_read_mem unfolding qs_def by auto
  have intree: "\<forall>p\<in>set qs. in_tree ?n p" using qs known by (auto simp: tree_known_def)
  let ?off = "of_nat (byte_size (take i bs)) :: u64"
  have first: "byte_offset_in_changeset L ?t (of_nat i) cg None = Ok (if qs = [] then Inr ?off else Inl (map instr_of qs))"
    using known_changeset_offset [OF known _ _ tree cg, of "[]" None] by (simp add: infos_of_def qs_def Let_def cong: if_cong)
  have again: "to_read ?t qs (offset_path ?n ?i) = []" if "(k, i div 2 ^ k) \<notin> set (root_positions ?n)"
    using that by (auto simp: qs_def to_read_def filter_empty_conv)
  have second: "byte_offset_in_changeset L ?t (of_nat i) cg (Some (map (node_info L w bs) qs)) = Ok (Inr ?off)"
    using known_changeset_offset [OF known intree _ tree cg, of "Some (map (node_info L w bs) qs)"] again by (simp add: infos_of_def Let_def)
  have off: "unat ?off = byte_size (take i bs)" "byte_size (take i bs) + length (bs ! i) \<le> byte_size bs"
    using byte_size_take_nth [OF lt] size by (simp_all add: unat_of_nat64)
  have "unat ?off + length (bs ! i) \<le> MAX_FILE" using off size by (simp add: MAX_FILE_def)
  from flush_content [OF this, of "hc_storage c" Data] obtain s1 where s1: "flush_infos ra (hc_storage c) [block_put (bs ! i) ?off] = Ok s1"
    "stored content s1 Data = file_write (stored content (hc_storage c) Data) (byte_size (take i bs)) (bs ! i)"
    "\<forall>st. st \<noteq> Data \<longrightarrow> stored content s1 st = stored content (hc_storage c) st"
    unfolding off by (auto simp: block_put_def)
  show thesis
  proof (rule that [OF _ s1(2,3)])
    show "apply_block L ra cg (pf_block (block_proof L w bs i k)) c =
        (Ok (Some \<lparr>bu_drop = False, bu_start = of_nat i, bu_length = 1\<rparr>), c\<lparr>hc_storage := s1\<rparr>)"
      using first second s1(1) read_known_nodes [OF known qs]
      by (cases "qs = []") (simp_all add: apply_block_def block_proof_def core_flush_infos_def run_simps)
  qed
qed

lemma length_path_positions: "length (path_positions i d j) = 2 * j"
  by (induction j arbitrary: d) simp_all

text \<open>The steps between the check and the flush.\<close>

lemma replica_block_steps:
  assumes inv: "replica_inv L w content sk c bs K have" and k: "(k, i div 2 ^ k) \<in> K" and ne: "bs ! i \<noteq> []"
  defines "ps \<equiv> (0, i) # path_positions i 0 k" and "bu \<equiv> \<lparr>bu_drop = False, bu_start = of_nat i, bu_length = 1\<rparr>"
  defines "cg \<equiv> (mt_changeset (hc_tree c))\<lparr>cg_nodes := map (merkle_node L w bs) ps\<rparr>"
  obtains c1 c2 c3 c4 where "apply_block L ra cg (pf_block (block_proof L w bs i k)) c = (Ok (Some bu), c1)"
    "log_changeset L ra cg (Some bu) c1 = (Ok (), c2)" "update_bitfield bu c2 = (Ok (), c3)" "core_commit L cg c3 = (Ok (), c4)"
    "core_known L w content sk c4 bs (K \<union> set ps) (have \<union> {i})" "hint_ok c4 (have \<union> {i})" "oplog_slots L w content (hc_storage c4) (hc_oplog c4)"
    "tree_gaps (K \<union> set ps) (hc_tree c4) (stored content (hc_storage c4) Tree)" "hc_key_pair c4 = hc_key_pair c" "hc_events c4 = hc_events c"
    "hc_skip_flush_count c4 = 0 \<or> replica_durable L w content sk c4 bs (K \<union> set ps) (have \<union> {i})"
proof -
  let ?t = "hc_tree c" and ?n = "length bs" and ?have = "have \<union> {i}"
  have state: "replica_state L w content sk c bs K have" and dur: "replica_durable L w content sk c bs K have"
    using inv by (simp_all add: replica_inv_def)
  have known: "core_known L w content sk c bs K have" and hint: "hint_ok c have"
    and gaps: "tree_gaps K ?t (stored content (hc_storage c) Tree)"
    and log: "oplog_slots L w content (hc_storage c) (hc_oplog c)" "op_entries_byte_length (hc_oplog c) < MAX_OPLOG_ENTRIES_BYTE_SIZE"
    using state by (simp_all add: replica_state_def)
  obtain pages n0 where v: "core_small bs" "have \<subseteq> {..<?n}" "tree_known L w bs K ?t (stored content (hc_storage c) Tree)"
    "bitfield_is (hc_bitfield c) have" "bits_stored (hc_bitfield c) pages ?n" "stored content (hc_storage c) Bitfield = page_file pages"
    "blocks_held bs have (stored content (hc_storage c) Data)" "hc_header c = header_of L w sk (hc_key_pair c) bs n0"
    using known unfolding core_known_def by blast
  obtain n where n: "contiguous_at have n" "hh_contiguous_length (h_hints (hc_header c)) = of_nat n" using hint by (auto simp: hint_ok_def)
  have tree: "in_tree ?n (k, i div 2 ^ k)" and max: "?n \<le> MAX_BLOCKS" using v(3) k by (auto simp: tree_known_def)
  have lt: "i < ?n" using in_tree_path [of ?n 0 k i] tree by (simp add: in_tree_def)
  have path: "\<forall>p\<in>set ps. in_tree ?n p" using path_in_tree [of ?n 0 k i] tree by (simp add: ps_def)
  have cg: "cg_roots cg = mt_roots ?t" "cg_nodes cg = map (merkle_node L w bs) ps" "\<not> cg_upgraded cg" "commitable ?t cg"
    by (simp_all add: cg_def mt_changeset_def changeset_new_def commitable_def)
  obtain s1 where s1: "apply_block L ra cg (pf_block (block_proof L w bs i k)) c = (Ok (Some bu), c\<lparr>hc_storage := s1\<rparr>)"
    "stored content s1 Data = file_write (stored content (hc_storage c) Data) (byte_size (take i bs)) (bs ! i)"
    "\<forall>st. st \<noteq> Data \<longrightarrow> stored content s1 st = stored content (hc_storage c) st"
    by (rule replica_apply_block [OF state k cg(1) cg(2) [unfolded ps_def], folded bu_def])
  let ?c1 = "c\<lparr>hc_storage := s1\<rparr>"
  let ?e = "path_entry L w bs ps (Some i)"
  have "k \<le> 62" using in_tree_index(2) [OF tree max] by (simp add: pos_ok_def)
  then have fits: "entry_fits L w ?e" unfolding path_entry_def by (intro nodes_entry_fits) (simp_all add: ps_def length_path_positions MAX_BATCH_def)
  have upd: "update_header_with_changeset cg (Some bu) (hc_header ?c1) = Ok (hc_header c, ?e)"
    using cg by (simp add: update_header_with_changeset_def path_entry_def bu_def)
  have slots1: "oplog_slots L w content (hc_storage ?c1) (hc_oplog ?c1)" "op_entries_byte_length (hc_oplog ?c1) < MAX_OPLOG_ENTRIES_BYTE_SIZE"
    using log s1(3) oplog_slots_cong [of s1 "hc_storage c"] by simp_all
  obtain o2 s2 where 2: "log_changeset L ra cg (Some bu) ?c1 = (Ok (), ?c1\<lparr>hc_oplog := o2, hc_storage := s2, hc_header := hc_header c\<rparr>)"
    "oplog_slots L w content s2 o2" "\<forall>st. st \<noteq> Oplog \<longrightarrow> stored content s2 st = stored content (hc_storage ?c1) st"
    "\<forall>h es. oplog_inv L w content (hc_storage ?c1) (hc_oplog ?c1) h es \<longrightarrow> oplog_inv L w content s2 o2 h (es @ [?e])"
    by (rule log_changeset_ok [OF upd fits slots1])
  let ?c2 = "?c1\<lparr>hc_oplog := o2, hc_storage := s2, hc_header := hc_header c\<rparr>"
  obtain b3 n' where b3: "dyn_set_range (hc_bitfield c) (of_nat i) 1 True = Ok b3" "bitfield_is b3 ?have" "bits_stored b3 pages ?n"
    "update_contiguous_length (hc_header c) b3 bu = Ok ((hc_header c)\<lparr>h_hints := (h_hints (hc_header c))\<lparr>hh_contiguous_length := of_nat n'\<rparr>\<rparr>)"
    "contiguous_at ?have n'"
    using new_bits_ok [OF v(4,5) n v(2) order_refl, of i "Suc i"] lt max by (auto simp: atLeastLessThan_singleton bu_def)
  let ?h3 = "(hc_header c)\<lparr>h_hints := (h_hints (hc_header c))\<lparr>hh_contiguous_length := of_nat n'\<rparr>\<rparr>"
  let ?t4 = "?t\<lparr>mt_unflushed := fold (\<lambda>n m. im_insert (n_index n) n m) (map (merkle_node L w bs) ps) (mt_unflushed ?t)\<rparr>"
  let ?c3 = "?c2\<lparr>hc_bitfield := b3, hc_header := ?h3\<rparr>"
  let ?c4 = "?c3\<lparr>hc_tree := ?t4\<rparr>"
  have same: "stored content s2 Tree = stored content (hc_storage c) Tree" "stored content s2 Bitfield = stored content (hc_storage c) Bitfield"
    "stored content s2 Data = file_write (stored content (hc_storage c) Data) (byte_size (take i bs)) (bs ! i)"
    using s1(2,3) 2(3) by simp_all
  have "?h3 = header_of L w sk (hc_key_pair c) bs n'" unfolding v(8) header_of_def by simp
  then have "core_known L w content sk ?c4 bs (K \<union> set ps) ?have"
    using known v(2,5,6) lt b3(2,3) same known_insert [OF v(3) path] blocks_held_put [OF v(7) lt ne]
    unfolding core_known_def by auto
  moreover have "update_bitfield bu ?c2 = (Ok (), ?c3)"
    using b3(1,4) by (simp add: update_bitfield_def dyn_update_def run_simps bu_def)
  moreover have "core_commit L cg ?c3 = (Ok (), ?c4)" using cg by (simp add: mt_commit_def core_commit_def run_simps)
  moreover have "hint_ok ?c4 ?have" using b3(5) by (auto simp: hint_ok_def)
  moreover have "tree_gaps (K \<union> set ps) ?t4 (stored content s2 Tree)" using gaps_insert [OF gaps path max] same(1) by simp
  moreover have "hc_skip_flush_count ?c4 = 0 \<or> replica_durable L w content sk ?c4 bs (K \<union> set ps) ?have"
    by (rule replica_durable_log [of c sk bs K "have" _ ?e])
      (use dur 2(4) s1(3) same(1,2) replica_path.path [of L w sk _ _ _ _ bs K "have" ps "Some i"] path lt in \<open>auto simp: oplog_inv_def\<close>)
  ultimately show thesis using s1(1) 2(1,2) by (intro that [of ?c1 ?c2 ?c3 ?c4]) simp_all
qed

lemma replica_takes_block:
  assumes inv: "replica_inv L w content sk c bs K have" and k: "(k, i div 2 ^ k) \<in> K" and ne: "bs ! i \<noteq> []"
  shows "\<exists>c'. verify_and_apply_proof L ra (block_proof L w bs i k) c = (Ok True, c') \<and>
    replica_inv L w content sk c' bs (K \<union> set ((0, i) # path_positions i 0 k)) (have \<union> {i}) \<and> hc_key_pair c' = hc_key_pair c \<and>
    ev_sent (hc_events c') = ev_sent (hc_events c) @ [Have \<lparr>hv_start = of_nat i, hv_length = 1, hv_drop = False\<rparr>]"
proof -
  define ps where "ps = (0, i) # path_positions i 0 k"
  define bu where "bu = \<lparr>bu_drop = False, bu_start = of_nat i :: u64, bu_length = 1\<rparr>"
  define cg where "cg = (mt_changeset (hc_tree c))\<lparr>cg_nodes := map (merkle_node L w bs) ps\<rparr>"
  have state: "replica_state L w content sk c bs K have" using inv by (simp add: replica_inv_def)
  then have K: "rooted (length bs) K" "\<forall>i\<in>have. (0, i) \<in> K" and fork: "mt_fork (hc_tree c) = 0"
    by (simp_all add: replica_state_def core_known_def)
  obtain c1 c2 c3 c4 where steps: "apply_block L ra cg (pf_block (block_proof L w bs i k)) c = (Ok (Some bu), c1)"
    "log_changeset L ra cg (Some bu) c1 = (Ok (), c2)" "update_bitfield bu c2 = (Ok (), c3)" "core_commit L cg c3 = (Ok (), c4)"
    "core_known L w content sk c4 bs (K \<union> set ps) (have \<union> {i})" "hint_ok c4 (have \<union> {i})" "oplog_slots L w content (hc_storage c4) (hc_oplog c4)"
    "tree_gaps (K \<union> set ps) (hc_tree c4) (stored content (hc_storage c4) Tree)" "hc_key_pair c4 = hc_key_pair c" "hc_events c4 = hc_events c"
    "hc_skip_flush_count c4 = 0 \<or> replica_durable L w content sk c4 bs (K \<union> set ps) (have \<union> {i})"
    by (rule replica_block_steps [OF assms, folded ps_def bu_def, folded cg_def])
  have "rooted (length bs) (K \<union> set ps)" "\<forall>j\<in>have \<union> {i}. (0, j) \<in> K \<union> set ps" using rooted_path [OF K(1), of 0 k i] k K(2) by (auto simp: ps_def)
  from maybe_flush_known [OF steps(5-7) this steps(8,11)] steps(9,10)
  obtain c5 where c5: "maybe_flush L ra c4 = (Ok (), c5)" "replica_inv L w content sk c5 bs (K \<union> set ps) (have \<union> {i})"
    "hc_key_pair c5 = hc_key_pair c" "hc_events c5 = hc_events c" by auto
  let ?c6 = "c5\<lparr>hc_events := events_send (hc_events c5) (Have (have_from bu))\<rparr>"
  have pf: "pf_fork (block_proof L w bs i k) = 0" "pf_upgrade (block_proof L w bs i k) = None" by (simp_all add: block_proof_def)
  have "commitable (hc_tree c) cg" by (simp add: cg_def commitable_def mt_changeset_def changeset_new_def)
  then have "verify_and_apply_proof L ra (block_proof L w bs i k) c = (Ok True, ?c6)"
    using replica_verify_block [OF state k, folded ps_def, folded cg_def] fork steps(1-4) c5(1) pf
    by (simp add: verify_and_apply_proof_def core_send_def run_simps)
  with replica_events [OF c5(2)] c5(3,4) show ?thesis
    by (intro exI [of _ ?c6]) (simp add: events_send_def have_from_def ps_def bu_def)
qed

section \<open>Taking a hash\<close>

lemma replica_takes_hash:
  assumes inv: "replica_inv L w content sk c bs K have" and k: "(d + k, i div 2 ^ (d + k)) \<in> K"
  shows "\<exists>c'. verify_and_apply_proof L ra (hash_proof L w bs i d k) c = (Ok True, c') \<and>
    replica_inv L w content sk c' bs (K \<union> set ((d, i div 2 ^ d) # path_positions i d k)) have \<and> hc_key_pair c' = hc_key_pair c \<and>
    hc_events c' = hc_events c"
proof -
  define ps where "ps = (d, i div 2 ^ d) # path_positions i d k"
  let ?t = "hc_tree c" and ?pf = "hash_proof L w bs i d k"
  have state: "replica_state L w content sk c bs K have" and dur: "replica_durable L w content sk c bs K have"
    using inv by (simp_all add: replica_inv_def)
  define cg where "cg = (mt_changeset ?t)\<lparr>cg_nodes := map (merkle_node L w bs) ps\<rparr>"
  have known: "core_known L w content sk c bs K have" and hint: "hint_ok c have"
    and K: "rooted (length bs) K" "\<forall>i\<in>have. (0, i) \<in> K" "tree_gaps K ?t (stored content (hc_storage c) Tree)"
    and log: "oplog_slots L w content (hc_storage c) (hc_oplog c)" "op_entries_byte_length (hc_oplog c) < MAX_OPLOG_ENTRIES_BYTE_SIZE"
    using state by (simp_all add: replica_state_def)
  have v: "tree_known L w bs K ?t (stored content (hc_storage c) Tree)" "mt_fork ?t = 0" using known by (simp_all add: core_known_def)
  note i = known_path [OF state k]
  have path: "\<forall>p\<in>set ps. in_tree (length bs) p" using path_in_tree [of "length bs" d k i] v(1) k by (auto simp: tree_known_def ps_def)
  have cg: "cg_nodes cg = map (merkle_node L w bs) ps" "\<not> cg_upgraded cg" "commitable ?t cg"
    by (simp_all add: cg_def mt_changeset_def changeset_new_def commitable_def)
  let ?e = "path_entry L w bs ps None"
  have fits: "entry_fits L w ?e"
    unfolding path_entry_def by (rule nodes_entry_fits) (use i(3) in \<open>simp_all add: ps_def length_path_positions MAX_BATCH_def\<close>)
  have upd: "update_header_with_changeset cg None (hc_header c) = Ok (hc_header c, ?e)"
    using cg by (simp add: update_header_with_changeset_def path_entry_def)
  obtain o1 s1 where 1: "log_changeset L ra cg None c = (Ok (), c\<lparr>hc_oplog := o1, hc_storage := s1, hc_header := hc_header c\<rparr>)"
    "oplog_slots L w content s1 o1" "\<forall>st. st \<noteq> Oplog \<longrightarrow> stored content s1 st = stored content (hc_storage c) st"
    "\<forall>h es. oplog_inv L w content (hc_storage c) (hc_oplog c) h es \<longrightarrow> oplog_inv L w content s1 o1 h (es @ [?e])"
    by (rule log_changeset_ok [OF upd fits log])
  let ?t2 = "?t\<lparr>mt_unflushed := fold (\<lambda>n m. im_insert (n_index n) n m) (map (merkle_node L w bs) ps) (mt_unflushed ?t)\<rparr>"
  let ?c2 = "c\<lparr>hc_oplog := o1, hc_storage := s1, hc_header := hc_header c, hc_tree := ?t2\<rparr>"
  have "core_known L w content sk ?c2 bs (K \<union> set ps) have" using known 1(3) known_insert [OF v(1) path] unfolding core_known_def by auto
  moreover have "hint_ok ?c2 have" using hint by (simp add: hint_ok_def)
  moreover have "tree_gaps (K \<union> set ps) ?t2 (stored content s1 Tree)" using gaps_insert [OF K(3) path i(4)] 1(3) by simp
  moreover have "rooted (length bs) (K \<union> set ps)" using rooted_path [OF K(1) k] by (simp add: ps_def)
  moreover have "hc_skip_flush_count ?c2 = 0 \<or> replica_durable L w content sk ?c2 bs (K \<union> set ps) have"
    by (rule replica_durable_log [of c sk bs K "have" _ ?e])
      (use dur 1(3,4) replica_path.path [of L w sk _ _ _ _ bs K "have" ps None] path in auto)
  ultimately obtain c3 where c3: "maybe_flush L ra ?c2 = (Ok (), c3)" "replica_inv L w content sk c3 bs (K \<union> set ps) have"
    "hc_key_pair c3 = hc_key_pair c" "hc_events c3 = hc_events c"
    using maybe_flush_known [of sk ?c2 bs "K \<union> set ps" "have"] 1(2) K(2) by auto
  have "core_verify_proof L ra c ?pf = Ok cg"
    unfolding cg_def ps_def by (intro replica_verify_path [OF state k] allI impI, rule hash_proof_answer) (use i in simp_all)
  moreover have "mt_commit L ?t cg = Ok ?t2" using cg by (simp add: mt_commit_def)
  moreover have "pf_fork ?pf = 0" "pf_upgrade ?pf = None" "pf_block ?pf = None" by (simp_all add: hash_proof_def)
  ultimately have "verify_and_apply_proof L ra ?pf c = (Ok True, c3)"
    using v(2) cg(3) 1(1) c3(1) by (simp add: verify_and_apply_proof_def apply_block_def core_commit_def run_simps)
  with c3 show ?thesis by (auto simp: ps_def)
qed

section \<open>Taking an upgrade\<close>

text \<open>Committing the changeset of an upgrade: the roots are those of the longer log, and its nodes come into memory.\<close>

lemma commit_grown:
  "mt_commit L t (upgraded_changeset L w sk bs t ps) = Ok (grown_tree L w bs ps 0 (Some (tree_signature L w sk bs)) t)"
  by (simp add: grown_tree_def upgraded_changeset_def mt_commit_def commitable_def commit_truncation_def mt_changeset_def changeset_new_def)

lemma known_upgrade:
  assumes known: "tree_known L w (take m bs) K t f" and bs: "length bs \<le> MAX_BLOCKS" "nonblank L w bs"
    and ps: "\<forall>p\<in>set ps. in_tree (length bs) p"
  shows "tree_known L w bs (K \<union> set ps) (grown_tree L w bs ps fork sig t) f"
    "tree_gaps K t f \<Longrightarrow> tree_gaps (K \<union> set ps) (grown_tree L w bs ps fork sig t) f"
  using known_grow [OF known, of "drop m bs" ps fork sig] gaps_insert [OF _ ps bs(1), of K t f "grown_tree L w bs ps fork sig t"] bs ps
  by (simp_all add: nonblank_def grown_tree_def)

lemma replica_takes_upgrade:
  assumes inv: "replica_inv L w content sk c (take m bs) K have" and m: "m < n" "n \<le> length bs"
    and bs: "core_small bs" "nonblank L w bs"
  shows "\<exists>c' K'. verify_and_apply_proof L ra (upgrade_proof_msg L w sk bs m n) c = (Ok True, c') \<and>
    replica_inv L w content sk c' bs K' have \<and> K \<subseteq> K' \<and> hc_key_pair c' = hc_key_pair c \<and>
    ev_sent (hc_events c') = ev_sent (hc_events c) @ [DataUpgrade]"
proof -
  let ?t = "hc_tree c" and ?pf = "upgrade_proof_msg L w sk bs m n" and ?bs = "take m bs" and ?cs = "drop m bs"
  have state: "replica_state L w content sk c ?bs K have" and dur: "replica_durable L w content sk c ?bs K have"
    using inv by (simp_all add: replica_inv_def)
  have le: "m \<le> length bs" "length bs \<le> MAX_BLOCKS" "length bs \<le> 2 ^ 62" "bs \<noteq> []" using m bs(1) by (auto simp: core_small_def MAX_BLOCKS_def)
  have known: "core_known L w content sk c (take m bs) K have" and hint: "hint_ok c have" and K: "rooted m K" "\<forall>i\<in>have. (0, i) \<in> K"
    "tree_gaps K ?t (stored content (hc_storage c) Tree)"
    and log: "oplog_slots L w content (hc_storage c) (hc_oplog c)" "op_entries_byte_length (hc_oplog c) < MAX_OPLOG_ENTRIES_BYTE_SIZE"
    using state le(1) by (simp_all add: replica_state_def min_absorb2)
  obtain pages n0 where v: "have \<subseteq> {..<m}" "author_keys L sk (hc_key_pair c)"
    "tree_known L w (take m bs) K ?t (stored content (hc_storage c) Tree)" "mt_fork ?t = 0" "bitfield_is (hc_bitfield c) have"
    "bits_stored (hc_bitfield c) pages m" "stored content (hc_storage c) Bitfield = page_file pages"
    "blocks_held (take m bs) have (stored content (hc_storage c) Data)" "hc_header c = header_of L w sk (hc_key_pair c) (take m bs) n0"
    using known le(1) unfolding core_known_def by (auto simp: min_absorb2)
  have "tree_of L w (take m bs) ?t" using v(3) by (simp add: tree_known_def)
  from upgrade_proof_complete [OF this m le(3) _ upgrade_proof_msg_def, of None "[]" sk]
  obtain ps where ps: "\<forall>p\<in>set ps. in_tree (length bs) p" "length ps \<le> 2 ^ 14" "\<forall>K. rooted m K \<longrightarrow> rooted (length bs) (K \<union> set ps)"
    "verify_proof L ?t ?pf (cr_verifying_key (lib_cr L) sk) None = Ok (Inr (upgraded_changeset L w sk bs ?t ps))"
    by (auto simp: infos_to_nodes_def)
  define cg where "cg = upgraded_changeset L w sk bs ?t ps"
  have cg: "core_verify_proof L ra c ?pf = Ok cg" "commitable ?t cg"
    using ps(4) v(2) by (simp_all add: cg_def core_verify_proof_def author_keys_def upgraded_changeset_def commitable_def mt_changeset_def changeset_new_def)
  let ?h = "(hc_header c)\<lparr>h_tree := (h_tree (hc_header c))\<lparr>ht_root_hash := tree_hash L w bs,
      ht_signature := tree_signature L w sk bs, ht_length := of_nat (length bs)\<rparr>\<rparr>"
  let ?e = "upgrade_entry L w sk ?bs ?cs ps"
  have fits: "entry_fits L w ?e" unfolding upgrade_entry_def
    by (rule nodes_entry_fits) (use ps(2) in \<open>simp_all add: MAX_BATCH_def tree_signature_def upgrade_of_def crypt.length_sign\<close>)
  have "cg_ancestors cg = of_nat m" using v(3) le(1) by (simp add: cg_def upgraded_changeset_def mt_changeset_def changeset_new_def tree_known_def tree_of_def min_absorb2)
  then have upd: "update_header_with_changeset cg None (hc_header c) = Ok (?h, ?e)"
    using le(1) by (simp add: cg_def upgraded_changeset_def update_header_with_changeset_def upgrade_entry_def upgrade_of_def min_absorb2)
  obtain o1 s1 where 1: "log_changeset L ra cg None c = (Ok (), c\<lparr>hc_oplog := o1, hc_storage := s1, hc_header := ?h\<rparr>)"
    "oplog_slots L w content s1 o1" "\<forall>st. st \<noteq> Oplog \<longrightarrow> stored content s1 st = stored content (hc_storage c) st"
    "\<forall>h es. oplog_inv L w content (hc_storage c) (hc_oplog c) h es \<longrightarrow> oplog_inv L w content s1 o1 h (es @ [?e])"
    by (rule log_changeset_ok [OF upd fits log])
  define t' where "t' = grown_tree L w bs ps 0 (Some (tree_signature L w sk bs)) ?t"
  have t': "mt_commit L ?t cg = Ok t'" "tree_known L w bs (K \<union> set ps) t' (stored content (hc_storage c) Tree)" "mt_fork t' = 0"
    "mt_signature t' = Some (tree_signature L w sk bs)" "tree_gaps (K \<union> set ps) t' (stored content (hc_storage c) Tree)"
    using known_upgrade [OF v(3) le(2) bs(2) ps(1)] K(3) by (simp_all add: t'_def cg_def commit_grown grown_tree_def)
  let ?c = "c\<lparr>hc_oplog := o1, hc_storage := s1, hc_header := ?h, hc_tree := t'\<rparr>"
  have "?h = header_of L w sk (hc_key_pair c) bs n0" using le(4) unfolding v(9) header_of_def by simp
  moreover have "blocks_held bs have (stored content (hc_storage c) Data)"
    using v(1,8) le(1) by (fastforce simp: blocks_held_def min_absorb1)
  moreover have "have \<subseteq> {..<length bs}" using v(1) le(1) by auto
  ultimately have "core_known L w content sk ?c bs (K \<union> set ps) have"
    using v(2,5,7) bs(1) le(4) t' 1(3) bits_stored_mono [OF v(6) le(1)] unfolding core_known_def by auto
  moreover have "hint_ok ?c have" using hint by (simp add: hint_ok_def)
  moreover have rooted: "rooted (length bs) (K \<union> set ps)" using ps(3) K(1) by blast
  moreover have "hc_skip_flush_count ?c = 0 \<or> replica_durable L w content sk ?c bs (K \<union> set ps) have"
    by (rule replica_durable_log [of c sk ?bs K "have" _ ?e])
      (use dur 1(3,4) replica_path.upgrade [of L w sk _ _ _ _ ?bs K "have" ?cs ps] ps(1) rooted m in \<open>auto simp: rooted_def\<close>)
  ultimately obtain c2 where c2: "maybe_flush L ra ?c = (Ok (), c2)" "replica_inv L w content sk c2 bs (K \<union> set ps) have"
    "hc_key_pair c2 = hc_key_pair c" "hc_events c2 = hc_events c"
    using maybe_flush_known [of sk ?c bs "K \<union> set ps" "have"] 1(2,3) t'(5) K by auto
  let ?c3 = "c2\<lparr>hc_events := events_send (hc_events c2) DataUpgrade\<rparr>"
  have pf: "pf_fork ?pf = 0" "pf_upgrade ?pf \<noteq> None" "pf_block ?pf = None" by (simp_all add: upgrade_proof_msg_def)
  have "verify_and_apply_proof L ra ?pf c = (Ok True, ?c3)"
    using cg v(4) 1(1) t'(1) c2(1) pf by (simp add: verify_and_apply_proof_def apply_block_def core_commit_def core_send_def run_simps)
  with replica_events [OF c2(2)] c2(3,4) show ?thesis by (intro exI [of _ ?c3] exI [of _ "K \<union> set ps"]) (simp add: events_send_def)
qed

end

end
