(* ===== verification/Replica_Reopen.thy ===== *)
theory Replica_Reopen
  imports Replica_Core
begin

text \<open>
  \<open>Hypercore::new\<close> on the stores of a replica: the nodes and the bits of the last flush are read
  back, and the entries of the blocks, nodes and upgrades that came since are replayed on them.  The
  opened core knows the same nodes, has the same blocks and reports the same contiguous length.
\<close>

declare split_paired_All [simp del] split_paired_Ex [simp del]

section \<open>Replaying the log\<close>

definition replica_replayed ::
  "'it libs \<Rightarrow> wire_format \<Rightarrow> bytes \<Rightarrow> partial_keypair \<Rightarrow> bytes \<Rightarrow> fixed_bitfield list \<Rightarrow> bytes list \<Rightarrow> (nat \<times> nat) set \<Rightarrow> nat set \<Rightarrow>
    header \<times> merkle_tree \<times> dynamic_bitfield \<Rightarrow> bool" where
  "replica_replayed L w sk kp f ps bs K have acc \<longleftrightarrow>
     (case acc of (h, t, b) \<Rightarrow> tree_known L w bs K t f \<and> tree_gaps K t f \<and> mt_fork t = 0 \<and>
        mt_signature t = (if bs = [] then None else Some (tree_signature L w sk bs)) \<and>
        bitfield_is b have \<and> bits_stored b ps (length bs) \<and> have \<subseteq> {..<length bs} \<and>
        (\<exists>n. h = header_of L w sk kp bs n \<and> contiguous_at have n))"

lemma replica_path_prefix: "replica_path L w sk bs0 K0 have0 es bs K have \<Longrightarrow> length bs0 \<le> length bs \<and> take (length bs0) bs = bs0"
  by (induction rule: replica_path.induct) auto

context device_laws
begin

lemma replay_path_entry:
  assumes acc: "replica_replayed L w sk kp (stored content s Tree) pages bs K have acc"
    and ps: "\<forall>p\<in>set ps. in_tree (length bs) p" and i: "\<forall>j\<in>set_option i. j < length bs"
  shows "\<exists>acc'. replay_entry L ra s (path_entry L w bs ps i) acc = Ok acc' \<and>
    replica_replayed L w sk kp (stored content s Tree) pages bs (K \<union> set ps) (have \<union> set_option i) acc'"
proof -
  obtain h t b where a: "acc = (h, t, b)" by (cases acc)
  obtain n where v: "tree_known L w bs K t (stored content s Tree)" "tree_gaps K t (stored content s Tree)" "bitfield_is b have"
    "bits_stored b pages (length bs)" "have \<subseteq> {..<length bs}" "h = header_of L w sk kp bs n" "contiguous_at have n"
    using acc by (auto simp: replica_replayed_def a)
  have max: "length bs \<le> MAX_BLOCKS" using v(1) by (simp add: tree_known_def)
  let ?t = "fold (\<lambda>n t. add_node t n) (map (merkle_node L w bs) ps) t"
  have tree: "tree_known L w bs (K \<union> set ps) ?t (stored content s Tree)" "tree_gaps (K \<union> set ps) ?t (stored content s Tree)"
    using known_insert [OF v(1) ps] gaps_insert [OF v(2) ps max] by (simp_all add: fold_add_node)
  have same: "mt_fork ?t = mt_fork t" "mt_signature ?t = mt_signature t" by (simp_all add: fold_add_node)
  show ?thesis
  proof (cases i)
    case None
    then have "replay_entry L ra s (path_entry L w bs ps i) acc = Ok (h, ?t, b)" by (simp add: a replay_entry_def path_entry_def)
    with acc tree same None show ?thesis by (auto simp: replica_replayed_def a)
  next
    case (Some j)
    let ?bu = "\<lparr>bu_drop = False, bu_start = of_nat j, bu_length = 1\<rparr>"
    have hint: "hh_contiguous_length (h_hints h) = of_nat n" using v(6) by (simp add: header_of_def)
    obtain b' n' where b': "dyn_set_range b (of_nat j) 1 True = Ok b'" "bitfield_is b' (have \<union> {j})" "bits_stored b' pages (length bs)"
      "update_contiguous_length h b' ?bu = Ok (h\<lparr>h_hints := (h_hints h)\<lparr>hh_contiguous_length := of_nat n'\<rparr>\<rparr>)" "contiguous_at (have \<union> {j}) n'"
      using new_bits_ok [OF v(3,4,7) hint v(5) order_refl, of j "Suc j"] i Some max by (auto simp: atLeastLessThan_singleton)
    have "replay_entry L ra s (path_entry L w bs ps i) acc = Ok (header_of L w sk kp bs n', ?t, b')"
      using b'(1,4) Some v(6) by (simp add: a replay_entry_def path_entry_def dyn_update_def header_of_def)
    with acc tree same b' i Some show ?thesis by (auto simp: replica_replayed_def a)
  qed
qed

lemma replay_upgrade_entry:
  assumes acc: "replica_replayed L w sk kp (stored content s Tree) pages bs K have acc" and cs: "cs \<noteq> []"
    and ps: "\<forall>p\<in>set ps. in_tree (length (bs @ cs)) p" "set (root_positions (length (bs @ cs))) \<subseteq> K \<union> set ps"
    and small: "core_small (bs @ cs)" "nonblank L w (bs @ cs)"
  shows "\<exists>acc'. replay_entry L ra s (upgrade_entry L w sk bs cs ps) acc = Ok acc' \<and>
    replica_replayed L w sk kp (stored content s Tree) pages (bs @ cs) (K \<union> set ps) have acc'"
proof -
  obtain h t b where a: "acc = (h, t, b)" by (cases acc)
  obtain n where v: "tree_known L w bs K t (stored content s Tree)" "tree_gaps K t (stored content s Tree)" "mt_fork t = 0"
    "bits_stored b pages (length bs)" "have \<subseteq> {..<length bs}" "h = header_of L w sk kp bs n" "contiguous_at have n"
    using acc by (auto simp: replica_replayed_def a)
  have max: "length (bs @ cs) \<le> MAX_BLOCKS" using small(1) by (simp add: core_small_def)
  let ?bs = "bs @ cs" and ?t = "grown_tree L w (bs @ cs) ps 0 (Some (tree_signature L w sk (bs @ cs))) t"
  let ?h = "h\<lparr>h_tree := (h_tree h)\<lparr>ht_root_hash := tree_hash L w ?bs, ht_signature := tree_signature L w sk ?bs, ht_length := of_nat (length ?bs)\<rparr>\<rparr>"
  have "replay_upgrade L ra s (upgrade_of L w sk bs cs) (h, fold (\<lambda>n t. add_node t n) (map (merkle_node L w ?bs) ps) t) = Ok (?h, ?t)"
    using replay_upgrade_ok [OF v(1,3) max _ ps] small(2) unfolding nonblank_def by blast
  then have "replay_entry L ra s (upgrade_entry L w sk bs cs ps) acc = Ok (?h, ?t, b)" by (simp add: a replay_entry_def upgrade_entry_def)
  moreover have "?h = header_of L w sk kp ?bs n" using cs v(6) by (simp add: header_of_def)
  moreover have "tree_known L w ?bs (K \<union> set ps) ?t (stored content s Tree)" "tree_gaps (K \<union> set ps) ?t (stored content s Tree)"
    using known_upgrade [of "length bs" ?bs K t _ ps] v(1,2) max small(2) ps(1) by simp_all
  moreover have "bits_stored b pages (length ?bs)" using bits_stored_mono [OF v(4), of "length ?bs"] by simp
  moreover have "have \<subseteq> {..<length ?bs}" using v(5) by auto
  moreover have "mt_fork ?t = 0" "mt_signature ?t = Some (tree_signature L w sk ?bs)" by (simp_all add: grown_tree_def)
  ultimately show ?thesis using acc v(7) cs by (auto simp: replica_replayed_def a)
qed

lemma replay_replica_path:
  assumes "replica_path L w sk bs0 K0 have0 es bs K have" "core_small bs" "nonblank L w bs"
    and "replica_replayed L w sk kp (stored content s Tree) pages bs0 K0 have0 acc"
  shows "\<exists>acc'. replay_entries L ra s es acc = Ok acc' \<and> replica_replayed L w sk kp (stored content s Tree) pages bs K have acc'"
  using assms
proof (induction rule: replica_path.induct)
  case start
  then show ?case by simp
next
  case (path es bs K "have" ps i)
  then obtain acc1 where 1: "replay_entries L ra s es acc = Ok acc1" "replica_replayed L w sk kp (stored content s Tree) pages bs K have acc1" by blast
  from replay_path_entry [OF 1(2) path.hyps(2,3)] 1(1) show ?case by (auto simp: replay_entries_append)
next
  case (upgrade es bs K "have" cs ps)
  then obtain acc1 where 1: "replay_entries L ra s es acc = Ok acc1" "replica_replayed L w sk kp (stored content s Tree) pages bs K have acc1"
    using core_small_prefix nonblank_prefix by blast
  from replay_upgrade_entry [OF 1(2) upgrade.hyps(2-4) upgrade.prems(1,2)] 1(1) show ?case by (auto simp: replay_entries_append)
qed

section \<open>Opening a replica\<close>

lemma replica_reopen_ok:
  assumes inv: "replica_inv L w content sk c bs K have" and small: "length bs \<le> 8192" and opt: "ho_open opt \<longrightarrow> ho_key_pair opt = None"
  shows "\<exists>c'. core_new L ra generated (hc_storage c) opt = Ok c' \<and> replica_inv L w content sk c' bs K have \<and>
    hc_storage c' = hc_storage c \<and> hc_key_pair c' = hc_key_pair c \<and> ev_sent (hc_events c') = []"
proof -
  let ?s = "hc_storage c" and ?kp = "hc_key_pair c"
  have state: "replica_state L w content sk c bs K have" using inv by (simp add: replica_inv_def)
  then have known: "core_known L w content sk c bs K have" and K: "rooted (length bs) K" "\<forall>i\<in>have. (0, i) \<in> K" by (simp_all add: replica_state_def)
  obtain es bs0 K0 have0 n ps where d: "oplog_image L w (stored content ?s Oplog) (op_header_bits (hc_oplog c))
      (get_current_header_bit (hc_oplog c)) (header_of L w sk ?kp bs0 n) es"
    "contiguous_at have0 n" "flushed_nodes L w bs0 K0 (stored content ?s Tree)" "stored content ?s Bitfield = page_file ps"
    "flushed_bits ps (length bs0) have0" "replica_path L w sk bs0 K0 have0 es bs K have"
    using inv unfolding replica_inv_def replica_durable_def Let_def by blast
  let ?h0 = "header_of L w sk ?kp bs0 n"
  have bs0: "length bs0 \<le> length bs" "bs = bs0 @ drop (length bs0) bs"
    using replica_path_prefix [OF d(6)] append_take_drop_id [of "length bs0" bs] by simp_all
  have ok: "core_small bs" "nonblank L w bs" using known by (simp_all add: core_known_def tree_known_def nonblank_def)
  then have ok0: "core_small bs0" "nonblank L w bs0" using core_small_prefix nonblank_prefix bs0(2) by metis+
  have nodes: "set (root_positions (length bs0)) \<subseteq> K0" "blank_outside (slots K0) (stored content ?s Tree)"
    "\<forall>p\<in>K0. in_tree (length bs0) p \<and> holds_at (stored content ?s Tree) (40 * tree_index (fst p) (snd p)) (node_bytes w (merkle_node L w bs0 p))"
    using d(3) by (simp_all add: flushed_nodes_def)
  obtain t0 where t0: "open_tree L ra ?s (h_tree ?h0) = Ok t0" "tree_known L w bs0 K0 t0 (stored content ?s Tree)" "mt_fork t0 = 0"
    "mt_signature t0 = (if bs0 = [] then None else Some (tree_signature L w sk bs0))" "mt_unflushed t0 = []"
    using open_tree_known [OF nodes(3,1) ok0] by blast
  have bits: "list_all fixed_wf ps" "32768 * length ps < length bs0 + 32768" "\<forall>k. page_bits ps k \<longleftrightarrow> k \<in> have0" "have0 \<subseteq> {..<length bs0}"
    using d(5) by (simp_all add: flushed_bits_def)
  then have "have0 \<subseteq> {..<8192}" using bs0(1) small by force
  then obtain b0 where b0: "open_bitfield ra ?s = Ok b0" "bitfield_is b0 have0" "bits_stored b0 ps (length bs0)"
    using open_bitfield_ok [OF d(4) bits(1) _ bits(2,3)] bits(2) bs0(1) small by auto
  have "replica_replayed L w sk ?kp (stored content ?s Tree) ps bs0 K0 have0 (?h0, t0, b0)"
    using t0 b0 d(2) nodes(2) bits(4) by (auto simp: replica_replayed_def tree_gaps_def im_get_def)
  from replay_replica_path [OF d(6) ok this] obtain h t b where rep: "replay_entries L ra ?s es (?h0, t0, b0) = Ok (h, t, b)"
    "replica_replayed L w sk ?kp (stored content ?s Tree) ps bs K have (h, t, b)" by (metis prod_cases3)
  obtain n' where h: "h = header_of L w sk ?kp bs n'" "contiguous_at have n'" using rep(2) by (auto simp: replica_replayed_def)
  let ?o = "\<lparr>op_header_bits = op_header_bits (hc_oplog c), op_entries_length = 0, op_entries_byte_length = 0\<rparr>"
  let ?c = "\<lparr>hc_key_pair = ?kp, hc_storage = ?s, hc_oplog = ?o, hc_tree = t, hc_bitfield = b, hc_skip_flush_count = 0,
    hc_header = h, hc_events = events_new\<rparr>"
  have "core_new L ra generated ?s opt = Ok ?c"
    using opt open_oplog_image [OF d(1)] t0(1) b0(1) rep(1) h(1)
    by (cases "es = []") (auto simp: core_new_def header_of_def split: option.splits)
  moreover have "replica_durable L w content sk ?c bs K have"
    unfolding replica_durable_def Let_def using d
    by (intro exI [of _ es] exI [of _ bs0] exI [of _ K0] exI [of _ have0] exI [of _ n] exI [of _ ps]) (simp add: get_current_header_bit_def)
  moreover have "core_known L w content sk ?c bs K have"
    using known rep(2) h(1) d(4) by (auto simp: core_known_def replica_replayed_def)
  moreover have "hint_ok ?c have" using h by (auto simp: hint_ok_def header_of_def)
  moreover have "oplog_slots L w content ?s ?o" using d(1) by (intro image_oplog_slots) simp
  moreover have "tree_gaps K t (stored content ?s Tree)" using rep(2) by (simp add: replica_replayed_def)
  ultimately show ?thesis using K
    by (intro exI [of _ ?c]) (simp add: replica_inv_def replica_state_def MAX_OPLOG_ENTRIES_BYTE_SIZE_def events_new_def)
qed

end

end
