(* ===== verification/Replica_Machine.thy ===== *)
theory Replica_Machine
  imports Replica_Reopen
begin

text \<open>
  An author's core and a replica with the author's public key, each on its own stores.  The
  author's log, together with how much of it the replica has, is the abstract specification; the two
  cores implement it: every sequence of commands to the author, of upgrades and blocks handed over,
  and of reads and reopenings of the replica gets the replies that the specification gives.
\<close>

declare split_paired_All [simp del] split_paired_Ex [simp del]

section \<open>The specification\<close>

record sync_state =
  ss_log :: log_state
  ss_length :: nat
  ss_have :: "nat set"

datatype sync_step = Author command | PullUpgrade nat | PullBlock nat | PullHash nat nat | ReadBlock u64 | CopyHas u64 | CopyInfo | CopyReopen

datatype sync_reply = Replied reply | Accepted bool | ReadBack "bytes option" | InCopy bool | CopyIs core_info_record

fun spec_sync :: "sync_step \<Rightarrow> sync_state \<Rightarrow> sync_reply \<times> sync_state" where
  "spec_sync (Author cmd) st = (let (r, log) = spec_exec cmd (ss_log st) in (Replied r, st\<lparr>ss_log := log\<rparr>))"
| "spec_sync (PullUpgrade n) st = (Accepted True, st\<lparr>ss_length := length (ls_blocks (ss_log st))\<rparr>)"
| "spec_sync (PullBlock i) st = (Accepted True, st\<lparr>ss_have := ss_have st \<union> {i}\<rparr>)"
| "spec_sync (PullHash d off) st = (Accepted True, st)"
| "spec_sync (ReadBlock i) st =
     (ReadBack (if unat i \<in> ss_have st then Some (ls_blocks (ss_log st) ! unat i) else None), st)"
| "spec_sync (CopyHas i) st = (InCopy (unat i \<in> ss_have st), st)"
| "spec_sync CopyInfo st =
     (CopyIs \<lparr>ci_length = of_nat (ss_length st), ci_byte_length = of_nat (byte_size (take (ss_length st) (ls_blocks (ss_log st)))),
        ci_contiguous_length = of_nat (first_gap (ss_have st) (ss_length st)), ci_fork = 0, ci_writeable = False\<rparr>, st)"
| "spec_sync CopyReopen st = (Replied Reopened, st)"

text \<open>An upgrade goes to a length that the author has and the replica has not; a block is one that
  the author has, below the length of the replica; a node, given by depth and offset, is one of the
  tree over that length; and a copy is opened again while the pages of its bits are read back right.\<close>

fun sync_admissible :: "'it libs \<Rightarrow> wire_format \<Rightarrow> sync_step \<Rightarrow> sync_state \<Rightarrow> bool" where
  "sync_admissible L w (Author cmd) st \<longleftrightarrow> admissible L w cmd (ss_log st)"
| "sync_admissible L w (PullUpgrade n) st \<longleftrightarrow> ss_length st < n \<and> n \<le> length (ls_blocks (ss_log st))"
| "sync_admissible L w (PullBlock i) st \<longleftrightarrow> i < ss_length st \<and> i \<in> ls_have (ss_log st)"
| "sync_admissible L w (PullHash d off) st \<longleftrightarrow> (off + 1) * 2 ^ d \<le> ss_length st"
| "sync_admissible L w CopyReopen st \<longleftrightarrow> ss_length st \<le> 8192"
| "sync_admissible L w _ st \<longleftrightarrow> True"

fun spec_syncs :: "sync_step list \<Rightarrow> sync_state \<Rightarrow> sync_reply list" where
  "spec_syncs [] st = []"
| "spec_syncs (x # xs) st = (let (r, st') = spec_sync x st in r # spec_syncs xs st')"

fun syncs_admissible :: "'it libs \<Rightarrow> wire_format \<Rightarrow> sync_step list \<Rightarrow> sync_state \<Rightarrow> bool" where
  "syncs_admissible L w [] st \<longleftrightarrow> True"
| "syncs_admissible L w (x # xs) st \<longleftrightarrow> sync_admissible L w x st \<and> syncs_admissible L w xs (snd (spec_sync x st))"

section \<open>The two cores\<close>

text \<open>What the author answers goes to the replica.\<close>

definition hand_over ::
  "'it libs \<Rightarrow> 'e random_access \<Rightarrow> proof_msg option hres \<times> 'd hypercore \<Rightarrow> 'e hypercore \<Rightarrow> bool hres \<times> 'd hypercore \<times> 'e hypercore" where
  "hand_over L ra' answer c =
     (case fst answer of
        Ok (Some pf) \<Rightarrow> (let (r, c') = verify_and_apply_proof L ra' pf c in (r, snd answer, c'))
      | Ok None \<Rightarrow> (Ok False, snd answer, c)
      | Err e \<Rightarrow> (Err e, snd answer, c)
      | Panic \<Rightarrow> (Panic, snd answer, c)
      | Diverge \<Rightarrow> (Diverge, snd answer, c))"

definition pull_upgrade ::
  "'it libs \<Rightarrow> 'd random_access \<Rightarrow> 'e random_access \<Rightarrow> nat \<Rightarrow> 'd hypercore \<Rightarrow> 'e hypercore \<Rightarrow> bool hres \<times> 'd hypercore \<times> 'e hypercore" where
  "pull_upgrade L ra ra' n a c =
     hand_over L ra' (core_create_proof L ra None None None (Some (upgrade_req (unat (ci_length (core_info c))) n)) a) c"

text \<open>A request with the replica's count of missing nodes.\<close>

definition pull_counted ::
  "'it libs \<Rightarrow> 'e random_access \<Rightarrow> u64 hres \<times> 'e hypercore \<Rightarrow> (u64 \<Rightarrow> proof_msg option hres \<times> 'd hypercore) \<Rightarrow> 'd hypercore \<Rightarrow>
    bool hres \<times> 'd hypercore \<times> 'e hypercore" where
  "pull_counted L ra' count request a =
     (case fst count of
        Ok k \<Rightarrow> hand_over L ra' (request k) (snd count)
      | Err e \<Rightarrow> (Err e, a, snd count)
      | Panic \<Rightarrow> (Panic, a, snd count)
      | Diverge \<Rightarrow> (Diverge, a, snd count))"

definition pull_block ::
  "'it libs \<Rightarrow> 'd random_access \<Rightarrow> 'e random_access \<Rightarrow> nat \<Rightarrow> 'd hypercore \<Rightarrow> 'e hypercore \<Rightarrow> bool hres \<times> 'd hypercore \<times> 'e hypercore" where
  "pull_block L ra ra' i a c =
     pull_counted L ra' (core_missing_nodes L ra' (of_nat i) c)
       (\<lambda>k. core_create_proof L ra (Some \<lparr>rb_index = of_nat i, rb_nodes = k\<rparr>) None None None a) a"

definition pull_hash ::
  "'it libs \<Rightarrow> 'd random_access \<Rightarrow> 'e random_access \<Rightarrow> nat \<Rightarrow> nat \<Rightarrow> 'd hypercore \<Rightarrow> 'e hypercore \<Rightarrow> bool hres \<times> 'd hypercore \<times> 'e hypercore" where
  "pull_hash L ra ra' d off a c =
     pull_counted L ra' (missing_nodes_from_merkle_tree_index L ra' (pos_index (d, off)) c)
       (\<lambda>k. core_create_proof L ra None (Some \<lparr>rb_index = pos_index (d, off), rb_nodes = k\<rparr>) None None a) a"

fun sync_exec ::
  "'it libs \<Rightarrow> 'd random_access \<Rightarrow> 'e random_access \<Rightarrow> sync_step \<Rightarrow> 'd hypercore \<times> 'e hypercore \<Rightarrow>
    sync_reply hres \<times> 'd hypercore \<times> 'e hypercore" where
  "sync_exec L ra ra' (Author cmd) (a, c) = (let (r, a') = core_exec L ra cmd a in (bindR r (Ok \<circ> Replied), a', c))"
| "sync_exec L ra ra' (PullUpgrade n) (a, c) = (let (r, p) = pull_upgrade L ra ra' n a c in (bindR r (Ok \<circ> Accepted), p))"
| "sync_exec L ra ra' (PullBlock i) (a, c) = (let (r, p) = pull_block L ra ra' i a c in (bindR r (Ok \<circ> Accepted), p))"
| "sync_exec L ra ra' (PullHash d off) (a, c) = (let (r, p) = pull_hash L ra ra' d off a c in (bindR r (Ok \<circ> Accepted), p))"
| "sync_exec L ra ra' (ReadBlock i) (a, c) = (let (r, c') = core_get L ra' i c in (bindR r (Ok \<circ> ReadBack), a, c'))"
| "sync_exec L ra ra' (CopyHas i) (a, c) = (bindR (core_has c i) (Ok \<circ> InCopy), a, c)"
| "sync_exec L ra ra' CopyInfo (a, c) = (Ok (CopyIs (core_info c)), a, c)"
| "sync_exec L ra ra' CopyReopen (a, c) = (let (r, c') = core_exec L ra' Reopen c in (bindR r (Ok \<circ> Replied), a, c'))"

fun sync_trace ::
  "'it libs \<Rightarrow> 'd random_access \<Rightarrow> 'e random_access \<Rightarrow> sync_step list \<Rightarrow> 'd hypercore \<times> 'e hypercore \<Rightarrow> sync_reply hres list" where
  "sync_trace L ra ra' [] p = []"
| "sync_trace L ra ra' (x # xs) p = (let (r, p') = sync_exec L ra ra' x p in r # sync_trace L ra ra' xs p')"

section \<open>The simulation\<close>

definition sync_rel ::
  "'it libs \<Rightarrow> wire_format \<Rightarrow> ('d \<Rightarrow> bytes) \<Rightarrow> ('e \<Rightarrow> bytes) \<Rightarrow> bytes \<Rightarrow> 'd hypercore \<times> 'e hypercore \<Rightarrow> sync_state \<Rightarrow> bool" where
  "sync_rel L w content content' sk p st \<longleftrightarrow> core_rel L w content sk (fst p) (ss_log st) \<and> ss_length st \<le> length (ls_blocks (ss_log st)) \<and>
     kp_secret (hc_key_pair (snd p)) = None \<and> (\<exists>K. replica_inv L w content' sk (snd p) (take (ss_length st) (ls_blocks (ss_log st))) K (ss_have st))"

text \<open>The author's log only grows.\<close>

lemma spec_exec_prefix:
  "m \<le> length (ls_blocks st) \<Longrightarrow> take m (ls_blocks (snd (spec_exec cmd st))) = take m (ls_blocks st) \<and> m \<le> length (ls_blocks (snd (spec_exec cmd st)))"
  by (cases cmd) (simp_all add: Let_def)

text \<open>What is below a node of the shorter log is the same in both.\<close>

lemma block_proof_take:
  assumes "in_tree m (k, i div 2 ^ k)" "m \<le> length bs"
  shows "block_proof L w (take m bs) i k = block_proof L w bs i k"
proof -
  have "in_tree m (0 + k, i div 2 ^ (0 + k))" using assms(1) by simp
  from hash_positions_in_tree [OF this] merkle_node_take [OF _ assms(2), of _ L w]
  have "\<forall>p\<in>set (sibling_positions i 0 k). merkle_node L w (take m bs) p = merkle_node L w bs p" by auto
  moreover have "i < m" using in_tree_path [of m 0 k i] assms(1) by (simp add: in_tree_def)
  ultimately show ?thesis by (simp add: block_proof_def)
qed

lemma hash_proof_take:
  assumes "in_tree m (d + k, i div 2 ^ (d + k))" "m \<le> length bs"
  shows "hash_proof L w (take m bs) i d k = hash_proof L w bs i d k"
proof -
  have "\<forall>p\<in>set (hash_positions i d k). merkle_node L w (take m bs) p = merkle_node L w bs p"
    using hash_positions_in_tree [OF assms(1)] merkle_node_take [OF _ assms(2), of _ L w] by blast
  then show ?thesis by (simp add: hash_proof_def)
qed

text \<open>No entries lead to an empty log.\<close>

lemma log_path_empty: "log_path L w sk bs0 have0 es [] have \<Longrightarrow> es = [] \<and> bs0 = [] \<and> have0 = have"
  by (auto elim: log_path.cases)

context device_laws
begin

lemma author_log:
  assumes "core_rel L w content sk a st"
  shows "core_view L w content sk a (ls_blocks st) (ls_have st)" "[] \<notin> set (ls_blocks st)" "core_small (ls_blocks st)" "nonblank L w (ls_blocks st)"
  using assms by (auto simp: core_rel_def core_inv_def core_view_def tree_held_def nonblank_def)

text \<open>The author's answers are the messages that a replica takes.\<close>

lemma author_block:
  assumes rel: "core_rel L w content sk a st" and k: "in_tree (length (ls_blocks st)) (k, i div 2 ^ k)" and i: "i \<in> ls_have st"
  shows "core_create_proof L ra (Some \<lparr>rb_index = of_nat i, rb_nodes = of_nat k\<rparr>) None None None a = (Ok (Some (block_proof L w (ls_blocks st) i k)), a)"
proof -
  have "mt_fork (hc_tree a) = 0" using author_log(1) [OF rel] by (simp add: core_view_def)
  with core_create_block_proof [OF author_log(1) [OF rel] k] i show ?thesis by (simp add: block_proof_def)
qed

lemma author_hash:
  assumes rel: "core_rel L w content sk a st" and i: "i < length (ls_blocks st)" "in_tree (length (ls_blocks st)) (d + k, i div 2 ^ (d + k))"
  shows "core_create_proof L ra None (Some (hash_request i d k)) None None a = (Ok (Some (hash_proof L w (ls_blocks st) i d k)), a)"
  by (rule core_create_hash_proof [OF author_log(1) [OF rel] i])

lemma author_upgrade:
  assumes rel: "core_rel L w content sk a st" and m: "m < n" "n \<le> length (ls_blocks st)"
  shows "core_create_proof L ra None None None (Some (upgrade_req m n)) a = (Ok (Some (upgrade_proof_msg L w sk (ls_blocks st) m n)), a)"
  using core_create_upgrade_proof [OF author_log(1) [OF rel] m] by (simp add: upgrade_proof_msg_def)

text \<open>A replica counts up to the lowest node that it knows, from depth \<open>b\<close> above block \<open>i\<close>.\<close>

lemma replica_counts:
  assumes state: "replica_state L w content sk c bs K have" and tree: "in_tree (length bs) (b, i div 2 ^ b)"
  obtains k where "(b + k, i div 2 ^ (b + k)) \<in> K" "\<forall>e<k. (b + e, i div 2 ^ (b + e)) \<notin> K"
    "missing_nodes_from_merkle_tree_index L ra (pos_index (b, i div 2 ^ b)) c = (Ok (of_nat k), c)"
proof -
  have known: "tree_known L w bs K (hc_tree c) (stored content (hc_storage c) Tree)" and gaps: "tree_gaps K (hc_tree c) (stored content (hc_storage c) Tree)"
    and K: "rooted (length bs) K"
    using state by (simp_all add: replica_state_def core_known_def)
  have i: "i < length bs" using in_tree_path [of "length bs" 0 b i] tree by (simp add: in_tree_def)
  obtain r where r: "(r, i div 2 ^ r) \<in> set (root_positions (length bs))" "b \<le> r" using block_root [OF i] root_above [OF tree] by blast
  then have "\<exists>k. (b + k, i div 2 ^ (b + k)) \<in> K" using K by (intro exI [of _ "r - b"]) (auto simp: rooted_def)
  from exists_least_iff [THEN iffD1, OF this]
  obtain k where k: "(b + k, i div 2 ^ (b + k)) \<in> K" "\<forall>e<k. (b + e, i div 2 ^ (b + e)) \<notin> K" by blast
  have "\<forall>e<b + k. b \<le> e \<longrightarrow> (e, i div 2 ^ e) \<notin> K" using k(2) by (metis add_less_cancel_left le_Suc_ex)
  from missing_nodes_counted [OF known gaps le_add1 k(1) this] that [OF k] show thesis by simp
qed

lemma replica_length:
  assumes "replica_state L w content sk c bs K have"
  shows "unat (ci_length (core_info c)) = length bs"
  using assms by (auto simp: replica_state_def core_known_def tree_known_def tree_of_def core_info_def MAX_BLOCKS_def unat_of_nat64)

lemma replica_info:
  assumes state: "replica_state L w content sk c bs K have" and kp: "kp_secret (hc_key_pair c) = None"
  shows "core_info c = \<lparr>ci_length = of_nat (length bs), ci_byte_length = of_nat (byte_size bs),
    ci_contiguous_length = of_nat (first_gap have (length bs)), ci_fork = 0, ci_writeable = False\<rparr>"
proof -
  have "have": "have \<subseteq> {..<length bs}" using state by (simp add: replica_state_def core_known_def)
  obtain n where "contiguous_at have n" "hh_contiguous_length (h_hints (hc_header c)) = of_nat n"
    using state by (auto simp: replica_state_def hint_ok_def)
  with contiguous_unique [OF first_gap_contiguous [OF "have"]] state kp show ?thesis
    by (auto simp: replica_state_def core_known_def tree_known_def tree_of_def core_info_def)
qed

text \<open>A new core is a replica that has nothing.\<close>

lemma fresh_replica:
  assumes inv: "core_inv L w content sk c [] {}" and empty: "\<forall>st. st \<noteq> Oplog \<longrightarrow> stored content (hc_storage c) st = []"
  shows "replica_inv L w content sk c [] {} {}"
proof -
  have view: "core_view L w content sk c [] {}" using inv by (simp add: core_inv_def)
  have slots: "oplog_slots L w content (hc_storage c) (hc_oplog c)" using core_inv_state [OF inv] by (simp add: core_state_def)
  have none: "{p. in_tree (length ([] :: bytes list)) p} = {}" by (auto simp: in_tree_def)
  then have known: "core_known L w content sk c [] {} {}" using view unfolding core_view_known none by simp
  then have "im_get (mt_unflushed (hc_tree c)) i \<noteq> Some n" for i n
    by (auto simp: core_known_def tree_known_def in_tree_def)
  then have "tree_gaps {} (hc_tree c) (stored content (hc_storage c) Tree)" using empty by (simp add: tree_gaps_def blank_outside_def)
  then have "replica_state L w content sk c [] {} {}" using known slots inv rooted_empty by (simp add: replica_state_def core_inv_def)
  moreover have "replica_durable L w content sk c [] {} {}"
  proof -
    obtain es bs0 have0 n ps where d: "log_path L w sk bs0 have0 es [] {}" "oplog_image L w (stored content (hc_storage c) Oplog) (op_header_bits (hc_oplog c))
        (get_current_header_bit (hc_oplog c)) (header_of L w sk (hc_key_pair c) bs0 n) es"
      "hc_skip_flush_count c = 0 \<and> op_entries_byte_length (hc_oplog c) = 0 \<or>
        oplog_inv L w content (hc_storage c) (hc_oplog c) (header_of L w sk (hc_key_pair c) bs0 n) es"
      "contiguous_at have0 n" "list_all fixed_wf ps" "32768 * length ps < length bs0 + 32768" "stored content (hc_storage c) Bitfield = page_file ps"
      "\<forall>k. page_bits ps k \<longleftrightarrow> k \<in> have0"
      using inv unfolding core_inv_def durable_def Let_def by blast
    have "es = []" "bs0 = []" "have0 = {}" using log_path_empty [OF d(1)] by simp_all
    moreover have "flushed_nodes L w [] {} (stored content (hc_storage c) Tree)" using empty by (simp add: flushed_nodes_def blank_outside_def)
    ultimately show ?thesis unfolding replica_durable_def Let_def using d(2-) replica_path.start [of L w sk "[]" "{}" "{}"]
      by (intro exI [of _ "[]"] exI [of _ "{}"] exI [of _ n] exI [of _ ps]) (simp add: flushed_bits_def)
  qed
  ultimately show ?thesis by (simp add: replica_inv_def)
qed

end

lemma simulate_pull_block:
  assumes "device_laws L w ra content" "device_laws L w ra' content'" and rel: "sync_rel L w content content' sk (a, c) st"
    and ok: "i < ss_length st" "i \<in> ls_have (ss_log st)"
  shows "\<exists>c'. pull_block L ra ra' i a c = (Ok True, a, c') \<and> sync_rel L w content content' sk (a, c') (st\<lparr>ss_have := ss_have st \<union> {i}\<rparr>)"
proof -
  let ?bs = "ls_blocks (ss_log st)" and ?m = "ss_length st"
  obtain K where inv: "replica_inv L w content' sk c (take ?m ?bs) K (ss_have st)" using rel by (auto simp: sync_rel_def)
  then have K: "replica_state L w content' sk c (take ?m ?bs) K (ss_have st)" by (simp add: replica_inv_def)
  have a: "core_rel L w content sk a (ss_log st)" and m: "?m \<le> length ?bs" "kp_secret (hc_key_pair c) = None" using rel by (simp_all add: sync_rel_def)
  have lt: "i < length (take ?m ?bs)" using ok(1) m by simp
  then have "in_tree (length (take ?m ?bs)) (0, i div 2 ^ 0)" by (simp add: in_tree_def)
  from device_laws.replica_counts [OF assms(2) K this] obtain k where
    k: "(k, i div 2 ^ k) \<in> K" "core_missing_nodes L ra' (of_nat i) c = (Ok (of_nat k), c)"
    by (auto simp: core_missing_nodes_def pos_index_def tree_index_def mult.commute)
  then have "in_tree ?m (k, i div 2 ^ k)" using K m by (auto simp: replica_state_def core_known_def tree_known_def min_absorb2)
  note proof_eq = block_proof_take [OF this m(1)] and answer = device_laws.author_block [OF assms(1) a in_tree_mono [OF this m(1)] ok(2)]
  have "?bs ! i \<in> set ?bs" using lt m by simp
  then have "take ?m ?bs ! i \<noteq> []" using device_laws.author_log(2) [OF assms(1) a] ok(1) by (metis nth_take)
  from device_laws.replica_takes_block [OF assms(2) inv k(1) this] obtain c' where
    c': "verify_and_apply_proof L ra' (block_proof L w ?bs i k) c = (Ok True, c')"
    "replica_inv L w content' sk c' (take ?m ?bs) (K \<union> set ((0, i) # path_positions i 0 k)) (ss_have st \<union> {i})" "hc_key_pair c' = hc_key_pair c"
    unfolding proof_eq by blast
  have "pull_block L ra ra' i a c = (Ok True, a, c')" using k(2) answer c'(1) by (simp add: pull_block_def pull_counted_def hand_over_def)
  with c'(2,3) a m show ?thesis unfolding sync_rel_def by (intro exI [of _ c']) auto
qed

lemma simulate_pull_hash:
  assumes "device_laws L w ra content" "device_laws L w ra' content'" and rel: "sync_rel L w content content' sk (a, c) st"
    and ok: "in_tree (ss_length st) (d, off)"
  shows "\<exists>c'. pull_hash L ra ra' d off a c = (Ok True, a, c') \<and> sync_rel L w content content' sk (a, c') st"
proof -
  let ?bs = "ls_blocks (ss_log st)" and ?m = "ss_length st" and ?i = "off * 2 ^ d"
  obtain K where inv: "replica_inv L w content' sk c (take ?m ?bs) K (ss_have st)" using rel by (auto simp: sync_rel_def)
  then have K: "replica_state L w content' sk c (take ?m ?bs) K (ss_have st)" by (simp add: replica_inv_def)
  have a: "core_rel L w content sk a (ss_log st)" and m: "?m \<le> length ?bs" "kp_secret (hc_key_pair c) = None" using rel by (simp_all add: sync_rel_def)
  have off: "?i div 2 ^ d = off" by simp
  have "in_tree (length (take ?m ?bs)) (d, ?i div 2 ^ d)" using ok m by (simp add: min_absorb2)
  from device_laws.replica_counts [OF assms(2) K this] obtain k where
    k: "(d + k, ?i div 2 ^ (d + k)) \<in> K" "missing_nodes_from_merkle_tree_index L ra' (pos_index (d, off)) c = (Ok (of_nat k), c)"
    unfolding off by blast
  then have tree: "in_tree ?m (d + k, ?i div 2 ^ (d + k))" using K m by (auto simp: replica_state_def core_known_def tree_known_def min_absorb2)
  have "?i < length ?bs" using device_laws.known_path(1) [OF assms(2) K k(1)] by simp
  note proof_eq = hash_proof_take [OF tree m(1)] and answer = device_laws.author_hash [OF assms(1) a this in_tree_mono [OF tree m(1)], unfolded off]
  from device_laws.replica_takes_hash [OF assms(2) inv k(1)] obtain c' where
    c': "verify_and_apply_proof L ra' (hash_proof L w ?bs ?i d k) c = (Ok True, c')"
    "replica_inv L w content' sk c' (take ?m ?bs) (K \<union> set ((d, ?i div 2 ^ d) # path_positions ?i d k)) (ss_have st)" "hc_key_pair c' = hc_key_pair c"
    unfolding proof_eq by blast
  have "pull_hash L ra ra' d off a c = (Ok True, a, c')" using k(2) answer c'(1) by (simp add: pull_hash_def pull_counted_def hand_over_def)
  with c'(2,3) a m show ?thesis unfolding sync_rel_def by (intro exI [of _ c']) auto
qed

lemma simulate_pull_upgrade:
  assumes "device_laws L w ra content" "device_laws L w ra' content'" and rel: "sync_rel L w content content' sk (a, c) st"
    and ok: "ss_length st < n" "n \<le> length (ls_blocks (ss_log st))"
  shows "\<exists>c'. pull_upgrade L ra ra' n a c = (Ok True, a, c') \<and> sync_rel L w content content' sk (a, c') (st\<lparr>ss_length := length (ls_blocks (ss_log st))\<rparr>)"
proof -
  let ?bs = "ls_blocks (ss_log st)" and ?m = "ss_length st"
  obtain K where inv: "replica_inv L w content' sk c (take ?m ?bs) K (ss_have st)" using rel by (auto simp: sync_rel_def)
  then have K: "replica_state L w content' sk c (take ?m ?bs) K (ss_have st)" by (simp add: replica_inv_def)
  have a: "core_rel L w content sk a (ss_log st)" and m: "?m \<le> length ?bs" "kp_secret (hc_key_pair c) = None" using rel by (simp_all add: sync_rel_def)
  note log = device_laws.author_log(3,4) [OF assms(1) a]
  have len: "unat (ci_length (core_info c)) = ?m" using device_laws.replica_length [OF assms(2) K] m by simp
  from device_laws.replica_takes_upgrade [OF assms(2) inv ok log] obtain c' K' where
    c': "verify_and_apply_proof L ra' (upgrade_proof_msg L w sk ?bs ?m n) c = (Ok True, c')" "replica_inv L w content' sk c' ?bs K' (ss_have st)" "hc_key_pair c' = hc_key_pair c"
    by blast
  have "pull_upgrade L ra ra' n a c = (Ok True, a, c')"
    using device_laws.author_upgrade [OF assms(1) a ok] c'(1) by (simp add: pull_upgrade_def hand_over_def len)
  with c'(2,3) a m show ?thesis unfolding sync_rel_def by (intro exI [of _ c']) auto
qed

lemma simulate_read:
  assumes "device_laws L w ra' content'" and rel: "sync_rel L w content content' sk (a, c) st"
  shows "\<exists>c'. core_get L ra' i c = (Ok (if unat i \<in> ss_have st then Some (ls_blocks (ss_log st) ! unat i) else None), c') \<and>
    sync_rel L w content content' sk (a, c') st"
proof -
  let ?bs = "ls_blocks (ss_log st)" and ?m = "ss_length st"
  obtain K where inv: "replica_inv L w content' sk c (take ?m ?bs) K (ss_have st)" using rel by (auto simp: sync_rel_def)
  then have K: "replica_state L w content' sk c (take ?m ?bs) K (ss_have st)" by (simp add: replica_inv_def)
  then have "unat i < ?m" if "unat i \<in> ss_have st" using that by (auto simp: replica_state_def core_known_def)
  with device_laws.replica_get [OF assms(1) K, of i] device_laws.replica_events [OF assms(1) inv] rel inv show ?thesis
    by (auto simp: sync_rel_def)
qed

lemma simulate_copy_reopen:
  assumes "device_laws L w ra' content'" and rel: "sync_rel L w content content' sk (a, c) st" and ok: "ss_length st \<le> 8192"
  shows "\<exists>c'. core_exec L ra' Reopen c = (Ok Reopened, c') \<and> sync_rel L w content content' sk (a, c') st"
proof -
  let ?opt = "hypercore_options_new\<lparr>ho_open := True\<rparr>" and ?bs = "take (ss_length st) (ls_blocks (ss_log st))"
  obtain K where K: "replica_inv L w content' sk c ?bs K (ss_have st)" using rel by (auto simp: sync_rel_def)
  have "ho_open ?opt \<longrightarrow> ho_key_pair ?opt = None" "length ?bs \<le> 8192" using ok by (simp_all add: hypercore_options_new_def)
  from device_laws.replica_reopen_ok [OF assms(1) K this(2,1), of "[]"] rel show ?thesis by (auto simp: sync_rel_def)
qed

lemma simulate_sync:
  assumes "device_laws L w ra content" "device_laws L w ra' content'" and rel: "sync_rel L w content content' sk p st"
    and ok: "sync_admissible L w x st"
  shows "\<exists>p'. sync_exec L ra ra' x p = (Ok (fst (spec_sync x st)), p') \<and> sync_rel L w content content' sk p' (snd (spec_sync x st))"
proof -
  obtain a c where p: "p = (a, c)" by (cases p)
  note rel = rel [unfolded p]
  show ?thesis
  proof (cases x)
    case (Author cmd)
    have "core_rel L w content sk a (ss_log st)" "admissible L w cmd (ss_log st)" "ss_length st \<le> length (ls_blocks (ss_log st))"
      using rel ok Author by (simp_all add: sync_rel_def)
    with device_laws.simulate [OF assms(1) this(1,2)] spec_exec_prefix [of "ss_length st" "ss_log st" cmd] rel Author show ?thesis
      by (auto simp: p sync_rel_def Let_def case_prod_unfold)
  next
    case (PullUpgrade n)
    with simulate_pull_upgrade [OF assms(1,2) rel, of n] ok show ?thesis by (auto simp: p)
  next
    case (PullBlock i)
    with simulate_pull_block [OF assms(1,2) rel, of i] ok show ?thesis by (auto simp: p)
  next
    case (PullHash d off)
    with simulate_pull_hash [OF assms(1,2) rel, of d off] ok show ?thesis by (auto simp: p in_tree_def)
  next
    case (ReadBlock i)
    with simulate_read [OF assms(2) rel, of i] show ?thesis by (auto simp: p)
  next
    case (CopyHas i)
    obtain K where "replica_state L w content' sk c (take (ss_length st) (ls_blocks (ss_log st))) K (ss_have st)" using rel by (auto simp: sync_rel_def replica_inv_def)
    then have "core_known L w content' sk c (take (ss_length st) (ls_blocks (ss_log st))) K (ss_have st)" by (simp add: replica_state_def)
    from device_laws.core_known_bits [OF assms(2) this, of i] have "core_has c i = Ok (unat i \<in> ss_have st)" by (simp add: core_has_def)
    with CopyHas rel show ?thesis by (simp add: p)
  next
    case CopyInfo
    obtain K where "replica_state L w content' sk c (take (ss_length st) (ls_blocks (ss_log st))) K (ss_have st)" "kp_secret (hc_key_pair c) = None"
      "ss_length st \<le> length (ls_blocks (ss_log st))" using rel by (auto simp: sync_rel_def replica_inv_def)
    with device_laws.replica_info [OF assms(2)] CopyInfo rel show ?thesis by (simp add: p min_absorb2)
  next
    case CopyReopen
    with simulate_copy_reopen [OF assms(2) rel] ok show ?thesis by (auto simp: p)
  qed
qed

lemma simulate_syncs:
  assumes "device_laws L w ra content" "device_laws L w ra' content'"
  shows "sync_rel L w content content' sk p st \<Longrightarrow> syncs_admissible L w xs st \<Longrightarrow>
    sync_trace L ra ra' xs p = map Ok (spec_syncs xs st)"
proof (induction xs arbitrary: p st)
  case (Cons x xs)
  from simulate_sync [OF assms Cons.prems(1), of x] Cons.prems(2) obtain p' where
    "sync_exec L ra ra' x p = (Ok (fst (spec_sync x st)), p')" "sync_rel L w content content' sk p' (snd (spec_sync x st))" by auto
  with Cons.IH [of p' "snd (spec_sync x st)"] Cons.prems(2) show ?case by (simp add: Let_def case_prod_unfold)
qed simp

section \<open>Properties\<close>

definition new_sync :: "bool \<Rightarrow> sync_state" where
  "new_sync wr = \<lparr>ss_log = empty_log wr, ss_length = 0, ss_have = {}\<rparr>"

text \<open>C2: two cores made on empty stores, one with the author's key pair and one with the public key
  alone, give the replies of the author's log and of a copy of it: whatever the author appends,
  clears and reopens, every upgrade, block and node that the replica asks for is accepted, and the
  replica reads the author's blocks that it asked for, and no others, and reports the length and the
  contiguous length of its copy, also after its stores have been opened again.  The replica asks with its own
  length and its own count of missing nodes.\<close>

theorem replica_follows_author:
  assumes "device_laws L w ra content" "device_laws L w ra' content'" "\<forall>st. stored content s st = []" "\<forall>st. stored content' s' st = []"
    and "author_keys L sk kp" and "syncs_admissible L w xs (new_sync (kp_secret kp \<noteq> None))"
  shows "\<exists>a c. core_new L ra generated s \<lparr>ho_key_pair = Some kp, ho_open = False\<rparr> = Ok a \<and>
    core_new L ra' generated' s' \<lparr>ho_key_pair = Some (kp\<lparr>kp_secret := None\<rparr>), ho_open = False\<rparr> = Ok c \<and>
    sync_trace L ra ra' xs (a, c) = map Ok (spec_syncs xs (new_sync (kp_secret kp \<noteq> None)))"
proof -
  from device_laws.core_fresh_ok [OF assms(1,3) _ _ assms(5), of "\<lparr>ho_key_pair = Some kp, ho_open = False\<rparr>" generated]
  obtain a where a: "core_new L ra generated s \<lparr>ho_key_pair = Some kp, ho_open = False\<rparr> = Ok a"
    "core_inv L w content sk a [] {}" "hc_key_pair a = kp" by auto
  have public: "author_keys L sk (kp\<lparr>kp_secret := None\<rparr>)" using assms(5) by (simp add: author_keys_def)
  from device_laws.core_fresh_ok [OF assms(2,4) _ _ public, of "\<lparr>ho_key_pair = Some (kp\<lparr>kp_secret := None\<rparr>), ho_open = False\<rparr>" generated']
  obtain c where c: "core_new L ra' generated' s' \<lparr>ho_key_pair = Some (kp\<lparr>kp_secret := None\<rparr>), ho_open = False\<rparr> = Ok c"
    "core_inv L w content' sk c [] {}" "\<forall>st. st \<noteq> Oplog \<longrightarrow> stored content' (hc_storage c) st = []" "hc_key_pair c = kp\<lparr>kp_secret := None\<rparr>" by auto
  have "core_rel L w content sk a (empty_log (kp_secret kp \<noteq> None))" using a(2,3) by (simp add: core_rel_def empty_log_def)
  moreover have "replica_inv L w content' sk c [] {} {}" by (rule device_laws.fresh_replica [OF assms(2) c(2,3)])
  ultimately have "sync_rel L w content content' sk (a, c) (new_sync (kp_secret kp \<noteq> None))"
    using c(4) by (auto simp: sync_rel_def new_sync_def empty_log_def)
  from simulate_syncs [OF assms(1,2) this assms(6)] a(1) c(1) show ?thesis by blast
qed

theorem replica_follows_author_witness:
  "\<exists>a c. core_new ref_libs mem_access [] mem_empty \<lparr>ho_key_pair = Some ref_pair, ho_open = False\<rparr> = Ok a \<and>
    core_new ref_libs mem_access [] mem_empty \<lparr>ho_key_pair = Some (ref_pair\<lparr>kp_secret := None\<rparr>), ho_open = False\<rparr> = Ok c \<and>
    sync_trace ref_libs mem_access mem_access [Author (AppendBatch [[1], [2, 3]]), PullUpgrade 1, PullHash 0 0, PullBlock 1, ReadBlock 1, ReadBlock 0,
        Author (AppendBatch [[4]]), PullUpgrade 3, CopyReopen, PullBlock 2, CopyReopen, ReadBlock 2, CopyHas 0, CopyInfo] (a, c) =
      [Ok (Replied (Outcome \<lparr>ao_length = 2, ao_byte_length = 3\<rparr>)), Ok (Accepted True), Ok (Accepted True), Ok (Accepted True), Ok (ReadBack (Some [2, 3])),
       Ok (ReadBack None), Ok (Replied (Outcome \<lparr>ao_length = 3, ao_byte_length = 4\<rparr>)), Ok (Accepted True), Ok (Replied Reopened),
       Ok (Accepted True), Ok (Replied Reopened), Ok (ReadBack (Some [4])), Ok (InCopy False),
       Ok (CopyIs \<lparr>ci_length = 3, ci_byte_length = 4, ci_contiguous_length = 0, ci_fork = 0, ci_writeable = False\<rparr>)]"
proof -
  let ?xs = "[Author (AppendBatch [[1], [2, 3]]), PullUpgrade 1, PullHash 0 0, PullBlock 1, ReadBlock 1, ReadBlock 0, Author (AppendBatch [[4]]),
    PullUpgrade 3, CopyReopen, PullBlock 2, CopyReopen, ReadBlock 2, CopyHas 0, CopyInfo]"
  have "syncs_admissible ref_libs ref_wire ?xs (new_sync (kp_secret ref_pair \<noteq> None))"
    by (auto simp: new_sync_def empty_log_def ref_pair_def ref_nonblank core_small_def MAX_BLOCKS_def MAX_BATCH_def byte_size_def Let_def)
  moreover have empty: "\<forall>st. stored mem_content mem_empty st = []" using mem_empty_stored by simp
  ultimately have "\<exists>a c. core_new ref_libs mem_access [] mem_empty \<lparr>ho_key_pair = Some ref_pair, ho_open = False\<rparr> = Ok a \<and>
    core_new ref_libs mem_access [] mem_empty \<lparr>ho_key_pair = Some (ref_pair\<lparr>kp_secret := None\<rparr>), ho_open = False\<rparr> = Ok c \<and>
    sync_trace ref_libs mem_access mem_access ?xs (a, c) = map Ok (spec_syncs ?xs (new_sync (kp_secret ref_pair \<noteq> None)))"
    using replica_follows_author [OF mem_log.device_laws_axioms mem_log.device_laws_axioms empty empty ref_author] by blast
  moreover have "map Ok (spec_syncs ?xs (new_sync (kp_secret ref_pair \<noteq> None))) =
      [Ok (Replied (Outcome \<lparr>ao_length = 2, ao_byte_length = 3\<rparr>)), Ok (Accepted True), Ok (Accepted True), Ok (Accepted True), Ok (ReadBack (Some [2, 3])),
       Ok (ReadBack None), Ok (Replied (Outcome \<lparr>ao_length = 3, ao_byte_length = 4\<rparr>)), Ok (Accepted True), Ok (Replied Reopened),
       Ok (Accepted True), Ok (Replied Reopened), Ok (ReadBack (Some [4])), Ok (InCopy False),
       Ok (CopyIs \<lparr>ci_length = 3, ci_byte_length = 4, ci_contiguous_length = 0, ci_fork = 0, ci_writeable = False\<rparr>) :: sync_reply hres]"
    by (simp add: new_sync_def empty_log_def ref_pair_def byte_size_def Let_def first_gap_def upt_rec)
  ultimately show ?thesis by simp
qed

text \<open>C10: asked for the nodes that it misses from a node of its tree on, a replica that knows only some of
  the nodes answers, after reading its store as often as needed, with the distance to the lowest
  node on the way to the root that it knows; nothing changes.\<close>

theorem replica_counts_missing_nodes:
  assumes "device_laws L w ra content" "replica_state L w content sk c bs K have" "in_tree (length bs) (b, i div 2 ^ b)"
  shows "\<exists>k. missing_nodes_from_merkle_tree_index L ra (pos_index (b, i div 2 ^ b)) c = (Ok (of_nat k), c) \<and>
    (b + k, i div 2 ^ (b + k)) \<in> K \<and> (\<forall>e<k. (b + e, i div 2 ^ (b + e)) \<notin> K) \<and> b + k \<le> 62"
proof -
  obtain k where k: "(b + k, i div 2 ^ (b + k)) \<in> K" "\<forall>e<k. (b + e, i div 2 ^ (b + e)) \<notin> K"
    "missing_nodes_from_merkle_tree_index L ra (pos_index (b, i div 2 ^ b)) c = (Ok (of_nat k), c)"
    by (rule device_laws.replica_counts [OF assms])
  with device_laws.known_path(3) [OF assms(1,2) k(1)] show ?thesis by blast
qed

text \<open>A replica in memory that has the roots of a log of two blocks and no block.\<close>

lemma ref_replica_core:
  obtains c K where "replica_state ref_libs ref_wire mem_content ref_secret c ref_log K {}"
proof -
  let ?opt = "\<lparr>ho_key_pair = Some (ref_pair\<lparr>kp_secret := None\<rparr>), ho_open = False\<rparr>"
  have keys: "author_keys ref_libs ref_secret (ref_pair\<lparr>kp_secret := None\<rparr>)" using ref_author by (simp add: author_keys_def)
  have empty: "\<forall>st. stored mem_content mem_empty st = []" using mem_empty_stored by simp
  from mem_log.core_fresh_ok [OF empty _ _ keys, of ?opt] obtain c0 where
    "core_inv ref_libs ref_wire mem_content ref_secret c0 [] {}" "\<forall>st. st \<noteq> Oplog \<longrightarrow> stored mem_content (hc_storage c0) st = []" by auto
  from mem_log.fresh_replica [OF this] have "replica_inv ref_libs ref_wire mem_content ref_secret c0 (take 0 ref_log) {} {}" by simp
  moreover have "core_small ref_log" by (simp add: core_small_def MAX_BLOCKS_def byte_size_def)
  ultimately show thesis using mem_log.replica_takes_upgrade [of ref_secret c0 0 ref_log "{}" "{}" 2] ref_nonblank that by (auto simp: replica_inv_def)
qed

theorem replica_counts_missing_nodes_witness:
  "\<exists>c K k. replica_state ref_libs ref_wire mem_content ref_secret c ref_log K {} \<and>
    missing_nodes_from_merkle_tree_index ref_libs mem_access (pos_index (0, 1)) c = (Ok (of_nat k), c) \<and> (k, 1 div 2 ^ k) \<in> K"
proof -
  obtain c K where c: "replica_state ref_libs ref_wire mem_content ref_secret c ref_log K {}" by (rule ref_replica_core)
  have "in_tree (length ref_log) (0, 1 div 2 ^ 0)" by (simp add: in_tree_def)
  from replica_counts_missing_nodes [OF mem_log.device_laws_axioms c this] c show ?thesis by auto
qed

end
