(* ===== verification/Shared_Core.thy ===== *)
theory Shared_Core
  imports Replica_Machine
begin

text \<open>
  \<^verbatim>\<open>src/src/replication/shared_core.rs\<close> and the traits of \<^verbatim>\<open>src/src/replication/mod.rs\<close>: a
  core behind a mutex, with any number of owners.  Every method locks, calls the core and unlocks,
  so the calls of the owners come one after the other, in any order.  What an owner does with a
  peer takes several calls, and between them the others have their turn: the sessions below
  interleave call by call, and a count of missing nodes or a proof may be old when it is used.
\<close>

declare split_paired_All [simp del] split_paired_Ex [simp del]

section \<open>Errors of the traits\<close>

datatype core_methods_error = CmHypercoreError hypercore_error

datatype replication_methods_error =
  RmHypercoreError hypercore_error
| RmCoreMethodsError core_methods_error

section \<open>The methods\<close>

record 'd shared_core =
  sc_core :: "'d hypercore"


text \<open>A receiver sees what is sent from then on; it is the number of the messages before.\<close>

definition event_subscribe :: "'d hypercore \<Rightarrow> nat" where
  "event_subscribe c = length (ev_sent (hc_events c))"







definition shared_event_subscribe :: "'d shared_core \<Rightarrow> nat" where
  "shared_event_subscribe s = event_subscribe (sc_core s)"






section \<open>Calls of the owners of one core\<close>









section \<open>Sessions between two shared cores\<close>









text \<open>The specification keeps of a session the block, or the length that the copy had and the length of
  the log that the proof is about.\<close>

datatype spec_session = SpecIdle | SpecCounted nat | SpecMeasured nat | SpecBlock nat | SpecUpgrade nat nat

record peers_state = sync_state +
  ss_sessions :: "nat \<Rightarrow> spec_session"


definition spec_session :: "nat \<Rightarrow> spec_session \<Rightarrow> peers_state \<Rightarrow> peers_state" where
  "spec_session j x st = st\<lparr>ss_sessions := (ss_sessions st)(j := x)\<rparr>"





section \<open>The simulation\<close>





















section \<open>Properties\<close>





end
