(* ===== verification/Codec_Properties.thy ===== *)
theory Codec_Properties
  imports Oplog_Header Oplog_Entry
begin

text \<open>
  The encodings of the log and of the messages to peers, all together: what is measured, written
  and read back.  The laws of each encoding are proved beside it, as an instance of \<open>codec\<close>.
\<close>

text \<open>Measuring \<open>v\<close> from a fresh state, writing it into any buffer of the size that came out and
  reading that again gives \<open>v\<close> and uses the buffer up to its end.\<close>

definition round_trips :: "'v preencoder \<Rightarrow> 'v encoder \<Rightarrow> 'v decoder \<Rightarrow> 'v \<Rightarrow> bool" where
  "round_trips pre enc dec v \<longleftrightarrow>
     (\<exists>st. pre v \<lparr>cs_start = 0, cs_end = 0\<rparr> = Ok st \<and> cs_start st = 0 \<and>
       (\<forall>buf. length buf = cs_end st \<longrightarrow>
         (\<exists>buf' st'. enc v st buf = Ok (st', buf') \<and> length buf' = length buf \<and>
            dec buf' st = Ok (v, st') \<and> cs_start st' = cs_end st)))"

context codec
begin

lemma round_trips_wire:
  assumes "ok v" "length (wire v) < MAX_USIZE"
  shows "round_trips pre enc dec v"
proof -
  let ?st = "\<lparr>cs_start = 0, cs_end = length (wire v)\<rparr>"
  have "pre v \<lparr>cs_start = 0, cs_end = 0\<rparr> = Ok ?st"
    using pre_law [OF assms(1), of "\<lparr>cs_start = 0, cs_end = 0\<rparr>"] assms(2) by (simp add: extend_end_def)
  moreover have "\<exists>buf' st'. enc v ?st buf = Ok (st', buf') \<and> length buf' = length buf \<and> dec buf' ?st = Ok (v, st') \<and>
      cs_start st' = cs_end ?st" if "length buf = cs_end ?st" for buf
  proof -
    have room: "room ?st (length (wire v)) buf" using that by (simp add: room_def)
    show ?thesis
      using enc_law [OF assms(1) room] decode_encoded [OF assms(1) room] that by (auto simp: length_put)
  qed
  ultimately show ?thesis unfolding round_trips_def by fastforce
qed

end

text \<open>The parts of a proof that fit into memory.\<close>

definition data_block_ok :: "'it libs \<Rightarrow> wire_format \<Rightarrow> data_block \<Rightarrow> bool" where
  "data_block_ok L w v \<longleftrightarrow> length (dblk_value v) < MAX_USIZE \<and> nodes_ok L (dblk_nodes v) \<and>
     length (w_uint w (dblk_index v) @ w_bytes w (dblk_value v) @ wire_nodes w (dblk_nodes v)) < MAX_USIZE"

definition data_hash_ok :: "'it libs \<Rightarrow> wire_format \<Rightarrow> data_hash \<Rightarrow> bool" where
  "data_hash_ok L w v \<longleftrightarrow> nodes_ok L (dh_nodes v) \<and>
     length (w_uint w (dh_index v) @ wire_nodes w (dh_nodes v)) < MAX_USIZE"

definition data_seek_ok :: "'it libs \<Rightarrow> wire_format \<Rightarrow> data_seek \<Rightarrow> bool" where
  "data_seek_ok L w v \<longleftrightarrow> nodes_ok L (ds_nodes v) \<and>
     length (w_uint w (ds_bytes v) @ wire_nodes w (ds_nodes v)) < MAX_USIZE"

definition data_upgrade_ok :: "'it libs \<Rightarrow> wire_format \<Rightarrow> data_upgrade \<Rightarrow> bool" where
  "data_upgrade_ok L w v \<longleftrightarrow> nodes_ok L (du_nodes v) \<and> nodes_ok L (du_additional_nodes v) \<and> length (du_signature v) < MAX_USIZE \<and>
     length (w_uint w (du_start v) @ w_uint w (du_length v) @ wire_nodes w (du_nodes v) @
       wire_nodes w (du_additional_nodes v) @ w_bytes w (du_signature v)) < MAX_USIZE"

context libs_laws
begin

lemma entry_trip: "entry_ok L e \<Longrightarrow> length (wire_entry w e) < MAX_USIZE \<Longrightarrow> round_trips (pre_entry L) (enc_entry L) (dec_entry L) e"
  by (rule entryc.round_trips_wire)

lemma header_trip: "header_ok L h \<Longrightarrow> length (wire_header w h) < MAX_USIZE \<Longrightarrow> round_trips (pre_header L) (enc_header L) (dec_header L) h"
  by (rule headerc.round_trips_wire)

lemma request_trips:
  "round_trips (pre_request_block L) (enc_request_block L) (dec_request_block L) b"
  "round_trips (pre_request_seek L) (enc_request_seek L) (dec_request_seek L) s"
  "round_trips (pre_request_upgrade L) (enc_request_upgrade L) (dec_request_upgrade L) u"
proof -
  have "length (w_uint w x) + length (w_uint w y) < MAX_USIZE" for x y
    using cenc.length_w_uint [of x] cenc.length_w_uint [of y] by simp
  then show "round_trips (pre_request_block L) (enc_request_block L) (dec_request_block L) b"
    "round_trips (pre_request_upgrade L) (enc_request_upgrade L) (dec_request_upgrade L) u"
    by (auto intro!: request_blockc.round_trips_wire request_upgradec.round_trips_wire)
  have "length (w_uint w x) < MAX_USIZE" for x using cenc.length_w_uint [of x] by simp
  then show "round_trips (pre_request_seek L) (enc_request_seek L) (dec_request_seek L) s"
    by (intro request_seekc.round_trips_wire) auto
qed

lemma data_trips:
  "data_block_ok L w b \<Longrightarrow> round_trips (pre_data_block L) (enc_data_block L) (dec_data_block L) b"
  "data_hash_ok L w h \<Longrightarrow> round_trips (pre_data_hash L) (enc_data_hash L) (dec_data_hash L) h"
  "data_seek_ok L w s \<Longrightarrow> round_trips (pre_data_seek L) (enc_data_seek L) (dec_data_seek L) s"
  "data_upgrade_ok L w u \<Longrightarrow> round_trips (pre_data_upgrade L) (enc_data_upgrade L) (dec_data_upgrade L) u"
  unfolding data_block_ok_def data_hash_ok_def data_seek_ok_def data_upgrade_ok_def
  by (blast intro: data_blockc.round_trips_wire data_hashc.round_trips_wire data_seekc.round_trips_wire
      data_upgradec.round_trips_wire)+

end

section \<open>The log\<close>

text \<open>C24: an entry of the log, with any combination of its optional parts, is read back as it was
  written.\<close>

theorem entry_round_trips:
  assumes "libs_laws L w" "entry_ok L e" "length (wire_entry w e) < MAX_USIZE"
  shows "round_trips (pre_entry L) (enc_entry L) (dec_entry L) e"
  using libs_laws.entry_trip [OF assms] .

theorem entry_round_trips_witness:
  "round_trips (pre_entry ref_libs) (enc_entry ref_libs) (dec_entry ref_libs)
    \<lparr>e_user_data = [], e_tree_nodes = [], e_tree_upgrade = Some \<lparr>etu_fork = 0, etu_ancestors = 1, etu_length = 2,
      etu_signature = [1, 2, 3]\<rparr>, e_bitfield = Some \<lparr>bu_drop = False, bu_start = 1, bu_length = 1\<rparr>\<rparr>"
  (is "round_trips _ _ _ ?e")
proof -
  have "entry_ok ref_libs ?e" by (simp add: entry_ok_def nodes_ok_def)
  moreover have "length (wire_entry ref_wire ?e) < MAX_USIZE"
    using rl.cenc.length_w_uint [of 0] rl.cenc.length_w_uint [of 1] rl.cenc.length_w_uint [of 2] rl.cenc.length_w_bytes [of "[1, 2, 3]"]
    by (simp add: wire_entry_def wire_tree_upgrade_def wire_bitfield_update_def)
  ultimately show ?thesis by (rule entry_round_trips [OF rl.libs_laws_axioms])
qed

text \<open>C25: a header of the log is read back as it was written, with or without a secret key and with
  the lists of strings it may carry.\<close>

theorem header_round_trips:
  assumes "libs_laws L w" "header_ok L h" "length (wire_header w h) < MAX_USIZE"
  shows "round_trips (pre_header L) (enc_header L) (dec_header L) h"
  using libs_laws.header_trip [OF assms] .

theorem header_round_trips_witness:
  "round_trips (pre_header ref_libs) (enc_header ref_libs) (dec_header ref_libs)
    (header_new \<lparr>kp_public = replicate 32 5, kp_secret = Some (replicate 32 7)\<rparr>)"
proof -
  let ?kp = "\<lparr>kp_public = replicate 32 5, kp_secret = Some (replicate 32 7)\<rparr>"
  have kp: "key_pair_ok ref_libs ?kp" by (simp add: key_pair_ok_def ref_crypto_def)
  have "length (wire_header ref_wire (header_new ?kp)) < MAX_USIZE"
    using rl.key_pair_lengths [OF kp] rl.cenc.length_w_uint [of 0]
    by (simp add: wire_header_def header_new_def wire_key_pair_def wire_header_tree_def
      wire_header_hints_def wire_manifest_def wire_manifest_signer_def default_signer_manifest_def Let_def
      DEFAULT_NAMESPACE_def header_tree_new_def rl.cenc.w_bytes_Nil rl.cenc.w_strings_Nil)
  from header_round_trips [OF rl.libs_laws_axioms header_new_ok [OF kp] this] show ?thesis .
qed

section \<open>Messages to peers\<close>

text \<open>C26: the messages between peers, the three kinds of requests and the parts of a proof, a block, a hash, a
  seek and an upgrade with their nodes, are read back as they were written.\<close>

theorem messages_round_trip:
  assumes "libs_laws L w" "data_block_ok L w b" "data_hash_ok L w h" "data_seek_ok L w s" "data_upgrade_ok L w u"
  shows "round_trips (pre_request_block L) (enc_request_block L) (dec_request_block L) rb \<and>
    round_trips (pre_request_seek L) (enc_request_seek L) (dec_request_seek L) rs \<and>
    round_trips (pre_request_upgrade L) (enc_request_upgrade L) (dec_request_upgrade L) ru \<and>
    round_trips (pre_data_block L) (enc_data_block L) (dec_data_block L) b \<and>
    round_trips (pre_data_hash L) (enc_data_hash L) (dec_data_hash L) h \<and>
    round_trips (pre_data_seek L) (enc_data_seek L) (dec_data_seek L) s \<and>
    round_trips (pre_data_upgrade L) (enc_data_upgrade L) (dec_data_upgrade L) u"
  using libs_laws.request_trips [OF assms(1)] libs_laws.data_trips [OF assms(1)] assms(2-5) by blast

definition ref_node :: node where
  "ref_node = node_new ref_flat_tree 2 (replicate 32 9) 5"

theorem messages_round_trip_witness:
  "round_trips (pre_request_block ref_libs) (enc_request_block ref_libs) (dec_request_block ref_libs) \<lparr>rb_index = 6, rb_nodes = 2\<rparr> \<and>
    round_trips (pre_data_block ref_libs) (enc_data_block ref_libs) (dec_data_block ref_libs)
      \<lparr>dblk_index = 1, dblk_value = [1, 2], dblk_nodes = [ref_node]\<rparr> \<and>
    round_trips (pre_data_upgrade ref_libs) (enc_data_upgrade ref_libs) (dec_data_upgrade ref_libs)
      \<lparr>du_start = 0, du_length = 3, du_nodes = [ref_node], du_additional_nodes = [], du_signature = [1, 2]\<rparr>"
  (is "_ \<and> round_trips _ _ _ ?b \<and> round_trips _ _ _ ?u")
proof -
  have n: "nodes_ok ref_libs [ref_node]" "nodes_ok ref_libs []"
    by (simp_all add: nodes_ok_def node_ok_def ref_node_def node_new_def)
  have len: "length (wire_nodes ref_wire [ref_node]) \<le> 100" "length (wire_nodes ref_wire []) \<le> 100"
    using rl.cenc.length_w_uint [of 2] rl.cenc.length_w_uint [of 5] rl.cenc.length_w_usize [of 1] rl.cenc.length_w_usize [of 0]
    by (simp_all add: wire_nodes_def wire_node_def ref_node_def node_new_def)
  have "data_block_ok ref_libs ref_wire ?b" "data_upgrade_ok ref_libs ref_wire ?u"
    "data_hash_ok ref_libs ref_wire \<lparr>dh_index = 1, dh_nodes = []\<rparr>" "data_seek_ok ref_libs ref_wire \<lparr>ds_bytes = 1, ds_nodes = []\<rparr>"
    using n len rl.cenc.length_w_uint [of 0] rl.cenc.length_w_uint [of 1] rl.cenc.length_w_uint [of 3] rl.cenc.length_w_bytes [of "[1, 2]"]
    by (simp_all add: data_block_ok_def data_upgrade_ok_def data_hash_ok_def data_seek_ok_def)
  then show ?thesis using messages_round_trip [OF rl.libs_laws_axioms] by blast
qed

end
