(* ===== verification/Bitfield_Properties.thy ===== *)
theory Bitfield_Properties
  imports Bitfield_Storage
begin

text \<open>
  The properties of the bitfield: what its searches find, what a flush writes to the store, and what
  opening makes of it.
\<close>

text \<open>A bitfield with one range set, for the instances.\<close>

lemma one_range:
  assumes "unat start + unat len < 2 ^ 64"
  obtains b where "dyn_set_range empty_bitfield start len True = Ok b" "dyn_wf b"
    "\<And>k. dyn_bits b k \<longleftrightarrow> unat start \<le> k \<and> k < unat start + unat len"
  using dyn_set_range_spec [OF empty_bitfield_wf(1) assms, of True] empty_bitfield_wf(2) by auto

section \<open>Searching\<close>

text \<open>C28: the search for a present block from a position on finds the first one, and nothing only
  when there is none, whatever pages exist.\<close>

theorem index_of_finds_first:
  assumes "dyn_wf b"
  shows "\<exists>r. dyn_index_of b True position = Ok r \<and> is_first (dyn_bits b) (unat position) (map_option unat r)"
  using dyn_index_of_true [OF assms] .

theorem index_of_finds_first_witness:
  "\<exists>b. dyn_set_range empty_bitfield 70000 3 True = Ok b \<and> dyn_index_of b True 5 = Ok (Some 70000)"
proof -
  obtain b where b: "dyn_set_range empty_bitfield 70000 3 True = Ok b" "dyn_wf b" "\<And>k. dyn_bits b k \<longleftrightarrow> 70000 \<le> k \<and> k < 70003"
    by (rule one_range [of 70000 3]) auto
  obtain r where r: "dyn_index_of b True 5 = Ok r" "is_first (dyn_bits b) 5 (map_option unat r)"
    using index_of_finds_first [OF b(2), of 5] by auto
  have "r = Some 70000"
  proof (cases r)
    case None
    with r(2) b(3) [of 70000] show ?thesis by (auto simp: is_first_def dest: spec [where x = 70000])
  next
    case (Some i)
    with r(2) have "dyn_bits b (unat i)" "\<not> (70000 < unat i)" using b(3) [of 70000] by (auto simp: is_first_def)
    then have "unat i = 70000" using b(3) by auto
    with Some show ?thesis by (simp add: word_eq_iff_unat)
  qed
  with b(1) r(1) show ?thesis by blast
qed

text \<open>C29: the search backwards from a position finds the last present block up to it, and nothing only
  when there is none.\<close>

theorem last_index_of_finds_last:
  assumes "dyn_wf b"
  shows "\<exists>r. dyn_last_index_of b True position = Ok r \<and> is_last (dyn_bits b) (unat position) (map_option unat r)"
  using dyn_last_index_of_true [OF assms] .

theorem last_index_of_finds_last_witness:
  "\<exists>b. dyn_set_range empty_bitfield 5 3 True = Ok b \<and> dyn_last_index_of b True 70000 = Ok (Some 7)"
proof -
  obtain b where b: "dyn_set_range empty_bitfield 5 3 True = Ok b" "dyn_wf b" "\<And>k. dyn_bits b k \<longleftrightarrow> 5 \<le> k \<and> k < 8"
    by (rule one_range [of 5 3]) auto
  obtain r where r: "dyn_last_index_of b True 70000 = Ok r" "is_last (dyn_bits b) 70000 (map_option unat r)"
    using last_index_of_finds_last [OF b(2), of 70000] by auto
  have "r = Some 7"
  proof (cases r)
    case None
    with r(2) b(3) [of 7] show ?thesis by (auto simp: is_last_def dest: spec [where x = 7])
  next
    case (Some i)
    with r(2) have "dyn_bits b (unat i)" "\<not> (unat i < 7)" using b(3) [of 7] by (auto simp: is_last_def)
    then have "unat i = 7" using b(3) [of "unat i"] by auto
    with Some show ?thesis by (simp add: word_eq_iff_unat)
  qed
  with b(1) r(1) show ?thesis by blast
qed

text \<open>The search backwards for a missing block answers that there is none as soon as the page of
  the position holds none, from page 2 on, even when earlier pages have some.\<close>

theorem last_index_of_false_gives_up:
  assumes "dyn_wf b" "65536 \<le> unat position" "im_get (db_pages b) (of_nat (unat position div 32768)) = Some p"
    and "\<And>x. x \<le> unat position mod 32768 \<Longrightarrow> fixed_bits p x"
  shows "dyn_last_index_of b False position = Ok None"
  using dyn_last_index_of_false_gives_up [OF assms] .

theorem last_index_of_false_gives_up_witness:
  "\<exists>b. dyn_set_range empty_bitfield 65536 10 True = Ok b \<and> dyn_get b 40000 = Ok False \<and> dyn_last_index_of b False 65538 = Ok None"
proof -
  obtain b where b: "dyn_set_range empty_bitfield 65536 10 True = Ok b" "dyn_wf b" "\<And>k. dyn_bits b k \<longleftrightarrow> 65536 \<le> k \<and> k < 65546"
    by (rule one_range [of 65536 10]) auto
  have "dyn_bits b 65536" using b(3) by simp
  then obtain p where p: "im_get (db_pages b) 2 = Some p" by (auto simp: dyn_bits_def split: option.splits)
  have bit: "fixed_bits p x" if "x \<le> 2" for x
  proof -
    have "x = 0 \<or> x = 1 \<or> x = 2" using that by auto
    then have "(65536 + x) div 32768 = 2" "(65536 + x) mod 32768 = x" by auto
    with b(3) [of "65536 + x"] p that show ?thesis by (simp add: dyn_bits_def)
  qed
  have "dyn_last_index_of b False 65538 = Ok None"
    by (rule last_index_of_false_gives_up [OF b(2)]) (use p bit in simp_all)
  with b(1) b(3) [of 40000] dyn_get_bits [OF b(2), of 40000] show ?thesis by auto
qed

section \<open>On the store\<close>

text \<open>C30: flushing writes the dirty pages so that afterwards the file consists of pages whose bits are
  exactly those of the bitfield, which itself stays the same and has nothing left to flush; no other
  store is touched.\<close>

theorem flush_stores_bits:
  assumes "random_access_laws ra content" "dyn_wf b" "dyn_top b \<le> 32768 * 2 ^ 42"
    and "bits_stored b ps len" "stored content s Bitfield = page_file ps"
  shows "\<exists>b' infos s' ps'. dyn_flush b = Ok (b', infos) \<and> dyn_wf b' \<and> dyn_bits b' = dyn_bits b \<and> db_unflushed b' = [] \<and>
    flush_infos ra s infos = Ok s' \<and> stored content s' Bitfield = page_file ps' \<and> page_bits ps' = dyn_bits b \<and>
    (\<forall>st. st \<noteq> Bitfield \<longrightarrow> stored content s' st = stored content s st)"
proof -
  obtain b' infos s' ps' where f: "dyn_flush b = Ok (b', infos)" "dyn_wf b'" "dyn_bits b' = dyn_bits b"
    "flush_infos ra s infos = Ok s'" "stored content s' Bitfield = page_file ps'" "page_bits ps' = dyn_bits b"
    "\<forall>st. st \<noteq> Bitfield \<longrightarrow> stored content s' st = stored content s st"
    using random_access_laws.flush_bits [OF assms] by blast
  moreover have "db_unflushed b' = []" using f(1) by (auto simp: dyn_flush_def bindR_eq_Ok)
  ultimately show ?thesis by blast
qed

theorem flush_stores_bits_witness:
  "\<exists>b b' infos s' ps'. dyn_set_range empty_bitfield 5 3 True = Ok b \<and> dyn_flush b = Ok (b', infos) \<and>
    flush_infos mem_access \<lparr>st_tree = [], st_data = [], st_bitfield = [], st_oplog = []\<rparr> infos = Ok s' \<and>
    stored mem_content s' Bitfield = page_file ps' \<and> (\<forall>k. page_bits ps' k \<longleftrightarrow> 5 \<le> k \<and> k < 8)"
proof -
  let ?s = "\<lparr>st_tree = [], st_data = [], st_bitfield = [], st_oplog = []\<rparr> :: bytes storage"
  obtain b where b: "dyn_set_range empty_bitfield 5 3 True = Ok b" "dyn_wf b" "\<And>k. dyn_bits b k \<longleftrightarrow> 5 \<le> k \<and> k < 8"
    by (rule one_range [of 5 3]) auto
  have "bits_stored empty_bitfield [] 0"
    using empty_bitfield_wf(2) by (auto simp: bits_stored_def empty_bitfield_def page_bits_def)
  from bits_stored_set_range [OF this empty_bitfield_wf(1) b(1), of 8] have st: "bits_stored b [] 8" by simp
  have "dyn_top b \<le> 32768 * 1"
    using dyn.set_range_law [OF empty_bitfield_wf(1), of 5 3 True] b(1) by (auto simp: empty_bitfield_def dyn_top_def dest: spec [where x = 1])
  then have top: "dyn_top b \<le> 32768 * 2 ^ 42" by simp
  have "stored mem_content ?s Bitfield = page_file []"
    by (simp add: page_file_def mem_content_def get_random_access.simps)
  from flush_stores_bits [OF mem.random_access_laws_axioms b(2) top st this] b(1,3) show ?thesis by metis
qed

text \<open>A page written to bytes and read from their start is the same page, no longer dirty.\<close>

theorem page_round_trips:
  assumes "fixed_wf p"
  shows "fixed_from_data 0 (fixed_to_bytes p) = Ok (p\<lparr>fb_dirty := False\<rparr>)"
  using fixed_from_to_bytes [OF assms] .

theorem page_round_trips_witness:
  "fixed_from_data 0 (fixed_to_bytes \<lparr>fb_dirty = True, fb_bitfield = replicate 1024 0xA5\<rparr>) =
    Ok \<lparr>fb_dirty = False, fb_bitfield = replicate 1024 0xA5\<rparr>"
  using page_round_trips [of "\<lparr>fb_dirty = True, fb_bitfield = replicate 1024 0xA5\<rparr>"] by (simp add: fixed_wf_def fixed_consts)

text \<open>C38: opening a store with one page gives its bits back on page 0, but also copies of its last three
  quarters on the pages 1 to 3: blocks that the core never had appear as present.\<close>

theorem open_one_page_has_phantom_bits:
  assumes "fixed_wf p"
  shows "\<exists>b. dyn_open (Some (si_new_content Bitfield 0 (fixed_to_bytes p))) = Ok (Inr b) \<and>
    (\<forall>k. dyn_bits b k \<longleftrightarrow> k < 131072 \<and> 8192 * (k div 32768) \<le> k mod 32768 \<and> fixed_bits p (k mod 32768))"
  using dyn_open_one_page [OF assms] by blast

theorem open_one_page_has_phantom_bits_witness:
  "\<exists>b. dyn_open (Some (si_new_content Bitfield 0 (fixed_to_bytes \<lparr>fb_dirty = False, fb_bitfield = (replicate 1024 0)[256 := 1]\<rparr>))) =
      Ok (Inr b) \<and> dyn_bits b 8192 \<and> dyn_bits b (32768 + 8192) \<and> \<not> dyn_bits b (65536 + 8192)"
proof -
  let ?p = "\<lparr>fb_dirty = False, fb_bitfield = (replicate 1024 0)[256 := 1]\<rparr>"
  have "fixed_wf ?p" by (simp add: fixed_wf_def fixed_consts)
  moreover have "fixed_bits ?p 8192" by (simp add: fixed_bits_def word_bits_def fixed_consts)
  ultimately show ?thesis using open_one_page_has_phantom_bits [of ?p] by auto
qed

text \<open>C39: a store with more than one page cannot be opened: the code panics.\<close>

theorem open_two_pages_panics:
  assumes "4096 < length data" "4 dvd length data"
  shows "dyn_open (Some (si_new_content Bitfield start data)) = Panic"
  using dyn_open_two_pages [OF assms] .

theorem open_two_pages_panics_witness:
  "dyn_open (Some (si_new_content Bitfield 0 (fixed_to_bytes fixed_new @ fixed_to_bytes fixed_new))) = Panic"
proof -
  have "length (fixed_to_bytes fixed_new @ fixed_to_bytes fixed_new) = 8192"
    using fixed_to_bytes_length [OF fixed_wf_new] by (simp add: fixed_consts)
  then show ?thesis using open_two_pages_panics by simp
qed

end
