(* ===== verification/Oplog_Properties.thy ===== *)
theory Oplog_Properties
  imports Core_Properties
begin

text \<open>
  The properties of the operation log: what it finds again when it is opened after any sequence
  of operations and after a flush that stopped half way, for which entries opening returns, and
  how many bits a leader has for the length of its payload.
\<close>

section \<open>A log in memory\<close>

definition ref_entry :: entry where
  "ref_entry = \<lparr>e_user_data = [], e_tree_nodes = [], e_tree_upgrade = None, e_bitfield = None\<rparr>"

lemma ref_entry_wire: "wire_entry ref_wire ref_entry = [0]"
  by (simp add: wire_entry_def ref_entry_def entry_flags_def)

lemma ref_entry_fits: "entry_fits ref_libs ref_wire ref_entry"
  unfolding entry_fits_def ref_entry_wire by (simp add: entry_ok_def ref_entry_def nodes_ok_def)

lemma ref_pair_ok: "key_pair_ok ref_libs ref_pair"
  by (rule rl.author_key_pair) (rule ref_author)

lemma ref_log_fresh:
  obtains s o' where "oplog_reach ref_libs ref_wire mem_access mem_content s o' (header_new ref_pair) []"
    "op_entries_byte_length o' = 0" "length (stored mem_content s Oplog) = 8192"
proof -
  note fits = mem_log.header_new_fits [OF ref_pair_ok]
  obtain out where out: "oplog_fresh ref_libs ref_pair = Ok out" "ooo_header out = header_new ref_pair"
    "ooo_infos_to_flush out = [si_new_content Oplog 0 (framed ref_libs ref_wire False False (wire_header ref_wire (header_new ref_pair))),
       si_new_truncate Oplog 8192]"
    using mem_log.fresh_eq [OF ref_pair_ok fits] by simp
  obtain s1 where "flush_one mem_access mem_empty (hd (ooo_infos_to_flush out)) = Ok s1"
    using mem.flush_content [of 0 "framed ref_libs ref_wire False False (wire_header ref_wire (header_new ref_pair))" mem_empty Oplog] fits
    by (auto simp: out(3) rl.length_framed header_fits_def HEADER_SIZE_def MAX_FILE_def)
  moreover obtain s where "flush_one mem_access s1 (si_new_truncate Oplog 8192) = Ok s"
    using mem.flush_truncate [of 8192 s1 Oplog] by (auto simp: MAX_FILE_def)
  ultimately have s: "flush_infos mem_access mem_empty (ooo_infos_to_flush out) = Ok s" by (simp add: out(3))
  have reach: "oplog_reach ref_libs ref_wire mem_access mem_content s (ooo_oplog out) (header_new ref_pair) []"
    using oplog_reach.fresh [of mem_content mem_empty, OF mem_empty_stored ref_pair_ok out(1) s] by (simp add: out(2))
  moreover have "op_entries_byte_length (ooo_oplog out) = 0"
    using mem_log.fresh_eq [OF ref_pair_ok fits] out(1) by auto
  moreover have "length (stored mem_content s Oplog) = 8192"
    using mem_log.reach_inv [OF reach] by (auto simp: oplog_inv_def oplog_image_def entry_frames_def)
  ultimately show thesis by (rule that)
qed

lemma ref_log_entry:
  obtains s o' where "oplog_reach ref_libs ref_wire mem_access mem_content s o' (header_new ref_pair) [ref_entry]"
proof -
  obtain s o' where r: "oplog_reach ref_libs ref_wire mem_access mem_content s o' (header_new ref_pair) []"
    and len: "op_entries_byte_length o' = 0" "length (stored mem_content s Oplog) = 8192" by (rule ref_log_fresh)
  let ?x = "framed ref_libs ref_wire (get_current_header_bit o') False [0]"
  obtain o1 where o1: "append_entries ref_libs o' [ref_entry] False = Ok (o1, [si_new_content Oplog 8192 ?x])"
    using rl.append_entry_eq [OF ref_entry_fits, of o' False] len(1) by (simp add: ref_entry_wire)
  obtain s' where s': "flush_infos mem_access s [si_new_content Oplog 8192 ?x] = Ok s'"
    using mem.flush_content [of 8192 ?x s Oplog] by (auto simp: rl.length_framed MAX_FILE_def)
  show thesis
    using oplog_reach.append [OF r ref_entry_fits _ o1 s'] len(2) that
    by (simp add: ref_entry_wire MAX_FILE_def)
qed

section \<open>Opening after any sequence of operations\<close>

text \<open>C15: whatever sequence of appended entries and flushed headers a log has gone through since it was made on
  an empty store, opening its store gives the header that was flushed last, exactly the entries
  appended since, in order, and the header bits of the log in memory; it writes nothing.\<close>

theorem reopened_log_is_last_flush:
  assumes "device_laws L w ra content" "oplog_reach L w ra content s o' h es"
  shows "\<exists>info. read_one ra s (sii_new_all_content Oplog) = Ok info \<and>
    oplog_open L kp (Some info) = Ok (Inr
      \<lparr>ooo_oplog = \<lparr>op_header_bits = op_header_bits o', op_entries_length = 0, op_entries_byte_length = 0\<rparr>,
       ooo_header = h, ooo_infos_to_flush = [], ooo_entries = (if es = [] then None else Some es)\<rparr>)"
  using device_laws.reach_reopen [OF assms] .

theorem reopened_log_is_last_flush_witness:
  "\<exists>s info out. read_one mem_access s (sii_new_all_content Oplog) = Ok info \<and>
    oplog_open ref_libs None (Some info) = Ok (Inr out) \<and> ooo_header out = header_new ref_pair \<and> ooo_entries out = Some [ref_entry]"
proof -
  obtain s o' where "oplog_reach ref_libs ref_wire mem_access mem_content s o' (header_new ref_pair) [ref_entry]"
    by (rule ref_log_entry)
  from reopened_log_is_last_flush [OF mem_log.device_laws_axioms this, of None] show ?thesis by fastforce
qed

text \<open>C16: the write of the new header alone, when a flush stops before the truncation that follows it, never loses a
  header: opening gives the new header, and the entries from before the flush come along with it.\<close>

theorem interrupted_flush_keeps_log:
  assumes "device_laws L w ra content" "oplog_reach L w ra content s o' h es" "header_fits L w h'"
    and "oplog_flush L o' h' False = Ok (o1, infos)" "flush_infos ra s (take 1 infos) = Ok s1"
  shows "\<exists>out. oplog_open L kp (Some (si_new_content Oplog 0 (stored content s1 Oplog))) = Ok (Inr out) \<and>
    ooo_header out = h' \<and> ooo_entries out = (if es = [] then None else Some es)"
  using device_laws.crash_reopen [OF assms(1) device_laws.reach_inv [OF assms(1,2)] assms(3-5)] .

theorem interrupted_flush_keeps_log_witness:
  "\<exists>s1 out. oplog_open ref_libs None (Some (si_new_content Oplog 0 (stored mem_content s1 Oplog))) = Ok (Inr out) \<and>
    ooo_header out = header_new ref_pair \<and> ooo_entries out = Some [ref_entry]"
proof -
  obtain s o' where r: "oplog_reach ref_libs ref_wire mem_access mem_content s o' (header_new ref_pair) [ref_entry]"
    by (rule ref_log_entry)
  note fits = mem_log.header_new_fits [OF ref_pair_ok]
  obtain o1 off x where o1: "oplog_flush ref_libs o' (header_new ref_pair) False = Ok (o1, [si_new_content Oplog off x, si_new_truncate Oplog 8192])"
    "unat off \<le> 4096" "length x \<le> 4096"
  proof -
    let ?b = "op_header_bits o'"
    have "oplog_flush ref_libs o' (header_new ref_pair) False = Ok (o'\<lparr>op_entries_byte_length := 0, op_entries_length := 0, op_header_bits := next_bits ?b\<rparr>,
       [si_new_content Oplog (of_nat (slot_offset (newest_slot (next_bits ?b))))
       (framed ref_libs ref_wire (snd (get_next_header_oplog_slot_and_bit_value ?b)) False (wire_header ref_wire (header_new ref_pair))), si_new_truncate Oplog 8192])"
      using rl.insert_header_eq [OF fits, of 0 ?b False] by (simp add: oplog_flush_def)
    then show thesis
      by (rule that) (use fits in \<open>auto simp: newest_slot_def rl.length_framed header_fits_def HEADER_SIZE_def\<close>)
  qed
  obtain s1 where "flush_infos mem_access s (take 1 [si_new_content Oplog off x, si_new_truncate Oplog 8192]) = Ok s1"
    using mem.flush_content [of off x s Oplog] o1(2,3) by (auto simp: MAX_FILE_def)
  from interrupted_flush_keeps_log [OF mem_log.device_laws_axioms r fits o1(1) this, of None] show ?thesis by auto
qed

section \<open>Entries that were cut off\<close>

text \<open>C33: opening a log whose entries are whole returns them if the last entry is not partial; if the last
  one is partial, the loop that means to drop partial entries at the end never ends.\<close>

theorem trailing_partial_entry_loops:
  assumes "libs_laws L w" "es \<noteq> []" "list_all (\<lambda>(e, pb, hb). entry_fits L w e) es" "length headers = 8192"
    and "file = headers @ concat (map (\<lambda>(e, pb, hb). framed L w hb pb (wire_entry w e)) es)" "length file < MAX_USIZE"
  shows "open_entries L file out =
    (if fst (snd (last es)) then Diverge else Ok (out\<lparr>ooo_entries := Some (map fst es)\<rparr>))"
proof -
  let ?fr = "concat (map (\<lambda>(e, pb, hb). framed L w hb pb (wire_entry w e)) es)"
  have le: "length es \<le> length ?fr"
    by (induction es) (auto simp: libs_laws.length_framed [OF assms(1)])
  have "read_entries L (length file) file 8192 [] [] = Ok ([] @ map fst es, [] @ map (fst \<circ> snd) es)"
  proof (rule libs_laws.read_entries_eq [OF assms(1,3)])
    show "length es < length file" using le assms(4,5) by simp
    show "holds_at file 8192 ?fr" using holds_at_mid [of headers ?fr "[]"] assms(4,5) by simp
    show "validate_leader L (8192 + length ?fr) file = Ok None"
      using assms(4,5) by (intro libs_laws.validate_leader_end [OF assms(1)]) simp
  qed (fact assms)
  moreover have "0 < lib_fuel L" using libs_laws.enough_fuel [OF assms(1)] by simp
  ultimately show ?thesis
    using assms(2,4,5) le libs_laws.drop_partials_complete [OF assms(1), of "map (fst \<circ> snd) es" "lib_fuel L" "map fst es"]
      drop_partials_diverges [of "map (fst \<circ> snd) es" "lib_fuel L" "map fst es"]
    by (cases "?fr = []") (auto simp: open_entries_def last_map HEADER_SIZE_def)
qed

theorem trailing_partial_entry_loops_witness:
  "\<forall>out. open_entries ref_libs (replicate 8192 0 @ framed ref_libs ref_wire False True [0]) out = Diverge"
  using trailing_partial_entry_loops [OF rl.libs_laws_axioms, of "[(ref_entry, True, False)]" "replicate 8192 0", OF _ _ _ refl]
    ref_entry_fits ref_entry_wire
  by (simp add: rl.length_framed)

section \<open>The length in a leader\<close>

text \<open>C22: a leader has 30 bits for the length of its payload, beside the header bit and the partial bit.  A
  payload of up to \<open>2 ^ 30 - 1\<close> bytes is found again with its length and both bits; for a longer one,
  which the code writes without complaint below \<open>2 ^ 32\<close> bytes, only the length modulo \<open>2 ^ 30\<close> can be found,
  and nothing if that is 0; from \<open>2 ^ 32\<close> bytes on writing the leader panics.\<close>

theorem leader_keeps_30_bits:
  assumes "libs_laws L w" "cs_start st = p + 8 + n" "cs_start st \<le> cs_end st" "cs_end st \<le> length buf" "length buf < MAX_USIZE"
  shows "(2 ^ 32 \<le> n \<longrightarrow> prepend_leader L n hb pb st buf = Panic) \<and>
    (n < 2 ^ 32 \<longrightarrow> (\<exists>st' buf'. prepend_leader L n hb pb st buf = Ok (st', buf') \<and>
      (n mod 2 ^ 30 = 0 \<longrightarrow> validate_leader L p buf' = Ok None) \<and>
      (0 < n \<and> n < 2 ^ 30 \<longrightarrow> validate_leader L p buf' =
        Ok (Some \<lparr>vl_state = \<lparr>cs_start = p + 8, cs_end = p + 8 + n\<rparr>, vl_header_bit = hb, vl_partial_bit = pb\<rparr>)) \<and>
      (\<forall>out. validate_leader L p buf' = Ok (Some out) \<longrightarrow> cs_end (vl_state out) = p + 8 + n mod 2 ^ 30)))"
proof (intro conjI impI)
  assume "2 ^ 32 \<le> n"
  then show "prepend_leader L n hb pb st buf = Panic" by (rule libs_laws.prepend_leader_panics [OF assms(1-3)])
next
  let ?payload = "slice buf (p + 8) n" and ?leader = "leader L w hb pb (slice buf (p + 8) n)"
  let ?buf = "put buf p ?leader"
  assume n: "n < 2 ^ 32"
  have len: "length ?payload = n" "length ?leader = 8" "p + 8 + n \<le> length buf"
    using assms(2-4) libs_laws.length_leader [OF assms(1)] by (simp_all add: slice_def)
  have "prepend_leader L n hb pb st buf = Ok (st\<lparr>cs_start := p + 4\<rparr>, ?buf)"
    using libs_laws.prepend_leader_eq [OF assms(1), of st p ?payload buf hb pb] assms(2-5) len n by simp
  moreover have at: "holds_at ?buf p (framed L w hb pb ?payload)"
    using len by (simp add: framed_def holds_at_def put_def slice_def)
  moreover have "length ?buf < MAX_USIZE" using assms(5) len by (simp add: length_put)
  ultimately show "\<exists>st' buf'. prepend_leader L n hb pb st buf = Ok (st', buf') \<and>
      (n mod 2 ^ 30 = 0 \<longrightarrow> validate_leader L p buf' = Ok None) \<and>
      (0 < n \<and> n < 2 ^ 30 \<longrightarrow> validate_leader L p buf' =
        Ok (Some \<lparr>vl_state = \<lparr>cs_start = p + 8, cs_end = p + 8 + n\<rparr>, vl_header_bit = hb, vl_partial_bit = pb\<rparr>)) \<and>
      (\<forall>out. validate_leader L p buf' = Ok (Some out) \<longrightarrow> cs_end (vl_state out) = p + 8 + n mod 2 ^ 30)"
    using libs_laws.validate_leader_mod [OF assms(1) at] len(1) n by (intro exI [of _ "st\<lparr>cs_start := p + 4\<rparr>"] exI [of _ ?buf]) (auto split: if_splits)
qed

theorem leader_keeps_30_bits_witness:
  "(\<exists>buf' st'. prepend_leader ref_libs 2 True False \<lparr>cs_start = 10, cs_end = 10\<rparr> (replicate 10 7) = Ok (st', buf') \<and>
      validate_leader ref_libs 0 buf' = Ok (Some \<lparr>vl_state = \<lparr>cs_start = 8, cs_end = 10\<rparr>, vl_header_bit = True, vl_partial_bit = False\<rparr>)) \<and>
   (\<exists>buf' st'. prepend_leader ref_libs (2 ^ 30) True False \<lparr>cs_start = 8 + 2 ^ 30, cs_end = 8 + 2 ^ 30\<rparr> (replicate (8 + 2 ^ 30) 7) = Ok (st', buf') \<and>
      validate_leader ref_libs 0 buf' = Ok None)"
  using leader_keeps_30_bits [OF rl.libs_laws_axioms, of "\<lparr>cs_start = 10, cs_end = 10\<rparr>" 0 2 "replicate 10 7" True False]
    leader_keeps_30_bits [OF rl.libs_laws_axioms, of "\<lparr>cs_start = 8 + 2 ^ 30, cs_end = 8 + 2 ^ 30\<rparr>" 0 "2 ^ 30" "replicate (8 + 2 ^ 30) 7" True False]
  by auto

end
