(* ===== verification/Tree_Properties.thy ===== *)
theory Tree_Properties
  imports Core_Properties Tree_Binding
begin

text \<open>
  The properties of the Merkle tree as a whole: appending blocks one by one builds the tree that
  is defined over the whole log, its root hash binds the log, and block offsets are those of the
  blocks laid out one after the other.
\<close>

declare split_paired_All [simp del] split_paired_Ex [simp del]

text \<open>C14: appending a batch block by block, with roots merged as soon as they are siblings, gives the roots of the
  Merkle tree over the whole log, its length and byte length, and exactly the nodes that are new in
  that tree.\<close>

theorem appending_builds_merkle_tree:
  assumes "libs_laws L w" "tree_of L w bs t" "length (bs @ cs) \<le> MAX_BLOCKS" "cs \<noteq> []"
  shows "append_all L (mt_changeset t) cs 0 = Ok ((mt_changeset t)\<lparr>
    cg_upgraded := True, cg_length := of_nat (length (bs @ cs)), cg_byte_length := of_nat (byte_size (bs @ cs)),
    cg_roots := merkle_roots L w (bs @ cs),
    cg_nodes := map (merkle_node L w (bs @ cs)) (new_positions (length bs) (length (bs @ cs))),
    cg_batch_length := of_nat (length cs)\<rparr>, byte_size cs)"
  using libs_laws.append_all_eq [OF assms(1), of "mt_changeset t" bs cs 0] assms(2-4)
  by (simp add: tree_of_def mt_changeset_def changeset_new_def byte_size_def)

theorem appending_builds_merkle_tree_witness:
  "\<exists>cg. append_all ref_libs (mt_changeset \<lparr>mt_roots = [], mt_length = 0, mt_byte_length = 0, mt_fork = 0, mt_signature = None,
      mt_unflushed = [], mt_truncated = False, mt_truncate_to = 0\<rparr>) [[1], [2, 3]] 0 = Ok (cg, 3) \<and>
    cg_roots cg = merkle_roots ref_libs ref_wire [[1], [2, 3]] \<and> cg_byte_length cg = 3"
  using appending_builds_merkle_tree [OF rl.libs_laws_axioms, of "[]"
      "\<lparr>mt_roots = [], mt_length = 0, mt_byte_length = 0, mt_fork = 0, mt_signature = None,
      mt_unflushed = [], mt_truncated = False, mt_truncate_to = 0\<rparr>" "[[1], [2, 3]]"]
  by (simp add: tree_of_def byte_size_def MAX_BLOCKS_def merkle_roots_def root_positions.simps)

text \<open>C13: two logs whose root hashes agree are the same log, block by block, unless their trees give a
  collision of the hash function.\<close>

theorem root_hash_binds_log:
  assumes "libs_laws L w" "length bs \<le> MAX_BLOCKS" "length cs \<le> MAX_BLOCKS"
    and "cg_roots cg1 = merkle_roots L w bs" "cg_roots cg2 = merkle_roots L w cs" "changeset_hash L cg1 = changeset_hash L cg2"
  shows "bs = cs \<or> collide L (tree_inputs L w bs) (tree_inputs L w cs)"
proof -
  have "tree_hash L w bs = tree_hash L w cs"
    using assms(4-6) by (simp add: changeset_hash_def libs_laws.hash_tree_eq [OF assms(1)] tree_hash_def)
  with libs_laws.tree_binding [OF assms(1-3)] show ?thesis by blast
qed

text \<open>Two blocks that the weak digest of the reference library does not tell apart.\<close>

definition twin_a :: bytes where
  "twin_a = [0, 20, 0, 26, 19, 24, 27, 14, 93, 0, 62, 0, 0, 0, 106, 0, 0, 0, 0, 42, 36, 0, 43, 0, 0, 31, 44, 11, 0, 0, 3, 22, 19, 0, 1, 29]"

definition twin_b :: bytes where
  "twin_b = [27, 0, 33, 0, 0, 0, 0, 0, 0, 28, 0, 104, 83, 67, 0, 45, 64, 42, 56, 0, 0, 18, 0, 32, 19, 0, 0, 0, 3, 22, 0, 0, 0, 29, 0, 0]"

definition digest_step :: "nat \<Rightarrow> nat \<Rightarrow> nat" where
  "digest_step b acc = (acc * 257 + b + 1) mod 256 ^ 31"

lemma digest_step_numeral:
  "digest_step 0 0 = (0 * 257 + 0 + 1) mod 256 ^ 31" "digest_step (numeral b) (Suc 0) = (1 * 257 + numeral b + 1) mod 256 ^ 31"
  "digest_step 0 (numeral a) = (numeral a * 257 + 0 + 1) mod 256 ^ 31" "digest_step (Suc 0) (numeral a) = (numeral a * 257 + 1 + 1) mod 256 ^ 31"
  "digest_step (numeral b) (numeral a) = (numeral a * 257 + numeral b + 1) mod 256 ^ 31"
  by (simp_all only: digest_step_def One_nat_def)

lemma ref_digest_steps: "ref_digest m = 1 # le_bytes 31 (fold digest_step (map unat m) 0)"
  by (simp only: ref_digest_def fold_map comp_def digest_step_def [abs_def])

lemma twin_digest: "ref_digest (leaf_input ref_wire twin_a) = ref_digest (leaf_input ref_wire twin_b)"
proof -
  have eight: "(8 :: nat) = Suc (Suc (Suc (Suc (Suc (Suc (Suc (Suc 0)))))))" by simp
  have len: "le_bytes 8 36 = [36, 0, 0, 0, 0, 0, 0, 0]" unfolding eight by simp
  have bytes: "map unat (leaf_input ref_wire twin_a) = [0, 36, 0, 0, 0, 0, 0, 0, 0, 0, 20, 0, 26, 19, 24, 27, 14, 93, 0, 62, 0, 0, 0, 106, 0, 0, 0, 0,
      42, 36, 0, 43, 0, 0, 31, 44, 11, 0, 0, 3, 22, 19, 0, 1, 29]"
    "map unat (leaf_input ref_wire twin_b) = [0, 36, 0, 0, 0, 0, 0, 0, 0, 27, 0, 33, 0, 0, 0, 0, 0, 0, 28, 0, 104, 83, 67, 0, 45, 64, 42, 56, 0, 0, 18,
      0, 32, 19, 0, 0, 0, 3, 22, 0, 0, 0, 29, 0, 0]"
    by (simp_all add: leaf_input_def ref_wire_def twin_a_def twin_b_def len)
  show ?thesis unfolding ref_digest_steps bytes by (simp add: digest_step_numeral)
qed

lemma twin_roots: "merkle_roots ref_libs ref_wire [twin_a] = merkle_roots ref_libs ref_wire [twin_b]"
proof -
  have "length twin_a = length twin_b" by (simp add: twin_a_def twin_b_def)
  moreover have "root_positions (Suc 0) = [(0, 0)]" by (simp add: root_positions.simps trailing_zeros.simps)
  ultimately show ?thesis using twin_digest by (simp add: merkle_roots_def merkle_node_def subtree_size_def slice_def ref_libs_def ref_crypto_def)
qed

theorem root_hash_binds_log_witness:
  "\<exists>cg1 cg2. cg_roots cg1 = merkle_roots ref_libs ref_wire [twin_a] \<and> cg_roots cg2 = merkle_roots ref_libs ref_wire [twin_b] \<and>
    changeset_hash ref_libs cg1 = changeset_hash ref_libs cg2 \<and> [twin_a] \<noteq> [twin_b] \<and>
    collide ref_libs (tree_inputs ref_libs ref_wire [twin_a]) (tree_inputs ref_libs ref_wire [twin_b])"
proof -
  define cg where "cg = (changeset_new 0 0 0 [])\<lparr>cg_roots := merkle_roots ref_libs ref_wire [twin_a]\<rparr>"
  have roots: "cg_roots cg = merkle_roots ref_libs ref_wire [twin_a]" "cg_roots cg = merkle_roots ref_libs ref_wire [twin_b]"
    using twin_roots by (simp_all add: cg_def)
  have ne: "[twin_a] \<noteq> [twin_b]" by (simp add: twin_a_def twin_b_def)
  from root_hash_binds_log [OF rl.libs_laws_axioms _ _ roots] ne
  have "collide ref_libs (tree_inputs ref_libs ref_wire [twin_a]) (tree_inputs ref_libs ref_wire [twin_b])" by (simp add: MAX_BLOCKS_def)
  with roots ne show ?thesis by blast
qed

text \<open>C21: the byte range of a block, found by walking down from the roots over nodes in memory and in the store, is
  the place of the block when all blocks are laid out one after the other.\<close>

theorem byte_range_is_block_place:
  assumes "device_laws L w ra content" "core_inv L w content sk c bs have" "i < length bs"
  shows "core_byte_range L ra c (of_nat i) None =
    Ok \<lparr>nbr_index = of_nat (byte_size (take i bs)), nbr_length = of_nat (length (bs ! i))\<rparr>"
proof -
  have "tree_held L w bs (hc_tree c) (stored content (hc_storage c) Tree)"
    using device_laws.inv_view [OF assms(1,2)] by (simp add: core_view_def)
  from device_laws.core_byte_range_ok [OF assms(1) this _ _ assms(3), of "[]" None] show ?thesis by (simp add: infos_of_def)
qed

theorem byte_range_is_block_place_witness:
  "\<exists>c. core_inv ref_libs ref_wire mem_content ref_secret c [[1], [2, 3]] {..<2} \<and>
    core_byte_range ref_libs mem_access c 1 None = Ok \<lparr>nbr_index = 1, nbr_length = 2\<rparr>"
proof -
  obtain c where c: "core_inv ref_libs ref_wire mem_content ref_secret c [[1], [2, 3]] {..<2}" using ref_core_blocks by blast
  with byte_range_is_block_place [OF mem_log.device_laws_axioms c, of 1] show ?thesis by (auto simp: byte_size_def)
qed

end
