(* ===== verification/Limits.thy ===== *)
theory Limits
  imports Core_Properties Replication Changeset_Offset
begin

text \<open>
  What the core does at the edges of its contract: how opening fails, where the contiguous length
  goes wrong when the log is replayed, which messages of a peer make it panic, and what a proof of a
  hash leaves open.
\<close>

declare split_paired_All [simp del] split_paired_Ex [simp del]

section \<open>Opening\<close>

text \<open>C32: a builder that is told to open an existing core refuses a key pair, whatever the stores hold;
  without a key pair it finds out that an empty log store holds no core.\<close>

theorem opening_errors:
  assumes "device_laws L w ra content"
  shows "builder_build L ra generated (builder_open (builder_key_pair (builder_new s) kp) True) = Err BadArgument \<and>
    (stored content s Oplog = [] \<longrightarrow> builder_build L ra generated (builder_open (builder_new s) True) = Err (EmptyStorage Oplog))"
proof (intro conjI impI)
  show "builder_build L ra generated (builder_open (builder_key_pair (builder_new s) kp) True) = Err BadArgument"
    by (simp add: builder_build_def builder_open_def builder_key_pair_def builder_new_def core_new_def)
  assume empty: "stored content s Oplog = []"
  have laws: "libs_laws L w" using assms(1) by (rule device_laws.axioms)
  have ra: "random_access_laws ra content" using assms(1) by (rule device_laws.axioms)
  have leader: "validate_leader L p [] = Ok None" for p using libs_laws.validate_leader_end [OF laws, of "[]" p] by simp
  have "oplog_open L None (Some (si_new_content Oplog 0 [])) = Err (EmptyStorage Oplog)"
    by (simp add: oplog_open_def si_new_content_def leader)
  then have "open_oplog L ra s None = Err (EmptyStorage Oplog)"
    using random_access_laws.read_all [OF ra, of s Oplog] empty
    by (simp add: open_oplog_def oplog_open_def [of _ _ None] read_info_def)
  then show "builder_build L ra generated (builder_open (builder_new s) True) = Err (EmptyStorage Oplog)"
    by (simp add: builder_build_def builder_open_def builder_new_def core_new_def hypercore_options_new_def)
qed

text \<open>On the stores of a core that holds two blocks, and on empty stores.\<close>

theorem opening_errors_witness:
  "(\<exists>c. core_inv ref_libs ref_wire mem_content ref_secret c ref_log {..<2} \<and>
     builder_build ref_libs mem_access [] (builder_open (builder_key_pair (builder_new (hc_storage c)) ref_pair) True) = Err BadArgument) \<and>
   builder_build ref_libs mem_access [] (builder_open (builder_new mem_empty) True) = Err (EmptyStorage Oplog)"
proof
  obtain c where "core_inv ref_libs ref_wire mem_content ref_secret c ref_log {..<2}" by (rule ref_core_blocks)
  with opening_errors [OF mem_log.device_laws_axioms]
  show "\<exists>c. core_inv ref_libs ref_wire mem_content ref_secret c ref_log {..<2} \<and>
     builder_build ref_libs mem_access [] (builder_open (builder_key_pair (builder_new (hc_storage c)) ref_pair) True) = Err BadArgument" by blast
  show "builder_build ref_libs mem_access [] (builder_open (builder_new mem_empty) True) = Err (EmptyStorage Oplog)"
    using opening_errors [OF mem_log.device_laws_axioms] mem_empty_stored by blast
qed

section \<open>The contiguous length\<close>

text \<open>C34: replaying the clear of blocks \<open>a\<close> to \<open>b\<close> changes nothing of the header but the contiguous length, and
  the new one is right only if the old one did not lie behind \<open>b\<close>: when blocks from the middle of a
  contiguous run are cleared, the length stays behind the hole.\<close>

theorem replayed_clear_contiguous_length:
  assumes "contiguous_at have n" "hh_contiguous_length (h_hints h) = of_nat n" "a < b" "b < 2 ^ 64" "n < 2 ^ 64"
  shows "\<exists>l. update_contiguous_length h bits \<lparr>bu_drop = True, bu_start = of_nat a, bu_length = of_nat (b - a)\<rparr> =
      Ok (h\<lparr>h_hints := (h_hints h)\<lparr>hh_contiguous_length := l\<rparr>\<rparr>) \<and>
    (contiguous_at (have - {a..<b}) (unat l) \<longleftrightarrow> n \<le> b)"
proof -
  have nat: "unat (of_nat a :: u64) = a" "unat (of_nat b :: u64) = b" "unat (of_nat n :: u64) = n"
    using assms(3-5) by (simp_all add: unat_of_nat64)
  have e: "of_nat a + of_nat (b - a) = (of_nat b :: u64)" using assms(3) by (simp add: of_nat_add [symmetric] del: of_nat_add)
  let ?n = "if n \<le> b \<and> a < n then a else n"
  have "update_contiguous_length h bits \<lparr>bu_drop = True, bu_start = of_nat a, bu_length = of_nat (b - a)\<rparr> =
      Ok (h\<lparr>h_hints := (h_hints h)\<lparr>hh_contiguous_length := of_nat ?n\<rparr>\<rparr>)"
    using assms(2) nat by (auto simp: update_contiguous_length_def Let_def e word_le_nat_alt word_less_nat_alt)
  moreover have "contiguous_at (have - {a..<b}) ?n \<longleftrightarrow> n \<le> b"
  proof (cases "n \<le> b")
    case True
    then show ?thesis using contiguous_clear [OF assms(1,3)] by simp
  next
    case False
    then have "a \<in> {..<n}" "a \<notin> have - {a..<b}" using assms(3) by auto
    then have "\<not> contiguous_at (have - {a..<b}) n" unfolding contiguous_at_def by blast
    with False show ?thesis by simp
  qed
  moreover have "unat (of_nat ?n :: u64) = ?n" using nat by simp
  ultimately show ?thesis by (intro exI [of _ "of_nat ?n"]) (simp only: simp_thms)
qed

theorem replayed_clear_contiguous_length_witness:
  "\<exists>h l. hh_contiguous_length (h_hints h) = 3 \<and>
    update_contiguous_length h empty_bitfield \<lparr>bu_drop = True, bu_start = 0, bu_length = 1\<rparr> =
      Ok (h\<lparr>h_hints := (h_hints h)\<lparr>hh_contiguous_length := l\<rparr>\<rparr>) \<and> \<not> contiguous_at ({0, 1, 2} - {0}) (unat l)"
proof -
  let ?h = "(header_new ref_pair)\<lparr>h_hints := \<lparr>hh_reorgs = [], hh_contiguous_length = 3\<rparr>\<rparr>"
  have "contiguous_at {0, 1, 2} 3" by (auto simp: contiguous_at_def)
  from replayed_clear_contiguous_length [OF this, of ?h 0 1 empty_bitfield] obtain l where
    "update_contiguous_length ?h empty_bitfield \<lparr>bu_drop = True, bu_start = 0, bu_length = 1\<rparr> =
      Ok (?h\<lparr>h_hints := (h_hints ?h)\<lparr>hh_contiguous_length := l\<rparr>\<rparr>)" "\<not> contiguous_at ({0, 1, 2} - {0}) (unat l)"
    by (auto simp: atLeastLessThan_def lessThan_def atLeast_def)
  then show ?thesis by (intro exI [of _ ?h] exI [of _ l]) simp
qed

section \<open>The end of the data store\<close>

text \<open>Clearing blocks up to the end of the data cuts the store there, and a block whose place lies behind
  the end cannot be read, though it is marked as present and has no bytes at all: an empty block
  behind the cleared ones is lost.\<close>

lemma cleared_end_is_cut:
  assumes "unat off \<le> length (stored mem_content s Data)" "length (stored mem_content s Data) \<le> unat off + unat n"
  shows "\<exists>s'. flush_infos mem_access s [block_clear off n] = Ok s' \<and> stored mem_content s' Data = take (unat off) (stored mem_content s Data)"
proof -
  have "mem_content (take (unat off) (stored mem_content s Data)) = take (unat off) (stored mem_content s Data)"
    using assms(1) mem_content_small [of "get_random_access s Data"] by (intro mem_content_id) simp
  with assms show ?thesis by (simp add: block_clear_def flush_one_def si_new_delete_def mem_access_def mem_del_def)
qed

context device_laws
begin

lemma get_behind_end:
  assumes held: "tree_held L w bs (hc_tree c) (stored content (hc_storage c) Tree)" and size: "byte_size bs \<le> 2 ^ 62"
    and i: "dyn_get (hc_bitfield c) i = Ok True" "unat i < length bs"
    and out: "length (stored content (hc_storage c) Data) < byte_size (take (unat i) bs)"
  shows "core_get L ra i c = (Err InvalidOperation, c)"
proof -
  let ?i = "unat i"
  have range: "core_byte_range L ra c i None = Ok \<lparr>nbr_index = of_nat (byte_size (take ?i bs)), nbr_length = of_nat (length (bs ! ?i))\<rparr>"
    using core_byte_range_ok [OF held, of "[]" None ?i] i(2) by (simp add: infos_of_def)
  have nat: "unat (of_nat (byte_size (take ?i bs)) :: u64) = byte_size (take ?i bs)"
    using byte_size_take_nth [OF i(2)] size by (auto intro!: unat_of_nat64)
  have "read_one ra (hc_storage c) (sii_new_content Data (of_nat (byte_size (take ?i bs))) (of_nat (length (bs ! ?i)))) = Err InvalidOperation"
    using read_out [of "get_random_access (hc_storage c) Data" "of_nat (byte_size (take ?i bs))" "of_nat (length (bs ! ?i))"] out nat
    by (simp add: read_one_def sii_new_content_def ra_err_def)
  then show ?thesis using range i(1) by (simp add: core_get_def run_simps block_read_def read_info_def)
qed

end

section \<open>Messages of a peer\<close>

context libs_laws
begin

lemma verify_empty_upgrade:
  assumes "cg_roots cg = []" "du_start u + du_length u = 0"
  shows "verify_upgrade L fork u None pk cg = Panic"
proof -
  have at: "ft_at (lib_ft L) (ft_new (lib_ft L) 0) 0 0" "pos_ok 0 0"
    using flat.new [of 0 0 0] by (simp_all add: pos_ok_def)
  obtain f where f: "lib_fuel L = Suc f" using enough_fuel by (cases "lib_fuel L") auto
  have "\<not> fst (ft_full_root (lib_ft L) 0 (ft_new (lib_ft L) 0))" using flat.full_root_none [OF at, of 0] by simp
  then show ?thesis using assms by (simp add: verify_upgrade_def f case_prod_unfold)
qed

end

text \<open>A peer's message with an upgrade from nothing to nothing makes a core that has no blocks yet
  panic; the core has checked no signature by then.\<close>

theorem empty_upgrade_panics:
  assumes "libs_laws L w" "mt_roots (hc_tree c) = []" "pf_fork pf = mt_fork (hc_tree c)"
    and "pf_block pf = None" "pf_hash pf = None" "pf_seek pf = None" "pf_upgrade pf = Some u" "du_start u + du_length u = 0"
  shows "verify_and_apply_proof L ra pf c = (Panic, c)"
proof -
  have "verify_upgrade L (pf_fork pf) u None pk (mt_changeset (hc_tree c)) = Panic" for pk
    using libs_laws.verify_empty_upgrade [OF assms(1) _ assms(8)] assms(2) by (simp add: mt_changeset_def changeset_new_def)
  then have "core_verify_proof L ra c pf = Panic"
    using assms(4-7) by (simp add: core_verify_proof_def verify_proof_def infos_to_nodes_def verify_tree_def normalize_data_def)
  then show ?thesis using assms(3) by (simp add: verify_and_apply_proof_def bindC_def)
qed

theorem empty_upgrade_panics_witness:
  "\<exists>c. core_inv ref_libs ref_wire mem_content ref_secret c [] {} \<and>
    verify_and_apply_proof ref_libs mem_access (ref_upgrade_proof\<lparr>pf_upgrade := Some (ref_upgrade\<lparr>du_start := 0, du_length := 0\<rparr>)\<rparr>) c = (Panic, c)"
proof -
  obtain c where c: "core_inv ref_libs ref_wire mem_content ref_secret c [] {}" using ref_core_new by blast
  have "mt_roots (hc_tree c) = []" "mt_fork (hc_tree c) = 0"
    using c by (simp_all add: core_inv_def core_view_def tree_held_def tree_of_def merkle_roots_def root_positions.simps)
  from empty_upgrade_panics [OF rl.libs_laws_axioms this(1), of "ref_upgrade_proof\<lparr>pf_upgrade := Some (ref_upgrade\<lparr>du_start := 0, du_length := 0\<rparr>)\<rparr>"
      "ref_upgrade\<lparr>du_start := 0, du_length := 0\<rparr>" mem_access] this(2) c
  show ?thesis by (auto simp: ref_upgrade_proof_def)
qed

text \<open>C36: a peer that asks for a block behind the end of the upgrade it asks for makes the core panic,
  whether the core has the block or not.\<close>

theorem block_behind_upgrade_panics:
  assumes "device_laws L w ra content" "core_inv L w content sk c bs have" "m < n" "n \<le> length bs" "n \<le> i" "i < 2 ^ 62"
  shows "core_create_proof L ra (Some \<lparr>rb_index = of_nat i, rb_nodes = k\<rparr>) None None (Some (upgrade_req m n)) c = (Panic, c)"
  using device_laws.core_create_beyond [OF assms(1) device_laws.inv_view [OF assms(1,2)] assms(3-6)] .

theorem block_behind_upgrade_panics_witness:
  "\<exists>c. core_inv ref_libs ref_wire mem_content ref_secret c ref_log {..<2} \<and>
    core_create_proof ref_libs mem_access (Some \<lparr>rb_index = 1, rb_nodes = 0\<rparr>) None None (Some (upgrade_req 0 1)) c = (Panic, c)"
proof -
  obtain c where c: "core_inv ref_libs ref_wire mem_content ref_secret c ref_log {..<2}" by (rule ref_core_blocks)
  with block_behind_upgrade_panics [OF mem_log.device_laws_axioms c, of 0 1 1 0] show ?thesis by auto
qed

section \<open>The offset of a block that comes with an upgrade\<close>

context libs_laws
begin

text \<open>A block below a root of the new log: the offset is looked up among the roots that were there before.\<close>

lemma offset_below_root:
  assumes roots: "root_positions (length bs) = xs @ p # ys" "holds_block i p" "\<forall>q\<in>set xs. \<not> holds_block i q" and small: "length bs < 2 ^ 62"
    and t: "mt_length t \<noteq> of_nat i" and cg: "cg_roots cg = merkle_roots L w bs"
      "cg_nodes cg = map (merkle_node L w bs) ((0, i) # path_positions i 0 (fst p) @ ps)" "\<forall>q\<in>set ps. in_tree (length bs) q"
  shows "\<exists>toff. byte_offset_in_changeset L t (of_nat i) cg infos = bindR (sum_root_lengths (mt_roots t) 0 (length xs) toff) (\<lambda>o'. Ok (Inr o'))"
proof -
  obtain k off where p: "p = (k, off)" by (cases p)
  let ?N = "merkle_node L w bs" and ?n = "length bs"
  obtain e where e: "root_chain e (p # ys) ?n" using root_chain_prefix [OF root_chain_roots [of ?n, unfolded roots(1)]] by blast
  then have c: "even off" "(off + 1) * 2 ^ k \<le> ?n" "?n < (off + 2) * 2 ^ k" by (simp_all add: p)
  have off: "off = i div 2 ^ k" using roots(2) by (simp add: p holds_block_def)
  have i: "i < ?n" "i < 2 ^ 62" using roots(2) c(2) small unfolding p holds_block_iff by linarith+
  have tree: "in_tree ?n (0 + k, i div 2 ^ (0 + k))" using c(2) off by (simp add: in_tree_def)
  have "2 ^ k \<le> (off + 1) * 2 ^ k" by simp
  then have "(2 :: nat) ^ k < 2 ^ 62" using c(2) small by linarith
  then have k: "k < 62" by (rule power_less_imp_less_exp [rotated]) simp
  have ok: "pos_ok (Suc k) (i div 2 ^ Suc k)" using block_pos_ok(1) [OF i(2), of "Suc k"] k by simp
  have above: "\<forall>n\<in>set (map ?N ps). n_index n \<noteq> pos_index (Suc (0 + k), i div 2 ^ Suc (0 + k))"
  proof
    fix n assume "n \<in> set (map ?N ps)"
    then obtain d o' where q: "n = ?N (d, o')" "in_tree ?n (d, o')" using cg(3) by auto
    obtain h where "off = 2 * h" using c(1) by (rule evenE)
    then have "(off div 2 + 1) * 2 ^ Suc k = (off + 2) * 2 ^ k" by (simp add: algebra_simps)
    with c(3) have "\<not> (off div 2 + 1) * 2 ^ Suc k \<le> ?n" by linarith
    then have "\<not> in_tree ?n (Suc k, i div 2 ^ Suc k)" unfolding div_pow_Suc [symmetric] off [symmetric] in_tree_def by (simp only: case_prod_conv fst_conv snd_conv simp_thms not_False_eq_True)
    then have "(d, o') \<noteq> (Suc k, i div 2 ^ Suc k)" using q(2) by auto
    then have "tree_index d o' \<noteq> tree_index (Suc k) (i div 2 ^ Suc k)" by (auto simp: tree_index_inj)
    moreover have "pos_ok d o'" using in_tree_pos_ok [OF q(2)] small by simp
    ultimately show "n_index n \<noteq> pos_index (Suc (0 + k), i div 2 ^ Suc (0 + k))"
      using pos_index_unat [OF ok] pos_index_unat [of d o'] unfolding q(1) n_index_merkle add_0 by metis
  qed
  have ix: "unat (of_nat i * 2 :: u64) = tree_index 0 i" using i(2) by (simp add: unat_mult_small unat_of_nat64)
  have it: "ft_at (lib_ft L) (ft_new (lib_ft L) (of_nat i * 2)) 0 i" using flat.new [OF ix] i(2) by (simp add: pos_ok_def)
  have it1: "ft_at (lib_ft L) (ft_parent (lib_ft L) (ft_new (lib_ft L) (of_nat i * 2))) (Suc 0) (i div 2 ^ Suc 0)"
    using flat.parent [OF it] block_pos_ok(1) [OF i(2), of "Suc 0"] by simp
  have right: "ft_is_right (lib_ft L) (ft_new (lib_ft L) (of_nat i * 2)) = odd (i div 2 ^ 0)"
    using flat.is_right [OF it] i(2) by (simp add: pos_ok_def)
  obtain toff where loop: "changeset_offset_loop L (cg_nodes cg) (ft_new (lib_ft L) (of_nat i * 2)) 0 False None = (toff, Some (?N (k, i div 2 ^ k)))"
    using offset_loop_path [OF tree small it1 above i(2), of 0] right at_index [OF it] by (auto simp: cg(2) p n_index_merkle)
  have "position (\<lambda>r. n_index r = n_index (?N p)) (map ?N xs @ ?N p # map ?N ys) = Some (length (map ?N xs))"
  proof (rule position_at)
    have "\<forall>q\<in>set (xs @ p # ys). in_tree ?n q" using root_chain_in_tree [OF root_chain_roots, of ?n] unfolding roots(1) .
    then have "pos_index x \<noteq> pos_index p" if "x \<in> set xs" for x
      using tree_pos_inj [of ?n x p] that small roots(2,3) by auto
    then show "\<forall>x\<in>set (map ?N xs). n_index x \<noteq> n_index (?N p)" by (auto simp: n_index_merkle)
  qed simp
  then have "position (\<lambda>r. n_index r = n_index (?N (k, i div 2 ^ k))) (cg_roots cg) = Some (length xs)"
    using p off by (simp add: cg(1) merkle_roots_def roots(1))
  then show ?thesis
    using t loop by (auto simp: byte_offset_in_changeset_def hypercore_index_into_merkle_tree_index_def Let_def mult.commute [of "2 :: u64" "of_nat i"])
qed

end

text \<open>C35: a core without blocks that asks an author for the whole log and one of its blocks in one request
  panics on the author's answer, which it has found genuine, unless the block lies below the first
  root of the log.\<close>

theorem block_with_first_upgrade_panics:
  assumes "device_laws L w ra content" "core_inv L w content sk author bs have" "i \<in> have" "0 < i"
    and "core_create_proof L ra (Some \<lparr>rb_index = of_nat i, rb_nodes = r\<rparr>) None None (Some (upgrade_req 0 (length bs))) author = (Ok (Some pf), author)"
    and "tree_of L w [] (hc_tree c)" "mt_fork (hc_tree c) = 0" "kp_public (hc_key_pair c) = kp_public (hc_key_pair author)"
    and "\<not> holds_block i (hd (root_positions (length bs)))"
  shows "(\<exists>cg. core_verify_proof L ra c pf = Ok cg) \<and> verify_and_apply_proof L ra pf c = (Panic, c)"
proof -
  have laws: "libs_laws L w" using assms(1) by (rule device_laws.axioms)
  have view: "core_view L w content sk author bs have" using device_laws.inv_view [OF assms(1,2)] .
  have small: "length bs < 2 ^ 62" using view by (auto simp: core_view_def tree_held_def MAX_BLOCKS_def)
  have i: "i < length bs" "i < 2 ^ 64" using view assms(3) small by (auto simp: core_view_def)
  obtain xs p ys where ups: "upgrade_positions 0 (root_positions (length bs)) = xs @ p # ys" "holds_block i p" "\<forall>q\<in>set xs. \<not> holds_block i q"
    by (rule fchain_split [OF upgrade_fchain [OF le0] le0 i(1)])
  have roots: "root_positions (length bs) = xs @ p # ys" using ups(1) by simp
  with assms(9) ups(2) have xs: "xs \<noteq> []" by auto
  have pf: "pf = \<lparr>pf_fork = 0,
       pf_block = Some \<lparr>dblk_index = of_nat i, dblk_value = bs ! i, dblk_nodes = map (merkle_node L w bs) (sibling_positions i 0 (fst p))\<rparr>,
       pf_hash = None, pf_seek = None, pf_upgrade = Some (upgrade_msg L w bs 0 (length bs) (xs @ ys) (tree_signature L w sk bs))\<rparr>"
    using assms(5) device_laws.core_create_block_upgrade_proof [OF assms(1) view order_refl le0 i(1) assms(3) ups, of r] by simp
  have t: "tree_of L w (take 0 bs) (hc_tree c)" using assms(6) by simp
  have nodes: "infos_to_nodes L None = Ok []" by (simp add: infos_to_nodes_def)
  from libs_laws.block_upgrade_proof_complete [OF laws t order_refl less_imp_le [OF small] le0 i(1) nodes ups pf]
  obtain ps where ps: "\<forall>q\<in>set ps. in_tree (length bs) q"
    "verify_proof L (hc_tree c) pf (kp_public (hc_key_pair c)) None =
      Ok (Inr (upgraded_changeset L w sk bs (hc_tree c) ((0, i) # path_positions i 0 (fst p) @ ps)))"
    unfolding assms(8) author_key(2) [OF view] by blast
  let ?cg = "upgraded_changeset L w sk bs (hc_tree c) ((0, i) # path_positions i 0 (fst p) @ ps)"
  have ok: "core_verify_proof L ra c pf = Ok ?cg" using ps(2) by (simp add: core_verify_proof_def)
  have len: "mt_length (hc_tree c) \<noteq> of_nat i" "mt_roots (hc_tree c) = []"
  proof -
    have "unat (of_nat i :: u64) = i" using i(2) by (simp add: unat_of_nat64)
    then show "mt_length (hc_tree c) \<noteq> of_nat i" using assms(4,6) by (auto simp: tree_of_def)
    show "mt_roots (hc_tree c) = []" using assms(6) by (simp add: tree_of_def merkle_roots_def root_positions.simps)
  qed
  have "byte_offset_in_changeset L (hc_tree c) (of_nat i) ?cg None = Panic"
    using libs_laws.offset_below_root [OF laws roots ups(2,3) small len(1), of ?cg ps None] ps(1) len(2) xs
    by (cases xs) (auto simp: upgraded_changeset_def index_at_def)
  then have "verify_and_apply_proof L ra pf c = (Panic, c)"
    using ok assms(7)
    by (simp add: verify_and_apply_proof_def bindC_def apply_block_def pf commitable_def upgraded_changeset_def mt_changeset_def changeset_new_def)
  with ok show ?thesis by blast
qed

text \<open>A log of three blocks, whose last block is a root of its own, and a core that knows its author.\<close>

lemma ref_core_three:
  obtains c where "core_inv ref_libs ref_wire mem_content ref_secret c [[1], [2, 3], [4]] {..<3}"
proof -
  obtain c where c: "core_inv ref_libs ref_wire mem_content ref_secret c [] {}" "kp_secret (hc_key_pair c) = Some ref_secret"
    using ref_core_new by blast
  have "core_small ([] @ [[1], [2, 3], [4]])" "length [[1], [2, 3], [4 :: u8]] \<le> MAX_BATCH"
    by (simp_all add: core_small_def MAX_BLOCKS_def MAX_BATCH_def byte_size_def)
  from mem_log.core_append_ok [OF c _ this(2,1) ref_nonblank] c(2) show thesis
    using that by (auto simp: numeral_3_eq_3 lessThan_atLeast0)
qed

theorem block_with_first_upgrade_panics_witness:
  "\<exists>author c pf. core_inv ref_libs ref_wire mem_content ref_secret author [[1], [2, 3], [4]] {..<3} \<and>
    core_create_proof ref_libs mem_access (Some \<lparr>rb_index = 2, rb_nodes = 0\<rparr>) None None (Some (upgrade_req 0 3)) author = (Ok (Some pf), author) \<and>
    core_inv ref_libs ref_wire mem_content ref_secret c [] {} \<and> verify_and_apply_proof ref_libs mem_access pf c = (Panic, c)"
proof -
  let ?bs = "[[1], [2, 3], [4]] :: bytes list"
  obtain author where a: "core_inv ref_libs ref_wire mem_content ref_secret author ?bs {..<3}" by (rule ref_core_three)
  obtain c where c: "core_inv ref_libs ref_wire mem_content ref_secret c [] {}" using ref_core_new by blast
  have va: "core_view ref_libs ref_wire mem_content ref_secret author ?bs {..<3}" and vc: "core_view ref_libs ref_wire mem_content ref_secret c [] {}"
    using mem_log.inv_view a c by blast+
  have r3: "root_positions (length ?bs) = [(1, 0)] @ (0, 2) # []"
    by (rule root_chain_unique [OF root_chain_roots]) simp
  have ups: "upgrade_positions 0 (root_positions (length ?bs)) = [(1, 0)] @ (0, 2) # []" "holds_block 2 (0, 2)" "\<forall>q\<in>set [(1, 0)]. \<not> holds_block 2 q"
    unfolding r3 by (simp_all add: holds_block_def)
  have i: "(0 :: nat) \<le> 2" "2 < length ?bs" "2 \<in> {..<3 :: nat}" by simp_all
  obtain pf where pf: "core_create_proof ref_libs mem_access (Some \<lparr>rb_index = of_nat 2, rb_nodes = 0\<rparr>) None None (Some (upgrade_req 0 (length ?bs))) author =
      (Ok (Some pf), author)"
    using mem_log.core_create_block_upgrade_proof [OF va order_refl i ups, of 0] by blast
  have t: "tree_of ref_libs ref_wire [] (hc_tree c)" "mt_fork (hc_tree c) = 0" "kp_public (hc_key_pair c) = kp_public (hc_key_pair author)"
    using vc author_key(2) [OF va] author_key(2) [OF vc] by (simp_all add: core_view_def tree_held_def)
  have "\<not> holds_block 2 (hd (root_positions (length ?bs)))" unfolding r3 by (simp add: holds_block_def)
  from block_with_first_upgrade_panics [OF mem_log.device_laws_axioms a i(3) _ pf t this] pf a c show ?thesis
    by (auto simp: numeral_3_eq_3)
qed

section \<open>Lengths of nodes\<close>

text \<open>Climbing depends on what is left in the queue only, and adds to the nodes it has.\<close>

lemma shift_same:
  assumes "drop (nq_i q) (nq_nodes q) = drop (nq_i q') (nq_nodes q')" "nq_extra q = nq_extra q'" "nq_length q = nq_length q'"
    and "shift q index = Ok (n, q1)"
  obtains q1' where "shift q' index = Ok (n, q1')" "drop (nq_i q1) (nq_nodes q1) = drop (nq_i q1') (nq_nodes q1')" "nq_extra q1 = nq_extra q1'"
    "nq_length q1 = nq_length q1'"
proof -
  have len: "length (nq_nodes q) - nq_i q = length (nq_nodes q') - nq_i q'" using assms(1) by (metis length_drop)
  have nth: "nq_nodes q ! nq_i q = nq_nodes q' ! nq_i q'" "drop (Suc (nq_i q)) (nq_nodes q) = drop (Suc (nq_i q')) (nq_nodes q')"
    if "nq_i q < length (nq_nodes q)"
  proof -
    have "nq_i q' < length (nq_nodes q')" using that len by linarith
    with that assms(1) show "nq_nodes q ! nq_i q = nq_nodes q' ! nq_i q'" "drop (Suc (nq_i q)) (nq_nodes q) = drop (Suc (nq_i q')) (nq_nodes q')"
      by (metis Cons_nth_drop_Suc list.inject)+
  qed
  show thesis
  proof (cases "\<exists>r. nq_extra q = Some r \<and> n_index r = index")
    case True
    then show thesis using assms that [of "q'\<lparr>nq_extra := None, nq_length := nq_length q' - 1\<rparr>"] by (auto simp: shift_def Let_def)
  next
    case False
    then have here: "nq_i q < length (nq_nodes q)" "n_index (nq_nodes q ! nq_i q) = index" "n = nq_nodes q ! nq_i q"
      "q1 = q\<lparr>nq_i := nq_i q + 1, nq_length := nq_length q - 1\<rparr>"
      using assms(4) by (auto simp: shift_def Let_def split: option.splits if_splits)
    moreover have "nq_i q' < length (nq_nodes q')" using here(1) len by linarith
    ultimately show thesis
      using that [of "q'\<lparr>nq_i := nq_i q' + 1, nq_length := nq_length q' - 1\<rparr>"] False nth [OF here(1)] assms(2,3)
      by (auto simp: shift_def Let_def split: option.splits)
  qed
qed

lemma climb_same:
  assumes "climb_queue L q it cur ns = Ok (root, ns')" "drop (nq_i q) (nq_nodes q) = drop (nq_i q') (nq_nodes q')"
    and "nq_extra q = nq_extra q'" "nq_length q = nq_length q'"
  shows "\<exists>ms. ns' = ns @ ms \<and> (\<forall>xs. climb_queue L q' it cur xs = Ok (root, xs @ ms))"
  using assms
proof (induction "nq_length q" arbitrary: q q' it cur ns)
  case 0
  then show ?case by (subst (asm) climb_queue.simps, subst climb_queue.simps) simp
next
  case (Suc k)
  let ?it1 = "ft_sibling (lib_ft L) it"
  let ?it2 = "ft_parent (lib_ft L) ?it1"
  from Suc.prems(1) Suc.hyps(2) obtain n q1 p where s: "shift q (ft_index (lib_ft L) ?it1) = Ok (n, q1)"
    and p: "parent_node L (ft_index (lib_ft L) ?it2) cur n = Ok p" and rec: "climb_queue L q1 ?it2 p (ns @ [n, p]) = Ok (root, ns')"
    by (subst (asm) climb_queue.simps) (auto simp: Let_def bindR_eq_Ok)
  obtain q1' where s': "shift q' (ft_index (lib_ft L) ?it1) = Ok (n, q1')" "drop (nq_i q1) (nq_nodes q1) = drop (nq_i q1') (nq_nodes q1')"
    "nq_extra q1 = nq_extra q1'" "nq_length q1 = nq_length q1'"
    by (rule shift_same [OF Suc.prems(2-4) s])
  have "k = nq_length q1" using shift_length [OF s] Suc.hyps(2) by simp
  from Suc.hyps(1) [OF this rec s'(2-4)] obtain ms where ms: "ns' = ns @ [n, p] @ ms" "\<And>xs. climb_queue L q1' ?it2 p xs = Ok (root, xs @ ms)" by auto
  have "0 < nq_length q'" using Suc.hyps(2) Suc.prems(4) by simp
  then have "climb_queue L q' it cur xs = Ok (root, xs @ [n, p] @ ms)" for xs
    by (subst climb_queue.simps) (simp add: Let_def s'(1) p ms(2))
  with ms(1) show ?case by blast
qed

text \<open>A tree that knows the node \<open>k\<close> levels above block \<open>i\<close> accepts the leaf of the block with \<open>k\<close> siblings.\<close>

context libs_laws
begin

lemma hash_proof_complete:
  assumes nodes: "infos_to_nodes L infos = Ok nodes" and i: "i < 2 ^ 62" "k \<le> 62"
    and known: "required_node t (pos_index (k, i div 2 ^ k)) nodes = Ok (Inr (merkle_node L w bs (k, i div 2 ^ k)))"
    and pf: "pf_hash pf = Some \<lparr>dh_index = of_nat i * 2, dh_nodes = map (merkle_node L w bs) ((0, i) # sibling_positions i 0 k)\<rparr>"
      "pf_block pf = None" "pf_seek pf = None" "pf_upgrade pf = None"
  shows "verify_proof L t pf pk infos = Ok (Inr ((mt_changeset t)\<lparr>cg_nodes := map (merkle_node L w bs) ((0, i) # path_positions i 0 k)\<rparr>))"
proof -
  have ix: "unat (of_nat i * 2 :: u64) = tree_index 0 i" using i(1) by (simp add: unat_mult_small unat_of_nat64)
  have at: "ft_at (lib_ft L) (ft_new (lib_ft L) (of_nat i * 2)) 0 (i div 2 ^ 0)"
    using flat.new [OF ix] i by (simp add: pos_ok_def)
  have index: "n_index (merkle_node L w bs (0, i)) = ft_index (lib_ft L) (ft_new (lib_ft L) (of_nat i * 2))"
    using at_index [OF at] by (simp add: pos_index_def)
  let ?ns = "map (merkle_node L w bs) ((0, i) # sibling_positions i 0 k)"
  have climb: "climb_queue L \<lparr>nq_i = 1, nq_nodes = ?ns, nq_extra = None, nq_length = k\<rparr> (ft_new (lib_ft L) (of_nat i * 2)) (merkle_node L w bs (0, i)) [merkle_node L w bs (0, i)] =
      Ok (merkle_node L w bs (k, i div 2 ^ k), map (merkle_node L w bs) ((0, i) # path_positions i 0 k))"
    using climb_complete [OF at i(1), of k "\<lparr>nq_i = 1, nq_nodes = ?ns, nq_extra = None, nq_length = k\<rparr>" bs] i(2) by simp
  have cg0: "cg_nodes (mt_changeset t) = []" by (simp add: mt_changeset_def changeset_new_def)
  have len: "length (sibling_positions i 0 k) = k" by (simp add: sibling_positions_def)
  have "verify_tree L None (Some \<lparr>dh_index = of_nat i * 2, dh_nodes = ?ns\<rparr>) None (mt_changeset t) =
      Ok (Some (merkle_node L w bs (k, i div 2 ^ k)), (mt_changeset t)\<lparr>cg_nodes := map (merkle_node L w bs) ((0, i) # path_positions i 0 k)\<rparr>)"
    using climb index by (simp add: verify_tree_def normalize_data_def Let_def shift_def node_queue_new_def cg0 len)
  then show ?thesis
    using nodes known pf by (simp add: verify_proof_def pos_index_def)
qed

end

text \<open>C37: when a proof of a hash is accepted, then so is the same proof with bytes moved between the lengths
  of its first node and the sibling of this node, and the core takes both nodes over as they came.\<close>

theorem hash_lengths_are_not_bound:
  fixes a b :: node and x :: u64
  assumes "verify_proof L t pf pk infos = Ok (Inr cg)" "pf_hash pf = Some \<lparr>dh_index = i, dh_nodes = a # b # rest\<rparr>"
    and "pf_block pf = None" "pf_seek pf = None" "pf_upgrade pf = None"
  defines "a' \<equiv> a\<lparr>n_length := n_length a + x\<rparr>" and "b' \<equiv> b\<lparr>n_length := n_length b - x\<rparr>"
  shows "\<exists>ns. cg_nodes cg = a # b # ns \<and>
    verify_proof L t (pf\<lparr>pf_hash := Some \<lparr>dh_index = i, dh_nodes = a' # b' # rest\<rparr>\<rparr>) pk infos = Ok (Inr (cg\<lparr>cg_nodes := a' # b' # ns\<rparr>))"
proof -
  let ?it = "ft_new (lib_ft L) i" and ?cg0 = "mt_changeset t"
  let ?it1 = "ft_sibling (lib_ft L) ?it"
  let ?it2 = "ft_parent (lib_ft L) ?it1"
  have cg0: "cg_nodes ?cg0 = []" by (simp add: mt_changeset_def changeset_new_def)
  define q where "q = (\<lambda>a b :: node. \<lparr>nq_i = 1, nq_nodes = a # b # rest, nq_extra = None, nq_length = Suc (length rest)\<rparr>)"
  define q2 where "q2 = (\<lambda>a b :: node. \<lparr>nq_i = 2, nq_nodes = a # b # rest, nq_extra = None, nq_length = length rest\<rparr>)"
  have tree: "verify_tree L None (Some \<lparr>dh_index = i, dh_nodes = a # b # rest\<rparr>) None ?cg0 =
      (if n_index a = ft_index (lib_ft L) ?it
       then bindR (climb_queue L (q a b) ?it a [a]) (\<lambda>(root, nodes). Ok (Some root, ?cg0\<lparr>cg_nodes := nodes\<rparr>))
       else Err InvalidOperation)" for a b
    by (simp add: verify_tree_def normalize_data_def Let_def shift_def node_queue_new_def q_def cg0)
  have climb: "climb_queue L (q a b) ?it a [a] =
      (if n_index b = ft_index (lib_ft L) ?it1
       then bindR (parent_node L (ft_index (lib_ft L) ?it2) a b) (\<lambda>p. climb_queue L (q2 a b) ?it2 p [a, b, p]) else Err InvalidOperation)" for a b
    by (subst climb_queue.simps) (simp add: q_def q2_def shift_def Let_def numeral_2_eq_2)
  from assms(1) obtain nodes root ns r where ok: "infos_to_nodes L infos = Ok nodes" "n_index a = ft_index (lib_ft L) ?it"
    "climb_queue L (q a b) ?it a [a] = Ok (root, ns)" "cg = ?cg0\<lparr>cg_nodes := ns\<rparr>" "required_node t (n_index root) nodes = Ok (Inr r)" "n_hash r = n_hash root"
  proof -
    obtain nodes root ns v where r: "infos_to_nodes L infos = Ok nodes" "n_index a = ft_index (lib_ft L) ?it"
      "climb_queue L (q a b) ?it a [a] = Ok (root, ns)" "required_node t (n_index root) nodes = Ok v"
      "(case v of Inl instr \<Rightarrow> Ok (Inl [instr])
        | Inr r \<Rightarrow> if n_hash r \<noteq> n_hash root then Err InvalidChecksum else Ok (Inr (?cg0\<lparr>cg_nodes := ns\<rparr>))) = Ok (Inr cg)"
      using assms(1-5) by (auto simp: verify_proof_def tree bindR_eq_Ok split: if_splits)
    then show thesis using that by (cases v) (auto split: if_splits)
  qed
  then obtain p where p: "n_index b = ft_index (lib_ft L) ?it1" "parent_node L (ft_index (lib_ft L) ?it2) a b = Ok p"
    "climb_queue L (q2 a b) ?it2 p [a, b, p] = Ok (root, ns)"
    by (auto simp: climb bindR_eq_Ok split: if_splits)
  have "parent_node L (ft_index (lib_ft L) ?it2) a' b' = Ok p"
    using p(2) by (simp add: parent_node_def hash_parent_def a'_def b'_def Let_def add.commute split: if_splits)
  moreover obtain ms where ms: "ns = [a, b, p] @ ms" "\<And>xs. climb_queue L (q2 a' b') ?it2 p xs = Ok (root, xs @ ms)"
    using climb_same [OF p(3), of "q2 a' b'"] by (auto simp: q2_def)
  moreover have "n_index a' = n_index a" "n_index b' = n_index b" by (simp_all add: a'_def b'_def)
  ultimately have "verify_tree L None (Some \<lparr>dh_index = i, dh_nodes = a' # b' # rest\<rparr>) None ?cg0 =
      Ok (Some root, ?cg0\<lparr>cg_nodes := [a', b', p] @ ms\<rparr>)"
    using ok(2) p(1) by (simp add: tree climb)
  then show ?thesis
    using ok ms(1) assms(2-5) by (intro exI [of _ "p # ms"]) (simp add: verify_proof_def)
qed

definition ref_hash_proof :: proof_msg where
  "ref_hash_proof = \<lparr>pf_fork = 0, pf_block = None,
     pf_hash = Some \<lparr>dh_index = 0, dh_nodes = [merkle_node ref_libs ref_wire ref_log (0, 0), merkle_node ref_libs ref_wire ref_log (0, 1)]\<rparr>,
     pf_seek = None, pf_upgrade = None\<rparr>"

lemma ref_hash_accepted:
  "\<exists>cg. verify_proof ref_libs ref_replica ref_hash_proof [] (Some ref_reads) = Ok (Inr cg)"
proof -
  have "required_node ref_replica (pos_index (1, 0 div 2 ^ 1)) [(2, None)] = Ok (Inr (merkle_node ref_libs ref_wire ref_log (1, 0 div 2 ^ 1)))"
    unfolding ref_required by (simp add: pos_index_def tree_index_def)
  moreover have "sibling_positions 0 0 1 = [(0, 1)]" by (simp add: sibling_positions_def sibling_offset_def)
  ultimately show ?thesis
    using rl.hash_proof_complete [OF ref_reads_nodes, of 0 1 ref_replica ref_log ref_hash_proof "[]"] by (simp add: ref_hash_proof_def)
qed

theorem hash_lengths_are_not_bound_witness:
  "let a = merkle_node ref_libs ref_wire ref_log (0, 0); b = merkle_node ref_libs ref_wire ref_log (0, 1);
       a' = a\<lparr>n_length := n_length a + 1\<rparr>; b' = b\<lparr>n_length := n_length b - 1\<rparr>
   in n_length a = 1 \<and> n_length a' = 2 \<and>
     (\<exists>cg ns. verify_proof ref_libs ref_replica ref_hash_proof [] (Some ref_reads) = Ok (Inr cg) \<and> cg_nodes cg = a # b # ns \<and>
       verify_proof ref_libs ref_replica (ref_hash_proof\<lparr>pf_hash := Some \<lparr>dh_index = 0, dh_nodes = [a', b']\<rparr>\<rparr>) [] (Some ref_reads) =
         Ok (Inr (cg\<lparr>cg_nodes := a' # b' # ns\<rparr>)))"
proof -
  obtain cg where cg: "verify_proof ref_libs ref_replica ref_hash_proof [] (Some ref_reads) = Ok (Inr cg)" using ref_hash_accepted by blast
  have "n_length (merkle_node ref_libs ref_wire ref_log (0, 0)) = 1" by (simp add: merkle_node_def node_new_def subtree_size_leaf)
  then show ?thesis
    using cg hash_lengths_are_not_bound [OF cg, of 0 _ _ "[]" 1] by (auto simp: ref_hash_proof_def Let_def)
qed

end
