(* ===== verification/Node_Cache.thy ===== *)
theory Node_Cache
  imports Core_Open Core_Properties Missing_Nodes
begin

text \<open>
  The feature \<open>cache\<close>: \<^verbatim>\<open>src/src/common/cache.rs\<close>, the cache options of \<^verbatim>\<open>src/src/builder.rs\<close> and the lines of
  \<^verbatim>\<open>src/src/tree/merkle_tree.rs\<close> that consult and fill the cache.  The cache itself is the crate \<open>moka\<close>, a
  parameter: it may forget an entry at any time, but it never makes one up.
\<close>

declare split_paired_All [simp del] split_paired_Ex [simp del]

section \<open>The cache crate\<close>

text \<open>A \<open>Duration\<close> in nanoseconds.  A read may change the cache, which keeps track of the accesses.\<close>

type_synonym duration = nat

definition from_secs :: "u64 \<Rightarrow> duration" where
  "from_secs s = unat s * 10 ^ 9"

record 'c moka =
  mk_build :: "(duration \<times> duration) option \<Rightarrow> u64 \<Rightarrow> u32 \<Rightarrow> 'c"
  mk_insert :: "u64 \<Rightarrow> node \<Rightarrow> 'c \<Rightarrow> 'c"
  mk_get :: "u64 \<Rightarrow> 'c \<Rightarrow> node option \<times> 'c"

text \<open>What the cache may still know, \<open>kept\<close>, shrinks at will, and grows by insertions only.\<close>

locale moka_laws =
  fixes mk :: "'c moka" and kept :: "'c \<Rightarrow> u64 \<Rightarrow> node option"
  assumes build: "kept (mk_build mk ts capacity weight) = (\<lambda>_. None)"
    and insert: "kept (mk_insert mk k n c) \<subseteq>\<^sub>m (kept c)(k \<mapsto> n)"
    and get: "fst (mk_get mk k c) = Some n \<Longrightarrow> kept c k = Some n"
    and get_kept: "kept (snd (mk_get mk k c)) \<subseteq>\<^sub>m kept c"

text \<open>A cache in memory that drops its oldest entries when it is full.\<close>

definition ref_moka :: "(nat \<times> (u64 \<times> node) list) moka" where
  "ref_moka = \<lparr>mk_build = (\<lambda>ts capacity weight. (unat capacity div unat weight, [])),
     mk_insert = (\<lambda>k n (size, es). (size, take size ((k, n) # filter (\<lambda>(k', _). k' \<noteq> k) es))),
     mk_get = (\<lambda>k c. (map_of (snd c) k, c))\<rparr>"

lemma map_of_take: "map_of (take n es) \<subseteq>\<^sub>m map_of es"
proof (induction es arbitrary: n)
  case (Cons e es)
  then show ?case by (cases n) (auto simp: map_le_def dom_def)
qed simp

lemma map_of_other: "map_of ((k, n) # filter (\<lambda>(k', _). k' \<noteq> k) es) = (map_of es)(k \<mapsto> n)"
proof -
  have "map_of (filter (\<lambda>(k', _). k' \<noteq> k) es) j = map_of es j" if "j \<noteq> k" for j
    using that by (induction es) auto
  then show ?thesis by auto
qed

interpretation ref_cache: moka_laws ref_moka "\<lambda>c. map_of (snd c)"
proof
  show "map_of (snd (mk_insert ref_moka k n c)) \<subseteq>\<^sub>m (map_of (snd c))(k \<mapsto> n)" for k n c
    using map_of_take [of "fst c" "(k, n) # filter (\<lambda>(k', _). k' \<noteq> k) (snd c)"] unfolding map_of_other
    by (cases c) (simp add: ref_moka_def)
qed (simp_all add: ref_moka_def)

section \<open>Options\<close>

definition DEFAULT_CACHE_TTL_SEC :: u64 where "DEFAULT_CACHE_TTL_SEC = 31556952"

definition DEFAULT_CACHE_TTI_SEC :: u64 where "DEFAULT_CACHE_TTI_SEC = 31556952"

definition DEFAULT_CACHE_MAX_SIZE :: u64 where "DEFAULT_CACHE_MAX_SIZE = 100000"

definition NODE_WEIGHT :: u32 where "NODE_WEIGHT = 3 * 8 + 32 + 4 + 8 + 8"

record cache_options =
  co_time_to_live :: "duration option"
  co_time_to_idle :: "duration option"
  co_max_capacity :: "u64 option"

definition cache_options_new :: cache_options where
  "cache_options_new = \<lparr>co_time_to_live = None, co_time_to_idle = None, co_max_capacity = None\<rparr>"

abbreviation unwrap_or :: "'a option \<Rightarrow> 'a \<Rightarrow> 'a" where
  "unwrap_or x d \<equiv> (case x of Some v \<Rightarrow> v | None \<Rightarrow> d)"

definition to_node_cache :: "'c moka \<Rightarrow> cache_options \<Rightarrow> node list \<Rightarrow> 'c" where
  "to_node_cache mk opts initial_nodes =
     (let capacity = unwrap_or (co_max_capacity opts) DEFAULT_CACHE_MAX_SIZE;
          cache = (if co_time_to_live opts \<noteq> None \<or> co_time_to_idle opts \<noteq> None
                   then mk_build mk (Some (unwrap_or (co_time_to_live opts) (from_secs DEFAULT_CACHE_TTL_SEC),
                          unwrap_or (co_time_to_idle opts) (from_secs DEFAULT_CACHE_TTI_SEC))) capacity NODE_WEIGHT
                   else mk_build mk None capacity NODE_WEIGHT)
      in fold (\<lambda>n. mk_insert mk (n_index n) n) initial_nodes cache)"

text \<open>\<open>CacheOptionsBuilder\<close> wraps the options.\<close>

datatype cache_options_builder = CacheOptionsBuilder cache_options

definition cache_builder_new :: cache_options_builder where
  "cache_builder_new = CacheOptionsBuilder cache_options_new"

fun cache_time_to_live :: "cache_options_builder \<Rightarrow> duration \<Rightarrow> cache_options_builder" where
  "cache_time_to_live (CacheOptionsBuilder opts) d = CacheOptionsBuilder (opts\<lparr>co_time_to_live := Some d\<rparr>)"

fun cache_time_to_idle :: "cache_options_builder \<Rightarrow> duration \<Rightarrow> cache_options_builder" where
  "cache_time_to_idle (CacheOptionsBuilder opts) d = CacheOptionsBuilder (opts\<lparr>co_time_to_idle := Some d\<rparr>)"

fun cache_max_capacity :: "cache_options_builder \<Rightarrow> u64 \<Rightarrow> cache_options_builder" where
  "cache_max_capacity (CacheOptionsBuilder opts) n = CacheOptionsBuilder (opts\<lparr>co_max_capacity := Some n\<rparr>)"

fun cache_builder_build :: "cache_options_builder \<Rightarrow> cache_options" where
  "cache_builder_build (CacheOptionsBuilder opts) = opts"

text \<open>The builder of a core with the additional option.\<close>

record 'd cached_builder =
  cb_builder :: "'d hypercore_builder"
  cb_node_cache_options :: "cache_options option"

definition builder_node_cache_options :: "'d cached_builder \<Rightarrow> cache_options_builder \<Rightarrow> 'd cached_builder" where
  "builder_node_cache_options cb b = cb\<lparr>cb_node_cache_options := Some (cache_builder_build b)\<rparr>"

section \<open>A tree with a cache\<close>

record 'c cached_tree =
  ct_tree :: merkle_tree
  ct_node_cache :: "'c option"

definition cached_open ::
  "'it libs \<Rightarrow> 'c moka \<Rightarrow> header_tree \<Rightarrow> store_info list option \<Rightarrow> cache_options option \<Rightarrow>
    (instructions + 'c cached_tree) hres" where
  "cached_open L mk ht infos node_cache_options =
     bindR (mt_open L ht infos) (\<lambda>r.
     case r of
       Inl instrs \<Rightarrow> Ok (Inl instrs)
     | Inr t \<Rightarrow> Ok (Inr \<lparr>ct_tree = t,
         ct_node_cache = map_option (\<lambda>opts. to_node_cache mk opts (mt_roots t)) node_cache_options\<rparr>))"

text \<open>The nodes that were read go into the cache, unless they are blank, also those in front of one that
  cannot be read.\<close>

fun cached_infos_loop ::
  "'it libs \<Rightarrow> 'c moka \<Rightarrow> store_info list \<Rightarrow> node_infos \<Rightarrow> 'c option \<Rightarrow> node_infos hres \<times> 'c option" where
  "cached_infos_loop L mk [] nodes cache = (Ok nodes, cache)"
| "cached_infos_loop L mk (info # infos) nodes cache =
     (let index = index_from_info info
      in if \<not> si_miss info then
           (case bindR (expect (si_data info)) (\<lambda>data. node_from_bytes L index data) of
              Ok n \<Rightarrow> cached_infos_loop L mk infos (im_insert index (Some n) nodes)
                (if \<not> n_blank n then map_option (mk_insert mk (n_index n) n) cache else cache)
            | Err e \<Rightarrow> (Err e, cache)
            | Panic \<Rightarrow> (Panic, cache)
            | Diverge \<Rightarrow> (Diverge, cache))
         else cached_infos_loop L mk infos (im_insert index None nodes) cache)"

definition cached_infos_to_nodes ::
  "'it libs \<Rightarrow> 'c moka \<Rightarrow> 'c cached_tree \<Rightarrow> store_info list option \<Rightarrow> node_infos hres \<times> 'c cached_tree" where
  "cached_infos_to_nodes L mk ct infos =
     (case infos of
        Some infos \<Rightarrow>
          (let (r, cache) = cached_infos_loop L mk infos [] (ct_node_cache ct) in (r, ct\<lparr>ct_node_cache := cache\<rparr>))
      | None \<Rightarrow> (Ok [], ct))"

definition cached_node ::
  "'c moka \<Rightarrow> 'c cached_tree \<Rightarrow> u64 \<Rightarrow> node_infos \<Rightarrow> bool \<Rightarrow> (store_info_instruction + node option) hres \<times> 'c cached_tree" where
  "cached_node mk ct index nodes allow_miss =
     (case ct_node_cache ct of
        Some c \<Rightarrow>
          (case mk_get mk index c of
             (Some n, c) \<Rightarrow> (Ok (Inr (Some n)), ct\<lparr>ct_node_cache := Some c\<rparr>)
           | (None, c) \<Rightarrow> (mt_node (ct_tree ct) index nodes allow_miss, ct\<lparr>ct_node_cache := Some c\<rparr>))
      | None \<Rightarrow> (mt_node (ct_tree ct) index nodes allow_miss, ct))"

definition cached_required_node ::
  "'c moka \<Rightarrow> 'c cached_tree \<Rightarrow> u64 \<Rightarrow> node_infos \<Rightarrow> (store_info_instruction + node) hres \<times> 'c cached_tree" where
  "cached_required_node mk ct index nodes =
     (let (r, ct) = cached_node mk ct index nodes False
      in (bindR r (\<lambda>r. case r of Inl i \<Rightarrow> Ok (Inl i) | Inr (Some n) \<Rightarrow> Ok (Inr n) | Inr None \<Rightarrow> Err InvalidOperation), ct))"

definition cached_optional_node ::
  "'c moka \<Rightarrow> 'c cached_tree \<Rightarrow> u64 \<Rightarrow> node_infos \<Rightarrow> (store_info_instruction + node option) hres \<times> 'c cached_tree" where
  "cached_optional_node mk ct index nodes = cached_node mk ct index nodes True"

section \<open>What the cache knows\<close>

text \<open>Only nodes of the log that the tree knows are in the cache.\<close>

definition genuine_cache ::
  "'it libs \<Rightarrow> wire_format \<Rightarrow> bytes list \<Rightarrow> (nat \<times> nat) set \<Rightarrow> ('c \<Rightarrow> u64 \<Rightarrow> node option) \<Rightarrow> 'c option \<Rightarrow> bool" where
  "genuine_cache L w bs K kept cache \<longleftrightarrow> (\<forall>c k n. cache = Some c \<longrightarrow> kept c k = Some n \<longrightarrow>
     (\<exists>p\<in>K. k = pos_index p \<and> n = merkle_node L w bs p))"

context moka_laws
begin

lemma genuine_insert:
  assumes "genuine_cache L w bs K kept cache" "p \<in> K"
  shows "genuine_cache L w bs K kept (map_option (mk_insert mk (pos_index p) (merkle_node L w bs p)) cache)"
  unfolding genuine_cache_def
proof (intro allI impI)
  fix c k n assume "map_option (mk_insert mk (pos_index p) (merkle_node L w bs p)) cache = Some c" "kept c k = Some n"
  then obtain c0 where c0: "cache = Some c0" "((kept c0)(pos_index p \<mapsto> merkle_node L w bs p)) k = Some n"
    using insert [of "pos_index p" "merkle_node L w bs p"] by (auto simp: map_le_def dom_def split: if_splits)
  then show "\<exists>q\<in>K. k = pos_index q \<and> n = merkle_node L w bs q"
    using assms unfolding genuine_cache_def by (cases "k = pos_index p") (auto split: if_splits)
qed

lemma genuine_get:
  assumes "genuine_cache L w bs K kept (Some c)"
  shows "genuine_cache L w bs K kept (Some (snd (mk_get mk k c)))"
  using assms get_kept [of k c] unfolding genuine_cache_def map_le_def by (metis domI option.inject)

lemma genuine_initial:
  assumes "set ps \<subseteq> K"
  shows "genuine_cache L w bs K kept (Some (to_node_cache mk opts (map (merkle_node L w bs) ps)))"
proof -
  have "genuine_cache L w bs K kept (Some (fold (\<lambda>n. mk_insert mk (n_index n) n) (map (merkle_node L w bs) ps) c))"
    if "genuine_cache L w bs K kept (Some c)" for c
    using that assms
  proof (induction ps arbitrary: c)
    case (Cons p ps)
    have "n_index (merkle_node L w bs p) = pos_index p" by (cases p) (simp add: pos_index_def)
    with Cons genuine_insert [OF Cons.prems(1), of p] show ?case by simp
  qed simp
  moreover have "genuine_cache L w bs K kept (Some (mk_build mk ts capacity weight))" for ts capacity weight
    by (simp add: genuine_cache_def build)
  ultimately show ?thesis by (simp add: to_node_cache_def Let_def)
qed

text \<open>The answer is that of the tree without the cache, or the node that the tree knows.\<close>

lemma cached_answer:
  assumes "genuine_cache L w bs K kept (ct_node_cache ct)" "\<forall>q\<in>K. in_tree (length bs) q" "in_tree (length bs) p" "length bs \<le> MAX_BLOCKS"
  shows "\<exists>r ct'. cached_node mk ct (pos_index p) nodes allow_miss = (r, ct') \<and> ct_tree ct' = ct_tree ct \<and>
    genuine_cache L w bs K kept (ct_node_cache ct') \<and>
    (r = mt_node (ct_tree ct) (pos_index p) nodes allow_miss \<or> p \<in> K \<and> r = Ok (Inr (Some (merkle_node L w bs p))))"
proof (cases "ct_node_cache ct")
  case None
  with assms(1) show ?thesis by (simp add: cached_node_def)
next
  case (Some c)
  obtain g c' where g: "mk_get mk (pos_index p) c = (g, c')" by (cases "mk_get mk (pos_index p) c")
  have c': "genuine_cache L w bs K kept (Some c')" using genuine_get [of L w bs K c "pos_index p"] assms(1) Some g by simp
  show ?thesis
  proof (cases g)
    case None
    with Some g c' show ?thesis by (simp add: cached_node_def)
  next
    case (Some n)
    with g get [of "pos_index p" c n] have "kept c (pos_index p) = Some n" by simp
    with assms(1) \<open>ct_node_cache ct = Some c\<close> obtain q where q: "q \<in> K" "pos_index p = pos_index q" "n = merkle_node L w bs q"
      unfolding genuine_cache_def by blast
    then have "p = q" using pos_index_inj [OF assms(3) _ assms(4)] assms(2) by blast
    with q Some g c' \<open>ct_node_cache ct = Some c\<close> show ?thesis by (simp add: cached_node_def)
  qed
qed

end

text \<open>What the store gives for a position: the node that the tree knows, or zeros, or nothing.\<close>

definition read_of :: "'it libs \<Rightarrow> wire_format \<Rightarrow> bytes list \<Rightarrow> (nat \<times> nat) set \<Rightarrow> bytes \<Rightarrow> nat \<times> nat \<Rightarrow> store_info" where
  "read_of L w bs K f p = (if p \<in> K then node_info L w bs p else gap_info f p)"

context libs_laws
begin

lemma cached_infos_loop_eq:
  assumes "moka_laws mk kept" "genuine_cache L w bs K kept cache" "\<forall>p\<in>set ps. in_tree (length bs) p" "length bs \<le> MAX_BLOCKS"
    and "\<forall>p\<in>K. \<not> n_blank (merkle_node L w bs p)"
  shows "\<exists>nodes' cache'. cached_infos_loop L mk (map (read_of L w bs K f) ps) nodes cache = (Ok nodes', cache') \<and>
    infos_to_nodes_loop L (map (read_of L w bs K f) ps) nodes = Ok nodes' \<and> genuine_cache L w bs K kept cache'"
  using assms(2,3)
proof (induction ps arbitrary: nodes cache)
  case (Cons p ps)
  have p: "in_tree (length bs) p" and ps: "\<forall>p\<in>set ps. in_tree (length bs) p" using Cons.prems by simp_all
  note index = index_from_node_info [OF p assms(4)]
  have ix: "n_index (merkle_node L w bs p) = pos_index p" by (cases p) (simp add: pos_index_def)
  show ?case
  proof (cases "p \<in> K")
    case True
    with Cons.IH [OF moka_laws.genuine_insert [OF assms(1) Cons.prems(1) True] ps] stored_node_read [OF p assms(4)] index ix assms(5)
    show ?thesis by (simp add: read_of_def node_info_def si_new_content_def index_from_info_def Let_def)
  next
    case False
    obtain nd where nd: "node_from_bytes L (pos_index p) (replicate 40 0) = Ok nd" "n_blank nd" using blank_node by blast
    show ?thesis
    proof (cases "40 * tree_index (fst p) (snd p) + 40 \<le> length f")
      case True
      with False nd index Cons.IH [OF Cons.prems(1) ps, of "im_insert (pos_index p) (Some nd) nodes"] show ?thesis
        by (simp add: read_of_def gap_info_def si_new_content_def index_from_info_def Let_def)
    next
      case out: False
      with False index Cons.IH [OF Cons.prems(1) ps, of "im_insert (pos_index p) None nodes"] show ?thesis
        by (simp add: read_of_def gap_info_def si_new_content_def si_new_content_miss_def index_from_info_def Let_def)
    qed
  qed
qed simp

end

context device_laws
begin

lemma read_asked:
  assumes known: "tree_known L w bs K t (stored content s Tree)" and gaps: "tree_gaps K t (stored content s Tree)"
    and ps: "\<forall>q\<in>set ps. in_tree (length bs) q \<and> im_get (mt_unflushed t) (pos_index q) = None"
  shows "read_infos ra s (map ask_of ps) = Ok (map (read_of L w bs K (stored content s Tree)) ps)"
  using ps
proof (induction ps)
  case (Cons p ps)
  have small: "length bs \<le> MAX_BLOCKS" using known by (simp add: tree_known_def)
  have "read_infos ra s [ask_of p] = Ok [read_of L w bs K (stored content s Tree) p]"
    using read_known [OF known, of p] read_gap [OF gaps _ small, of p] Cons.prems by (simp add: read_of_def)
  then have "read_one ra s (ask_of p) = Ok (read_of L w bs K (stored content s Tree) p)" by (cases "read_one ra s (ask_of p)") simp_all
  with Cons show ?case by simp
qed simp

end

section \<open>Properties\<close>

text \<open>C31: on a tree that knows some of the nodes of a log and is not being cut, the cache opens with the roots, and holds
  nothing but nodes that the tree knows, whatever is read: nodes, zeros where a node has not been
  written, or nothing behind the end of the store.  With the cache the same nodes are read as without
  it; and a node that is asked for gets the answer of the tree without the cache, or, when the tree
  knows the node, the node at once.\<close>

theorem node_cache_is_transparent:
  assumes "device_laws L w ra content" "moka_laws mk kept" "tree_known L w bs K t (stored content s Tree)" "tree_gaps K t (stored content s Tree)"
    and "set (root_positions (length bs)) \<subseteq> K" "in_tree (length bs) p"
    and "\<forall>q\<in>set ps. in_tree (length bs) q \<and> im_get (mt_unflushed t) (pos_index q) = None"
  shows "genuine_cache L w bs K kept (Some (to_node_cache mk opts (mt_roots t))) \<and>
    (genuine_cache L w bs K kept cache \<longrightarrow>
      (\<exists>infos nodes ct r ct'. read_infos ra s (map ask_of ps) = Ok infos \<and> infos_to_nodes L (Some infos) = Ok nodes \<and>
        cached_infos_to_nodes L mk \<lparr>ct_tree = t, ct_node_cache = cache\<rparr> (Some infos) = (Ok nodes, ct) \<and>
        cached_node mk ct (pos_index p) nodes allow_miss = (r, ct') \<and>
        (r = mt_node t (pos_index p) nodes allow_miss \<or> p \<in> K \<and> r = Ok (Inr (Some (merkle_node L w bs p)))) \<and>
        ct_tree ct' = t \<and> genuine_cache L w bs K kept (ct_node_cache ct')))"
proof (intro conjI impI)
  have laws: "libs_laws L w" using assms(1) by (rule device_laws.axioms)
  have small: "length bs \<le> MAX_BLOCKS" and roots: "mt_roots t = map (merkle_node L w bs) (root_positions (length bs))"
    and K: "\<forall>q\<in>K. in_tree (length bs) q" "\<forall>q\<in>K. \<not> n_blank (merkle_node L w bs q)"
    using assms(3) by (auto simp: tree_known_def tree_of_def merkle_roots_def)
  show "genuine_cache L w bs K kept (Some (to_node_cache mk opts (mt_roots t)))"
    unfolding roots by (rule moka_laws.genuine_initial [OF assms(2,5)])
  assume cache: "genuine_cache L w bs K kept cache"
  have "\<forall>q\<in>set ps. in_tree (length bs) q" using assms(7) by blast
  from libs_laws.cached_infos_loop_eq [OF laws assms(2) cache this small K(2), of "stored content s Tree" "[]"]
  obtain nodes cache' where loop: "cached_infos_loop L mk (map (read_of L w bs K (stored content s Tree)) ps) [] cache = (Ok nodes, cache')"
    "infos_to_nodes_loop L (map (read_of L w bs K (stored content s Tree)) ps) [] = Ok nodes" "genuine_cache L w bs K kept cache'" by blast
  have "genuine_cache L w bs K kept (ct_node_cache \<lparr>ct_tree = t, ct_node_cache = cache'\<rparr>)" using loop(3) by simp
  from moka_laws.cached_answer [OF assms(2) this K(1) assms(6) small, of nodes allow_miss] loop(1,2) device_laws.read_asked [OF assms(1,3,4,7)]
  show "\<exists>infos nodes ct r ct'. read_infos ra s (map ask_of ps) = Ok infos \<and> infos_to_nodes L (Some infos) = Ok nodes \<and>
      cached_infos_to_nodes L mk \<lparr>ct_tree = t, ct_node_cache = cache\<rparr> (Some infos) = (Ok nodes, ct) \<and>
      cached_node mk ct (pos_index p) nodes allow_miss = (r, ct') \<and>
      (r = mt_node t (pos_index p) nodes allow_miss \<or> p \<in> K \<and> r = Ok (Inr (Some (merkle_node L w bs p)))) \<and>
      ct_tree ct' = t \<and> genuine_cache L w bs K kept (ct_node_cache ct')"
    by (auto simp: cached_infos_to_nodes_def infos_to_nodes_def)
qed

text \<open>A tree that knows the root of a log of two blocks, on a store with zeros in front of the root and
  nothing behind it.\<close>

definition ref_cached_tree :: merkle_tree where
  "ref_cached_tree = ref_replica\<lparr>mt_unflushed := []\<rparr>"

definition ref_cached_store :: "bytes storage" where
  "ref_cached_store = mem_empty\<lparr>st_tree := replicate 40 0 @ node_bytes ref_wire (merkle_node ref_libs ref_wire ref_log (1, 0))\<rparr>"

lemma ref_cached_known:
  "tree_known ref_libs ref_wire ref_log {(1, 0)} ref_cached_tree (stored mem_content ref_cached_store Tree)"
  "tree_gaps {(1, 0)} ref_cached_tree (stored mem_content ref_cached_store Tree)"
proof -
  have len: "length (node_bytes ref_wire (merkle_node ref_libs ref_wire ref_log (1, 0))) = 40" by (rule rl.length_node_bytes)
  have f: "stored mem_content ref_cached_store Tree = replicate 40 0 @ node_bytes ref_wire (merkle_node ref_libs ref_wire ref_log (1, 0))"
    using len by (simp add: ref_cached_store_def mem_content_def get_random_access.simps MAX_FILE_def)
  have "merkle_roots ref_libs ref_wire ref_log = [merkle_node ref_libs ref_wire ref_log (1, 0)]"
    using root_positions_2 by (simp add: merkle_roots_def numeral_2_eq_2)
  then have "tree_of ref_libs ref_wire ref_log ref_cached_tree" by (simp add: tree_of_def ref_cached_tree_def ref_replica_def byte_size_def)
  with ref_nonblank [of ref_log] len show "tree_known ref_libs ref_wire ref_log {(1, 0)} ref_cached_tree (stored mem_content ref_cached_store Tree)"
    unfolding f by (simp add: tree_known_def ref_cached_tree_def ref_replica_def MAX_BLOCKS_def nonblank_def in_tree_def holds_at_def slice_def tree_index_def)
  show "tree_gaps {(1, 0)} ref_cached_tree (stored mem_content ref_cached_store Tree)"
    unfolding f using len by (auto simp: tree_gaps_def ref_cached_tree_def ref_replica_def blank_outside_def slots_def tree_index_def nth_append)
qed

theorem node_cache_is_transparent_witness:
  "\<exists>infos nodes ct r ct'. read_infos mem_access ref_cached_store (map ask_of [(0, 0), (1, 0), (0, 1)]) = Ok infos \<and>
    infos_to_nodes ref_libs (Some infos) = Ok nodes \<and>
    cached_infos_to_nodes ref_libs ref_moka \<lparr>ct_tree = ref_cached_tree,
      ct_node_cache = Some (to_node_cache ref_moka cache_options_new (mt_roots ref_cached_tree))\<rparr> (Some infos) = (Ok nodes, ct) \<and>
    cached_node ref_moka ct (pos_index (0, 0)) nodes True = (r, ct') \<and> r = mt_node ref_cached_tree (pos_index (0, 0)) nodes True \<and>
    genuine_cache ref_libs ref_wire ref_log {(1, 0)} (\<lambda>c. map_of (snd c)) (ct_node_cache ct')"
proof -
  have "set (root_positions (length ref_log)) \<subseteq> {(1, 0)}" "in_tree (length ref_log) (0, 0)"
    "\<forall>q\<in>set [(0, 0), (1, 0), (0, 1)]. in_tree (length ref_log) q \<and> im_get (mt_unflushed ref_cached_tree) (pos_index q) = None"
    using root_positions_2 by (simp_all add: numeral_2_eq_2 in_tree_def ref_cached_tree_def im_get_def)
  from node_cache_is_transparent [OF mem_log.device_laws_axioms ref_cache.moka_laws_axioms ref_cached_known this,
      of cache_options_new "Some (to_node_cache ref_moka cache_options_new (mt_roots ref_cached_tree))" True]
  show ?thesis by auto
qed

text \<open>Truncation does not reach the cache: a node that the flush has cut off the store is still answered from
  the cache, where the tree without it fails.\<close>

lemma cache_outlives_truncation:
  assumes "mt_truncated t" "mt_flush L t = Ok (t', infos)" "mk_get mk index c = (Some n, c')" "im_get nodes index = Some None"
  shows "si_new_truncate Tree (if mt_truncate_to t = 0 then 0 else (mt_truncate_to t - 1) * 80 + 40) \<in> set infos"
    "required_node t' index nodes = Err InvalidOperation"
    "cached_required_node mk \<lparr>ct_tree = t', ct_node_cache = Some c\<rparr> index nodes = (Ok (Inr n), \<lparr>ct_tree = t', ct_node_cache = Some c'\<rparr>)"
  using assms
  by (auto simp: mt_flush_def flush_truncation_def flush_nodes_def bindR_eq_Ok required_node_def mt_node_def im_get_def
      cached_required_node_def cached_node_def)

end
