(* ===== verification/Spec2Isabelle.thy ===== *)
theory Spec2Isabelle
  imports Shared_Core Codec_Properties Bitfield_Properties Oplog_Properties Tree_Properties Limits Node_Cache
begin

text \<open>
  A verification development for the \<open>hypercore\<close> crate under \<^verbatim>\<open>src/src/\<close>: a signed append-only
  log of byte blocks, kept in four random access stores and replicated between peers.

  \<^bold>\<open>The program.\<close>  \<open>Hypercore\<close> (\<^verbatim>\<open>core.rs\<close>, made by the builder of \<^verbatim>\<open>builder.rs\<close>) owns a key pair, a
  Merkle tree over the blocks (\<^verbatim>\<open>tree/\<close>), a bitfield of the blocks it has (\<^verbatim>\<open>bitfield/\<close>), an
  operation log (\<^verbatim>\<open>oplog/\<close>) and the stores (\<^verbatim>\<open>storage/\<close>).  An append hashes the blocks into a
  changeset, signs its roots, writes the blocks, writes an entry to the operation log, and commits
  the changeset to memory; now and then \<open>flush_bitfield_and_tree_and_oplog\<close> writes bitfield, tree
  and a new header and empties the log.  \<open>Hypercore::new\<close> reads the last flushed state back and
  replays the entries.  Peers ask for blocks, hashes, seeks and upgrades; \<open>create_proof\<close> answers and
  \<open>verify_and_apply_proof\<close> checks and takes over (\<^verbatim>\<open>replication/\<close>).  \<open>SharedCore\<close> puts a core behind
  a lock for many tasks.

  \<^bold>\<open>Conventions\<close> (\<open>Prelude\<close>).  \<open>u8\<close>, \<open>u32\<close> and \<open>u64\<close> are words that wrap around; \<open>usize\<close> is \<open>nat\<close>.
  A fallible function gives a \<open>result\<close>: \<open>Ok\<close>, \<open>Err\<close>, \<open>Panic\<close> (index out of range, \<open>expect\<close>, \<open>unwrap\<close>)
  or \<open>Diverge\<close> (the fuel of a loop ran out).  An operation of the core is a function from the core
  to an outcome and a core, so that an error shows what had been changed by then.  Structs are
  records with prefixed fields, enums are datatypes, \<open>IntMap\<close> is a list of keys and values.

  \<^bold>\<open>Other crates\<close> are parameters: \<open>flat-tree\<close> (\<open>Flat_Tree\<close>), \<open>compact-encoding\<close> (\<open>Compact_Encoding\<close>),
  BLAKE2b, Ed25519 and CRC-32 (\<open>Crypto\<close>), \<open>random-access-storage\<close> (\<open>Storage\<close>) and \<open>moka\<close> (\<open>Node_Cache\<close>) are
  records of functions, and what the crate relies on are the locales \<open>flat_tree_laws\<close>, \<open>compact_laws\<close>,
  \<open>crypto_laws\<close>, \<open>random_access_laws\<close>, \<open>moka_laws\<close>; \<open>libs_laws\<close> and \<open>device_laws\<close> put them together.  Each is
  interpreted on a reference instance that computes (\<open>ref_libs\<close>, \<open>mem_access\<close>, \<open>ref_moka\<close>), on which the
  witnesses run.  Nothing is assumed of the hash function but the length of its output: where a
  property needs more, its statement has a collision (\<open>collide\<close>) or a forgery (\<open>forged\<close>) as the
  other case.

  \<^bold>\<open>Theories and what they model.\<close>
  \<^item> \<open>Common\<close>, \<open>Events\<close>: \<^verbatim>\<open>common/\<close>, \<^verbatim>\<open>replication/events.rs\<close>; nodes, requests, proofs, errors, events.
  \<^item> \<open>Crypto\<close>: \<^verbatim>\<open>crypto/\<close>; leaf, parent and root hashes, the signed message, signing, manifests.
  \<^item> \<open>Encoding\<close>, \<open>Oplog_Entry\<close>, \<open>Oplog_Header\<close>: \<^verbatim>\<open>encoding.rs\<close>, \<^verbatim>\<open>oplog/entry.rs\<close>, \<^verbatim>\<open>oplog/header.rs\<close>; every
    encoding is an instance of the locale \<open>codec\<close> (measure, write, read back).
  \<^item> \<open>Fixed_Bitfield\<close>, \<open>Dynamic_Bitfield\<close>: \<^verbatim>\<open>bitfield/\<close>, against sets of numbers; \<open>bit_page\<close> is what the
    pages promise, \<open>index_bitfield\<close> (\<open>Bitfield_Spec\<close>) what the core relies on; \<open>Bitfield_Storage\<close> has the
    file of pages.
  \<^item> \<open>Changeset\<close>, \<open>Merkle_Tree\<close>, \<open>Merkle_Proof\<close>: \<^verbatim>\<open>tree/\<close>; the reference is \<open>merkle_node\<close>, the tree defined
    by recursion over the whole list of blocks, and \<open>root_positions\<close>.  \<open>Merkle_Tree_Proofs\<close> and
    \<open>Tree_Storage\<close> relate the operations and the node file to it.
  \<^item> \<open>Oplog\<close>: \<^verbatim>\<open>oplog/mod.rs\<close>; \<open>Oplog_Storage\<close> has the image of the file and the state machine
    \<open>oplog_reach\<close> of all sequences of operations.
  \<^item> \<open>Storage\<close>: \<^verbatim>\<open>storage/mod.rs\<close> and \<^verbatim>\<open>data/mod.rs\<close>.
  \<^item> \<open>Core\<close>, \<open>Core_Open\<close>: \<^verbatim>\<open>core.rs\<close> and \<^verbatim>\<open>builder.rs\<close>, one definition per method.
  \<^item> \<open>Node_Cache\<close>: the feature \<open>cache\<close>; \<^verbatim>\<open>common/cache.rs\<close>, the cache options of \<^verbatim>\<open>builder.rs\<close>, and the
    functions of \<^verbatim>\<open>tree/merkle_tree.rs\<close> that consult and fill the cache.
  \<^item> \<open>Shared_Core\<close>: \<^verbatim>\<open>replication/shared_core.rs\<close>, \<^verbatim>\<open>replication/mod.rs\<close>; one definition per method.  The lock
    is another crate; it lets the calls run one after the other.

  \<^bold>\<open>What is proved.\<close>
  \<^item> \<open>Core_Invariant\<close> relates a core to the log \<open>bs\<close> it stands for and the set of blocks it has: memory
    (\<open>core_view\<close>), the contiguous length (\<open>hint_ok\<close>) and the stores (\<open>durable\<close>: a flushed state and the
    entries that lead from it to the present).  \<open>Core_Append\<close>, \<open>Core_Read\<close>, \<open>Core_Clear\<close>, \<open>Core_Reopen\<close>
    show what each operation does to it; giving up the secret key also leaves no trace of it in
    the log store (\<open>header_slots\<close>).  \<open>Core_Machine\<close> states the abstract append-only log with
    holes, and \<open>Core_Properties\<close> that the core refines it over every admissible sequence of commands.
  \<^item> \<open>Oplog_Properties\<close>: opening after any sequence of operations and after an interrupted flush.
  \<^item> \<open>Tree_Properties\<close>, \<open>Tree_Binding\<close>: appending equals the reference tree; the root hash binds the log;
    byte ranges.
  \<^item> \<open>Proof_Soundness\<close>, \<open>Proof_Creation\<close>, \<open>Upgrade_Verify\<close>, \<open>Upgrade_Extra\<close>, \<open>Upgrade_Create\<close>, \<open>Upgrade_Answer\<close>,
    \<open>Upgrade_Accept\<close>, \<open>Upgrade_Sound\<close> and \<open>Replication\<close>: what an author answers to requests for a block, an
    upgrade or both, that the peer accepts it and ends with the tree of the log; that the roots of an
    upgrade that a peer accepts are those of a log that the author signed; and that a block that it
    accepts, in a proof without seek and upgrade, is the block of the log at the index of the proof modulo
    \<open>2 ^ 63\<close>, since the check does not see the highest bit of the index (\<open>index_wraps\<close>).  \<open>Hash_Proof\<close> has the
    answer to a request for a node and that it is accepted.
  \<^item> \<open>Known_Nodes\<close>, \<open>Changeset_Offset\<close>, \<open>Missing_Nodes\<close> and \<open>Replica_Core\<close> state the invariant of a core that has
    its log by replication (\<open>replica_state\<close>: it knows the nodes at some positions, with every known
    node also its way to a root, and the places of the others on the store are blank) and show that
    blocks, nodes and upgrades of the author extend it, that the blocks it has can be read, and that
    it counts its missing nodes.  \<open>replica_durable\<close> says what the stores alone hold, a flushed state and the
    entries since, and \<open>Replica_Reopen\<close> shows that opening them gives the replica back: the nodes, the
    blocks and the contiguous length.  \<open>Replica_Machine\<close> puts an author and a replica together: the author's
    log and a copy of it are the specification, and the two cores refine it.
  \<^item> \<open>Node_Cache\<close>: whatever the store gives, nodes, zeros or nothing, the cache holds only nodes that the
    tree knows, and a tree with a cache answers as one without or with such a node; but the cache
    outlives a truncation.
  \<^item> \<open>Codec_Properties\<close>, \<open>Bitfield_Properties\<close>: round trips; searches, flush and opening of the bitfield.
  \<^item> \<open>Shared_Core\<close>: an author and a copy with many owners each; sessions that carry blocks and upgrades
    over in several calls succeed in every order of the calls, with counts and proofs that are old
    by the time they are used.
  \<^item> \<open>Limits\<close>, and parts of \<open>Bitfield_Properties\<close> and \<open>Oplog_Properties\<close>: where the code panics, loops or gives a
    wrong value.

  \<^bold>\<open>Bounds.\<close>  Lengths are below \<open>MAX_BLOCKS\<close>, so that tree indices fit in 64 bits; a file has at most
  \<open>MAX_FILE\<close> bytes; a batch has at most \<open>MAX_BATCH\<close> blocks, so that its entry fits a leader.  A reopened core
  has at most 8192 blocks, because of the defect of \<open>DynamicBitfield::open\<close> that \<open>open_one_page_has_phantom_bits\<close>
  shows.  Loops over tree depths take \<open>lib_fuel\<close> steps, which the laws ask to be at least 65, more than the 63
  levels of a tree over \<open>u64\<close> indices; the completeness lemmas show that it is never used up.  The
  loop over log entries has the length of the file as fuel; the contiguous length loop stops
  behind the last page (\<open>contiguous_loop_spec\<close>).  The reads of a count of missing nodes are one per level
  (\<open>count_rounds\<close>).

  \<^bold>\<open>Not modelled.\<close>  Tracing; the executor of the futures; the texts of errors and \<open>Display\<close>; the choice between
  memory and disk in \<open>Storage\<close>; what a device holds after a failed write.  Seeks are modelled, and
  whatever is accepted with a seek is shown to be signed, but that they are answered completely is not
  proved.  A replica is followed through upgrades, blocks and nodes that come in separate proofs; for
  a block and an upgrade in one proof only the check and the tree are, because applying it panics for
  some blocks (\<open>block_with_first_upgrade_panics\<close>).  Tests, benches and examples are left out.
\<close>

end
